(* ===== verification/Prelude.thy ===== *)
theory Prelude
  imports Main "HOL-Library.Word"
begin

text \<open>
  What every component of the development shares: the machine integer types of
  include/kernel.h, the ways in which a kernel routine can fail to return, the
  sequencing of such routines, the linear table scan that most of the kernel's
  tables are searched with, and byte-level memory with little-endian access.
\<close>

unbundle bit_operations_syntax

section \<open>Machine integers\<close>

type_synonym u8 = "8 word"
type_synonym u16 = "16 word"
type_synonym u32 = "32 word"
type_synonym u64 = "64 word"
type_synonym i32 = "32 word"          \<comment> \<open>read with \<open>sint\<close>\<close>

section \<open>Routines that may not return\<close>

text \<open>
  A kernel routine either returns, or it stops:
  \<open>Panic msg\<close> is a call of \<open>panic\<close> (the machine is shut down), \<open>Fault\<close> is an access
  through a null or out-of-range pointer, \<open>Spin\<close> is a busy wait on a lock that another
  CPU holds (nothing this CPU does ends it), \<open>Runaway\<close> is a loop that the code
  never leaves, and \<open>Exits\<close> is a process that leaves the kernel routine through \<open>exitproc\<close>,
  so that its caller never continues.
\<close>

datatype stop = Panic string | Fault | Spin | Runaway | Exits

type_synonym 'a res = "stop + 'a"

text \<open>Sequencing: the rest of the routine runs only if the first part returned.\<close>

primrec bnd :: "'a res \<Rightarrow> ('a \<Rightarrow> 'b res) \<Rightarrow> 'b res" where
  "bnd (Inl e) f = Inl e"
| "bnd (Inr x) f = f x"

named_theorems resE \<open>inversion of a routine that returned\<close>

lemma bnd_eq_Inr [resE]: "bnd m f = Inr y \<longleftrightarrow> (\<exists>x. m = Inr x \<and> f x = Inr y)"
  by (cases m) auto

lemma bnd_eq_Inl: "bnd m f = Inl e \<longleftrightarrow> m = Inl e \<or> (\<exists>x. m = Inr x \<and> f x = Inl e)"
  by (cases m) auto

lemma bnd_assoc: "bnd (bnd m f) g = bnd m (\<lambda>x. bnd (f x) g)"
  by (cases m) auto

lemma bnd_cong [fundef_cong]:
  "m = m' \<Longrightarrow> (\<And>x. m' = Inr x \<Longrightarrow> f x = f' x) \<Longrightarrow> bnd m f = bnd m' f'"
  by (cases m') auto

lemma if_res_eq_Inr [resE]:
  "(if b then Inl e else r) = Inr y \<longleftrightarrow> \<not> b \<and> r = Inr y"
  "(if b then r else Inl e) = Inr y \<longleftrightarrow> b \<and> r = Inr y"
  by auto

section \<open>Scanning a table\<close>

text \<open>
  \<open>for (i = 0; i < N; i++) if (P(t[i])) goto found;\<close> yields the first index that
  satisfies \<open>P\<close>.
\<close>

fun scan :: "('a \<Rightarrow> bool) \<Rightarrow> 'a list \<Rightarrow> nat option" where
  "scan P [] = None"
| "scan P (x # xs) = (if P x then Some 0 else map_option Suc (scan P xs))"

lemma scan_Some_iff:
  "scan P xs = Some i \<longleftrightarrow> i < length xs \<and> P (xs ! i) \<and> (\<forall>j<i. \<not> P (xs ! j))"
proof (induction xs arbitrary: i)
  case Nil
  then show ?case by simp
next
  case (Cons x xs)
  show ?case
  proof (cases i)
    case 0
    then show ?thesis by (auto split: option.splits)
  next
    case (Suc k)
    then show ?thesis
      by (auto simp: Cons.IH All_less_Suc2)
  qed
qed

lemma scan_None_iff: "scan P xs = None \<longleftrightarrow> (\<forall>x\<in>set xs. \<not> P x)"
  by (induction xs) auto

lemma scan_SomeD:
  assumes "scan P xs = Some i"
  shows "i < length xs" "P (xs ! i)" "\<And>j. j < i \<Longrightarrow> \<not> P (xs ! j)"
  using assms by (auto simp: scan_Some_iff)

lemma scan_ex: "\<exists>x\<in>set xs. P x \<Longrightarrow> \<exists>i. scan P xs = Some i"
  using scan_None_iff [of P xs] by (cases "scan P xs") auto

lemma scan_unique:
  "i < length xs \<Longrightarrow> P (xs ! i) \<Longrightarrow> (\<And>j. j < length xs \<Longrightarrow> P (xs ! j) \<Longrightarrow> j = i) \<Longrightarrow> scan P xs = Some i"
  unfolding scan_Some_iff by (metis less_irrefl less_trans)

lemma two_elems: "2 \<le> length xs \<Longrightarrow> \<exists>x y zs. xs = x # y # zs"
  by (cases xs rule: remdups_adj.cases) auto

section \<open>Little-endian values\<close>

text \<open>
  The CPU runs little-endian: a value of \<open>n\<close> bytes at address \<open>a\<close> has its least
  significant byte at \<open>a\<close>. \<open>get_le n f\<close> reads the value whose \<open>i\<close>-th byte is \<open>f i\<close>;
  \<open>byte_of w i\<close> is the \<open>i\<close>-th byte of \<open>w\<close>.
\<close>

primrec get_le :: "nat \<Rightarrow> (nat \<Rightarrow> u8) \<Rightarrow> 'a::len word" where
  "get_le 0 f = 0"
| "get_le (Suc n) f = ucast (f 0) OR push_bit 8 (get_le n (\<lambda>i. f (Suc i)))"

definition byte_of :: "'a::len word \<Rightarrow> nat \<Rightarrow> u8" where
  "byte_of w i = ucast (drop_bit (8 * i) w)"

lemma bit_get_le:
  "bit (get_le n f :: 'a::len word) k \<longleftrightarrow> k < LENGTH('a) \<and> k < 8 * n \<and> bit (f (k div 8)) (k mod 8)"
proof (induction n arbitrary: f k)
  case 0
  then show ?case by simp
next
  case (Suc n)
  show ?case
  proof (cases "k < 8")
    case True
    then show ?thesis
      by (auto simp: bit_simps)
  next
    case False
    then obtain j where k: "k = j + 8"
      by (metis add.commute le_Suc_ex not_less)
    have "\<not> bit (f 0) k" using False bit_imp_le_length [of "f 0" k] by auto
    moreover have "(j + 8) div 8 = Suc (j div 8)" by simp
    ultimately show ?thesis
      unfolding k by (auto simp: bit_simps Suc.IH simp del: div_add_self1 div_add_self2)
  qed
qed

lemma bit_byte_of: "bit (byte_of w i) j \<longleftrightarrow> j < 8 \<and> bit w (8 * i + j)"
  for w :: "'a::len word"
  using bit_imp_le_length [of w "8 * i + j"]
  by (auto simp: byte_of_def bit_simps)

lemma get_le_byte_of:
  "LENGTH('a) \<le> 8 * n \<Longrightarrow> (get_le n (byte_of w) :: 'a::len word) = w"
proof (rule bit_word_eqI)
  fix k assume "LENGTH('a) \<le> 8 * n" and k: "k < LENGTH('a)"
  moreover have "8 * (k div 8) + k mod 8 = k" by simp
  ultimately show "bit (get_le n (byte_of w) :: 'a word) k \<longleftrightarrow> bit w k"
    unfolding bit_get_le bit_byte_of by simp
qed

lemma get_le_cong:
  assumes "\<And>i. i < n \<Longrightarrow> f i = g i"
  shows "(get_le n f :: 'a::len word) = get_le n g"
proof (rule bit_word_eqI)
  fix k assume "k < LENGTH('a)"
  show "bit (get_le n f :: 'a word) k \<longleftrightarrow> bit (get_le n g :: 'a word) k"
    using assms [of "k div 8"] by (cases "k < 8 * n") (simp_all add: bit_get_le less_mult_imp_div_less mult.commute)
qed

lemma get_le_const_zero: "(get_le n (\<lambda>_. 0) :: 'a::len word) = 0"
  by (rule bit_word_eqI) (simp add: bit_get_le)

lemma get_le_zero: "(\<And>i. i < n \<Longrightarrow> f i = 0) \<Longrightarrow> (get_le n f :: 'a::len word) = 0"
  by (subst get_le_cong [where g = "\<lambda>_. 0"]) (simp_all add: get_le_const_zero)

lemma byte_of_zero [simp]: "byte_of 0 i = 0"
  by (simp add: byte_of_def)

end
