(* ===== verification/Spinlock_Smp.thy ===== *)
theory Spinlock_Smp
  imports Spinlock
begin

text \<open>
  The lock code of kernel/spinlock.c run by any number of CPUs, one access to the shared lock
  word at a time. \<open>acquire\<close> is three atomic steps (\<open>pushcli\<close> and the \<open>holding\<close> test, the
  exclusive store, the store of \<open>lk->cpuid\<close>) and \<open>release\<close> two (the test with the store of -1,
  the store-release of 0 with \<open>popcli\<close>). A CPU is named by its \<open>cpuid()\<close>, a natural number.
\<close>

datatype pc = Outside | Trying | Owning | Inside | Leaving | Dead

record smp =
  shared :: "lockid \<Rightarrow> spinlock"
  cpus :: "nat \<Rightarrow> mach"
  pcs :: "nat \<Rightarrow> pc"

text \<open>What CPU \<open>c\<close> sees: its own fields and the shared locks.\<close>

definition view :: "smp \<Rightarrow> nat \<Rightarrow> mach" where
  "view s c = (cpus s c)\<lparr>locks := shared s, cpuid := int c\<rparr>"

definition put :: "nat \<Rightarrow> mach \<Rightarrow> pc \<Rightarrow> smp \<Rightarrow> smp" where
  "put c m p s = s\<lparr>shared := locks m, cpus := (cpus s)(c := m), pcs := (pcs s)(c := p)\<rparr>"

definition store_lock :: "lockid \<Rightarrow> u8 \<Rightarrow> mach \<Rightarrow> mach" where
  "store_lock L b m = set_lock L ((locks m L)\<lparr>lk_lock := b\<rparr>) m"

definition store_cpuid :: "lockid \<Rightarrow> int \<Rightarrow> mach \<Rightarrow> mach" where
  "store_cpuid L k m = set_lock L ((locks m L)\<lparr>lk_cpuid := k\<rparr>) m"

inductive lock_step :: "lockid \<Rightarrow> smp \<Rightarrow> smp \<Rightarrow> bool" for L where
  enter: "pcs s c = Outside \<Longrightarrow> m = pushcli (view s c) \<Longrightarrow>
     lock_step L s (put c m (if holding L m then Dead else Trying) s)"
| grab: "pcs s c = Trying \<Longrightarrow> lk_lock (shared s L) = 0 \<Longrightarrow>
     lock_step L s (put c (store_lock L 1 (view s c)) Owning s)"
| own: "pcs s c = Owning \<Longrightarrow>
     lock_step L s (put c (store_cpuid L (int c) (view s c)) Inside s)"
| disown: "pcs s c = Inside \<Longrightarrow>
     lock_step L s
       (if holding L (view s c) then put c (store_cpuid L (-1) (view s c)) Leaving s
        else put c (view s c) Dead s)"
| unlock: "pcs s c = Leaving \<Longrightarrow> popcli (store_lock L 0 (view s c)) = Inr m \<Longrightarrow>
     lock_step L s (put c m Outside s)"

inductive_cases lock_stepE: "lock_step L s t"

text \<open>Boot: the lock has gone through \<open>lock_init\<close>, no CPU is in a section of any lock.\<close>

definition smp_init :: "lockid \<Rightarrow> smp \<Rightarrow> bool" where
  "smp_init L s \<longleftrightarrow>
     shared s L = \<lparr>lk_lock = 0, lk_cpuid = -1\<rparr> \<and>
     (\<forall>c. pcs s c = Outside \<and> cli_depth (cpus s c) = 0)"

inductive lock_reach :: "lockid \<Rightarrow> smp \<Rightarrow> bool" for L where
  init: "smp_init L s \<Longrightarrow> lock_reach L s"
| step: "lock_reach L s \<Longrightarrow> lock_step L s t \<Longrightarrow> lock_reach L t"

section \<open>The invariant\<close>

definition in_lock :: "pc \<Rightarrow> bool" where
  "in_lock p \<longleftrightarrow> p \<in> {Owning, Inside, Leaving}"

text \<open>
  \<open>h\<close> is the CPU that is between its exclusive store and its store-release, if any: the lock
  byte is set exactly while there is one, and the \<open>cpuid\<close> field names a CPU exactly while that
  CPU is inside its section.
\<close>

definition held_by :: "lockid \<Rightarrow> nat option \<Rightarrow> smp \<Rightarrow> bool" where
  "held_by L h s \<longleftrightarrow>
     (\<forall>c. pcs s c \<noteq> Dead) \<and>
     (\<forall>c. in_lock (pcs s c) \<longleftrightarrow> h = Some c) \<and>
     (lk_lock (shared s L) = 0 \<longleftrightarrow> h = None) \<and>
     (\<forall>c. lk_cpuid (shared s L) = int c \<longleftrightarrow> pcs s c = Inside) \<and>
     (\<forall>c. pcs s c \<noteq> Outside \<longrightarrow> cli_depth (cpus s c) \<noteq> 0)"

definition smp_inv :: "lockid \<Rightarrow> smp \<Rightarrow> bool" where
  "smp_inv L s \<longleftrightarrow> (\<exists>h. held_by L h s)"

lemma held_byD:
  assumes "held_by L h s"
  shows "pcs s c \<noteq> Dead" "in_lock (pcs s c) \<longleftrightarrow> h = Some c"
    "lk_lock (shared s L) = 0 \<longleftrightarrow> h = None"
    "lk_cpuid (shared s L) = int c \<longleftrightarrow> pcs s c = Inside"
    "pcs s c \<noteq> Outside \<Longrightarrow> cli_depth (cpus s c) \<noteq> 0"
  using assms by (auto simp: held_by_def)

lemma in_lock_simps [simp]:
  "in_lock Owning" "in_lock Inside" "in_lock Leaving"
  "\<not> in_lock Outside" "\<not> in_lock Trying" "\<not> in_lock Dead"
  by (simp_all add: in_lock_def)

lemma view_simps [simp]:
  "locks (view s c) = shared s" "cpuid (view s c) = int c"
  "cli_depth (view s c) = cli_depth (cpus s c)" "irq_on (view s c) = irq_on (cpus s c)"
  by (simp_all add: view_def)

lemma put_simps [simp]:
  "shared (put c m p s) = locks m" "pcs (put c m p s) = (pcs s)(c := p)"
  "cpus (put c m p s) = (cpus s)(c := m)"
  by (simp_all add: put_def)

lemma store_simps [simp]:
  "locks (store_lock L b m) = (locks m)(L := (locks m L)\<lparr>lk_lock := b\<rparr>)"
  "locks (store_cpuid L k m) = (locks m)(L := (locks m L)\<lparr>lk_cpuid := k\<rparr>)"
  "cli_depth (store_lock L b m) = cli_depth m" "cli_depth (store_cpuid L k m) = cli_depth m"
  "irq_on (store_lock L b m) = irq_on m" "irq_on (store_cpuid L k m) = irq_on m"
  by (simp_all add: store_lock_def store_cpuid_def)

lemma spinlock_overwrite [simp]:
  "k\<lparr>lk_lock := a, lk_cpuid := b\<rparr> = \<lparr>lk_lock = a, lk_cpuid = b\<rparr>"
  "k\<lparr>lk_cpuid := b, lk_lock := a\<rparr> = \<lparr>lk_lock = a, lk_cpuid = b\<rparr>"
  for k :: spinlock
  by (cases k; simp)+

lemma smp_inv_init: "smp_init L s \<Longrightarrow> smp_inv L s"
  unfolding smp_inv_def by (rule exI [of _ None]) (simp add: smp_init_def held_by_def)

lemma cli_depth_pushcli: "cli_depth (pushcli m) = cli_depth m + 1"
  by (simp add: pushcli_def Let_def)

lemma popcli_locks: "popcli m = Inr m' \<Longrightarrow> locks m' = locks m"
  by (auto simp: popcli_def Let_def split: if_splits)

lemma view_holding: "held_by L h s \<Longrightarrow> holding L (view s c) \<longleftrightarrow> pcs s c = Inside"
  using held_byD(2) [of L h s c] held_byD(3) [of L h s] held_byD(4) [of L h s c]
  by (auto simp: holding_def)

lemma holding_pushcli [simp]: "holding L (pushcli m) = holding L m"
  by (simp add: holding_def)

text \<open>
  One update of the state by CPU \<open>c\<close>: the other CPUs keep their position, so it is enough to
  look at \<open>c\<close> and at the shared lock.
\<close>

lemma held_by_put:
  assumes "held_by L h s" "p \<noteq> Dead"
    and "h' = (if in_lock p then Some c else if h = Some c then None else h)"
    and "h = None \<or> h = Some c \<or> \<not> in_lock p"
    and "lk_lock (locks m L) = 0 \<longleftrightarrow> h' = None"
    and "\<And>d. d \<noteq> c \<Longrightarrow> lk_cpuid (locks m L) = int d \<longleftrightarrow> pcs s d = Inside"
    and "lk_cpuid (locks m L) = int c \<longleftrightarrow> p = Inside"
    and "p \<noteq> Outside \<Longrightarrow> cli_depth m \<noteq> 0"
  shows "held_by L h' (put c m p s)"
  unfolding held_by_def
proof (intro conjI allI)
  fix d
  show "pcs (put c m p s) d \<noteq> Dead" using assms(2) held_byD(1) [OF assms(1)] by simp
  show "in_lock (pcs (put c m p s) d) \<longleftrightarrow> h' = Some d"
    using assms(3,4) held_byD(2) [OF assms(1), of d] by auto
  show "lk_cpuid (shared (put c m p s) L) = int d \<longleftrightarrow> pcs (put c m p s) d = Inside"
    using assms(6,7) by simp
  show "pcs (put c m p s) d \<noteq> Outside \<longrightarrow> cli_depth (cpus (put c m p s) d) \<noteq> 0"
    using assms(8) held_byD(5) [OF assms(1), of d] by simp
qed (use assms(5) in simp)

lemma only_holder_inside:
  "held_by L h s \<Longrightarrow> in_lock (pcs s c) \<Longrightarrow> d \<noteq> c \<Longrightarrow> pcs s d \<noteq> Inside"
  using held_byD(2) [of L h s c] held_byD(2) [of L h s d] by auto

lemma enter_inv:
  assumes "held_by L h s" "pcs s c = Outside" "m = pushcli (view s c)"
  shows "held_by L h (put c m (if holding L m then Dead else Trying) s)"
  using assms(2,3) view_holding [OF assms(1), of c] held_byD [OF assms(1)]
    held_byD(2) [OF assms(1), of c]
  by (intro held_by_put [OF assms(1)]) (auto simp: cli_depth_pushcli)

lemma grab_inv:
  assumes "held_by L h s" "pcs s c = Trying" "lk_lock (shared s L) = 0"
  shows "held_by L (Some c) (put c (store_lock L 1 (view s c)) Owning s)"
  using assms(2,3) held_byD [OF assms(1)]
  by (intro held_by_put [OF assms(1)]) auto

lemma own_inv:
  assumes "held_by L h s" "pcs s c = Owning"
  shows "held_by L (Some c) (put c (store_cpuid L (int c) (view s c)) Inside s)"
  using assms(2) held_byD [OF assms(1)] only_holder_inside [OF assms(1), of c]
  by (intro held_by_put [OF assms(1)]) (auto simp: in_lock_def)

lemma disown_inv:
  assumes "held_by L h s" "pcs s c = Inside"
  shows "held_by L (Some c) (put c (store_cpuid L (-1) (view s c)) Leaving s)"
  using assms(2) held_byD [OF assms(1)] only_holder_inside [OF assms(1), of c]
  by (intro held_by_put [OF assms(1)]) (auto simp: in_lock_def)

lemma unlock_inv:
  assumes "held_by L h s" "pcs s c = Leaving" "popcli (store_lock L 0 (view s c)) = Inr m"
  shows "held_by L None (put c m Outside s)"
  using assms(2) held_byD [OF assms(1)] only_holder_inside [OF assms(1), of c] popcli_locks [OF assms(3)]
  by (intro held_by_put [OF assms(1)]) (auto simp: in_lock_def)

lemma lock_step_inv:
  assumes "lock_step L s t" "smp_inv L s"
  shows "smp_inv L t"
proof -
  obtain h where h: "held_by L h s" using assms(2) by (auto simp: smp_inv_def)
  from assms(1) show ?thesis
  proof cases
    case (enter c m)
    with enter_inv [OF h] show ?thesis unfolding smp_inv_def by blast
  next
    case (grab c)
    with grab_inv [OF h] show ?thesis unfolding smp_inv_def by blast
  next
    case (own c)
    with own_inv [OF h] show ?thesis unfolding smp_inv_def by blast
  next
    case (disown c)
    with disown_inv [OF h] view_holding [OF h, of c] show ?thesis
      unfolding smp_inv_def by auto
  next
    case (unlock c m)
    with unlock_inv [OF h] show ?thesis unfolding smp_inv_def by blast
  qed
qed

lemma lock_reach_inv: "lock_reach L s \<Longrightarrow> smp_inv L s"
  by (induction rule: lock_reach.induct) (auto intro: smp_inv_init lock_step_inv)

text \<open>
  The interrupt mask is a second invariant: inside any section (\<open>cli_depth\<close> not 0) interrupts
  are off on that CPU.
\<close>

definition cli_inv :: "smp \<Rightarrow> bool" where
  "cli_inv s \<longleftrightarrow> (\<forall>c. cli_depth (cpus s c) \<noteq> 0 \<longrightarrow> \<not> irq_on (cpus s c))"

lemma pushcli_irq: "(cli_depth m \<noteq> 0 \<longrightarrow> \<not> irq_on m) \<Longrightarrow> \<not> irq_on (pushcli m)"
  by (auto simp: pushcli_def Let_def)

lemma popcli_irq:
  "popcli m = Inr m' \<Longrightarrow> (cli_depth m \<noteq> 0 \<longrightarrow> \<not> irq_on m) \<Longrightarrow> cli_depth m' \<noteq> 0 \<longrightarrow> \<not> irq_on m'"
  by (auto simp: popcli_def Let_def split: if_splits)

lemma cli_inv_put:
  "cli_inv s \<Longrightarrow> (cli_depth m \<noteq> 0 \<longrightarrow> \<not> irq_on m) \<Longrightarrow> cli_inv (put c m p s)"
  by (simp add: cli_inv_def)

lemma lock_step_cli_inv: "lock_step L s t \<Longrightarrow> cli_inv s \<Longrightarrow> cli_inv t"
  by (erule lock_stepE)
    (auto intro!: cli_inv_put simp: cli_inv_def pushcli_irq dest: popcli_irq)

lemma lock_reach_cli_inv: "lock_reach L s \<Longrightarrow> cli_inv s"
proof (induction rule: lock_reach.induct)
  case (init s)
  then show ?case by (simp add: smp_init_def cli_inv_def)
next
  case (step s t)
  then show ?case using lock_step_cli_inv by blast
qed

section \<open>What the lock promises\<close>

text \<open>
  C6. Mutual exclusion under every interleaving of the atomic steps of \<open>acquire\<close> and
  \<open>release\<close>: two CPUs are never inside the same lock's section at once.
\<close>

theorem mutual_exclusion:
  assumes "lock_reach L s" "pcs s c = Inside" "pcs s d = Inside"
  shows "c = d"
proof -
  obtain h where h: "held_by L h s"
    using lock_reach_inv [OF assms(1)] by (auto simp: smp_inv_def)
  show ?thesis
    using held_byD(2) [OF h, of c] held_byD(2) [OF h, of d] assms(2,3) by simp
qed

text \<open>
  \<open>holding\<close> is exact in spite of the races on the lock word: a CPU outside the section
  never sees itself as the holder, a CPU inside always does, so \<open>acquire\<close> panics exactly on a
  double acquire, \<open>release\<close> never panics inside a section, and no CPU panics in any reachable
  state.
\<close>

theorem holding_exact:
  assumes "lock_reach L s"
  shows "(holding L (view s c) \<longleftrightarrow> pcs s c = Inside) \<and> pcs s c \<noteq> Dead"
proof -
  obtain h where h: "held_by L h s"
    using lock_reach_inv [OF assms(1)] by (auto simp: smp_inv_def)
  show ?thesis using view_holding [OF h] held_byD(1) [OF h] by blast
qed

text \<open>
  A CPU that tries for a lock or holds it has its interrupts masked, so no interrupt
  handler can preempt it there and spin on the lock it holds.
\<close>

theorem lock_masks_irq:
  assumes "lock_reach L s" "pcs s c \<noteq> Outside"
  shows "\<not> irq_on (view s c)"
proof -
  obtain h where h: "held_by L h s"
    using lock_reach_inv [OF assms(1)] by (auto simp: smp_inv_def)
  show ?thesis
    using held_byD(5) [OF h assms(2)] lock_reach_cli_inv [OF assms(1)] by (simp add: cli_inv_def)
qed

text \<open>
  The function \<open>acquire\<close> that the other components use is what the atomic steps compute when
  no other CPU moves in between, and so is \<open>release\<close>.
\<close>

lemma acquire_steps:
  assumes "pcs s c = Outside" "acquire L (view s c) = Inr m"
  shows "\<exists>t. (lock_step L)\<^sup>*\<^sup>* s t \<and> pcs t c = Inside \<and> view t c = m"
proof -
  let ?m1 = "pushcli (view s c)"
  let ?t1 = "put c ?m1 Trying s"
  let ?t2 = "put c (store_lock L 1 (view ?t1 c)) Owning ?t1"
  let ?t3 = "put c (store_cpuid L (int c) (view ?t2 c)) Inside ?t2"
  have nh: "\<not> holding L ?m1" and z: "lk_lock (shared s L) = 0"
    and m: "m = set_lock L \<lparr>lk_lock = 1, lk_cpuid = int c\<rparr> ?m1"
    using assms(2) by (auto simp: acquire_def Let_def split: if_splits)
  have 1: "lock_step L s ?t1"
    using lock_step.enter [OF assms(1) refl, of L] nh by simp
  have 2: "lock_step L ?t1 ?t2"
    by (rule lock_step.grab) (simp_all add: z)
  have 3: "lock_step L ?t2 ?t3"
    by (rule lock_step.own) simp
  have "(lock_step L)\<^sup>*\<^sup>* s ?t3"
    using 1 2 3 by (meson rtranclp.rtrancl_into_rtrancl rtranclp.rtrancl_refl)
  moreover have "view ?t3 c = m"
    by (rule mach.equality)
      (simp_all add: m view_def store_lock_def store_cpuid_def set_lock_def pushcli_def Let_def put_def)
  ultimately show ?thesis by (intro exI [of _ ?t3]) simp
qed

lemma release_steps:
  assumes "pcs s c = Inside" "release L (view s c) = Inr m"
  shows "\<exists>t. (lock_step L)\<^sup>*\<^sup>* s t \<and> pcs t c = Outside \<and> view t c = m"
proof -
  let ?t1 = "put c (store_cpuid L (-1) (view s c)) Leaving s"
  have h: "holding L (view s c)" and p: "popcli (set_lock L \<lparr>lk_lock = 0, lk_cpuid = -1\<rparr> (view s c)) = Inr m"
    using assms(2) by (auto simp: release_def split: if_splits)
  have eq: "store_lock L 0 (view ?t1 c) = set_lock L \<lparr>lk_lock = 0, lk_cpuid = -1\<rparr> (view s c)"
    by (rule mach.equality)
      (simp_all add: view_def store_lock_def store_cpuid_def set_lock_def put_def)
  have 1: "lock_step L s ?t1"
    using lock_step.disown [OF assms(1), of L] h by simp
  have 2: "lock_step L ?t1 (put c m Outside ?t1)"
    by (rule lock_step.unlock) (simp_all add: eq p)
  have "cpuid m = int c"
    using p by (auto simp: popcli_def Let_def split: if_splits)
  then have "view (put c m Outside ?t1) c = m"
    by (simp add: view_def)
  moreover have "(lock_step L)\<^sup>*\<^sup>* s (put c m Outside ?t1)"
    using 1 2 by (meson rtranclp.rtrancl_into_rtrancl rtranclp.rtrancl_refl)
  ultimately show ?thesis by (intro exI [of _ "put c m Outside ?t1"]) simp
qed


section \<open>Witnesses\<close>

definition idle_cpu :: mach where
  "idle_cpu = \<lparr>cpuid = 0, irq_on = True, cli_depth = 0, intr_enabled = False,
     locks = (\<lambda>_. \<lparr>lk_lock = 0, lk_cpuid = -1\<rparr>)\<rparr>"

definition boot_smp :: smp where
  "boot_smp = \<lparr>shared = locks idle_cpu, cpus = (\<lambda>_. idle_cpu), pcs = (\<lambda>_. Outside)\<rparr>"

lemma boot_reach: "lock_reach L boot_smp"
  by (rule lock_reach.init) (simp add: smp_init_def boot_smp_def idle_cpu_def)

lemma reach_steps: "(lock_step L)\<^sup>*\<^sup>* s t \<Longrightarrow> lock_reach L s \<Longrightarrow> lock_reach L t"
  by (induction rule: rtranclp_induct) (auto intro: lock_reach.step)

lemma cpu1_gets_in: "\<exists>t. lock_reach KallocLk t \<and> pcs t 1 = Inside"
proof -
  have "lock_free KallocLk (view boot_smp 1)"
    by (simp add: lock_free_def boot_smp_def idle_cpu_def)
  then have "acquire KallocLk (view boot_smp 1) = Inr (locked KallocLk (view boot_smp 1))"
    by simp
  from acquire_steps [OF _ this] show ?thesis
    using reach_steps [OF _ boot_reach] by (auto simp: boot_smp_def)
qed

theorem mutual_exclusion_witness:
  "\<exists>t. lock_reach KallocLk t \<and> pcs t 1 = Inside \<and> pcs t 0 \<noteq> Inside"
  using cpu1_gets_in mutual_exclusion [of KallocLk _ 1 0] by fastforce

theorem holding_exact_witness:
  "\<exists>t. pcs t 1 = Inside \<and> holding KallocLk (view t 1) \<and> pcs t 0 \<noteq> Dead"
  using cpu1_gets_in holding_exact by metis

theorem lock_masks_irq_witness:
  "\<exists>t. pcs t 1 = Inside \<and> \<not> irq_on (view t 1)"
  using cpu1_gets_in lock_masks_irq [of KallocLk _ 1] by fastforce


end
