(* ===== verification/Kstring.thy ===== *)
theory Kstring
  imports Prelude
begin

text \<open>
  Byte memory and kernel/string.c. Memory is a total function from 64-bit addresses to bytes;
  the loops of string.c are recursions over the remaining count, or, where the C loop ends
  only at a NUL byte, a \<open>partial_function\<close> whose \<open>None\<close> is a loop that never ends.
  On AArch64 plain \<open>char\<close> is unsigned and the Makefile does not change that, so characters
  are bytes. The routines that return their destination pointer are modelled by the memory
  they leave.
\<close>

unbundle bit_operations_syntax

type_synonym mem = "u64 \<Rightarrow> u8"

section \<open>Little-endian access\<close>

definition ld64 :: "mem \<Rightarrow> u64 \<Rightarrow> u64" where
  "ld64 m a = get_le 8 (\<lambda>i. m (a + of_nat i))"

definition st64 :: "mem \<Rightarrow> u64 \<Rightarrow> u64 \<Rightarrow> mem" where
  "st64 m a w = (\<lambda>x. if unat (x - a) < 8 then byte_of w (unat (x - a)) else m x)"

lemma unat_of_nat_small: "n < 2 ^ 64 \<Longrightarrow> unat (of_nat n :: u64) = n"
  by (simp add: unat_of_nat take_bit_eq_mod)

lemma ld64_st64_same [simp]: "ld64 (st64 m a w) a = w"
proof -
  have "ld64 (st64 m a w) a = get_le 8 (byte_of w)"
    unfolding ld64_def by (rule get_le_cong) (simp add: st64_def unat_of_nat_small)
  then show ?thesis by (simp add: get_le_byte_of)
qed

text \<open>Two aligned doublewords are the same or disjoint.\<close>

definition aligned8 :: "u64 \<Rightarrow> bool" where
  "aligned8 a \<longleftrightarrow> unat a mod 8 = 0"

lemma aligned8_byte_nat:
  assumes "aligned8 a" "i < 8"
  shows "unat (a + of_nat i) = unat a + i"
proof -
  have "unat a < 2 ^ 64" using unsigned_less [of a] by simp
  moreover have "unat a mod 8 = 0" using assms by (simp add: aligned8_def)
  ultimately have "unat a + i < 18446744073709551616" using assms(2) by simp presburger
  moreover have "i < 2 ^ 64" using assms(2) by simp
  ultimately show ?thesis
    using unat_add_lem [of a "of_nat i"] by (simp add: unat_of_nat_small)
qed

lemma aligned8_disjoint:
  assumes "aligned8 a" "aligned8 b" "a \<noteq> b" "i < 8"
  shows "\<not> unat (b + of_nat i - a) < 8"
proof
  define j where "j = unat (b + of_nat i - a)"
  assume "unat (b + of_nat i - a) < 8"
  then have j: "j < 8" by (simp add: j_def)
  have "a + of_nat j = b + of_nat i"
    by (simp add: j_def)
  then have "unat a + j = unat b + i"
    using aligned8_byte_nat [OF assms(1) j] aligned8_byte_nat [OF assms(2,4)] by simp
  moreover have "unat a mod 8 = 0" "unat b mod 8 = 0"
    using assms by (auto simp: aligned8_def)
  ultimately have "unat a = unat b" using j assms(4) by presburger
  with assms(3) show False by (simp add: word_unat_eq_iff)
qed

lemma ld64_st64_other:
  "aligned8 a \<Longrightarrow> aligned8 b \<Longrightarrow> a \<noteq> b \<Longrightarrow> ld64 (st64 m a w) b = ld64 m b"
  unfolding ld64_def by (rule get_le_cong) (simp add: st64_def aligned8_disjoint)

lemma ld64_st64:
  "aligned8 a \<Longrightarrow> aligned8 b \<Longrightarrow> ld64 (st64 m a w) b = (if a = b then w else ld64 m b)"
  by (simp add: ld64_st64_other)

section \<open>memset and memmove\<close>

fun memset_loop :: "mem \<Rightarrow> u64 \<Rightarrow> u8 \<Rightarrow> nat \<Rightarrow> mem" where
  "memset_loop m d c 0 = m"
| "memset_loop m d c (Suc n) = memset_loop (m(d := c)) (d + 1) c n"

definition memset :: "mem \<Rightarrow> u64 \<Rightarrow> u32 \<Rightarrow> u64 \<Rightarrow> mem" where
  "memset m dst c n = memset_loop m dst (ucast c) (unat n)"

fun copy_up :: "mem \<Rightarrow> u64 \<Rightarrow> u64 \<Rightarrow> nat \<Rightarrow> mem" where
  "copy_up m d s 0 = m"
| "copy_up m d s (Suc n) = copy_up (m(d := m s)) (d + 1) (s + 1) n"

fun copy_down :: "mem \<Rightarrow> u64 \<Rightarrow> u64 \<Rightarrow> nat \<Rightarrow> mem" where
  "copy_down m d s 0 = m"
| "copy_down m d s (Suc n) = copy_down (m(d - 1 := m (s - 1))) (d - 1) (s - 1) n"

definition memmove :: "mem \<Rightarrow> u64 \<Rightarrow> u64 \<Rightarrow> u64 \<Rightarrow> mem" where
  "memmove m dst src n =
     (if dst < src then copy_up m dst src (unat n)
      else copy_down m (dst + n) (src + n) (unat n))"

definition memcpy :: "mem \<Rightarrow> u64 \<Rightarrow> u64 \<Rightarrow> u64 \<Rightarrow> mem" where
  "memcpy m dst src n = memmove m dst src n"

text \<open>What they compute, in one step: the abstract fill and the abstract (simultaneous) copy.\<close>

definition filled :: "mem \<Rightarrow> u64 \<Rightarrow> u8 \<Rightarrow> nat \<Rightarrow> mem" where
  "filled m d c n = (\<lambda>x. if unat (x - d) < n then c else m x)"

definition copied :: "mem \<Rightarrow> u64 \<Rightarrow> u64 \<Rightarrow> nat \<Rightarrow> mem" where
  "copied m d s n = (\<lambda>x. if unat (x - d) < n then m (s + (x - d)) else m x)"

lemma unat_diff_step: "x \<noteq> d \<Longrightarrow> unat (x - d) = Suc (unat (x - (d + 1)))" for x d :: u64
proof -
  assume "x \<noteq> d"
  then have nz: "x - d \<noteq> 0" by simp
  have "x - (d + 1) = (x - d) - 1" by simp
  then have "unat (x - (d + 1)) = unat (x - d) - 1"
    by (simp only: unat_minus_one [OF nz])
  moreover have "0 < unat (x - d)" using nz by (metis gr0I unat_0_iff)
  ultimately show ?thesis by simp
qed

lemma memset_loop_filled: "memset_loop m d c n = filled m d c n"
proof (induction n arbitrary: m d)
  case 0
  then show ?case by (simp add: filled_def)
next
  case (Suc n)
  show ?case
  proof
    fix x
    show "memset_loop m d c (Suc n) x = filled m d c (Suc n) x"
      by (cases "x = d") (simp_all add: Suc.IH filled_def unat_diff_step)
  qed
qed

lemma memset_filled: "memset m d c n = filled m d (ucast c) (unat n)"
  by (simp add: memset_def memset_loop_filled)

lemma copy_up_copied:
  "d < s \<Longrightarrow> unat s + n \<le> 2 ^ 64 \<Longrightarrow> copy_up m d s n = copied m d s n"
proof (induction n arbitrary: m d s)
  case 0
  then show ?case by (simp add: copied_def)
next
  case (Suc n)
  show ?case
  proof (cases "n = 0")
    case True
    then show ?thesis
      by (auto simp: copied_def fun_eq_iff unat_0_iff)
  next
    case False
    have s1: "unat (s + 1) = unat s + 1"
      using Suc.prems(2) False unat_add_lem [of s 1] by simp
    have d1: "unat (d + 1) = unat d + 1"
      using Suc.prems False unat_add_lem [of d 1] by (simp add: word_less_nat_alt)
    have "copy_up m d s (Suc n) = copied (m(d := m s)) (d + 1) (s + 1) n"
      using Suc.prems s1 d1 by (simp add: Suc.IH word_less_nat_alt del: fun_upd_apply)
    also have "\<dots> = copied m d s (Suc n)"
    proof
      fix x
      show "copied (m(d := m s)) (d + 1) (s + 1) n x = copied m d s (Suc n) x"
      proof (cases "x = d")
        case True
        have "unat (d - (d + 1)) = 2 ^ 64 - 1" by (simp add: unsigned_minus_1_eq_mask mask_eq_exp_minus_1)
        with Suc.prems(2) True show ?thesis by (simp add: copied_def)
      next
        case False
        note step = unat_diff_step [OF False]
        have "s + (x - d) \<noteq> d" if "unat (x - (d + 1)) < n"
        proof
          assume eq: "s + (x - d) = d"
          have "unat s + unat (x - d) < 2 ^ 64" using that step Suc.prems(2) by simp
          then have "unat (s + (x - d)) = unat s + unat (x - d)"
            using unat_add_lem [of s "x - d"] by simp
          with arg_cong [OF eq, of unat] Suc.prems(1) show False by (simp add: word_less_nat_alt)
        qed
        moreover have "s + 1 + (x - (d + 1)) = s + (x - d)" by simp
        ultimately show ?thesis using False by (simp add: copied_def step)
      qed
    qed
    finally show ?thesis .
  qed
qed

lemma copy_down_copied:
  "s \<le> d \<Longrightarrow> unat d + n \<le> 2 ^ 64 \<Longrightarrow>
   copy_down m (d + of_nat n) (s + of_nat n) n = copied m d s n"
proof (induction n arbitrary: m)
  case 0
  then show ?case by (simp add: copied_def)
next
  case (Suc n)
  let ?m = "m(d + of_nat n := m (s + of_nat n))"
  have n: "unat (of_nat n :: u64) = n"
    using Suc.prems(2) by (intro unat_of_nat_small) simp
  have "copy_down m (d + of_nat (Suc n)) (s + of_nat (Suc n)) (Suc n) = copied ?m d s n"
    using Suc by simp
  also have "\<dots> = copied m d s (Suc n)"
  proof
    fix x
    show "copied ?m d s n x = copied m d s (Suc n) x"
    proof (cases "unat (x - d) < n")
      case True
      have "s + (x - d) \<noteq> d + of_nat n"
      proof
        assume eq: "s + (x - d) = d + of_nat n"
        have "unat (d + of_nat n) = unat d + n"
          using Suc.prems(2) n unat_add_lem [of d "of_nat n"] by simp
        moreover have "unat (s + (x - d)) = unat s + unat (x - d)"
          using Suc.prems True unat_add_lem [of s "x - d"] by (simp add: word_le_nat_alt)
        ultimately show False using eq True Suc.prems(1) by (simp add: word_le_nat_alt)
      qed
      with True show ?thesis by (simp add: copied_def)
    next
      case False
      show ?thesis
      proof (cases "x = d + of_nat n")
        case True
        with False show ?thesis by (simp add: copied_def n)
      next
        case ne: False
        then have "unat (x - d) \<noteq> n"
          using n by (metis add.commute diff_add_cancel word_unat_eq_iff)
        with False ne show ?thesis by (simp add: copied_def)
      qed
    qed
  qed
  finally show ?case .
qed

theorem memmove_copied:
  assumes "unat dst + unat n \<le> 2 ^ 64" "unat src + unat n \<le> 2 ^ 64"
  shows "memmove m dst src n = copied m dst src (unat n)"
proof (cases "dst < src")
  case True
  with assms show ?thesis by (simp add: memmove_def copy_up_copied)
next
  case False
  then have "src \<le> dst" by simp
  with assms(1) copy_down_copied [of src dst "unat n" m] False show ?thesis
    by (simp add: memmove_def)
qed

section \<open>NUL-terminated strings\<close>

text \<open>
  \<open>cstr m a xs\<close>: the bytes \<open>xs\<close>, none of them NUL, stand at \<open>a\<close> and a NUL follows.
\<close>

fun cstr :: "mem \<Rightarrow> u64 \<Rightarrow> u8 list \<Rightarrow> bool" where
  "cstr m a [] \<longleftrightarrow> m a = 0"
| "cstr m a (x # xs) \<longleftrightarrow> m a = x \<and> x \<noteq> 0 \<and> cstr m (a + 1) xs"

partial_function (option) strlen_loop :: "mem \<Rightarrow> u64 \<Rightarrow> u64 \<Rightarrow> u64 option" where
  "strlen_loop m s i = (if m s = 0 then Some i else strlen_loop m (s + 1) (i + 1))"

definition strlen :: "mem \<Rightarrow> u64 \<Rightarrow> u64 option" where
  "strlen m s = strlen_loop m s 0"

partial_function (option) strcmp :: "mem \<Rightarrow> u64 \<Rightarrow> u64 \<Rightarrow> int option" where
  "strcmp m s1 s2 =
     (if m s1 \<noteq> 0 \<and> m s1 = m s2 then strcmp m (s1 + 1) (s2 + 1)
      else Some (uint (m s1) - uint (m s2)))"

partial_function (option) strncmp :: "mem \<Rightarrow> u64 \<Rightarrow> u64 \<Rightarrow> u64 \<Rightarrow> int option" where
  "strncmp m s1 s2 len =
     (if m s1 \<noteq> 0 \<and> m s1 = m s2 \<and> len > 0 then strncmp m (s1 + 1) (s2 + 1) (len - 1)
      else if len = 0 then Some 0
      else Some (uint (m s1) - uint (m s2)))"

partial_function (option) strcpy :: "mem \<Rightarrow> u64 \<Rightarrow> u64 \<Rightarrow> mem option" where
  "strcpy m dst src =
     (let m' = m(dst := m src)
      in if m src = 0 then Some m' else strcpy m' (dst + 1) (src + 1))"

lemma strlen_loop_cstr: "cstr m a xs \<Longrightarrow> strlen_loop m a i = Some (i + of_nat (length xs))"
proof (induction xs arbitrary: a i)
  case Nil
  then show ?case by (simp add: strlen_loop.simps)
next
  case (Cons x xs)
  then show ?case by (subst strlen_loop.simps) (auto simp: algebra_simps)
qed

text \<open>\<open>strlen\<close> returns on every terminated string, with its length.\<close>

lemma strlen_cstr: "cstr m a xs \<Longrightarrow> strlen m a = Some (of_nat (length xs))"
  by (simp add: strlen_def strlen_loop_cstr)

text \<open>The order \<open>strcmp\<close> decides: the difference of the first two bytes that differ.\<close>

fun str_diff :: "u8 list \<Rightarrow> u8 list \<Rightarrow> int" where
  "str_diff [] [] = 0"
| "str_diff [] (y # ys) = - uint y"
| "str_diff (x # xs) [] = uint x"
| "str_diff (x # xs) (y # ys) = (if x = y then str_diff xs ys else uint x - uint y)"

lemma strcmp_cstr:
  "cstr m a xs \<Longrightarrow> cstr m b ys \<Longrightarrow> strcmp m a b = Some (str_diff xs ys)"
proof (induction xs ys arbitrary: a b rule: str_diff.induct)
  case 1
  then show ?case by (subst strcmp.simps) simp
next
  case (2 y ys)
  then show ?case by (subst strcmp.simps) auto
next
  case (3 x xs)
  then show ?case by (subst strcmp.simps) auto
next
  case (4 x xs y ys)
  then show ?case by (subst strcmp.simps) auto
qed

lemma str_diff_eq_0:
  "0 \<notin> set xs \<Longrightarrow> 0 \<notin> set ys \<Longrightarrow> str_diff xs ys = 0 \<longleftrightarrow> xs = ys"
  by (induction xs ys rule: str_diff.induct) (auto simp: word_uint_eq_iff)

lemma cstr_no_nul: "cstr m a xs \<Longrightarrow> 0 \<notin> set xs"
  by (induction xs arbitrary: a) auto

text \<open>\<open>strncmp\<close> compares the first \<open>len\<close> bytes of the two strings.\<close>

lemma strncmp_cstr:
  "cstr m a xs \<Longrightarrow> cstr m b ys \<Longrightarrow>
   strncmp m a b len = Some (str_diff (take (unat len) xs) (take (unat len) ys))"
proof (induction xs ys arbitrary: a b len rule: str_diff.induct)
  case 1
  then show ?case by (subst strncmp.simps) simp
next
  case (2 y ys)
  then show ?case
    by (subst strncmp.simps) (cases "unat len", auto simp: unat_0_iff word_gt_0)
next
  case (3 x xs)
  then show ?case
    by (subst strncmp.simps) (cases "unat len", auto simp: unat_0_iff word_gt_0)
next
  case (4 x xs y ys)
  show ?case
  proof (cases "len = 0")
    case True
    then show ?thesis by (subst strncmp.simps) simp
  next
    case False
    then obtain k where "unat len = Suc k" "unat (len - 1) = k"
      using unat_minus_one [OF False] by (metis Suc_pred' gr0I unat_0_iff diff_Suc_1)
    with 4 False show ?thesis by (subst strncmp.simps) (auto simp: word_gt_0)
  qed
qed

end
