(* ===== verification/Kalloc.thy ===== *)
theory Kalloc
  imports Kstring Spinlock
begin

text \<open>
  kernel/kalloc.c: the physical page allocator. Free pages form a singly linked list through
  their own first eight bytes (\<open>struct header\<close>), so the list lives in the byte memory and
  \<open>kallocator.freelist\<close> is its head. Addresses are kernel virtual addresses.
\<close>

unbundle bit_operations_syntax

section \<open>State and operations\<close>

record kmem = mach +
  mem :: mem
  freelist :: u64        \<comment> \<open>\<open>kallocator.freelist\<close>, 0 is NULL\<close>

abbreviation PAGESIZE :: u64 where "PAGESIZE \<equiv> 4096"

definition kalloc :: "'a kmem_scheme \<Rightarrow> (u64 \<times> 'a kmem_scheme) res" where
  "kalloc s =
     bnd (acquire KallocLk s) (\<lambda>s.
       let new = freelist s in
       if new = 0 then Inr (0, s)                 \<comment> \<open>returns NULL; the lock stays held\<close>
       else
         bnd (release KallocLk (s\<lparr>freelist := ld64 (mem s) new\<rparr>)) (\<lambda>s.
           Inr (new, s\<lparr>mem := memset (mem s) new 0 PAGESIZE\<rparr>)))"

definition kfree :: "u64 \<Rightarrow> 'a kmem_scheme \<Rightarrow> 'a kmem_scheme res" where
  "kfree va s =
     (if va = 0 then Inr s
      else if va mod PAGESIZE \<noteq> 0 then Inl (Panic ''bad va'')
      else
        bnd (acquire KallocLk (s\<lparr>mem := memset (mem s) va 0 PAGESIZE\<rparr>)) (\<lambda>s.
          release KallocLk
            (s\<lparr>mem := st64 (mem s) va (freelist s), freelist := va\<rparr>)))"

partial_function (option) count_free :: "mem \<Rightarrow> u64 \<Rightarrow> int \<Rightarrow> int option" where
  "count_free m h c = (if h = 0 then Some c else count_free m (ld64 m h) (c + 1))"

definition freed_mem_kb :: "'a kmem_scheme \<Rightarrow> (int \<times> 'a kmem_scheme) res" where
  "freed_mem_kb s =
     bnd (acquire KallocLk s) (\<lambda>s.
       case count_free (mem s) (freelist s) 0 of
         None \<Rightarrow> Inl Runaway
       | Some c \<Rightarrow> bnd (release KallocLk s) (\<lambda>s. Inr (c * 4096 div 1024, s)))"

text \<open>\<open>kend\<close> is a symbol of the linker script, hence a parameter.\<close>

definition ksecend :: "u64 \<Rightarrow> u64" where
  "ksecend kend = (kend + 0x200000 - 1) AND NOT (0x200000 - 1)"

partial_function (option) free_range :: "u64 \<Rightarrow> u64 \<Rightarrow> 'a kmem_scheme \<Rightarrow> 'a kmem_scheme res option" where
  "free_range p e s =
     (if p + PAGESIZE \<le> e
      then (case kfree p s of Inl x \<Rightarrow> Some (Inl x) | Inr s \<Rightarrow> free_range (p + PAGESIZE) e s)
      else Some (Inr s))"

definition kalloc_init1 :: "u64 \<Rightarrow> 'a kmem_scheme \<Rightarrow> 'a kmem_scheme res option" where
  "kalloc_init1 kend s =
     free_range kend (ksecend kend) ((lock_init KallocLk s)\<lparr>freelist := 0\<rparr>)"

text \<open>\<open>PHYMEMEND\<close> of include/memmap.h: 256 MB above \<open>KERNBASE\<close>.\<close>

abbreviation VA_START :: u64 where "VA_START \<equiv> 0xffffff8000000000"
abbreviation KERNBASE :: u64 where "KERNBASE \<equiv> 0x40000000 + VA_START"
abbreviation PHYMEMEND :: u64 where "PHYMEMEND \<equiv> KERNBASE + 256 * 1024 * 1024"

definition kalloc_init2 :: "u64 \<Rightarrow> 'a kmem_scheme \<Rightarrow> 'a kmem_scheme res option" where
  "kalloc_init2 kend s = free_range (ksecend kend) PHYMEMEND s"

section \<open>Pages\<close>

definition page_aligned :: "u64 \<Rightarrow> bool" where
  "page_aligned p \<longleftrightarrow> unat p mod 4096 = 0"

definition in_page :: "u64 \<Rightarrow> u64 \<Rightarrow> bool" where
  "in_page p x \<longleftrightarrow> unat (x - p) < 4096"

lemma page_aligned_mod: "p mod PAGESIZE = 0 \<longleftrightarrow> page_aligned p"
  by (simp add: page_aligned_def word_unat_eq_iff unat_mod)

lemma u64_bound: "unat (a :: u64) < 18446744073709551616"
  using unsigned_less [of a] by simp

lemma div_4096_iff: "x div 4096 = k \<longleftrightarrow> 4096 * k \<le> x \<and> x < 4096 * k + 4096" for x k :: nat
  by (auto intro: div_nat_eqI)

lemma page_alignedE:
  assumes "page_aligned p"
  obtains k where "unat p = 4096 * k" "k < 4503599627370496"
proof -
  obtain k where k: "unat p = 4096 * k"
    using assms by (auto simp: page_aligned_def)
  with u64_bound [of p] show ?thesis by (intro that [of k]) simp_all
qed

lemma in_page_iff:
  assumes "page_aligned p"
  shows "in_page p x \<longleftrightarrow> unat x div 4096 = unat p div 4096"
proof -
  obtain k where k: "unat p = 4096 * k" "k < 4503599627370496"
    using assms by (rule page_alignedE)
  have x: "unat x < 18446744073709551616" by (rule u64_bound)
  have "unat (x - p) < 4096 \<longleftrightarrow> 4096 * k \<le> unat x \<and> unat x < 4096 * k + 4096"
  proof (cases "unat p \<le> unat x")
    case True
    then have "unat (x - p) = unat x - unat p"
      by (simp add: unat_sub_if')
    then show ?thesis using True k by linarith
  next
    case False
    then have "unat (x - p) = unat x + 18446744073709551616 - unat p"
      by (simp add: unat_sub_if')
    then show ?thesis using False k x by linarith
  qed
  then show ?thesis by (simp add: in_page_def k div_4096_iff)
qed

lemma in_page_disjoint:
  assumes "page_aligned p" "page_aligned q" "in_page p x" "in_page q x"
  shows "p = q"
proof -
  obtain j k where "unat p = 4096 * j" "unat q = 4096 * k"
    using assms(1,2) by (auto elim!: page_alignedE)
  with assms show ?thesis by (simp add: in_page_iff word_unat_eq_iff)
qed

lemma in_page_self [simp]: "in_page p p"
  by (simp add: in_page_def)

lemma page_aligned_8: "page_aligned p \<Longrightarrow> aligned8 p"
  by (auto elim!: page_alignedE simp: aligned8_def)

lemma dword_same_page: "x mod 8 = 0 \<Longrightarrow> i < 8 \<Longrightarrow> (x + i) div 4096 = x div 4096" for x :: nat
proof -
  assume "x mod 8 = 0" "i < 8"
  then obtain k where x: "x = 8 * k" by auto
  have "(8 * k + i) div 4096 = (8 * k + i) div 8 div 512" by (simp add: div_mult2_eq [symmetric])
  also have "(8 * k + i) div 8 = k" using \<open>i < 8\<close> by simp
  also have "k div 512 = 8 * k div 4096" by simp
  finally show ?thesis by (simp add: x)
qed

lemma in_page_dword:
  assumes "page_aligned p" "aligned8 a" "i < 8"
  shows "in_page p (a + of_nat i) \<longleftrightarrow> in_page p a"
proof -
  have "unat (a + of_nat i) = unat a + i" using assms aligned8_byte_nat by blast
  moreover have "unat a mod 8 = 0" using assms by (simp add: aligned8_def)
  ultimately show ?thesis
    using assms(1,3) by (simp add: in_page_iff dword_same_page)
qed

text \<open>Memory that agrees on a page gives the same doublewords there.\<close>

lemma ld64_page_cong:
  assumes "page_aligned p" "aligned8 a" "in_page p a" "\<And>x. in_page p x \<Longrightarrow> m x = m' x"
  shows "ld64 m a = ld64 m' a"
  unfolding ld64_def using assms by (intro get_le_cong) (simp add: in_page_dword)

lemma ld64_cong_out:
  assumes "page_aligned p" "aligned8 a" "\<not> in_page p a" "\<And>x. \<not> in_page p x \<Longrightarrow> m x = m' x"
  shows "ld64 m a = ld64 m' a"
  unfolding ld64_def using assms by (intro get_le_cong) (simp add: in_page_dword)

abbreviation zero_page :: "mem \<Rightarrow> u64 \<Rightarrow> mem" where
  "zero_page m p \<equiv> filled m p 0 4096"

lemma zero_page_apply: "zero_page m p x = (if in_page p x then 0 else m x)"
  by (simp add: filled_def in_page_def)

lemma ld64_zero_page:
  assumes "page_aligned p" "aligned8 a"
  shows "ld64 (zero_page m p) a = (if in_page p a then 0 else ld64 m a)"
proof (cases "in_page p a")
  case True
  with assms show ?thesis
    unfolding ld64_def by (auto intro!: get_le_zero simp: zero_page_apply in_page_dword)
next
  case False
  then show ?thesis
    using ld64_cong_out [OF assms(1,2) False, of "zero_page m p" m] by (simp add: zero_page_apply)
qed

lemma st64_out_page:
  assumes "page_aligned p" "aligned8 a" "in_page p a" "\<not> in_page p x"
  shows "st64 m a w x = m x"
proof -
  have "\<not> unat (x - a) < 8"
  proof
    assume lt: "unat (x - a) < 8"
    have "x = a + of_nat (unat (x - a))" by simp
    then have "in_page p x \<longleftrightarrow> in_page p a"
      using in_page_dword [OF assms(1,2) lt] by simp
    with assms show False by simp
  qed
  then show ?thesis by (simp add: st64_def)
qed

section \<open>The free list\<close>

text \<open>The pages on the list that starts at \<open>p\<close>.\<close>

fun flist :: "mem \<Rightarrow> u64 \<Rightarrow> u64 list \<Rightarrow> bool" where
  "flist m p [] \<longleftrightarrow> p = 0"
| "flist m p (q # qs) \<longleftrightarrow> p = q \<and> q \<noteq> 0 \<and> page_aligned q \<and> flist m (ld64 m q) qs"

lemma flist_pages: "flist m p ps \<Longrightarrow> q \<in> set ps \<Longrightarrow> q \<noteq> 0 \<and> page_aligned q"
  by (induction ps arbitrary: p) auto

lemma flist_cong:
  "flist m p ps \<Longrightarrow> (\<And>q. q \<in> set ps \<Longrightarrow> ld64 m' q = ld64 m q) \<Longrightarrow> flist m' p ps"
  by (induction ps arbitrary: p) auto

lemma flist_null [simp]: "flist m 0 ps \<longleftrightarrow> ps = []"
  by (cases ps) auto

lemma flist_agree:
  assumes "flist m p ps" "\<And>q x. q \<in> set ps \<Longrightarrow> in_page q x \<Longrightarrow> m' x = m x"
  shows "flist m' p ps"
proof (rule flist_cong [OF assms(1)])
  fix q assume q: "q \<in> set ps"
  then have "page_aligned q" using flist_pages [OF assms(1)] by blast
  then show "ld64 m' q = ld64 m q"
    using q assms(2) by (intro ld64_page_cong [of q]) (auto intro: page_aligned_8)
qed

text \<open>
  The allocator at rest with exactly the pages \<open>ps\<close> free, in the order in which they will be
  handed out: the list is acyclic and the lock is free.
\<close>

definition free_pages :: "'a kmem_scheme \<Rightarrow> u64 list \<Rightarrow> bool" where
  "free_pages s ps \<longleftrightarrow> flist (mem s) (freelist s) ps \<and> distinct ps \<and> lock_free KallocLk s"

lemma free_pages_ok:
  "free_pages s ps \<Longrightarrow> distinct ps \<and> (\<forall>p\<in>set ps. p \<noteq> 0 \<and> page_aligned p)"
  using flist_pages unfolding free_pages_def by blast

lemma cli_mark_kmem [simp]:
  "mem (cli_mark s) = mem s" "freelist (cli_mark s) = freelist s"
  "mach.more (cli_mark s) = mach.more s"
  by (simp_all add: cli_mark_def)

lemma locked_kmem [simp]:
  "mem (locked L s) = mem s" "freelist (locked L s) = freelist s"
  by (simp_all add: locked_def set_lock_def pushcli_def Let_def)

lemma lock_free_kmem [simp]:
  "lock_free L (s\<lparr>mem := m\<rparr>) = lock_free L s" "lock_free L (s\<lparr>freelist := q\<rparr>) = lock_free L s"
  by (simp_all add: lock_free_def)

lemma locked_upd:
  "(locked L s)\<lparr>freelist := q\<rparr> = locked L (s\<lparr>freelist := q\<rparr>)"
  "(locked L s)\<lparr>mem := m\<rparr> = locked L (s\<lparr>mem := m\<rparr>)"
  by (simp_all add: locked_def set_lock_def pushcli_def Let_def)

lemma locked_upd2:
  "(locked L s)\<lparr>mem := m, freelist := q\<rparr> = locked L (s\<lparr>mem := m, freelist := q\<rparr>)"
  by (simp add: locked_def set_lock_def pushcli_def Let_def)

lemma cli_mark_upd:
  "cli_mark (s\<lparr>freelist := q\<rparr>) = (cli_mark s)\<lparr>freelist := q\<rparr>"
  "cli_mark (s\<lparr>mem := m\<rparr>) = (cli_mark s)\<lparr>mem := m\<rparr>"
  by (simp_all add: cli_mark_def)

lemma memset_page: "memset m p 0 PAGESIZE = zero_page m p"
  by (simp add: memset_filled)

text \<open>What \<open>kalloc\<close> and \<open>kfree\<close> compute, branch by branch.\<close>

lemma kalloc_pop:
  assumes "lock_free KallocLk s" "freelist s \<noteq> 0"
  shows "kalloc s = Inr (freelist s,
           (cli_mark s)\<lparr>freelist := ld64 (mem s) (freelist s),
                         mem := zero_page (mem s) (freelist s)\<rparr>)"
  using assms by (simp add: kalloc_def Let_def locked_upd release_locked cli_mark_upd memset_page)

lemma kalloc_empty:
  "lock_free KallocLk s \<Longrightarrow> freelist s = 0 \<Longrightarrow> kalloc s = Inr (0, locked KallocLk s)"
  by (simp add: kalloc_def)

lemma kfree_push:
  assumes "lock_free KallocLk s" "va \<noteq> 0" "page_aligned va"
  shows "kfree va s = Inr
           ((cli_mark s)\<lparr>mem := st64 (zero_page (mem s) va) va (freelist s), freelist := va\<rparr>)"
  using assms
  by (simp add: kfree_def page_aligned_mod locked_upd2 release_locked memset_page cli_mark_upd
      del: locked_upd)

lemma kfree_null [simp]: "kfree 0 s = Inr s"
  by (simp add: kfree_def)

lemma kfree_misaligned: "\<not> page_aligned va \<Longrightarrow> kfree va s = Inl (Panic ''bad va'')"
  by (auto simp: kfree_def page_aligned_mod page_aligned_def)

section \<open>The allocator's contract\<close>

text \<open>
  What the clients of the allocator rely on, over an abstraction \<open>pool\<close> to the list of free
  pages and \<open>bytes\<close> to the memory: allocation takes the next free page and zeroes it and only
  it, freeing puts a page back and changes no other page, and clients may write any page that
  is not free.
\<close>

locale page_pool =
  fixes alloc :: "'s \<Rightarrow> (u64 \<times> 's) res" and free :: "u64 \<Rightarrow> 's \<Rightarrow> 's res"
    and pool :: "'s \<Rightarrow> u64 list \<Rightarrow> bool" and bytes :: "'s \<Rightarrow> mem" and setmem :: "mem \<Rightarrow> 's \<Rightarrow> 's"
  assumes pool_ok: "pool s ps \<Longrightarrow> distinct ps \<and> (\<forall>p\<in>set ps. p \<noteq> 0 \<and> page_aligned p)"
    and alloc_next: "pool s (p # ps) \<Longrightarrow>
          \<exists>t. alloc s = Inr (p, t) \<and> pool t ps \<and> bytes t = zero_page (bytes s) p"
    and free_back: "pool s ps \<Longrightarrow> page_aligned p \<Longrightarrow> p \<noteq> 0 \<Longrightarrow> p \<notin> set ps \<Longrightarrow>
          \<exists>t. free p s = Inr t \<and> pool t (p # ps) \<and> (\<forall>x. \<not> in_page p x \<longrightarrow> bytes t x = bytes s x)"
    and pool_write: "pool s ps \<Longrightarrow> (\<And>q x. q \<in> set ps \<Longrightarrow> in_page q x \<Longrightarrow> m x = bytes s x) \<Longrightarrow>
          pool (setmem m s) ps"
    and bytes_setmem: "bytes (setmem m s) = m"
begin

text \<open>A page just handed out belongs to its client alone: it is not among the free ones.\<close>

lemma alloc_fresh:
  assumes "pool s (p # ps)"
  shows "p \<notin> set ps \<and> p \<noteq> 0 \<and> page_aligned p"
  using pool_ok [OF assms] by auto

text \<open>Allocating and freeing again restores the pool, whatever the client wrote to the page.\<close>

lemma alloc_write_free:
  assumes "pool s (p # ps)" "\<And>x. \<not> in_page p x \<Longrightarrow> m x = bytes s x"
  shows "\<exists>t u. alloc s = Inr (p, t) \<and> free p (setmem m t) = Inr u \<and> pool u (p # ps) \<and>
           (\<forall>x. \<not> in_page p x \<longrightarrow> bytes u x = bytes s x)"
proof -
  note fresh = alloc_fresh [OF assms(1)]
  obtain t where t: "alloc s = Inr (p, t)" "pool t ps" "bytes t = zero_page (bytes s) p"
    using alloc_next [OF assms(1)] by blast
  have out: "\<not> in_page p x" if "q \<in> set ps" "in_page q x" for q x
    using that in_page_disjoint [of p q x] fresh pool_ok [OF t(2)] by auto
  have "pool (setmem m t) ps"
    by (rule pool_write [OF t(2)]) (use out assms(2) in \<open>auto simp: t(3) zero_page_apply\<close>)
  with fresh obtain u where "free p (setmem m t) = Inr u" "pool u (p # ps)"
    "\<forall>x. \<not> in_page p x \<longrightarrow> bytes u x = m x"
    using free_back [of "setmem m t" ps p] by (auto simp: bytes_setmem)
  with t assms(2) show ?thesis by auto
qed

end

interpretation kpages: page_pool kalloc kfree free_pages mem "\<lambda>m. mem_update (\<lambda>_. m)"
proof
  fix s :: "'a kmem_scheme" and p ps m
  show "free_pages s ps \<Longrightarrow> distinct ps \<and> (\<forall>p\<in>set ps. p \<noteq> 0 \<and> page_aligned p)"
    by (rule free_pages_ok)
  show "\<exists>t. kalloc s = Inr (p, t) \<and> free_pages t ps \<and> mem t = zero_page (mem s) p"
    if f: "free_pages s (p # ps)"
  proof -
    have p: "page_aligned p" "p \<notin> set ps" "\<And>q. q \<in> set ps \<Longrightarrow> page_aligned q"
      using free_pages_ok [OF f] by auto
    have out: "\<not> in_page p x" if "q \<in> set ps" "in_page q x" for q x
      using that p in_page_disjoint by blast
    have "flist (mem s) (ld64 (mem s) p) ps" using f by (simp add: free_pages_def)
    then have "flist (zero_page (mem s) p) (ld64 (mem s) p) ps"
      by (rule flist_agree) (simp add: zero_page_apply out)
    moreover have "freelist s = p" "p \<noteq> 0" "lock_free KallocLk s" "distinct ps"
      using f by (simp_all add: free_pages_def)
    ultimately show ?thesis by (simp add: kalloc_pop free_pages_def)
  qed
  show "\<exists>t. kfree p s = Inr t \<and> free_pages t (p # ps) \<and> (\<forall>x. \<not> in_page p x \<longrightarrow> mem t x = mem s x)"
    if f: "free_pages s ps" and p: "page_aligned p" "p \<noteq> 0" "p \<notin> set ps"
  proof -
    let ?m = "st64 (zero_page (mem s) p) p (freelist s)"
    have m: "?m x = mem s x" if "\<not> in_page p x" for x
      using that st64_out_page [of p p x] p(1) by (simp add: page_aligned_8 zero_page_apply)
    have out: "\<not> in_page p x" if "q \<in> set ps" "in_page q x" for q x
      using that p free_pages_ok [OF f] in_page_disjoint by blast
    have "flist (mem s) (freelist s) ps" using f by (simp add: free_pages_def)
    then have "flist ?m (freelist s) ps"
      by (rule flist_agree) (simp add: m out)
    moreover have "lock_free KallocLk s" "distinct ps"
      using f by (simp_all add: free_pages_def)
    ultimately show ?thesis using p m by (simp add: kfree_push free_pages_def)
  qed
  show "free_pages s ps \<Longrightarrow> (\<And>q x. q \<in> set ps \<Longrightarrow> in_page q x \<Longrightarrow> m x = mem s x) \<Longrightarrow>
      free_pages (s\<lparr>mem := m\<rparr>) ps"
    by (auto simp: free_pages_def intro: flist_agree)
qed simp

text \<open>
  The steps in the form the clients of the allocator use: everything but memory and the pool
  is as before, up to the saved interrupt state.
\<close>

definition kmem_frame :: "'a kmem_scheme \<Rightarrow> 'a kmem_scheme \<Rightarrow> bool" where
  "kmem_frame s t \<longleftrightarrow> kmem.more t = kmem.more s \<and> locks t = locks s \<and> irq_on t = irq_on s \<and>
     cpuid t = cpuid s \<and> cli_depth t = cli_depth s"

lemma kmem_frame_refl [simp]: "kmem_frame s s"
  by (simp add: kmem_frame_def)

lemma kmem_frame_trans: "kmem_frame s t \<Longrightarrow> kmem_frame t u \<Longrightarrow> kmem_frame s u"
  by (simp add: kmem_frame_def)

lemma kmem_frame_mem [simp]:
  "kmem_frame s (t\<lparr>mem := m\<rparr>) = kmem_frame s t" "kmem_frame (s\<lparr>mem := m\<rparr>) t = kmem_frame s t"
  by (simp_all add: kmem_frame_def)

lemma kalloc_step:
  assumes "free_pages s (p # ps)"
  shows "\<exists>t. kalloc s = Inr (p, t) \<and> free_pages t ps \<and> mem t = zero_page (mem s) p \<and> kmem_frame s t"
proof -
  obtain t where t: "kalloc s = Inr (p, t)" "free_pages t ps" "mem t = zero_page (mem s) p"
    using kpages.alloc_next [OF assms] by blast
  have "lock_free KallocLk s" "freelist s \<noteq> 0"
    using assms by (auto simp: free_pages_def)
  from kalloc_pop [OF this] t(1) have "kmem_frame s t"
    by (auto simp: kmem_frame_def cli_mark_def)
  with t show ?thesis by blast
qed

lemma kfree_step:
  assumes "free_pages s ps" "page_aligned p" "p \<noteq> 0" "p \<notin> set ps"
  shows "\<exists>t. kfree p s = Inr t \<and> free_pages t (p # ps) \<and>
           (\<forall>x. \<not> in_page p x \<longrightarrow> mem t x = mem s x) \<and> kmem_frame s t"
proof -
  obtain t where t: "kfree p s = Inr t" "free_pages t (p # ps)"
      "\<forall>x. \<not> in_page p x \<longrightarrow> mem t x = mem s x"
    using kpages.free_back [OF assms] by blast
  have "lock_free KallocLk s" using assms(1) by (simp add: free_pages_def)
  from kfree_push [OF this assms(3,2)] t(1) have "kmem_frame s t"
    by (auto simp: kmem_frame_def cli_mark_def)
  with t show ?thesis by blast
qed

section \<open>Boot: filling the pool\<close>

text \<open>The pages \<open>p, p + PAGESIZE, \<dots>\<close> below \<open>p + n * PAGESIZE\<close>.\<close>

definition pages_from :: "u64 \<Rightarrow> nat \<Rightarrow> u64 list" where
  "pages_from p n = map (\<lambda>i. p + of_nat i * PAGESIZE) [0..<n]"

lemma pages_from_Suc: "pages_from p (Suc n) = p # pages_from (p + PAGESIZE) n"
proof -
  have "map (\<lambda>i. p + of_nat i * PAGESIZE) [0..<Suc n]
      = p # map (\<lambda>i. p + of_nat (Suc i) * PAGESIZE) [0..<n]"
    by (simp add: upt_conv_Cons map_Suc_upt [symmetric] del: upt_Suc)
  then show ?thesis by (simp add: pages_from_def algebra_simps)
qed

lemma pages_from_unat:
  assumes "unat p + 4096 * n \<le> 2 ^ 64" "i < n"
  shows "unat (p + of_nat i * PAGESIZE) = unat p + 4096 * i"
proof -
  have i: "unat (of_nat i * PAGESIZE) = 4096 * i"
    using assms by (simp add: unat_word_ariths unat_of_nat_small)
  have "unat p + 4096 * i < 2 ^ 64" using assms by simp
  with i show ?thesis using unat_add_lem [of p "of_nat i * PAGESIZE"] by simp
qed

text \<open>
  From an aligned \<open>p\<close> the loop frees \<open>n\<close> pages, where \<open>n\<close> is the number of whole pages before
  \<open>e\<close>; it always ends.
\<close>

lemma free_range_pool:
  assumes "free_pages s ps" "page_aligned p" "p \<noteq> 0" "unat e < 2 ^ 64 - 4096"
    and "unat p \<le> unat e" "n = (unat e - unat p) div 4096"
    and "\<And>i. i < n \<Longrightarrow> p + of_nat i * PAGESIZE \<notin> set ps"
  shows "\<exists>t. free_range p e s = Some (Inr t) \<and> free_pages t (rev (pages_from p n) @ ps) \<and>
           (\<forall>x. (\<forall>q\<in>set (pages_from p n). \<not> in_page q x) \<longrightarrow> mem t x = mem s x) \<and> kmem_frame s t"
  using assms
proof (induction n arbitrary: p s ps)
  case 0
  have "unat (p + PAGESIZE) = unat p + 4096"
    using unat_add_lem [of p PAGESIZE] 0 by simp
  then have "\<not> p + PAGESIZE \<le> e" using 0 by (simp add: word_le_nat_alt div_eq_0_iff)
  with 0 show ?case by (simp add: free_range.simps pages_from_def)
next
  case (Suc n)
  obtain t where t: "kfree p s = Inr t" "free_pages t (p # ps)"
      "\<forall>x. \<not> in_page p x \<longrightarrow> mem t x = mem s x" "kmem_frame s t"
    using kfree_step [OF Suc.prems(1,2,3)] Suc.prems(7) [of 0] by auto
  have le: "unat p + 4096 \<le> unat e"
  proof (rule ccontr)
    assume "\<not> unat p + 4096 \<le> unat e"
    then have "(unat e - unat p) div 4096 = 0" by simp
    with Suc.prems(6) show False by simp
  qed
  have u: "unat (p + PAGESIZE) = unat p + 4096"
    using unat_add_lem [of p PAGESIZE] le Suc.prems(4) by simp
  have n: "n = (unat e - unat (p + PAGESIZE)) div 4096"
  proof -
    have "unat e - unat p = (unat e - unat (p + PAGESIZE)) + 4096" using le u by simp
    with Suc.prems(6) show ?thesis by simp
  qed
  have "4096 * Suc n \<le> unat e - unat p"
    unfolding Suc.prems(6) by (rule times_div_less_eq_dividend)
  then have room: "unat p + 4096 * Suc n \<le> 2 ^ 64"
    using Suc.prems(4,5) by simp
  have "p + PAGESIZE + of_nat i * PAGESIZE \<notin> set (p # ps)" if "i < n" for i
  proof -
    define q where "q = p + of_nat (Suc i) * PAGESIZE"
    have eq: "p + PAGESIZE + of_nat i * PAGESIZE = q"
      by (simp add: q_def algebra_simps)
    have "unat q = unat p + 4096 * Suc i"
      unfolding q_def using that room by (intro pages_from_unat [of p "Suc n"]) simp_all
    then have "q \<noteq> p" by auto
    moreover have "q \<notin> set ps"
      unfolding q_def using that by (intro Suc.prems(7)) simp
    ultimately show ?thesis unfolding eq by simp
  qed
  moreover have "page_aligned (p + PAGESIZE)" "p + PAGESIZE \<noteq> 0"
    using Suc.prems(2) u by (auto simp: page_aligned_def word_unat_eq_iff)
  ultimately obtain v where
    "free_range (p + PAGESIZE) e t = Some (Inr v)"
    "free_pages v (rev (pages_from (p + PAGESIZE) n) @ p # ps)"
    "\<forall>x. (\<forall>q\<in>set (pages_from (p + PAGESIZE) n). \<not> in_page q x) \<longrightarrow> mem v x = mem t x" "kmem_frame t v"
    using Suc.IH [OF t(2) _ _ Suc.prems(4) _ n] le u by auto
  moreover have "p + PAGESIZE \<le> e" using le u by (simp add: word_le_nat_alt)
  ultimately show ?case
    using t kmem_frame_trans [OF t(4)] by (subst free_range.simps) (auto simp: pages_from_Suc)
qed

text \<open>Rounding up to a section of 2 MB.\<close>

lemma and_not_mask: "x AND NOT (mask n) = push_bit n (drop_bit n x)" for x :: "'a::len word"
  by (rule bit_word_eqI) (auto simp: bit_simps)

lemma unat_and_not_mask:
  "unat (x AND NOT (mask n)) = unat x div 2 ^ n * 2 ^ n" for x :: u64
proof -
  have "unat x div 2 ^ n * 2 ^ n \<le> unat x" by simp
  also have "unat x < 2 ^ 64" using u64_bound [of x] by simp
  finally have "unat x div 2 ^ n * 2 ^ n < 2 ^ 64" .
  moreover have "unat (push_bit n (drop_bit n x)) = take_bit 64 (push_bit n (drop_bit n (unat x)))"
    by (simp only: unsigned_push_bit_eq unat_drop_bit_eq) simp
  moreover have "push_bit n (drop_bit n (unat x)) = unat x div 2 ^ n * 2 ^ n"
    by (simp only: push_bit_eq_mult drop_bit_eq_div)
  ultimately show ?thesis
    by (simp only: and_not_mask take_bit_eq_mod mod_less)
qed

lemma unat_ksecend:
  assumes "unat k < 2 ^ 64 - 0x200000"
  shows "unat (ksecend k) = (unat k + 0x1fffff) div 0x200000 * 0x200000"
proof -
  have m: "(- 0x200000 :: u64) = NOT (mask 21)" by (simp add: mask_eq_exp_minus_1)
  have "unat (k + 0x1fffff) = unat k + 0x1fffff"
    using unat_add_lem [of k "0x1fffff"] assms by simp
  then show ?thesis
    using unat_and_not_mask [of "k + 0x1fffff" 21]
    by (simp add: ksecend_def m add.commute)
qed

lemma set_pages_from:
  assumes "page_aligned p" "unat p + 4096 * n \<le> 2 ^ 64"
  shows "set (pages_from p n) = {q. page_aligned q \<and> unat p \<le> unat q \<and> unat q < unat p + 4096 * n}"
    (is "_ = ?Q")
proof (rule set_eqI iffI)+
  fix q assume "q \<in> set (pages_from p n)"
  then obtain i where i: "i < n" "q = p + of_nat i * PAGESIZE"
    by (auto simp: pages_from_def)
  then have "unat q = unat p + 4096 * i" using pages_from_unat [OF assms(2)] by simp
  with i assms(1) show "q \<in> ?Q" by (simp add: page_aligned_def)
next
  fix q assume q: "q \<in> ?Q"
  obtain j k where jk: "unat p = 4096 * j" "unat q = 4096 * k"
    using assms(1) q by (auto elim!: page_alignedE)
  then have "k - j < n" "unat q = unat p + 4096 * (k - j)" using q by auto
  moreover from this have "q = p + of_nat (k - j) * PAGESIZE"
    using pages_from_unat [OF assms(2)] by (simp only: word_unat_eq_iff)
  ultimately show "q \<in> set (pages_from p n)" by (auto simp: pages_from_def)
qed

lemma free_pages_init [simp]: "free_pages ((lock_init KallocLk s)\<lparr>freelist := 0\<rparr>) []"
  by (simp add: free_pages_def)

section \<open>Counting\<close>

lemma count_free_flist: "flist m p ps \<Longrightarrow> count_free m p c = Some (c + int (length ps))"
proof (induction ps arbitrary: p c)
  case Nil
  then show ?case by (simp add: count_free.simps)
next
  case (Cons q qs)
  then show ?case by (subst count_free.simps) auto
qed

lemma freed_mem_kb_pool:
  assumes "free_pages s ps"
  shows "freed_mem_kb s = Inr (4 * int (length ps), cli_mark s)"
proof -
  have "lock_free KallocLk s" "flist (mem s) (freelist s) ps"
    using assms by (simp_all add: free_pages_def)
  then show ?thesis
    by (simp add: freed_mem_kb_def count_free_flist release_locked)
qed

section \<open>Properties\<close>

text \<open>
  While pages are free, \<open>kalloc\<close> returns the next one: page aligned, not NULL, zeroed, no
  longer among the free pages, with every other byte of memory and everything outside the
  allocator unchanged, and the lock at rest again.
\<close>

theorem kalloc_takes_next:
  assumes "free_pages s (p # ps)"
  shows "\<exists>t. kalloc s = Inr (p, t) \<and> free_pages t ps \<and> p \<notin> set ps \<and> p \<noteq> 0 \<and> page_aligned p \<and>
           (\<forall>x. mem t x = (if in_page p x then 0 else mem s x)) \<and>
           kmem.more t = kmem.more s \<and> locks t = locks s \<and> irq_on t = irq_on s"
  using kalloc_step [OF assms] kpages.alloc_fresh [OF assms]
  by (auto simp: zero_page_apply kmem_frame_def)

text \<open>
  Allocating a page, writing anything to it and freeing it gives back the same pool in the
  same order, and no byte outside that page changes.
\<close>

theorem kalloc_kfree_roundtrip:
  assumes "free_pages s (p # ps)" "\<And>x. \<not> in_page p x \<Longrightarrow> m x = mem s x"
  shows "\<exists>t u. kalloc s = Inr (p, t) \<and> kfree p (t\<lparr>mem := m\<rparr>) = Inr u \<and> free_pages u (p # ps) \<and>
           (\<forall>x. \<not> in_page p x \<longrightarrow> mem u x = mem s x)"
  by (rule kpages.alloc_write_free [OF assms])

text \<open>
  Out of memory: \<open>kalloc\<close> returns NULL but leaves \<open>kallocator.lk\<close> held, so the next
  \<open>kalloc\<close> on this CPU panics ("already held"), and so does the next \<open>kfree\<close> of a page, which
  could have relieved the shortage.
\<close>

theorem kalloc_oom_leaks_lock:
  assumes "free_pages s []" "page_aligned p" "p \<noteq> 0"
  shows "\<exists>t. kalloc s = Inr (0, t) \<and> holding KallocLk t \<and>
           kalloc t = Inl (Panic ''already held %d'') \<and> kfree p t = Inl (Panic ''already held %d'')"
proof -
  have s: "lock_free KallocLk s" "freelist s = 0"
    using assms(1) by (simp_all add: free_pages_def)
  let ?t = "locked KallocLk s"
  have "holding KallocLk (?t\<lparr>mem := m\<rparr>)" for m
    by (simp add: holding_def locked_def)
  then have "kfree p ?t = Inl (Panic ''already held %d'')"
    using assms(2,3) by (simp add: kfree_def page_aligned_mod)
  moreover have "kalloc ?t = Inl (Panic ''already held %d'')"
    by (simp add: kalloc_def)
  ultimately show ?thesis using s by (simp add: kalloc_empty)
qed

text \<open>
  Boot: from any state, \<open>kalloc_init1\<close> and \<open>kalloc_init2\<close> end, never panic, and leave
  exactly the pages between the end of the kernel image and the end of physical memory in the
  pool, each once.
\<close>

theorem kalloc_init_pool:
  assumes "page_aligned kend" "KERNBASE \<le> kend" "kend \<le> PHYMEMEND"
  shows "\<exists>t u ps. kalloc_init1 kend s = Some (Inr t) \<and> kalloc_init2 kend t = Some (Inr u) \<and>
           free_pages u ps \<and> set ps = {q. page_aligned q \<and> kend \<le> q \<and> q < PHYMEMEND}"
proof -
  let ?s = "(lock_init KallocLk s)\<lparr>freelist := 0\<rparr>"
  let ?K = "ksecend kend"
  define e where "e = PHYMEMEND"
  have e: "unat e = 0xffffff8050000000" by (simp add: e_def)
  have kend: "0xffffff8040000000 \<le> unat kend" "unat kend \<le> unat e"
    using assms(2,3) by (simp_all add: word_le_nat_alt e_def)
  obtain k where k: "unat kend = 4096 * k" using assms(1) by (rule page_alignedE)
  have K: "unat ?K = (unat kend + 0x1fffff) div 0x200000 * 0x200000"
    using kend e by (intro unat_ksecend) simp
  have K2: "unat kend \<le> unat ?K" "unat ?K \<le> unat e"
    unfolding K
  proof -
    show "unat kend \<le> (unat kend + 0x1fffff) div 0x200000 * 0x200000" by linarith
    have "(unat kend + 0x1fffff) div 0x200000 \<le> (unat e + 0x1fffff) div 0x200000"
      using kend(2) by (intro div_le_mono) simp
    then show "(unat kend + 0x1fffff) div 0x200000 * 0x200000 \<le> unat e"
      by (simp add: e)
  qed
  have al: "page_aligned ?K" unfolding page_aligned_def K by simp
  define n1 where "n1 = (unat ?K - unat kend) div 4096"
  define n2 where "n2 = (unat e - unat ?K) div 4096"
  obtain j where j: "unat ?K = 4096 * j" using al by (rule page_alignedE)
  have n: "4096 * n1 = unat ?K - unat kend" "4096 * n2 = unat e - unat ?K"
    using j k e unfolding n1_def n2_def by simp_all
  obtain t where t: "free_range kend ?K ?s = Some (Inr t)" "free_pages t (rev (pages_from kend n1))"
    using free_range_pool [OF free_pages_init assms(1), of ?K n1] kend e K2 n1_def
    by (auto simp: word_unat_eq_iff)
  have s1: "set (pages_from kend n1) = {q. page_aligned q \<and> unat kend \<le> unat q \<and> unat q < unat ?K}"
    using set_pages_from [OF assms(1), of n1] n K2 e by simp
  have s2: "set (pages_from ?K n2) = {q. page_aligned q \<and> unat ?K \<le> unat q \<and> unat q < unat e}"
    using set_pages_from [OF al, of n2] n K2 e by simp
  have "?K + of_nat i * PAGESIZE \<notin> set (rev (pages_from kend n1))" if "i < n2" for i
  proof -
    have "?K + of_nat i * PAGESIZE \<in> set (pages_from ?K n2)"
      using that by (auto simp: pages_from_def)
    then show ?thesis using s1 s2 by auto
  qed
  then obtain u where u: "free_range ?K e t = Some (Inr u)"
    "free_pages u (rev (pages_from ?K n2) @ rev (pages_from kend n1))"
    using free_range_pool [OF t(2) al, of e n2] e K2 kend n2_def
    by (auto simp: word_unat_eq_iff)
  have "set (rev (pages_from ?K n2) @ rev (pages_from kend n1)) =
      {q. page_aligned q \<and> kend \<le> q \<and> q < e}"
    using s1 s2 K2 by (auto simp: word_le_nat_alt word_less_nat_alt)
  moreover have "kalloc_init1 kend s = Some (Inr t)" using t by (simp add: kalloc_init1_def)
  moreover have "kalloc_init2 kend t = Some (Inr u)" using u by (simp add: kalloc_init2_def e_def)
  ultimately show ?thesis using u(2) unfolding e_def [symmetric] by blast
qed

section \<open>Witnesses\<close>

definition boot_mem :: kmem where
  "boot_mem = \<lparr>cpuid = 0, irq_on = True, cli_depth = 0, intr_enabled = False,
     locks = (\<lambda>_. \<lparr>lk_lock = 0, lk_cpuid = -1\<rparr>), mem = (\<lambda>_. 0), freelist = 0\<rparr>"

definition two_pages :: kmem where
  "two_pages = boot_mem\<lparr>mem := st64 (\<lambda>_. 0) 0xffffff8040100000 0xffffff8040101000,
     freelist := 0xffffff8040100000\<rparr>"

lemma ld64_const_zero [simp]: "ld64 (\<lambda>_. 0) a = 0"
  by (simp add: ld64_def get_le_const_zero)

lemma free_pages_boot_mem: "free_pages boot_mem []"
  by (simp add: free_pages_def boot_mem_def lock_free_def)

lemma free_pages_two_pages: "free_pages two_pages [0xffffff8040100000, 0xffffff8040101000]"
  by (simp add: free_pages_def two_pages_def boot_mem_def lock_free_def page_aligned_def
      ld64_st64_other aligned8_def)

theorem kalloc_takes_next_witness:
  "\<exists>t. kalloc two_pages = Inr (0xffffff8040100000, t) \<and> free_pages t [0xffffff8040101000]"
  using kalloc_takes_next [OF free_pages_two_pages] by blast

theorem kalloc_kfree_roundtrip_witness:
  "\<exists>t u. kalloc two_pages = Inr (0xffffff8040100000, t) \<and>
     kfree 0xffffff8040100000 (t\<lparr>mem := (mem two_pages)(0xffffff8040100010 := 7)\<rparr>) = Inr u \<and>
     free_pages u [0xffffff8040100000, 0xffffff8040101000]"
proof -
  let ?m = "(mem two_pages)(0xffffff8040100010 := 7)"
  have "?m x = mem two_pages x" if "\<not> in_page 0xffffff8040100000 x" for x
    using that by (auto simp: in_page_def)
  from kalloc_kfree_roundtrip [OF free_pages_two_pages this] show ?thesis by blast
qed

theorem kalloc_oom_leaks_lock_witness:
  "\<exists>t. kalloc boot_mem = Inr (0, t) \<and> kalloc t = Inl (Panic ''already held %d'')"
proof -
  have "page_aligned 0x1000" by (simp add: page_aligned_def)
  from kalloc_oom_leaks_lock [OF free_pages_boot_mem this] show ?thesis by auto
qed

theorem kalloc_init_pool_witness:
  "\<exists>t u ps. kalloc_init1 0xffffff8040080000 boot_mem = Some (Inr t) \<and>
     kalloc_init2 0xffffff8040080000 t = Some (Inr u) \<and> free_pages u ps \<and>
     0xffffff8040080000 \<in> set ps"
proof -
  have "page_aligned 0xffffff8040080000" by (simp add: page_aligned_def)
  from kalloc_init_pool [OF this, where s = boot_mem] obtain t u ps where
    "kalloc_init1 0xffffff8040080000 boot_mem = Some (Inr t)"
    "kalloc_init2 0xffffff8040080000 t = Some (Inr u)" "free_pages u ps"
    "set ps = {q. page_aligned q \<and> 0xffffff8040080000 \<le> q \<and> q < PHYMEMEND}"
    by auto
  then show ?thesis by (auto simp: page_aligned_def)
qed

end
