(* ===== verification/Pagetable.thy ===== *)
theory Pagetable
  imports Kalloc "HOL-Library.Sublist"
begin

text \<open>
  The page-table half of kernel/mm.c with the layout of include/mm.h: a three-level table over
  39-bit addresses, 512 entries of 8 bytes per table, tables linked by physical address. The
  tables live in the byte memory and come from \<open>kalloc\<close>.
\<close>

unbundle bit_operations_syntax

section \<open>Layout\<close>

definition PIDX :: "nat \<Rightarrow> u64 \<Rightarrow> u64" where
  "PIDX level va = drop_bit (39 - level * 9) va AND 0x1ff"

definition OFFSET :: "u64 \<Rightarrow> u64" where
  "OFFSET va = va AND 0xfff"

definition PTE_PA :: "u64 \<Rightarrow> u64" where
  "PTE_PA pte = pte AND 0xfffffffff000"

definition V2P :: "u64 \<Rightarrow> u64" where
  "V2P v = v - VA_START"

definition P2V :: "u64 \<Rightarrow> u64" where
  "P2V p = p + VA_START"

abbreviation PTE_VALID :: u64 where "PTE_VALID \<equiv> 1"
abbreviation PTE_TABLE :: u64 where "PTE_TABLE \<equiv> 2"
abbreviation PTE_V :: u64 where "PTE_V \<equiv> 3"
abbreviation PTE_NORMAL :: u64 where "PTE_NORMAL \<equiv> 4"       \<comment> \<open>\<open>PTE_INDX(AI_NORMAL_NC_IDX)\<close>\<close>
abbreviation PTE_U :: u64 where "PTE_U \<equiv> 0x40"              \<comment> \<open>\<open>PTE_AP(1)\<close>\<close>
abbreviation PTE_AF :: u64 where "PTE_AF \<equiv> 0x400"
abbreviation PTE_PXN :: u64 where "PTE_PXN \<equiv> 0x20000000000000"
abbreviation PTE_UXN :: u64 where "PTE_UXN \<equiv> 0x40000000000000"

definition PAGEROUNDUP :: "u64 \<Rightarrow> u64" where
  "PAGEROUNDUP p = (p + PAGESIZE - 1) AND NOT (PAGESIZE - 1)"

abbreviation USTACKTOP :: u64 where "USTACKTOP \<equiv> 0x7ffffff000"
abbreviation USTACKBOTTOM :: u64 where "USTACKBOTTOM \<equiv> USTACKTOP - PAGESIZE"

definition is_table :: "u64 \<Rightarrow> bool" where
  "is_table pte \<longleftrightarrow> pte AND PTE_VALID \<noteq> 0 \<and> pte AND PTE_TABLE \<noteq> 0"

section \<open>Walking and mapping\<close>

text \<open>
  One turn of the loop of \<open>pagewalk\<close>: the table of the next level, made on the way if it is
  missing; \<open>None\<close> is the early \<open>return NULL\<close> when \<open>kalloc\<close> has no page.
\<close>

definition walk_level :: "nat \<Rightarrow> u64 \<Rightarrow> u64 \<Rightarrow> 'a kmem_scheme \<Rightarrow> (u64 option \<times> 'a kmem_scheme) res" where
  "walk_level level va pgt s =
     (let pte = pgt + 8 * PIDX level va in
      if is_table (ld64 (mem s) pte)
      then Inr (Some (P2V (PTE_PA (ld64 (mem s) pte))), s)
      else bnd (kalloc s) (\<lambda>(new, s).
        if new = 0 then Inr (None, s)
        else Inr (Some new,
          s\<lparr>mem := st64 (mem s) pte (PTE_PA (V2P new) OR PTE_TABLE OR PTE_VALID)\<rparr>)))"

definition pagewalk :: "u64 \<Rightarrow> u64 \<Rightarrow> 'a kmem_scheme \<Rightarrow> (u64 \<times> 'a kmem_scheme) res" where
  "pagewalk pgt va s =
     bnd (walk_level 1 va pgt s) (\<lambda>(r, s).
       case r of None \<Rightarrow> Inr (0, s)
       | Some pgt \<Rightarrow> bnd (walk_level 2 va pgt s) (\<lambda>(r, s).
           case r of None \<Rightarrow> Inr (0, s)
           | Some pgt \<Rightarrow> Inr (pgt + 8 * PIDX 3 va, s)))"

definition uva2pa :: "u64 \<Rightarrow> u64 \<Rightarrow> 'a kmem_scheme \<Rightarrow> (u64 \<times> 'a kmem_scheme) res" where
  "uva2pa pgt va s =
     bnd (pagewalk pgt va s) (\<lambda>(pte, s).
       if pte = 0 then Inr (0, s)
       else Inr (PTE_PA (ld64 (mem s) pte) + OFFSET va, s))"

definition uva2ka :: "u64 \<Rightarrow> u64 \<Rightarrow> 'a kmem_scheme \<Rightarrow> (u64 \<times> 'a kmem_scheme) res" where
  "uva2ka pgt va s =
     bnd (uva2pa pgt va s) (\<lambda>(pa, s). if pa = 0 then Inr (0, s) else Inr (P2V pa, s))"

text \<open>
  The loops step \<open>p\<close> by \<open>PAGESIZE\<close> up to a \<open>size\<close> that is a multiple of \<open>PAGESIZE\<close>, so
  they run \<open>size / PAGESIZE\<close> times.
\<close>

fun map_pages :: "nat \<Rightarrow> u64 \<Rightarrow> u64 \<Rightarrow> u64 \<Rightarrow> u64 \<Rightarrow> 'a kmem_scheme \<Rightarrow> 'a kmem_scheme res" where
  "map_pages 0 pgt va pa attr s = Inr s"
| "map_pages (Suc n) pgt va pa attr s =
     bnd (pagewalk pgt va s) (\<lambda>(pte, s).
       if pte = 0 then Inl Fault                         \<comment> \<open>\<open>*pte\<close> of a null \<open>pte\<close>\<close>
       else if ld64 (mem s) pte AND PTE_AF \<noteq> 0 then Inl (Panic ''this entry has been used'')
       else map_pages n pgt (va + PAGESIZE) (pa + PAGESIZE) attr
              (s\<lparr>mem := st64 (mem s) pte (PTE_PA pa OR PTE_AF OR attr OR PTE_V)\<rparr>))"

definition pagemap :: "u64 \<Rightarrow> u64 \<Rightarrow> u64 \<Rightarrow> u64 \<Rightarrow> u64 \<Rightarrow> 'a kmem_scheme \<Rightarrow> 'a kmem_scheme res" where
  "pagemap pgt va pa sz attr s =
     (if va mod PAGESIZE \<noteq> 0 \<or> pa mod PAGESIZE \<noteq> 0 \<or> sz mod PAGESIZE \<noteq> 0
      then Inl (Panic ''invalid pagemap'')
      else map_pages (unat sz div 4096) pgt va pa attr s)"

fun unmap_pages :: "nat \<Rightarrow> u64 \<Rightarrow> u64 \<Rightarrow> 'a kmem_scheme \<Rightarrow> 'a kmem_scheme res" where
  "unmap_pages 0 pgt va s = Inr s"
| "unmap_pages (Suc n) pgt va s =
     bnd (pagewalk pgt va s) (\<lambda>(pte, s).
       if pte = 0 then Inl Fault
       else if ld64 (mem s) pte = 0 then Inl (Panic ''bad unmap va:%p'')
       else bnd (kfree (P2V (PTE_PA (ld64 (mem s) pte))) s) (\<lambda>s.
              unmap_pages n pgt (va + PAGESIZE) (s\<lparr>mem := st64 (mem s) pte 0\<rparr>)))"

definition pageunmap :: "u64 \<Rightarrow> u64 \<Rightarrow> u64 \<Rightarrow> 'a kmem_scheme \<Rightarrow> 'a kmem_scheme res" where
  "pageunmap pgt va sz s =
     (if va mod PAGESIZE \<noteq> 0 \<or> sz mod PAGESIZE \<noteq> 0
      then Inl (Panic ''invalid pageunmap'')
      else unmap_pages (unat sz div 4096) pgt va s)"

text \<open>
  \<open>free_table\<close> recurses into every entry that points to a table and has no access flag.
  \<open>d\<close> bounds the depth of the C recursion, which has no bound of its own: on a table that
  points back to itself it never returns.
\<close>

fun free_table :: "nat \<Rightarrow> u64 \<Rightarrow> 'a kmem_scheme \<Rightarrow> 'a kmem_scheme res"
  and free_entries :: "nat \<Rightarrow> u64 \<Rightarrow> nat \<Rightarrow> 'a kmem_scheme \<Rightarrow> 'a kmem_scheme res" where
  "free_table 0 pgt s = Inl Runaway"
| "free_table (Suc d) pgt s = bnd (free_entries d pgt 512 s) (\<lambda>s. kfree pgt s)"
| "free_entries d pgt 0 s = Inr s"
| "free_entries d pgt (Suc n) s =
     (let pte = pgt + 8 * of_nat (511 - n); e = ld64 (mem s) pte in
      if is_table e \<and> e AND PTE_AF = 0
      then bnd (free_table d (P2V (PTE_PA e)) s) (\<lambda>s.
             free_entries d pgt n (s\<lparr>mem := st64 (mem s) pte 0\<rparr>))
      else free_entries d pgt n s)"

section \<open>The tree of tables\<close>

text \<open>Pages the kernel can name: aligned, in the upper half that \<open>V2P\<close> and \<open>P2V\<close> translate.\<close>

definition kern_page :: "u64 \<Rightarrow> bool" where
  "kern_page p \<longleftrightarrow> page_aligned p \<and> VA_START \<le> p"

text \<open>
  What entry \<open>i\<close> of a table of the given level points to, as a kernel address: a table of the
  next level (levels 1 and 2) or a mapped page (level 3).
\<close>

definition ent :: "mem \<Rightarrow> nat \<Rightarrow> u64 \<Rightarrow> nat \<Rightarrow> u64 option" where
  "ent m level t i =
     (let e = ld64 m (t + 8 * of_nat i) in
      if (if level < 3 then is_table e else e \<noteq> 0) then Some (P2V (PTE_PA e)) else None)"

text \<open>The node that a path of entry numbers leads to, from the table \<open>t\<close> of level \<open>l\<close>.\<close>

fun node :: "mem \<Rightarrow> nat \<Rightarrow> u64 \<Rightarrow> nat list \<Rightarrow> u64 option" where
  "node m l t [] = Some t"
| "node m l t (i # ix) =
     (case ent m l t i of None \<Rightarrow> None | Some u \<Rightarrow> node m (Suc l) u ix)"

definition path_ok :: "nat \<Rightarrow> nat list \<Rightarrow> bool" where
  "path_ok n ix \<longleftrightarrow> length ix \<le> n \<and> (\<forall>i\<in>set ix. i < 512)"

text \<open>
  A proper tree of tables below a table of level \<open>l\<close>: every table is a kernel page, no two
  paths lead to the same one, and the entries that link tables have no access flag (by which
  \<open>free_table\<close> tells them from mapped pages). \<open>tables\<close> are the pages the tree consists of.
\<close>

definition tree :: "nat \<Rightarrow> mem \<Rightarrow> u64 \<Rightarrow> bool" where
  "tree l m pgt \<longleftrightarrow>
     (\<forall>ix t. path_ok (3 - l) ix \<longrightarrow> node m l pgt ix = Some t \<longrightarrow> kern_page t) \<and>
     (\<forall>ix jx t. path_ok (3 - l) ix \<longrightarrow> path_ok (3 - l) jx \<longrightarrow>
        node m l pgt ix = Some t \<longrightarrow> node m l pgt jx = Some t \<longrightarrow> ix = jx) \<and>
     (\<forall>ix i t. path_ok (3 - l) (ix @ [i]) \<longrightarrow> node m l pgt ix = Some t \<longrightarrow>
        is_table (ld64 m (t + 8 * of_nat i)) \<longrightarrow> ld64 m (t + 8 * of_nat i) AND PTE_AF = 0)"

definition tables :: "nat \<Rightarrow> mem \<Rightarrow> u64 \<Rightarrow> u64 set" where
  "tables l m pgt = {t. \<exists>ix. path_ok (3 - l) ix \<and> node m l pgt ix = Some t}"

text \<open>The entry numbers of an address, and the leaf entry found through them (0 if none).\<close>

definition vpath :: "u64 \<Rightarrow> nat list" where
  "vpath va = [unat (PIDX 1 va), unat (PIDX 2 va), unat (PIDX 3 va)]"

definition leaf :: "mem \<Rightarrow> u64 \<Rightarrow> nat list \<Rightarrow> u64" where
  "leaf m pgt ix =
     (case node m 1 pgt (butlast ix) of None \<Rightarrow> 0 | Some t \<Rightarrow> ld64 m (t + 8 * of_nat (last ix)))"

section \<open>Slots and entries\<close>

lemma kern_page_aligned: "kern_page p \<Longrightarrow> page_aligned p"
  by (simp add: kern_page_def)

lemma kern_page_nonzero: "kern_page p \<Longrightarrow> p \<noteq> 0"
  by (auto simp: kern_page_def)

lemma unat_slot_off: "i < 512 \<Longrightarrow> unat (8 * of_nat i :: u64) = 8 * i"
  by (simp add: unat_word_ariths unat_of_nat_small)

lemma unat_slot:
  assumes "page_aligned t" "i < 512"
  shows "unat (t + 8 * of_nat i) = unat t + 8 * i"
proof -
  obtain k where "unat t = 4096 * k" "k < 4503599627370496"
    using assms(1) by (rule page_alignedE)
  then have "unat t + 8 * i < 2 ^ 64" using assms(2) by simp
  then show ?thesis
    using unat_add_lem [of t "8 * of_nat i"] unat_slot_off [OF assms(2)] by simp
qed

lemma slot_aligned8: "page_aligned t \<Longrightarrow> i < 512 \<Longrightarrow> aligned8 (t + 8 * of_nat i)"
  by (auto simp: aligned8_def unat_slot elim!: page_alignedE)

lemma slot_in_page: "i < 512 \<Longrightarrow> in_page t (t + 8 * of_nat i)"
  by (simp add: in_page_def unat_slot_off)

lemma slot_eq_iff:
  assumes "page_aligned t" "page_aligned u" "i < 512" "j < 512"
  shows "t + 8 * of_nat i = u + 8 * of_nat j \<longleftrightarrow> t = u \<and> i = j"
proof
  assume eq: "t + 8 * of_nat i = u + 8 * of_nat j"
  have "t = u"
    using in_page_disjoint [OF assms(1,2)] slot_in_page assms(3,4) eq by metis
  moreover from this eq have "8 * i = 8 * j"
    using assms by (metis unat_slot add_left_cancel)
  ultimately show "t = u \<and> i = j" by simp
qed simp

lemma slot_nonzero: "kern_page t \<Longrightarrow> i < 512 \<Longrightarrow> t + 8 * of_nat i \<noteq> 0"
  using unat_slot [of t i] kern_page_nonzero [of t] kern_page_aligned [of t]
  by (auto simp: word_unat_eq_iff)

lemma PIDX_bound: "unat (PIDX level va) < 512"
proof -
  have "PIDX level va \<le> 0x1ff" unfolding PIDX_def by (rule word_and_le1)
  then show ?thesis by (simp add: word_le_nat_alt)
qed

lemma PIDX_slot: "8 * PIDX level va = 8 * of_nat (unat (PIDX level va))"
  by simp

text \<open>The content of an entry, once for both kinds of level.\<close>

definition decode :: "nat \<Rightarrow> u64 \<Rightarrow> u64 option" where
  "decode level e =
     (if (if level < 3 then is_table e else e \<noteq> 0) then Some (P2V (PTE_PA e)) else None)"

lemma ent_decode: "ent m level t i = decode level (ld64 m (t + 8 * of_nat i))"
  by (simp add: ent_def decode_def Let_def)

lemma ent_cong:
  "ld64 m (t + 8 * of_nat i) = ld64 m' (t + 8 * of_nat i) \<Longrightarrow> ent m level t i = ent m' level t i"
  by (simp add: ent_decode)

lemma ld64_slot_store:
  assumes "page_aligned t" "page_aligned u" "i < 512" "j < 512"
  shows "ld64 (st64 m (t + 8 * of_nat i) w) (u + 8 * of_nat j) =
           (if t = u \<and> i = j then w else ld64 m (u + 8 * of_nat j))"
  using assms by (simp add: ld64_st64 slot_aligned8 slot_eq_iff)

lemma ld64_slot_zero:
  assumes "page_aligned q" "page_aligned t" "i < 512"
  shows "ld64 (zero_page m q) (t + 8 * of_nat i) = (if t = q then 0 else ld64 m (t + 8 * of_nat i))"
proof -
  have "in_page q (t + 8 * of_nat i) \<longleftrightarrow> t = q"
    using in_page_disjoint [of q t "t + 8 * of_nat i"] slot_in_page [OF assms(3)] assms(1,2) by auto
  then show ?thesis by (simp add: ld64_zero_page slot_aligned8 assms)
qed

lemma decode_zero [simp]: "decode level 0 = None"
  by (simp add: decode_def is_table_def)

text \<open>Physical and virtual addresses of kernel pages, through an entry.\<close>

lemma V2P_P2V [simp]: "P2V (V2P p) = p" "V2P (P2V p) = p"
  by (simp_all add: V2P_def P2V_def)

lemma unat_V2P: "VA_START \<le> p \<Longrightarrow> unat (V2P p) = unat p - 0xffffff8000000000"
  by (simp add: V2P_def unat_sub_if' word_le_nat_alt)

lemma PTE_PA_V2P:
  assumes "kern_page p"
  shows "PTE_PA (V2P p) = V2P p"
proof -
  obtain k where k: "unat p = 4096 * k" using assms by (auto simp: kern_page_def elim: page_alignedE)
  have u: "unat (V2P p) = unat p - 0xffffff8000000000"
    using assms by (intro unat_V2P) (simp add: kern_page_def)
  have lt: "unat (V2P p) < 2 ^ 39" using u u64_bound [of p] by simp
  then have "take_bit 48 (unat (V2P p)) = unat (V2P p)"
    by (intro take_bit_nat_eq_self) simp
  then have "unat (take_bit 48 (V2P p)) = unat (V2P p)"
    by (simp only: unsigned_take_bit_eq)
  then have t: "take_bit 48 (V2P p) = V2P p" by (simp only: word_unat_eq_iff)
  have "unat (V2P p) div 4096 * 4096 = unat (V2P p)"
    using u k by (simp add: diff_mult_distrib2 [symmetric])
  then have "unat (V2P p AND NOT (mask 12)) = unat (V2P p)"
    using unat_and_not_mask [of "V2P p" 12] by simp
  then have n: "V2P p AND NOT (mask 12) = V2P p" by (simp only: word_unat_eq_iff)
  have M: "(0xfffffffff000 :: u64) = mask 48 AND NOT (mask 12)"
    by (simp add: mask_eq_exp_minus_1)
  have "PTE_PA (V2P p) = (V2P p AND NOT (mask 12)) AND mask 48"
    by (simp only: PTE_PA_def M and.assoc and.commute and.left_commute)
  then show ?thesis using n t by (simp add: take_bit_eq_mask)
qed

lemma PTE_PA_or: "PTE_PA (x OR y) = PTE_PA x OR PTE_PA y"
  by (simp add: PTE_PA_def bit.conj_disj_distrib2)

lemma PTE_PA_idem [simp]: "PTE_PA (PTE_PA x) = PTE_PA x"
  by (simp add: PTE_PA_def and.assoc)

definition table_entry :: "u64 \<Rightarrow> u64" where
  "table_entry new = PTE_PA (V2P new) OR PTE_TABLE OR PTE_VALID"

lemma table_entry_decode: "kern_page q \<Longrightarrow> level < 3 \<Longrightarrow> decode level (table_entry q) = Some q"
proof -
  assume q: "kern_page q" "level < 3"
  have bits: "bit (table_entry q) 0" "bit (table_entry q) 1"
    by (simp_all add: table_entry_def bit_simps)
  have "table_entry q AND 1 \<noteq> 0" "table_entry q AND 2 \<noteq> 0"
  proof -
    have "bit (table_entry q AND 1) 0" "bit (table_entry q AND 2) 1"
      using bits by (simp_all add: bit_simps)
    then show "table_entry q AND 1 \<noteq> 0" "table_entry q AND 2 \<noteq> 0" by (metis bit_0_eq bot_apply bot_bool_def)+
  qed
  then have "is_table (table_entry q)" by (simp add: is_table_def)
  moreover have "PTE_PA (table_entry q) = V2P q"
    unfolding table_entry_def PTE_PA_or PTE_PA_idem using q(1) PTE_PA_V2P by (simp add: PTE_PA_def)
  ultimately show ?thesis using q by (simp add: decode_def)
qed


section \<open>Paths under a change of memory\<close>

lemma node_append:
  "node m l t (xs @ ys) =
     (case node m l t xs of None \<Rightarrow> None | Some u \<Rightarrow> node m (l + length xs) u ys)"
  by (induction xs arbitrary: l t) (auto split: option.splits)

text \<open>A path keeps its node if no entry on the way to it changes its meaning.\<close>

lemma node_cong:
  assumes "\<And>xs i u. prefix (xs @ [i]) ix \<Longrightarrow> node m l t xs = Some u \<Longrightarrow>
             ent m' (l + length xs) u i = ent m (l + length xs) u i"
  shows "node m' l t ix = node m l t ix"
  using assms
proof (induction ix arbitrary: l t)
  case Nil
  then show ?case by simp
next
  case (Cons i ix)
  have 1: "ent m' l t i = ent m l t i"
    using Cons.prems [of "[]" i t] by simp
  have "node m' (Suc l) u ix = node m (Suc l) u ix" if "ent m l t i = Some u" for u
  proof (rule Cons.IH)
    fix xs j v
    assume "prefix (xs @ [j]) ix" "node m (Suc l) u xs = Some v"
    with that show "ent m' (Suc l + length xs) v j = ent m (Suc l + length xs) v j"
      using Cons.prems [of "i # xs" j v] by simp
  qed
  with 1 show ?case by (simp split: option.splits)
qed

lemma path_ok_prefix: "path_ok n ix \<Longrightarrow> prefix xs ix \<Longrightarrow> path_ok n xs"
  by (auto simp: path_ok_def prefix_def)

lemma path_ok_snoc: "path_ok n (xs @ [i]) \<Longrightarrow> path_ok n xs \<and> length xs < n \<and> i < 512"
  by (auto simp: path_ok_def)

lemma tree_kern: "tree l m pgt \<Longrightarrow> path_ok (3 - l) ix \<Longrightarrow> node m l pgt ix = Some t \<Longrightarrow> kern_page t"
  by (simp add: tree_def)

lemma tree_inj:
  "tree l m pgt \<Longrightarrow> path_ok (3 - l) ix \<Longrightarrow> path_ok (3 - l) jx \<Longrightarrow>
   node m l pgt ix = Some t \<Longrightarrow> node m l pgt jx = Some t \<Longrightarrow> ix = jx"
  unfolding tree_def by blast

lemma tree_AF:
  "tree l m pgt \<Longrightarrow> path_ok (3 - l) (ix @ [i]) \<Longrightarrow> node m l pgt ix = Some t \<Longrightarrow>
   is_table (ld64 m (t + 8 * of_nat i)) \<Longrightarrow> ld64 m (t + 8 * of_nat i) AND PTE_AF = 0"
  unfolding tree_def by blast

lemma table_entry_AF: "kern_page q \<Longrightarrow> table_entry q AND PTE_AF = 0"
proof -
  assume q: "kern_page q"
  have "PTE_PA w AND PTE_AF = 0" for w by (simp add: PTE_PA_def and.assoc)
  then show ?thesis by (simp add: table_entry_def bit.conj_disj_distrib2)
qed

lemma tables_kern: "tree l m pgt \<Longrightarrow> t \<in> tables l m pgt \<Longrightarrow> kern_page t"
  by (auto simp: tables_def dest: tree_kern)

lemma tables_root: "pgt \<in> tables l m pgt"
proof -
  have "path_ok (3 - l) []" by (simp add: path_ok_def)
  then show ?thesis unfolding tables_def by force
qed

text \<open>Memory that agrees on the tables has the same tree.\<close>

lemma node_agree:
  assumes "tree l m pgt" "path_ok (4 - l) ix"
    and "\<And>t x. t \<in> tables l m pgt \<Longrightarrow> in_page t x \<Longrightarrow> m' x = m x"
  shows "node m' l pgt ix = node m l pgt ix"
proof (rule node_cong)
  fix xs i u assume p: "prefix (xs @ [i]) ix" and u: "node m l pgt xs = Some u"
  then have "path_ok (4 - l) (xs @ [i])" using assms(2) path_ok_prefix by blast
  then have ok: "path_ok (3 - l) xs" "i < 512" by (auto simp: path_ok_def)
  then have t: "u \<in> tables l m pgt" "page_aligned u"
    using u assms(1) by (auto simp: tables_def dest: tree_kern kern_page_aligned)
  have "ld64 m' (u + 8 * of_nat i) = ld64 m (u + 8 * of_nat i)"
    using t ok(2) assms(3) by (intro ld64_page_cong [of u]) (auto intro: slot_aligned8 slot_in_page)
  then show "ent m' (l + length xs) u i = ent m (l + length xs) u i"
    by (rule ent_cong)
qed

lemma tree_agree:
  assumes "tree l m pgt" "\<And>t x. t \<in> tables l m pgt \<Longrightarrow> in_page t x \<Longrightarrow> m' x = m x"
  shows "tree l m' pgt" "tables l m' pgt = tables l m pgt"
proof -
  have n: "node m' l pgt ix = node m l pgt ix" if "path_ok (3 - l) ix" for ix
    using that assms by (intro node_agree) (auto simp: path_ok_def)
  have e: "ld64 m' (t + 8 * of_nat i) = ld64 m (t + 8 * of_nat i)"
    if p: "path_ok (3 - l) (ix @ [i])" "node m l pgt ix = Some t" for ix i t
  proof -
    have ok: "path_ok (3 - l) ix" "i < 512" using p(1) by (auto simp: path_ok_def)
    then have "t \<in> tables l m pgt" "page_aligned t"
      using p(2) assms(1) by (auto simp: tables_def dest: tree_kern kern_page_aligned)
    then show ?thesis
      using ok(2) assms(2) by (intro ld64_page_cong [of t]) (auto intro: slot_aligned8 slot_in_page)
  qed
  show "tree l m' pgt"
    unfolding tree_def
  proof (intro conjI allI impI)
    fix ix i t assume p: "path_ok (3 - l) (ix @ [i])" and t: "node m' l pgt ix = Some t"
      and "is_table (ld64 m' (t + 8 * of_nat i))"
    then show "ld64 m' (t + 8 * of_nat i) AND PTE_AF = 0"
      using e [OF p] n [of ix] tree_AF [OF assms(1) p, of t] by (auto simp: path_ok_def)
  qed (use assms(1) n in \<open>auto simp: tree_def\<close>)
  show "tables l m' pgt = tables l m pgt" using n unfolding tables_def by auto
qed


text \<open>
  Linking a fresh zeroed table \<open>q\<close> at an entry that pointed to nothing adds the one path to
  \<open>q\<close> and changes no other; this is what a turn of \<open>pagewalk\<close> does.
\<close>

definition graft :: "mem \<Rightarrow> u64 \<Rightarrow> nat \<Rightarrow> u64 \<Rightarrow> mem" where
  "graft m t i q = st64 (zero_page m q) (t + 8 * of_nat i) (table_entry q)"

lemma graft_slot:
  assumes "page_aligned t" "page_aligned u" "page_aligned q" "i < 512" "j < 512"
  shows "ld64 (graft m t i q) (u + 8 * of_nat j) =
    (if u = t \<and> j = i then table_entry q else if u = q then 0 else ld64 m (u + 8 * of_nat j))"
  using assms by (auto simp: graft_def ld64_slot_store ld64_slot_zero)

lemma node_graft:
  assumes tr: "tree 1 m pgt" and px: "node m 1 pgt px = Some t" "length px < 2" "path_ok 2 (px @ [i])"
    and none: "ent m (Suc (length px)) t i = None" and q: "kern_page q" "q \<notin> tables 1 m pgt"
    and ix: "path_ok 2 ix"
  shows "node (graft m t i q) 1 pgt ix = (if ix = px @ [i] then Some q else node m 1 pgt ix)"
proof -
  let ?m = "graft m t i q"
  have pok: "path_ok 2 px" "i < 512" using px(3) by (auto simp: path_ok_def)
  have al: "page_aligned t" "page_aligned q"
    using tree_kern [OF tr _ px(1)] pok(1) q(1) by (auto dest: kern_page_aligned)
  have tq: "t \<noteq> q" using px(1) pok(1) q(2) by (auto simp: tables_def)
  have other: "node ?m 1 pgt ix = node m 1 pgt ix" if "path_ok 2 ix" "\<not> prefix (px @ [i]) ix" for ix
  proof (rule node_cong)
    fix xs j u assume p: "prefix (xs @ [j]) ix" and u: "node m 1 pgt xs = Some u"
    then have ok: "path_ok 2 xs" "j < 512"
      using that(1) path_ok_prefix [of 2 ix "xs @ [j]"] by (auto dest: path_ok_snoc)
    then have "u \<in> tables 1 m pgt" using u by (auto simp: tables_def)
    moreover have "\<not> (u = t \<and> j = i)"
    proof
      assume "u = t \<and> j = i"
      then have "xs = px" using tree_inj [OF tr _ _ u] px(1) ok pok by simp
      with p that(2) \<open>u = t \<and> j = i\<close> show False by simp
    qed
    ultimately have "ld64 ?m (u + 8 * of_nat j) = ld64 m (u + 8 * of_nat j)"
      using ok al pok q tables_kern [OF tr] by (subst graft_slot) (auto dest: kern_page_aligned)
    then show "ent ?m (1 + length xs) u j = ent m (1 + length xs) u j" by (rule ent_cong)
  qed
  have px': "node ?m 1 pgt px = Some t"
    using other [OF pok(1)] px(1) by simp
  have ti: "ent ?m (Suc (length px)) t i = Some q"
    using al pok px(2) q(1) by (simp add: ent_decode graft_slot table_entry_decode)
  have ti1: "ent ?m (1 + length px) t i = Some q" "ent m (1 + length px) t i = None"
    using ti none by simp_all
  have qj: "ent ?m k q j = None" if "j < 512" for k j
    using al pok that tq by (simp add: ent_decode graft_slot)
  consider "\<not> prefix (px @ [i]) ix" | "ix = px @ [i]" | j sx where "ix = px @ [i] @ j # sx"
    by (metis append.right_neutral append_assoc neq_Nil_conv prefixE)
  then show ?thesis
  proof cases
    case 1
    then show ?thesis using other [OF ix] by auto
  next
    case 2
    then show ?thesis by (simp add: node_append px' ti1 del: One_nat_def)
  next
    case 3
    then have "j < 512" using ix by (simp add: path_ok_def)
    then show ?thesis using 3 by (simp add: node_append px' ti1 px(1) qj del: One_nat_def)
  qed
qed

lemma tree_graft:
  assumes tr: "tree 1 m pgt" and px: "node m 1 pgt px = Some t" "length px < 2" "path_ok 2 (px @ [i])"
    and none: "ent m (Suc (length px)) t i = None" and q: "kern_page q" "q \<notin> tables 1 m pgt"
  shows "tree 1 (graft m t i q) pgt" "tables 1 (graft m t i q) pgt = insert q (tables 1 m pgt)"
proof -
  note n = node_graft [OF assms]
  have nq: "node m 1 pgt ix \<noteq> Some q" if "path_ok 2 ix" for ix
    using that q(2) by (auto simp: tables_def)
  have pn: "node m 1 pgt (px @ [i]) = None"
    using none px(1) by (simp add: node_append)
  have nn: "node (graft m t i q) 1 pgt ix = Some u \<longleftrightarrow>
      ix = px @ [i] \<and> u = q \<or> node m 1 pgt ix = Some u" if "path_ok 2 ix" for ix u
    using n [OF that] pn by auto
  have two: "3 - 1 = (2 :: nat)" by simp
  show "tree 1 (graft m t i q) pgt"
    unfolding tree_def two
  proof (intro conjI allI impI)
    fix ix u assume ok: "path_ok 2 ix" and "node (graft m t i q) 1 pgt ix = Some u"
    then have "ix = px @ [i] \<and> u = q \<or> node m 1 pgt ix = Some u" by (simp only: nn)
    then show "kern_page u" using q(1) tree_kern [OF tr, unfolded two, OF ok, of u] by blast
  next
    fix ix jx u assume ok: "path_ok 2 ix" "path_ok 2 jx"
      and "node (graft m t i q) 1 pgt ix = Some u" "node (graft m t i q) 1 pgt jx = Some u"
    then have "ix = px @ [i] \<and> u = q \<or> node m 1 pgt ix = Some u"
      "jx = px @ [i] \<and> u = q \<or> node m 1 pgt jx = Some u" by (simp_all only: nn)
    then show "ix = jx"
      using nq [OF ok(1)] nq [OF ok(2)] tree_inj [OF tr, unfolded two, OF ok, of u] by blast
  next
    fix ix j u assume p: "path_ok 2 (ix @ [j])" and g: "node (graft m t i q) 1 pgt ix = Some u"
      and e: "is_table (ld64 (graft m t i q) (u + 8 * of_nat j))"
    have ok: "path_ok 2 ix" "j < 512" using path_ok_snoc [OF p] by auto
    have u: "u = q \<or> node m 1 pgt ix = Some u" using g nn [OF ok(1), of u] by blast
    have al: "page_aligned u" "page_aligned t" "page_aligned q" "i < 512"
      using u q(1) tree_kern [OF tr, unfolded two, OF ok(1), of u] tree_kern [OF tr _ px(1)] px(3)
      by (auto simp: path_ok_def dest: kern_page_aligned)
    show "ld64 (graft m t i q) (u + 8 * of_nat j) AND PTE_AF = 0"
    proof (cases "u = t \<and> j = i \<or> u = q")
      case True
      then show ?thesis using al ok table_entry_AF [OF q(1)] by (auto simp: graft_slot)
    next
      case False
      then have "ld64 (graft m t i q) (u + 8 * of_nat j) = ld64 m (u + 8 * of_nat j)"
        using al ok by (subst graft_slot) auto
      moreover have "node m 1 pgt ix = Some u" using u False by simp
      ultimately show ?thesis using tree_AF [OF tr, unfolded two, OF p] e by simp
    qed
  qed
  show "tables 1 (graft m t i q) pgt = insert q (tables 1 m pgt)"
    unfolding tables_def two using nn px(3) by blast
qed

text \<open>Writing an entry of a last-level table moves no table.\<close>

lemma node_leaf_store:
  assumes tr: "tree 1 m pgt" and px: "node m 1 pgt px = Some t" "length px = 2" "path_ok 2 px"
    and i: "i < 512" and ix: "path_ok 2 ix"
  shows "node (st64 m (t + 8 * of_nat i) w) 1 pgt ix = node m 1 pgt ix"
proof (rule node_cong)
  fix xs j u assume p: "prefix (xs @ [j]) ix" and u: "node m 1 pgt xs = Some u"
  then have ok: "path_ok 2 xs" "j < 512" "length xs < 2"
    using ix path_ok_prefix [of 2 ix "xs @ [j]"] by (auto dest: path_ok_snoc)
  have "u \<noteq> t"
  proof
    assume "u = t"
    then have "xs = px" using tree_inj [OF tr _ _ u, of px] px ok by simp
    then show False using px(2) ok(3) by simp
  qed
  then have "ld64 (st64 m (t + 8 * of_nat i) w) (u + 8 * of_nat j) = ld64 m (u + 8 * of_nat j)"
    using tree_kern [OF tr _ u] tree_kern [OF tr _ px(1)] ok px i
    by (simp add: ld64_slot_store kern_page_aligned)
  then show "ent (st64 m (t + 8 * of_nat i) w) (1 + length xs) u j = ent m (1 + length xs) u j"
    by (rule ent_cong)
qed

lemma tree_leaf_store:
  assumes "tree 1 m pgt" "node m 1 pgt px = Some t" "length px = 2" "path_ok 2 px" "i < 512"
  shows "tree 1 (st64 m (t + 8 * of_nat i) w) pgt"
    "tables 1 (st64 m (t + 8 * of_nat i) w) pgt = tables 1 m pgt"
proof -
  note n = node_leaf_store [OF assms]
  have two: "3 - 1 = (2 :: nat)" by simp
  show "tree 1 (st64 m (t + 8 * of_nat i) w) pgt"
    unfolding tree_def two
  proof (intro conjI allI impI)
    fix ix j u assume p: "path_ok 2 (ix @ [j])" and g: "node (st64 m (t + 8 * of_nat i) w) 1 pgt ix = Some u"
      and e: "is_table (ld64 (st64 m (t + 8 * of_nat i) w) (u + 8 * of_nat j))"
    have ok: "path_ok 2 ix" "j < 512" "length ix < 2" using path_ok_snoc [OF p] by auto
    have u: "node m 1 pgt ix = Some u" using g n [OF ok(1)] by simp
    have "u \<noteq> t"
      using tree_inj [OF assms(1) _ _ u, of px] assms(2,3,4) ok by auto
    then have "ld64 (st64 m (t + 8 * of_nat i) w) (u + 8 * of_nat j) = ld64 m (u + 8 * of_nat j)"
      using tree_kern [OF assms(1) _ u] tree_kern [OF assms(1) _ assms(2)] ok assms(4,5)
      by (simp add: ld64_slot_store kern_page_aligned)
    then show "ld64 (st64 m (t + 8 * of_nat i) w) (u + 8 * of_nat j) AND PTE_AF = 0"
      using tree_AF [OF assms(1), unfolded two, OF p u] e by simp
  qed (use assms(1) n in \<open>auto simp: tree_def\<close>)
  show "tables 1 (st64 m (t + 8 * of_nat i) w) pgt = tables 1 m pgt"
    using n unfolding tables_def by auto
qed


section \<open>Address spaces\<close>

text \<open>
  A well-formed table \<open>pgt\<close> beside the pool \<open>ps\<close>: the tables form a tree and none of them is
  free.
\<close>

definition aspace :: "'a kmem_scheme \<Rightarrow> u64 \<Rightarrow> u64 list \<Rightarrow> bool" where
  "aspace s pgt ps \<longleftrightarrow> free_pages s ps \<and> (\<forall>p\<in>set ps. kern_page p) \<and> tree 1 (mem s) pgt \<and>
     tables 1 (mem s) pgt \<inter> set ps = {}"

text \<open>The pages that belong to the table or to the pool.\<close>

definition owned :: "'a kmem_scheme \<Rightarrow> u64 \<Rightarrow> u64 list \<Rightarrow> u64 set" where
  "owned s pgt ps = tables 1 (mem s) pgt \<union> set ps"

definition outside :: "u64 set \<Rightarrow> u64 \<Rightarrow> bool" where
  "outside P x \<longleftrightarrow> (\<forall>p\<in>P. \<not> in_page p x)"

text \<open>
  \<open>grows pgt V s ps t qs\<close>: from \<open>s\<close> to \<open>t\<close> the table \<open>pgt\<close> stays well formed and took its new
  tables from the front of the pool; only the leaf entries on the paths \<open>V\<close> may differ, and
  memory changed only inside tables and pages that were free.
\<close>

definition grows :: "u64 \<Rightarrow> nat list set \<Rightarrow> 'a kmem_scheme \<Rightarrow> u64 list \<Rightarrow> 'a kmem_scheme \<Rightarrow> u64 list \<Rightarrow> bool" where
  "grows pgt V s ps t qs \<longleftrightarrow> aspace t pgt qs \<and> suffix qs ps \<and>
     (\<forall>ix. path_ok 3 ix \<longrightarrow> length ix = 3 \<longrightarrow> ix \<notin> V \<longrightarrow> leaf (mem t) pgt ix = leaf (mem s) pgt ix) \<and>
     owned t pgt qs \<subseteq> owned s pgt ps \<and>
     (\<forall>x. outside (owned s pgt ps) x \<longrightarrow> mem t x = mem s x) \<and> kmem_frame s t"

lemma outside_mono: "P \<subseteq> Q \<Longrightarrow> outside Q x \<Longrightarrow> outside P x"
  by (auto simp: outside_def)

lemma grows_refl: "aspace s pgt ps \<Longrightarrow> grows pgt V s ps s ps"
  by (simp add: grows_def)

lemma grows_trans:
  assumes "grows pgt V s ps t qs" "grows pgt W t qs u rs"
  shows "grows pgt (V \<union> W) s ps u rs"
proof -
  have "mem u x = mem s x" if "outside (owned s pgt ps) x" for x
  proof -
    have "outside (owned t pgt qs) x" using that assms(1) outside_mono by (auto simp: grows_def)
    then show ?thesis using that assms by (simp add: grows_def)
  qed
  moreover have "suffix rs ps" using assms by (meson grows_def suffix_order.trans)
  moreover have "kmem_frame s u" using assms by (meson grows_def kmem_frame_trans)
  moreover have "owned u pgt rs \<subseteq> owned s pgt ps" using assms by (auto simp: grows_def)
  ultimately show ?thesis using assms by (simp add: grows_def)
qed

lemma grows_weaken: "grows pgt V s ps t qs \<Longrightarrow> V \<subseteq> W \<Longrightarrow> grows pgt W s ps t qs"
  by (auto simp: grows_def)

lemma grows_aspace: "grows pgt V s ps t qs \<Longrightarrow> aspace t pgt qs"
  by (simp add: grows_def)

lemma aspace_page:
  "aspace s pgt ps \<Longrightarrow> path_ok 2 ix \<Longrightarrow> node (mem s) 1 pgt ix = Some t \<Longrightarrow>
   kern_page t \<and> t \<in> tables 1 (mem s) pgt \<and> t \<notin> set ps"
  unfolding aspace_def tables_def
  using tree_kern [of 1 "mem s" pgt ix t] by auto

lemma path_ok_last: "path_ok 3 ix \<Longrightarrow> length ix = 3 \<Longrightarrow> last ix < 512 \<and> path_ok 2 (butlast ix) \<and> length (butlast ix) = 2"
  using last_in_set [of ix] by (cases "ix = []") (auto simp: path_ok_def dest: in_set_butlastD)

text \<open>One turn of \<open>pagewalk\<close>.\<close>

lemma walk_level_hit:
  "ent (mem s) l t (unat (PIDX l va)) = Some u \<Longrightarrow> l < 3 \<Longrightarrow> walk_level l va t s = Inr (Some u, s)"
  by (simp add: walk_level_def ent_def Let_def split: if_splits)

lemma leaf_graft:
  assumes a: "tree 1 m pgt" and px: "node m 1 pgt px = Some t" "length px < 2" "path_ok 2 (px @ [i])"
    and none: "ent m (Suc (length px)) t i = None" and q: "kern_page q" "q \<notin> tables 1 m pgt"
    and ix: "path_ok 3 ix" "length ix = 3"
  shows "leaf (graft m t i q) pgt ix = leaf m pgt ix"
proof -
  note l = path_ok_last [OF ix]
  have pok: "path_ok 2 px" "i < 512" using px(3) by (auto simp: path_ok_def)
  have two: "3 - 1 = (2 :: nat)" by simp
  have al: "page_aligned t" "page_aligned q"
    using tree_kern [OF a _ px(1)] pok(1) q(1) by (auto dest: kern_page_aligned)
  have tq: "t \<noteq> q" using px(1) pok(1) q(2) by (auto simp: tables_def)
  note n = node_graft [OF a px none q conjunct1 [OF conjunct2 [OF l]]]
  show ?thesis
  proof (cases "butlast ix = px @ [i]")
    case True
    then have "node m 1 pgt (butlast ix) = None" using none px(1) by (simp add: node_append)
    moreover have "ld64 (graft m t i q) (q + 8 * of_nat (last ix)) = 0"
      using l al pok tq by (simp add: graft_slot)
    ultimately show ?thesis using n True by (simp add: leaf_def)
  next
    case False
    then have n': "node (graft m t i q) 1 pgt (butlast ix) = node m 1 pgt (butlast ix)" using n by simp
    have "ld64 (graft m t i q) (u + 8 * of_nat (last ix)) = ld64 m (u + 8 * of_nat (last ix))"
      if u: "node m 1 pgt (butlast ix) = Some u" for u
    proof -
      have "page_aligned u" using tree_kern [OF a _ u] l by (auto dest: kern_page_aligned)
      moreover have "u \<noteq> t" using tree_inj [OF a _ _ u, of px] px l pok by auto
      moreover have "u \<noteq> q" using u l q(2) by (auto simp: tables_def)
      ultimately show ?thesis using al l pok by (simp add: graft_slot)
    qed
    with n' show ?thesis unfolding leaf_def by (simp split: option.splits)
  qed
qed


lemma walk_level_miss:
  assumes a: "aspace s pgt (q # qs)" and px: "node (mem s) 1 pgt px = Some t" "length px < 2" "path_ok 2 px"
    and l: "l = Suc (length px)" and i: "i = unat (PIDX l va)" and none: "ent (mem s) l t i = None"
  shows "\<exists>s'. walk_level l va t s = Inr (Some q, s') \<and> node (mem s') 1 pgt (px @ [i]) = Some q \<and>
           grows pgt {} s (q # qs) s' qs \<and> mem s' = graft (mem s) t i q"
proof -
  let ?ps = "q # qs"
  have tr: "tree 1 (mem s) pgt" and fp: "free_pages s ?ps" and q: "kern_page q" "q \<notin> tables 1 (mem s) pgt"
    using a by (auto simp: aspace_def)
  have i5: "i < 512" using i PIDX_bound by simp
  then have pi: "path_ok 2 (px @ [i])" using px by (auto simp: path_ok_def)
  note t = aspace_page [OF a px(3,1)]
  have al: "page_aligned t" "page_aligned q" using t q(1) by (auto dest: kern_page_aligned)
  obtain s1 where s1: "kalloc s = Inr (q, s1)" "free_pages s1 qs" "mem s1 = zero_page (mem s) q"
      "kmem_frame s s1"
    using kalloc_step [OF fp] by blast
  let ?g = "graft (mem s) t i q"
  let ?s = "s1\<lparr>mem := ?g\<rparr>"
  have sl: "t + 8 * PIDX l va = t + 8 * of_nat i" using i by simp
  have w: "walk_level l va t s = Inr (Some q, ?s)"
  proof -
    have "\<not> is_table (ld64 (mem s) (t + 8 * of_nat i))"
      using none l px(2) by (auto simp: ent_def Let_def split: if_splits)
    then show ?thesis
      unfolding walk_level_def Let_def sl
      using s1 kern_page_nonzero [OF q(1)] by (simp add: graft_def table_entry_def)
  qed
  have none': "ent (mem s) (Suc (length px)) t i = None" using none l by simp
  note tg = tree_graft [OF tr px(1,2) pi none' q]
  have out: "?g x = mem s x" if "\<not> in_page t x" "\<not> in_page q x" for x
    using that al i5 st64_out_page [of t "t + 8 * of_nat i" x]
    by (simp add: graft_def zero_page_apply slot_aligned8 slot_in_page)
  have "free_pages ?s qs"
  proof (rule kpages.pool_write [OF s1(2)])
    fix p x assume p: "p \<in> set qs" "in_page p x"
    have "page_aligned p" "p \<noteq> q" using free_pages_ok [OF fp] p(1) by auto
    moreover have "p \<noteq> t" using t p(1) by auto
    ultimately have "\<not> in_page t x" "\<not> in_page q x" using p(2) al in_page_disjoint by blast+
    then show "?g x = mem s1 x" using out s1(3) by (simp add: zero_page_apply)
  qed
  moreover have "q \<notin> set qs" using free_pages_ok [OF fp] by simp
  ultimately have "aspace ?s pgt qs"
    using a tg by (auto simp: aspace_def)
  moreover have "mem ?s x = mem s x" if "outside (owned s pgt ?ps) x" for x
    using that t out by (auto simp: outside_def owned_def)
  moreover have "owned ?s pgt qs \<subseteq> owned s pgt ?ps"
    using tg by (auto simp: owned_def)
  moreover have "leaf (mem ?s) pgt ix = leaf (mem s) pgt ix" if "path_ok 3 ix" "length ix = 3" for ix
    using leaf_graft [OF tr px(1,2) pi none' q that] by simp
  ultimately have "grows pgt {} s ?ps ?s qs"
    using s1(4) by (simp add: grows_def suffix_ConsI)
  moreover have "node (mem ?s) 1 pgt (px @ [i]) = Some q"
    using node_graft [OF tr px(1,2) pi none' q pi] by simp
  ultimately show ?thesis using w by (intro exI [of _ ?s]) simp
qed

lemma walk_level_spec:
  assumes a: "aspace s pgt ps" "ps \<noteq> []" and px: "node (mem s) 1 pgt px = Some t" "length px < 2" "path_ok 2 px"
    and l: "l = Suc (length px)"
  shows "\<exists>u s' qs. walk_level l va t s = Inr (Some u, s') \<and>
           node (mem s') 1 pgt (px @ [unat (PIDX l va)]) = Some u \<and>
           grows pgt {} s ps s' qs \<and> length ps \<le> Suc (length qs)"
proof (cases "ent (mem s) l t (unat (PIDX l va))")
  case None
  obtain q qs where ps: "ps = q # qs" using a(2) by (cases ps) auto
  show ?thesis using walk_level_miss [OF a(1) [unfolded ps] px l refl None] ps by auto
next
  case (Some u)
  have "walk_level l va t s = Inr (Some u, s)" using Some l px(2) by (intro walk_level_hit) simp_all
  moreover have "node (mem s) 1 pgt (px @ [unat (PIDX l va)]) = Some u"
    using Some px(1) l by (simp add: node_append)
  ultimately show ?thesis
    using grows_refl [OF a(1)] by (intro exI [of _ u] exI [of _ s] exI [of _ ps]) simp
qed

lemma vpath_simps [simp]:
  "butlast (vpath va) = [unat (PIDX 1 va), unat (PIDX 2 va)]" "last (vpath va) = unat (PIDX 3 va)"
  "length (vpath va) = 3" "path_ok 3 (vpath va)"
  by (simp_all add: vpath_def path_ok_def PIDX_bound)

text \<open>On a mapped address \<open>pagewalk\<close> only looks.\<close>

lemma pagewalk_hit:
  assumes "node (mem s) 1 pgt (butlast (vpath va)) = Some t"
  shows "pagewalk pgt va s = Inr (t + 8 * PIDX 3 va, s)"
proof -
  obtain u where u: "ent (mem s) 1 pgt (unat (PIDX 1 va)) = Some u" "ent (mem s) 2 u (unat (PIDX 2 va)) = Some t"
    using assms by (auto split: option.splits simp: numeral_2_eq_2)
  then show ?thesis by (simp add: pagewalk_def walk_level_hit del: One_nat_def)
qed

text \<open>With two free pages it always ends at the entry of the address, whose table now exists.\<close>

lemma pagewalk_spec:
  assumes a: "aspace s pgt ps" "2 \<le> length ps"
  shows "\<exists>t s' qs. pagewalk pgt va s = Inr (t + 8 * PIDX 3 va, s') \<and>
           node (mem s') 1 pgt (butlast (vpath va)) = Some t \<and>
           grows pgt {} s ps s' qs \<and> length ps \<le> 2 + length qs"
proof -
  have ne: "ps \<noteq> []" using a(2) by auto
  obtain u s1 qs where 1: "walk_level 1 va pgt s = Inr (Some u, s1)"
      "node (mem s1) 1 pgt [unat (PIDX 1 va)] = Some u" "grows pgt {} s ps s1 qs" "length ps \<le> Suc (length qs)"
    using walk_level_spec [OF a(1) ne, of "[]" pgt 1 va] by (auto simp: path_ok_def)
  have ne1: "qs \<noteq> []" using 1(4) a(2) by auto
  obtain t s2 rs where 2: "walk_level 2 va u s1 = Inr (Some t, s2)"
      "node (mem s2) 1 pgt [unat (PIDX 1 va), unat (PIDX 2 va)] = Some t" "grows pgt {} s1 qs s2 rs"
      "length qs \<le> Suc (length rs)"
    using walk_level_spec [OF grows_aspace [OF 1(3)] ne1 1(2), of 2 va]
    by (auto simp: path_ok_def PIDX_bound)
  have "grows pgt {} s ps s2 rs" using grows_trans [OF 1(3) 2(3)] by simp
  with 1(1,4) 2(1,2,4) show ?thesis by (auto simp: pagewalk_def)
qed

lemma pagewalk_hit_spec:
  assumes "node (mem s) 1 pgt (butlast (vpath va)) = Some t"
  shows "leaf (mem s) pgt (vpath va) = ld64 (mem s) (t + 8 * PIDX 3 va)"
  using assms by (simp add: leaf_def del: One_nat_def)


section \<open>Addresses and their paths\<close>

lemma unat_PIDX: "unat (PIDX l va) = unat va div 2 ^ (39 - l * 9) mod 512"
proof -
  have "(0x1ff :: u64) = mask 9" by (simp add: mask_eq_exp_minus_1)
  then have "PIDX l va = take_bit 9 (drop_bit (39 - l * 9) va)"
    by (simp add: PIDX_def take_bit_eq_mask)
  then have "unat (PIDX l va) = take_bit 9 (unat (drop_bit (39 - l * 9) va))"
    by (simp only: unsigned_take_bit_eq)
  also have "unat (drop_bit (39 - l * 9) va) = unat va div 2 ^ (39 - l * 9)"
    unfolding unat_drop_bit_eq by (simp only: drop_bit_eq_div)
  finally show ?thesis by (simp add: take_bit_eq_mod)
qed

lemma vpath_nat: "vpath va = (let n = unat va div 4096 in [n div 262144 mod 512, n div 512 mod 512, n mod 512])"
  by (simp add: vpath_def unat_PIDX div_mult2_eq [symmetric])

lemma nat_digits: "n < 134217728 \<Longrightarrow> n = n div 262144 mod 512 * 262144 + n div 512 mod 512 * 512 + n mod 512" for n :: nat
proof -
  assume "n < 134217728"
  then have "n div 262144 mod 512 = n div 262144" by simp
  moreover have "n div 262144 = n div 512 div 512" by (simp add: div_mult2_eq [symmetric])
  moreover have "n = n div 512 * 512 + n mod 512" "n div 512 = n div 512 div 512 * 512 + n div 512 mod 512"
    by simp_all
  ultimately show ?thesis by linarith
qed

text \<open>Below 2^39 different pages have different paths.\<close>

lemma vpath_inj:
  assumes "page_aligned a" "page_aligned b" "unat a < 2 ^ 39" "unat b < 2 ^ 39" "vpath a = vpath b"
  shows "a = b"
proof -
  obtain j k where jk: "unat a = 4096 * j" "unat b = 4096 * k"
    using assms(1,2) by (auto elim!: page_alignedE)
  have "j < 134217728" "k < 134217728" using jk assms(3,4) by simp_all
  moreover have "j div 262144 mod 512 = k div 262144 mod 512" "j div 512 mod 512 = k div 512 mod 512"
      "j mod 512 = k mod 512"
    using assms(5) jk by (simp_all add: vpath_nat Let_def)
  ultimately have "j = k" using nat_digits [of j] nat_digits [of k] by simp
  then show ?thesis using jk by (simp add: word_unat_eq_iff)
qed

definition page_at :: "u64 \<Rightarrow> nat \<Rightarrow> u64" where
  "page_at va i = va + of_nat i * PAGESIZE"

lemma page_at_0 [simp]: "page_at va 0 = va"
  by (simp add: page_at_def)

lemma page_at_Suc: "page_at va (Suc i) = page_at (va + PAGESIZE) i"
  by (simp add: page_at_def algebra_simps)

lemma unat_page_at:
  assumes "unat va + 4096 * i < 2 ^ 64"
  shows "unat (page_at va i) = unat va + 4096 * i"
proof -
  have "unat (of_nat i * PAGESIZE) = 4096 * i"
    using assms by (simp add: unat_word_ariths unat_of_nat_small)
  then show ?thesis
    using assms unat_add_lem [of va "of_nat i * PAGESIZE"] by (simp add: page_at_def)
qed

lemma page_aligned_page_at:
  assumes "page_aligned va" "unat va + 4096 * i < 2 ^ 64"
  shows "page_aligned (page_at va i)"
  using assms by (auto simp: page_aligned_def unat_page_at)

lemma vpath_page_at_inj:
  assumes "page_aligned va" "unat va + 4096 * n \<le> 2 ^ 39" "i < n" "j < n"
    "vpath (page_at va i) = vpath (page_at va j)"
  shows "i = j"
proof -
  have u: "unat (page_at va i) = unat va + 4096 * i" "unat (page_at va j) = unat va + 4096 * j"
    using assms by (simp_all add: unat_page_at)
  have al: "page_aligned (page_at va i)" "page_aligned (page_at va j)"
    using assms(2-4) by (simp_all add: page_aligned_page_at [OF assms(1)])
  have "unat (page_at va i) < 2 ^ 39" "unat (page_at va j) < 2 ^ 39"
    unfolding u using assms(2-4) by simp_all
  then have "page_at va i = page_at va j"
    using vpath_inj [OF al] assms(5) by blast
  then have "unat (page_at va i) = unat (page_at va j)" by simp
  then show ?thesis unfolding u by simp
qed

section \<open>Writing leaf entries\<close>

lemma leaf_store:
  assumes a: "aspace s pgt ps" and t: "node (mem s) 1 pgt (butlast (vpath va)) = Some t"
  shows "grows pgt {vpath va} s ps (s\<lparr>mem := st64 (mem s) (t + 8 * PIDX 3 va) w\<rparr>) ps"
    "leaf (st64 (mem s) (t + 8 * PIDX 3 va) w) pgt (vpath va) = w"
proof -
  obtain i where i: "i < 512" "PIDX 3 va = of_nat i" "unat (PIDX 3 va) = i"
    using PIDX_bound [of 3 va] by (intro that [of "unat (PIDX 3 va)"]) simp_all
  let ?m = "st64 (mem s) (t + 8 * of_nat i) w"
  have tr: "tree 1 (mem s) pgt" and fp: "free_pages s ps" using a by (simp_all add: aspace_def)
  have px: "length (butlast (vpath va)) = 2" "path_ok 2 (butlast (vpath va))"
    using path_ok_last [of "vpath va"] by auto
  note T = aspace_page [OF a px(2) t]
  then have al: "page_aligned t" by (auto dest: kern_page_aligned)
  have n: "node ?m 1 pgt ix = node (mem s) 1 pgt ix" if "path_ok 2 ix" for ix
    using node_leaf_store [OF tr t px i(1) that] .
  have tt: "tree 1 ?m pgt" "tables 1 ?m pgt = tables 1 (mem s) pgt"
    by (rule tree_leaf_store [OF tr t px i(1)])+
  have out: "?m x = mem s x" if "\<not> in_page t x" for x
    using that al i(1) st64_out_page [of t "t + 8 * of_nat i" x] by (simp add: slot_aligned8 slot_in_page)
  have "free_pages (s\<lparr>mem := ?m\<rparr>) ps"
  proof (rule kpages.pool_write [OF fp])
    fix p x assume p: "p \<in> set ps" "in_page p x"
    then have "page_aligned p" "p \<noteq> t" using free_pages_ok [OF fp] T by auto
    then have "\<not> in_page t x" using p(2) al in_page_disjoint by blast
    then show "?m x = mem s x" by (rule out)
  qed
  then have "aspace (s\<lparr>mem := ?m\<rparr>) pgt ps" using a tt by (simp add: aspace_def)
  moreover have "leaf ?m pgt ix = leaf (mem s) pgt ix" if ix: "path_ok 3 ix" "length ix = 3" "ix \<noteq> vpath va" for ix
  proof -
    note l = path_ok_last [OF ix(1,2)]
    have "ld64 ?m (u + 8 * of_nat (last ix)) = ld64 (mem s) (u + 8 * of_nat (last ix))"
      if u: "node (mem s) 1 pgt (butlast ix) = Some u" for u
    proof -
      have pu: "page_aligned u" using tree_kern [OF tr _ u] l by (auto dest: kern_page_aligned)
      have "\<not> (t = u \<and> i = last ix)"
      proof
        assume c: "t = u \<and> i = last ix"
        have two: "3 - 1 = (2 :: nat)" by simp
        have "butlast ix = butlast (vpath va)"
          using tree_inj [OF tr, unfolded two, OF _ px(2) u] l t c by blast
        moreover have "last ix = last (vpath va)" using c i(3) by simp
        ultimately have "ix = vpath va"
          using ix(2) append_butlast_last_id [of ix] append_butlast_last_id [of "vpath va"]
          by (metis vpath_simps(3) list.size(3) zero_neq_numeral)
        with ix(3) show False by simp
      qed
      then show ?thesis using l al pu i(1) by (simp only: ld64_slot_store if_False)
    qed
    then show ?thesis using n [OF conjunct1 [OF conjunct2 [OF l]]] unfolding leaf_def by (simp split: option.splits)
  qed
  moreover have "?m x = mem s x" if "outside (owned s pgt ps) x" for x
    using that T out by (auto simp: outside_def owned_def)
  ultimately have "grows pgt {vpath va} s ps (s\<lparr>mem := ?m\<rparr>) ps"
    using tt by (simp add: grows_def owned_def)
  then show "grows pgt {vpath va} s ps (s\<lparr>mem := st64 (mem s) (t + 8 * PIDX 3 va) w\<rparr>) ps" by (simp only: i(2))
  show "leaf (st64 (mem s) (t + 8 * PIDX 3 va) w) pgt (vpath va) = w"
    using n [OF px(2)] t by (simp add: leaf_def i(2,3) del: One_nat_def)
qed

lemma grows_leaf:
  "grows pgt V s ps t qs \<Longrightarrow> vpath va \<notin> V \<Longrightarrow> leaf (mem t) pgt (vpath va) = leaf (mem s) pgt (vpath va)"
  by (simp add: grows_def)


section \<open>Mapping\<close>

text \<open>The entry \<open>pagemap\<close> writes.\<close>

definition leaf_entry :: "u64 \<Rightarrow> u64 \<Rightarrow> u64" where
  "leaf_entry pa attr = PTE_PA pa OR PTE_AF OR attr OR PTE_V"

text \<open>The paths of \<open>n\<close> pages from \<open>va\<close> on.\<close>

definition vrange :: "u64 \<Rightarrow> nat \<Rightarrow> nat list set" where
  "vrange va n = (\<lambda>i. vpath (page_at va i)) ` {..<n}"

lemma vrange_0 [simp]: "vrange va 0 = {}"
  by (simp add: vrange_def)

lemma vrange_Suc: "vrange va (Suc n) = insert (vpath va) (vrange (va + PAGESIZE) n)"
  unfolding vrange_def by (simp add: lessThan_Suc_eq_insert_0 image_image page_at_Suc del: lessThan_Suc)

lemma page_at_add: "page_at (page_at va m) i = page_at va (m + i)"
  by (simp add: page_at_def algebra_simps)

lemma vrange_append: "vrange va (m + n) = vrange va m \<union> vrange (page_at va m) n"
proof -
  have "{..<m + n} = {..<m} \<union> (+) m ` {..<n}"
  proof (intro set_eqI)
    fix x
    have "x = m + (x - m)" if "\<not> x < m" using that by simp
    then show "x \<in> {..<m + n} \<longleftrightarrow> x \<in> {..<m} \<union> (+) m ` {..<n}"
      by (cases "x < m") (auto intro: image_eqI [of _ _ "x - m"])
  qed
  then show ?thesis by (simp add: vrange_def image_Un image_image page_at_add)
qed

lemma page_next:
  assumes "page_aligned va" "unat va + 4096 * Suc n \<le> 2 ^ 39"
  shows "unat (va + PAGESIZE) = unat va + 4096" "page_aligned (va + PAGESIZE)"
proof -
  show "unat (va + PAGESIZE) = unat va + 4096"
    using unat_page_at [of va 1] assms(2) by (simp add: page_at_def)
  then show "page_aligned (va + PAGESIZE)" using assms(1) by (simp add: page_aligned_def)
qed

lemma vpath_notin_next:
  assumes "page_aligned va" "unat va + 4096 * Suc n \<le> 2 ^ 39"
  shows "vpath va \<notin> vrange (va + PAGESIZE) n"
proof
  assume "vpath va \<in> vrange (va + PAGESIZE) n"
  then obtain i where "i < n" "vpath (page_at va 0) = vpath (page_at va (Suc i))"
    by (auto simp: vrange_def page_at_Suc)
  then show False using vpath_page_at_inj [OF assms, of 0 "Suc i"] by simp
qed

lemma vpath_next_ne:
  assumes "page_aligned va" "unat va + 4096 * Suc n \<le> 2 ^ 39" "i < n"
  shows "vpath (page_at (va + PAGESIZE) i) \<noteq> vpath va"
  using vpath_page_at_inj [OF assms(1,2), of 0 "Suc i"] assms(3) by (auto simp: page_at_Suc)

lemma map_one:
  assumes a: "aspace s pgt ps" "2 \<le> length ps" and free: "leaf (mem s) pgt (vpath va) AND PTE_AF = 0"
  shows "\<exists>t qs. (\<forall>n. map_pages (Suc n) pgt va pa attr s =
                      map_pages n pgt (va + PAGESIZE) (pa + PAGESIZE) attr t) \<and>
           grows pgt {vpath va} s ps t qs \<and> leaf (mem t) pgt (vpath va) = leaf_entry pa attr \<and>
           length ps \<le> 2 + length qs"
proof -
  obtain u s1 qs where w: "pagewalk pgt va s = Inr (u + 8 * PIDX 3 va, s1)"
      "node (mem s1) 1 pgt (butlast (vpath va)) = Some u" "grows pgt {} s ps s1 qs" "length ps \<le> 2 + length qs"
    using pagewalk_spec [OF a] by blast
  note a1 = grows_aspace [OF w(3)]
  have ku: "kern_page u" using aspace_page [OF a1 _ w(2)] path_ok_last [of "vpath va"] by simp
  have nz: "u + 8 * PIDX 3 va \<noteq> 0" using slot_nonzero [OF ku PIDX_bound [of 3 va]] by simp
  have lf: "ld64 (mem s1) (u + 8 * PIDX 3 va) AND PTE_AF = 0"
    using pagewalk_hit_spec [OF w(2)] grows_leaf [OF w(3), of va] free by simp
  let ?t = "s1\<lparr>mem := st64 (mem s1) (u + 8 * PIDX 3 va) (leaf_entry pa attr)\<rparr>"
  have "map_pages (Suc n) pgt va pa attr s = map_pages n pgt (va + PAGESIZE) (pa + PAGESIZE) attr ?t" for n
    using w(1) nz lf by (simp add: leaf_entry_def)
  moreover have "grows pgt {vpath va} s ps ?t qs"
    using grows_trans [OF w(3) leaf_store(1) [OF a1 w(2)]] by simp
  moreover have "leaf (mem ?t) pgt (vpath va) = leaf_entry pa attr"
    using leaf_store(2) [OF a1 w(2)] by simp
  ultimately show ?thesis using w(4) by blast
qed

lemma map_pages_spec:
  assumes "aspace s pgt ps" "2 * n \<le> length ps" "page_aligned va" "unat va + 4096 * n \<le> 2 ^ 39"
    "\<And>i. i < n \<Longrightarrow> leaf (mem s) pgt (vpath (page_at va i)) AND PTE_AF = 0"
  shows "\<exists>t qs. map_pages n pgt va pa attr s = Inr t \<and> grows pgt (vrange va n) s ps t qs \<and>
           (\<forall>i<n. leaf (mem t) pgt (vpath (page_at va i)) = leaf_entry (page_at pa i) attr) \<and>
           length ps \<le> 2 * n + length qs"
  using assms
proof (induction n arbitrary: va pa s ps)
  case 0
  then show ?case using grows_refl [OF 0(1), of "{}"] by (auto intro!: exI [of _ ps])
next
  case (Suc n)
  obtain t qs where t: "\<And>n. map_pages (Suc n) pgt va pa attr s =
        map_pages n pgt (va + PAGESIZE) (pa + PAGESIZE) attr t"
      "grows pgt {vpath va} s ps t qs" "leaf (mem t) pgt (vpath va) = leaf_entry pa attr"
      "length ps \<le> 2 + length qs"
    using map_one [OF Suc.prems(1), of va pa attr] Suc.prems(2) Suc.prems(5) [of 0] by auto
  note nxt = page_next [OF Suc.prems(3,4)]
  note new = vpath_notin_next [OF Suc.prems(3,4)]
  have "leaf (mem t) pgt (vpath (page_at (va + PAGESIZE) i)) AND PTE_AF = 0" if "i < n" for i
  proof -
    have "vpath (page_at (va + PAGESIZE) i) \<noteq> vpath va" using vpath_next_ne [OF Suc.prems(3,4) that] .
    then show ?thesis using grows_leaf [OF t(2), of "page_at (va + PAGESIZE) i"] Suc.prems(5) [of "Suc i"] that
      by (simp add: page_at_Suc)
  qed
  moreover have "2 * n \<le> length qs" using t(4) Suc.prems(2) by simp
  ultimately obtain u rs where u: "map_pages n pgt (va + PAGESIZE) (pa + PAGESIZE) attr t = Inr u"
      "grows pgt (vrange (va + PAGESIZE) n) t qs u rs"
      "\<forall>i<n. leaf (mem u) pgt (vpath (page_at (va + PAGESIZE) i)) = leaf_entry (page_at (pa + PAGESIZE) i) attr"
      "length qs \<le> 2 * n + length rs"
    using Suc.IH [OF grows_aspace [OF t(2)], of "va + PAGESIZE" "pa + PAGESIZE"] nxt Suc.prems(4) by auto
  have "leaf (mem u) pgt (vpath (page_at va i)) = leaf_entry (page_at pa i) attr" if "i < Suc n" for i
  proof (cases i)
    case 0
    then show ?thesis using grows_leaf [OF u(2) new] t(3) by simp
  next
    case (Suc j)
    then show ?thesis using u(3) that by (simp add: page_at_Suc)
  qed
  moreover have "grows pgt (vrange va (Suc n)) s ps u rs"
    using grows_trans [OF t(2) u(2)] by (simp add: vrange_Suc)
  moreover have "map_pages (Suc n) pgt va pa attr s = Inr u" using t(1) u(1) by simp
  ultimately show ?case using t(4) u(4) by fastforce
qed

text \<open>The first page of the range that is mapped already stops the machine.\<close>

lemma map_pages_used:
  assumes "aspace s pgt ps" "2 * n \<le> length ps" "page_aligned va" "unat va + 4096 * n \<le> 2 ^ 39"
    "i < n" "leaf (mem s) pgt (vpath (page_at va i)) AND PTE_AF \<noteq> 0"
  shows "map_pages n pgt va pa attr s = Inl (Panic ''this entry has been used'')"
  using assms
proof (induction n arbitrary: va pa s ps i)
  case 0
  then show ?case by simp
next
  case (Suc n)
  show ?case
  proof (cases "leaf (mem s) pgt (vpath va) AND PTE_AF = 0")
    case False
    obtain u s1 qs where w: "pagewalk pgt va s = Inr (u + 8 * PIDX 3 va, s1)"
        "node (mem s1) 1 pgt (butlast (vpath va)) = Some u" "grows pgt {} s ps s1 qs"
      using pagewalk_spec [OF Suc.prems(1), of va] Suc.prems(2) by auto
    have ku: "kern_page u"
      using aspace_page [OF grows_aspace [OF w(3)] _ w(2)] path_ok_last [of "vpath va"] by simp
    have "u + 8 * PIDX 3 va \<noteq> 0" using slot_nonzero [OF ku PIDX_bound [of 3 va]] by simp
    moreover have "ld64 (mem s1) (u + 8 * PIDX 3 va) AND PTE_AF \<noteq> 0"
      using pagewalk_hit_spec [OF w(2)] grows_leaf [OF w(3), of va] False by simp
    ultimately show ?thesis using w(1) by simp
  next
    case True
    then obtain j where i: "i = Suc j" using Suc.prems(6) by (cases i) auto
    obtain t qs where t: "\<And>n. map_pages (Suc n) pgt va pa attr s =
          map_pages n pgt (va + PAGESIZE) (pa + PAGESIZE) attr t"
        "grows pgt {vpath va} s ps t qs" "length ps \<le> 2 + length qs"
      using map_one [OF Suc.prems(1) _ True, of pa attr] Suc.prems(2) by auto
    note nxt = page_next [OF Suc.prems(3,4)]
    have "vpath (page_at (va + PAGESIZE) j) \<noteq> vpath va"
      using vpath_next_ne [OF Suc.prems(3,4)] Suc.prems(5) i by simp
    then have "leaf (mem t) pgt (vpath (page_at (va + PAGESIZE) j)) AND PTE_AF \<noteq> 0"
      using grows_leaf [OF t(2)] Suc.prems(6) i by (simp add: page_at_Suc)
    moreover have "2 * n \<le> length qs" using t(3) Suc.prems(2) by simp
    ultimately show ?thesis
      using Suc.IH [OF grows_aspace [OF t(2)], of "va + PAGESIZE" j "pa + PAGESIZE"] nxt
        Suc.prems(4,5) i t(1) by simp
  qed
qed

end
