(* ===== verification/Freetable.thy ===== *)
theory Freetable
  imports Pagetable
begin

text \<open>
  What \<open>free_table\<close> of kernel/mm.c does on a proper tree: it gives every table back to the pool,
  each once. The depth 3 of the table format is enough fuel for its recursion.
\<close>

unbundle bit_operations_syntax

section \<open>The subtrees of a table\<close>

text \<open>The tables below the entries from \<open>k\<close> on.\<close>

definition below :: "nat \<Rightarrow> mem \<Rightarrow> u64 \<Rightarrow> nat \<Rightarrow> u64 set" where
  "below l m t k = {v. \<exists>i u. k \<le> i \<and> i < 512 \<and> ent m l t i = Some u \<and> v \<in> tables (Suc l) m u}"

lemma path_ok_Cons: "l < 3 \<Longrightarrow> path_ok (3 - l) (i # ix) \<longleftrightarrow> i < 512 \<and> path_ok (3 - Suc l) ix"
  by (auto simp: path_ok_def)

lemma node_child:
  "ent m l t i = Some u \<Longrightarrow> node m l t (i # ix) = node m (Suc l) u ix"
  by simp

lemma tree_child:
  assumes "tree l m t" "l < 3" "i < 512" "ent m l t i = Some u"
  shows "tree (Suc l) m u"
proof -
  have up: "path_ok (3 - l) (i # ix)" if "path_ok (3 - Suc l) ix" for ix
    using that assms(2,3) path_ok_Cons by blast
  note nd = node_child [OF assms(4)]
  show ?thesis
    unfolding tree_def
  proof (intro conjI allI impI)
    fix ix v assume "path_ok (3 - Suc l) ix" "node m (Suc l) u ix = Some v"
    then show "kern_page v" using tree_kern [OF assms(1) up] nd by metis
  next
    fix ix jx v assume "path_ok (3 - Suc l) ix" "path_ok (3 - Suc l) jx"
      "node m (Suc l) u ix = Some v" "node m (Suc l) u jx = Some v"
    then have "i # ix = i # jx" using tree_inj [OF assms(1) up up] nd by metis
    then show "ix = jx" by simp
  next
    fix ix j v assume "path_ok (3 - Suc l) (ix @ [j])" "node m (Suc l) u ix = Some v"
      "is_table (ld64 m (v + 8 * of_nat j))"
    then show "ld64 m (v + 8 * of_nat j) AND PTE_AF = 0"
      using tree_AF [OF assms(1), of "i # ix" j v] up [of "ix @ [j]"] nd by simp
  qed
qed

lemma tables_child:
  assumes "l < 3"
  shows "tables l m t = insert t (below l m t 0)"
proof (intro set_eqI iffI)
  fix v assume "v \<in> tables l m t"
  then obtain ix where ix: "path_ok (3 - l) ix" "node m l t ix = Some v" by (auto simp: tables_def)
  show "v \<in> insert t (below l m t 0)"
  proof (cases ix)
    case Nil
    then show ?thesis using ix by simp
  next
    case (Cons i jx)
    then obtain u where "ent m l t i = Some u" "node m (Suc l) u jx = Some v"
      using ix(2) by (auto split: option.splits)
    then show ?thesis using ix(1) Cons path_ok_Cons [OF assms] by (auto simp: below_def tables_def)
  qed
next
  fix v assume v: "v \<in> insert t (below l m t 0)"
  show "v \<in> tables l m t"
  proof (cases "v = t")
    case True
    then show ?thesis by (simp add: tables_root)
  next
    case False
    then obtain i u ix where "i < 512" "ent m l t i = Some u" "path_ok (3 - Suc l) ix" "node m (Suc l) u ix = Some v"
      using v by (auto simp: below_def tables_def)
    then show ?thesis using path_ok_Cons [OF assms]
      unfolding tables_def by (intro CollectI exI [of _ "i # ix"]) simp
  qed
qed

lemma tables_last: "tables 3 m t = {t}"
  by (auto simp: tables_def path_ok_def)

text \<open>The subtrees are apart from each other and from their parent.\<close>

lemma child_disjoint:
  assumes "tree l m t" "l < 3" "i < 512" "j < 512" "ent m l t i = Some u" "ent m l t j = Some v" "i \<noteq> j"
  shows "tables (Suc l) m u \<inter> tables (Suc l) m v = {}"
proof -
  have False if "path_ok (3 - Suc l) ix" "path_ok (3 - Suc l) jx"
    "node m (Suc l) u ix = Some w" "node m (Suc l) v jx = Some w" for ix jx w
  proof -
    have "i # ix = j # jx"
      using that assms path_ok_Cons [OF assms(2)] by (intro tree_inj [OF assms(1)]) auto
    with assms(7) show False by simp
  qed
  then show ?thesis by (auto simp: tables_def)
qed

lemma root_not_below:
  assumes "tree l m t" "l < 3"
  shows "t \<notin> below l m t k"
proof
  assume "t \<in> below l m t k"
  then obtain i u ix where *: "i < 512" "ent m l t i = Some u" "path_ok (3 - Suc l) ix" "node m (Suc l) u ix = Some t"
    by (auto simp: below_def tables_def)
  have "[] = i # ix"
    using * path_ok_Cons [OF assms(2)] by (intro tree_inj [OF assms(1)]) (auto simp: path_ok_def)
  then show False by simp
qed

lemma below_step:
  assumes "k < 512"
  shows "below l m t k = (case ent m l t k of None \<Rightarrow> {} | Some u \<Rightarrow> tables (Suc l) m u) \<union> below l m t (Suc k)"
proof -
  have *: "below l m t j = (\<Union>i\<in>{j..<512}. case ent m l t i of None \<Rightarrow> {} | Some u \<Rightarrow> tables (Suc l) m u)" for j
    by (fastforce simp: below_def split: option.splits)
  have "{k..<512} = insert k {Suc k..<512}" using assms by auto
  then show ?thesis unfolding * by simp
qed

lemma below_end: "below l m t 512 = {}"
  by (auto simp: below_def)

lemma below_kern:
  assumes "tree l m t" "l < 3" "v \<in> below l m t k"
  shows "kern_page v"
proof -
  obtain i u where "i < 512" "ent m l t i = Some u" "v \<in> tables (Suc l) m u"
    using assms(3) by (auto simp: below_def)
  then show ?thesis using tree_child [OF assms(1,2)] tables_kern by blast
qed

text \<open>A bare last-level table: nothing in it looks like a link to a further table.\<close>

definition bare :: "nat \<Rightarrow> mem \<Rightarrow> u64 \<Rightarrow> bool" where
  "bare l m t \<longleftrightarrow> (\<forall>ix u i. path_ok (3 - l) ix \<longrightarrow> length ix = 3 - l \<longrightarrow> node m l t ix = Some u \<longrightarrow> i < 512 \<longrightarrow>
     is_table (ld64 m (u + 8 * of_nat i)) \<longrightarrow> ld64 m (u + 8 * of_nat i) AND PTE_AF \<noteq> 0)"

lemma bare_child:
  assumes "bare l m t" "l < 3" "i < 512" "ent m l t i = Some u"
  shows "bare (Suc l) m u"
  unfolding bare_def
proof (intro allI impI)
  fix ix v j
  assume *: "path_ok (3 - Suc l) ix" "length ix = 3 - Suc l" "node m (Suc l) u ix = Some v" "j < 512"
    "is_table (ld64 m (v + 8 * of_nat j))"
  have "path_ok (3 - l) (i # ix)" "length (i # ix) = 3 - l" "node m l t (i # ix) = Some v"
    using * assms path_ok_Cons by auto
  then show "ld64 m (v + 8 * of_nat j) AND PTE_AF \<noteq> 0"
    using assms(1) * unfolding bare_def by blast
qed

lemma bare_agree:
  assumes "bare l m t" "tree l m t" "\<And>u x. u \<in> tables l m t \<Longrightarrow> in_page u x \<Longrightarrow> m' x = m x"
  shows "bare l m' t"
  unfolding bare_def
proof (intro allI impI)
  fix ix u i
  assume *: "path_ok (3 - l) ix" "length ix = 3 - l" "node m' l t ix = Some u" "i < 512"
    and e: "is_table (ld64 m' (u + 8 * of_nat i))"
  have n: "node m l t ix = Some u"
    using node_agree [OF assms(2) _ assms(3), of ix] * by (auto simp: path_ok_def)
  then have "u \<in> tables l m t" "page_aligned u"
    using *(1) assms(2) by (auto simp: tables_def dest: tree_kern kern_page_aligned)
  then have "ld64 m' (u + 8 * of_nat i) = ld64 m (u + 8 * of_nat i)"
    using *(4) assms(3) by (intro ld64_page_cong [of u]) (auto intro: slot_aligned8 slot_in_page)
  then show "ld64 m' (u + 8 * of_nat i) AND PTE_AF \<noteq> 0"
    using assms(1) * n e unfolding bare_def by auto
qed


section \<open>Freeing\<close>

text \<open>What the loop over the entries of \<open>t\<close> needs, from entry \<open>k\<close> on.\<close>

definition loop_ok :: "nat \<Rightarrow> mem \<Rightarrow> u64 \<Rightarrow> nat \<Rightarrow> u64 list \<Rightarrow> bool" where
  "loop_ok l m t k ps \<longleftrightarrow> kern_page t \<and> t \<notin> set ps \<and>
     (\<forall>i u. k \<le> i \<longrightarrow> i < 512 \<longrightarrow> ent m l t i = Some u \<longrightarrow>
        tree (Suc l) m u \<and> bare (Suc l) m u \<and> t \<notin> tables (Suc l) m u \<and>
        tables (Suc l) m u \<inter> set ps = {} \<and> ld64 m (t + 8 * of_nat i) AND PTE_AF = 0) \<and>
     (\<forall>i j u v. k \<le> i \<longrightarrow> i < j \<longrightarrow> j < 512 \<longrightarrow> ent m l t i = Some u \<longrightarrow> ent m l t j = Some v \<longrightarrow>
        tables (Suc l) m u \<inter> tables (Suc l) m v = {})"

lemma loop_ok_start:
  assumes tr: "tree l m t" and l: "l < 3" and "bare l m t" "tables l m t \<inter> set ps = {}"
  shows "loop_ok l m t 0 ps"
proof -
  have "kern_page t" using tables_kern [OF tr tables_root] .
  moreover have "t \<notin> set ps" using assms(4) tables_root [of t l m] by blast
  moreover have "tree (Suc l) m u \<and> bare (Suc l) m u \<and> t \<notin> tables (Suc l) m u \<and>
      tables (Suc l) m u \<inter> set ps = {} \<and> ld64 m (t + 8 * of_nat i) AND PTE_AF = 0"
    if i: "i < 512" "ent m l t i = Some u" for i u
  proof -
    have sub: "tables (Suc l) m u \<subseteq> below l m t 0" using i by (auto simp: below_def)
    moreover have "is_table (ld64 m (t + 8 * of_nat i))" using i(2) l by (auto simp: ent_def Let_def split: if_splits)
    then have "ld64 m (t + 8 * of_nat i) AND PTE_AF = 0"
      using tree_AF [OF tr, of "[]" i t] i(1) l by (auto simp: path_ok_def)
    ultimately show ?thesis
      using tree_child [OF tr l i] bare_child [OF assms(3) l i] root_not_below [OF tr l, of 0]
        assms(4) tables_child [OF l, of m t] by blast
  qed
  moreover have "tables (Suc l) m u \<inter> tables (Suc l) m v = {}"
    if "i < j" "j < 512" "ent m l t i = Some u" "ent m l t j = Some v" for i j u v
    using child_disjoint [OF tr l, of i j u v] that by auto
  ultimately show ?thesis by (auto simp: loop_ok_def)
qed

text \<open>After the subtree of entry \<open>k\<close> is gone and its entry cleared, the rest is as before.\<close>

lemma loop_ok_step:
  assumes L: "loop_ok l m t k ps" and k: "k < 512" "ent m l t k = Some u" and l: "l < 3"
    and m': "\<And>x. outside (tables (Suc l) m u) x \<Longrightarrow> m' x = m x"
    and rs: "set rs = tables (Suc l) m u"
  shows "loop_ok l (st64 m' (t + 8 * of_nat k) 0) t (Suc k) (rs @ ps)"
    "below l (st64 m' (t + 8 * of_nat k) 0) t (Suc k) = below l m t (Suc k)"
    "\<And>x. \<not> in_page t x \<Longrightarrow> outside (tables (Suc l) m u) x \<Longrightarrow> st64 m' (t + 8 * of_nat k) 0 x = m x"
proof -
  let ?m = "st64 m' (t + 8 * of_nat k) 0"
  let ?T = "tables (Suc l) m u"
  have t: "kern_page t" "t \<notin> set ps" "t \<notin> ?T" and tu: "tree (Suc l) m u"
    using L k by (auto simp: loop_ok_def)
  have al: "page_aligned t" using t(1) by (rule kern_page_aligned)
  have alT: "page_aligned v" if "v \<in> ?T" for v using tables_kern [OF tu that] by (rule kern_page_aligned)
  show m: "?m x = m x" if "\<not> in_page t x" "outside ?T x" for x
    using that m' st64_out_page [OF al slot_aligned8 [OF al k(1)] slot_in_page [OF k(1)] that(1)] by simp
  have outT: "outside ?T x" if "in_page w x" "page_aligned w" "w \<notin> ?T" for w x
    unfolding outside_def using that alT in_page_disjoint by blast
  have mt: "m' x = m x" if "in_page t x" for x by (rule m' [OF outT [OF that al t(3)]])
  have slot: "ld64 ?m (t + 8 * of_nat i) = ld64 m (t + 8 * of_nat i)" if "i < 512" "i \<noteq> k" for i
  proof -
    have "ld64 m' (t + 8 * of_nat i) = ld64 m (t + 8 * of_nat i)"
      using that al mt by (intro ld64_page_cong [of t]) (auto intro: slot_aligned8 slot_in_page)
    then show ?thesis using that al k(1) by (simp add: ld64_slot_store)
  qed
  then have ent: "ent ?m l t i = ent m l t i" if "i < 512" "i \<noteq> k" for i
    using that by (intro ent_cong)
  have sub: "tree (Suc l) m v \<and> bare (Suc l) m v \<and> t \<notin> tables (Suc l) m v \<and> tables (Suc l) m v \<inter> set ps = {} \<and>
      ld64 m (t + 8 * of_nat i) AND PTE_AF = 0 \<and> ?T \<inter> tables (Suc l) m v = {}"
    if "Suc k \<le> i" "i < 512" "ent m l t i = Some v" for i v
    using L that k unfolding loop_ok_def by (meson Suc_le_lessD le_refl less_imp_le)
  have ag: "?m x = m x" if "Suc k \<le> i" "i < 512" "ent m l t i = Some v" "w \<in> tables (Suc l) m v" "in_page w x" for i v w x
  proof (rule m)
    note S = sub [OF that(1-3)]
    have w: "page_aligned w" using S that(4) tables_kern kern_page_aligned by blast
    show "\<not> in_page t x" using S w that(4,5) al in_page_disjoint by blast
    show "outside ?T x" using outT [OF that(5) w] S that(4) by blast
  qed
  have tv: "tree (Suc l) ?m v \<and> tables (Suc l) ?m v = tables (Suc l) m v \<and> bare (Suc l) ?m v"
    if "Suc k \<le> i" "i < 512" "ent m l t i = Some v" for i v
    using tree_agree [of "Suc l" m v ?m] bare_agree [of "Suc l" m v ?m] sub [OF that] ag [OF that] by blast
  show "loop_ok l ?m t (Suc k) (rs @ ps)"
    unfolding loop_ok_def
  proof (intro conjI allI impI)
    fix i v assume i: "Suc k \<le> i" "i < 512" "ent ?m l t i = Some v"
    then have e: "ent m l t i = Some v" using ent by simp
    show "tree (Suc l) ?m v" "bare (Suc l) ?m v" using tv [OF i(1,2) e] by simp_all
    show "t \<notin> tables (Suc l) ?m v" "tables (Suc l) ?m v \<inter> set (rs @ ps) = {}"
      using tv [OF i(1,2) e] sub [OF i(1,2) e] rs by auto
    show "ld64 ?m (t + 8 * of_nat i) AND PTE_AF = 0" using slot sub [OF i(1,2) e] i by simp
  next
    fix i j v w assume ij: "Suc k \<le> i" "i < j" "j < 512" "ent ?m l t i = Some v" "ent ?m l t j = Some w"
    then have e: "ent m l t i = Some v" "ent m l t j = Some w" using ent by simp_all
    have "tables (Suc l) m v \<inter> tables (Suc l) m w = {}"
      using L ij e unfolding loop_ok_def by (meson Suc_leD)
    then show "tables (Suc l) ?m v \<inter> tables (Suc l) ?m w = {}"
      using tv [of i v] tv [of j w] ij e by simp
  qed (use t rs in auto)
  have "(ent ?m l t i = Some v \<and> x \<in> tables (Suc l) ?m v) = (ent m l t i = Some v \<and> x \<in> tables (Suc l) m v)"
    if "Suc k \<le> i" "i < 512" for i v x
    using that ent [of i] tv [of i v] by auto
  then show "below l ?m t (Suc k) = below l m t (Suc k)" unfolding below_def by blast
qed


definition freed :: "'a kmem_scheme \<Rightarrow> u64 list \<Rightarrow> u64 set \<Rightarrow> u64 set \<Rightarrow> 'a kmem_scheme \<Rightarrow> bool" where
  "freed s ps F W t \<longleftrightarrow> (\<exists>rs. free_pages t (rs @ ps) \<and> set rs = F) \<and>
     (\<forall>x. outside W x \<longrightarrow> mem t x = mem s x) \<and> kmem_frame s t"

lemma free_entries_spec:
  assumes rec: "\<And>s ps u. tree (Suc l) (mem s) u \<Longrightarrow> bare (Suc l) (mem s) u \<Longrightarrow> free_pages s ps \<Longrightarrow>
      tables (Suc l) (mem s) u \<inter> set ps = {} \<Longrightarrow>
      \<exists>s'. free_table d u s = Inr s' \<and>
        freed s ps (tables (Suc l) (mem s) u) (tables (Suc l) (mem s) u) (s' :: 'a kmem_scheme)"
    and l: "l < 3"
  shows "n \<le> 512 \<Longrightarrow> free_pages s ps \<Longrightarrow> loop_ok l (mem s) t (512 - n) ps \<Longrightarrow>
    \<exists>s'. free_entries d t n (s :: 'a kmem_scheme) = Inr s' \<and>
      freed s ps (below l (mem s) t (512 - n)) (insert t (below l (mem s) t (512 - n))) s'"
proof (induction n arbitrary: s ps)
  case 0
  then show ?case by (simp add: below_end freed_def)
next
  case (Suc n)
  let ?k = "511 - n"
  have k: "512 - Suc n = ?k" "?k < 512" "Suc ?k = 512 - n" using Suc.prems(1) by auto
  note L = Suc.prems(3) [unfolded k(1)]
  have t: "kern_page t" "t \<notin> set ps" using L by (simp_all add: loop_ok_def)
  note al = kern_page_aligned [OF t(1)]
  show ?case
  proof (cases "ent (mem s) l t ?k")
    case None
    have nt: "\<not> is_table (ld64 (mem s) (t + 8 * of_nat ?k))"
      using None l by (auto simp: ent_def Let_def split: if_splits)
    have "loop_ok l (mem s) t (512 - n) ps" using L k(3) unfolding loop_ok_def by (metis Suc_leD)
    moreover have "below l (mem s) t ?k = below l (mem s) t (512 - n)"
      using below_step [OF k(2), of l "mem s" t] None k(3) by simp
    ultimately show ?thesis using Suc.IH [OF _ Suc.prems(2)] Suc.prems(1) nt k(1) by (simp add: Let_def)
  next
    case (Some u)
    let ?T = "tables (Suc l) (mem s) u"
    have ist: "is_table (ld64 (mem s) (t + 8 * of_nat ?k))" "P2V (PTE_PA (ld64 (mem s) (t + 8 * of_nat ?k))) = u"
      using Some l by (auto simp: ent_def Let_def split: if_splits)
    have U: "tree (Suc l) (mem s) u" "bare (Suc l) (mem s) u" "?T \<inter> set ps = {}" "t \<notin> ?T"
        "ld64 (mem s) (t + 8 * of_nat ?k) AND PTE_AF = 0"
      using L Some k(2) by (auto simp: loop_ok_def)
    obtain s1 rs where s1: "free_table d u s = Inr s1" "free_pages s1 (rs @ ps)" "set rs = ?T"
        "\<And>x. outside ?T x \<Longrightarrow> mem s1 x = mem s x" "kmem_frame s s1"
      using rec [OF U(1,2) Suc.prems(2) U(3)] by (auto simp: freed_def)
    let ?m = "st64 (mem s1) (t + 8 * of_nat ?k) 0"
    let ?s = "s1\<lparr>mem := ?m\<rparr>"
    note step = loop_ok_step [OF L k(2) Some l s1(4,3), unfolded k(3)]
    have "free_pages ?s (rs @ ps)"
    proof (rule kpages.pool_write [OF s1(2)])
      fix q x assume q: "q \<in> set (rs @ ps)" "in_page q x"
      have "q \<noteq> t" using q(1) s1(3) U(4) t(2) by auto
      moreover have "page_aligned q" using free_pages_ok [OF s1(2)] q(1) by blast
      ultimately have "\<not> in_page t x" using q(2) al in_page_disjoint by blast
      then show "?m x = mem s1 x"
        using al k(2) by (intro st64_out_page [of t]) (auto intro: slot_aligned8 slot_in_page)
    qed
    then obtain s2 rs2 where s2: "free_entries d t n ?s = Inr s2" "free_pages s2 (rs2 @ rs @ ps)"
        "set rs2 = below l (mem s) t (512 - n)"
        "\<And>x. outside (insert t (below l (mem s) t (512 - n))) x \<Longrightarrow> mem s2 x = ?m x" "kmem_frame ?s s2"
      using Suc.IH [of ?s "rs @ ps"] Suc.prems(1) step(1,2) by (auto simp: freed_def)
    have B: "below l (mem s) t ?k = ?T \<union> below l (mem s) t (512 - n)"
      using below_step [OF k(2), of l "mem s" t] Some k(3) by simp
    have "free_entries d t (Suc n) s = Inr s2"
      using ist U(5) s1(1) s2(1) by (simp add: Let_def)
    moreover have "mem s2 x = mem s x" if x: "outside (insert t (below l (mem s) t ?k)) x" for x
    proof -
      have "outside (insert t (below l (mem s) t (512 - n))) x" "outside ?T x" "\<not> in_page t x"
        using x B by (auto simp: outside_def)
      then show ?thesis using s2(4) step(3) by simp
    qed
    moreover have "free_pages s2 ((rs2 @ rs) @ ps)" "set (rs2 @ rs) = below l (mem s) t ?k"
      using s2(2,3) s1(3) B by auto
    moreover have "kmem_frame s s2" using s1(5) s2(5) by (auto intro: kmem_frame_trans)
    ultimately show ?thesis unfolding freed_def k(1) by blast
  qed
qed

lemma free_root:
  assumes "free_pages s ps" "kern_page t" "t \<notin> set ps"
  shows "\<exists>s'. kfree t s = Inr s' \<and> freed s ps {t} {t} s'"
proof -
  obtain s' where s': "kfree t s = Inr s'" "free_pages s' ([t] @ ps)" "\<forall>x. \<not> in_page t x \<longrightarrow> mem s' x = mem s x"
      "kmem_frame s s'"
    using kfree_step [OF assms(1) _ _ assms(3)] assms(2) by (auto dest: kern_page_aligned kern_page_nonzero)
  then show ?thesis unfolding freed_def outside_def
    by (intro exI [of _ s'] conjI exI [of _ "[t]"]) auto
qed

lemma free_last_entries:
  assumes "bare 3 (mem s) t" "n \<le> 512"
  shows "free_entries 0 t n s = Inr s"
  using assms(2)
proof (induction n)
  case (Suc n)
  have "is_table (ld64 (mem s) (t + 8 * of_nat (511 - n))) \<longrightarrow> ld64 (mem s) (t + 8 * of_nat (511 - n)) AND PTE_AF \<noteq> 0"
    using assms(1) unfolding bare_def
    by (auto simp: path_ok_def elim!: allE [of _ "[]"] allE [of _ t] allE [of _ "511 - n"])
  then show ?case using Suc by (auto simp: Let_def)
qed simp

text \<open>One level up: freeing the table after the loop.\<close>

lemma free_table_level:
  assumes rec: "\<And>s ps u. tree (Suc l) (mem s) u \<Longrightarrow> bare (Suc l) (mem s) u \<Longrightarrow> free_pages s ps \<Longrightarrow>
      tables (Suc l) (mem s) u \<inter> set ps = {} \<Longrightarrow>
      \<exists>s'. free_table d u s = Inr s' \<and>
        freed s ps (tables (Suc l) (mem s) u) (tables (Suc l) (mem s) u) (s' :: 'a kmem_scheme)"
    and l: "l < 3" and tr: "tree l (mem s) t" and b: "bare l (mem s) t" and fp: "free_pages s ps"
    and dj: "tables l (mem s) t \<inter> set ps = {}"
  shows "\<exists>s'. free_table (Suc d) t s = Inr s' \<and>
           freed s ps (tables l (mem s) t) (tables l (mem s) t) (s' :: 'a kmem_scheme)"
proof -
  note T = tables_child [OF l, of "mem s" t]
  have z: "512 - 512 = (0 :: nat)" by simp
  have E: "\<exists>s'. free_entries d t 512 s = Inr s' \<and>
      freed s ps (below l (mem s) t 0) (insert t (below l (mem s) t 0)) s'"
    using loop_ok_start [OF tr l b dj]
    by (intro free_entries_spec [OF rec l order_refl fp, unfolded z])
  obtain s1 rs where s1: "free_entries d t 512 s = Inr s1" "free_pages s1 (rs @ ps)"
      "set rs = below l (mem s) t 0"
      "\<And>x. outside (insert t (below l (mem s) t 0)) x \<Longrightarrow> mem s1 x = mem s x" "kmem_frame s s1"
    using E unfolding freed_def by blast
  have tn: "t \<notin> set (rs @ ps)" using s1(3) root_not_below [OF tr l, of 0] dj T by auto
  obtain s2 rs2 where s2: "kfree t s1 = Inr s2" "free_pages s2 (rs2 @ rs @ ps)" "set rs2 = {t}"
      "\<And>x. outside {t} x \<Longrightarrow> mem s2 x = mem s1 x" "kmem_frame s1 s2"
    using free_root [OF s1(2) tables_kern [OF tr tables_root] tn] unfolding freed_def by blast
  have "free_pages s2 ((rs2 @ rs) @ ps)" "set (rs2 @ rs) = tables l (mem s) t"
    using s2 s1 T by auto
  moreover have "mem s2 x = mem s x" if "outside (tables l (mem s) t) x" for x
    using that s1(4) s2(4) T by (auto simp: outside_def)
  moreover have "kmem_frame s s2" using s1(5) s2(5) by (rule kmem_frame_trans)
  moreover have "free_table (Suc d) t s = Inr s2" using s1(1) s2(1) by simp
  ultimately show ?thesis unfolding freed_def by blast
qed

lemma free_table_last:
  assumes "tree 3 (mem s) t" "bare 3 (mem s) t" "free_pages s ps" "tables 3 (mem s) t \<inter> set ps = {}"
  shows "\<exists>s'. free_table 1 t s = Inr s' \<and> freed s ps (tables 3 (mem s) t) (tables 3 (mem s) t) s'"
proof -
  have "free_table 1 t s = bnd (free_entries 0 t 512 s) (kfree t)"
    unfolding One_nat_def free_table.simps by simp
  then have "free_table 1 t s = kfree t s" using free_last_entries [OF assms(2), of 512] by simp
  moreover have "t \<notin> set ps" using assms(4) by (simp add: tables_last)
  ultimately show ?thesis
    using free_root [OF assms(3) tables_kern [OF assms(1) tables_root]] by (simp add: tables_last)
qed

text \<open>The whole table.\<close>

lemma free_table_spec:
  assumes "tree 1 (mem s) pgt" "bare 1 (mem s) pgt" "free_pages s ps" "tables 1 (mem s) pgt \<inter> set ps = {}"
  shows "\<exists>s'. free_table 3 pgt s = Inr s' \<and> freed s ps (tables 1 (mem s) pgt) (tables 1 (mem s) pgt) s'"
proof -
  have n: "Suc 2 = 3" "Suc 1 = 2" by simp_all
  have 2: "\<exists>s'. free_table 2 u s = Inr s' \<and> freed s ps (tables 2 (mem s) u) (tables 2 (mem s) u) s'"
    if "tree 2 (mem s) u" "bare 2 (mem s) u" "free_pages s ps" "tables 2 (mem s) u \<inter> set ps = {}"
    for s :: "'a kmem_scheme" and ps u
    apply (rule free_table_level [of 2 1 s u ps, unfolded n, OF _ _ that])
     apply (rule free_table_last; assumption)
    by simp
  show ?thesis
    apply (rule free_table_level [of 1 2 s pgt ps, unfolded n, OF _ _ assms])
     apply (rule 2; assumption)
    by simp
qed

end
