(* ===== verification/Mm.thy ===== *)
theory Mm
  imports Freetable
begin

text \<open>
  kernel/mm.c above the page table: user address spaces. A process owns the tables of its
  page table and the frames its leaf entries point to; the operations build such a space,
  grow it, copy it for \<open>fork\<close> and give it back.
  The page loops \<open>for (p = 0; p < size; p += PAGESIZE)\<close> run \<open>npages size\<close> times; that is exact
  for every size up to 2^64 - 4096, above which \<open>p\<close> itself would wrap.
\<close>

unbundle bit_operations_syntax

section \<open>Operations\<close>

definition npages :: "u64 \<Rightarrow> nat" where
  "npages sz = (unat sz + 4095) div 4096"

abbreviation PTE_USER :: u64 where "PTE_USER \<equiv> PTE_NORMAL OR PTE_U"
abbreviation PTE_UDATA :: u64 where "PTE_UDATA \<equiv> PTE_NORMAL OR PTE_U OR PTE_UXN OR PTE_PXN"

definition va2pa :: "u64 \<Rightarrow> u64 \<Rightarrow> 'a kmem_scheme \<Rightarrow> (u64 \<times> 'a kmem_scheme) res" where
  "va2pa ttbr1 va s =
     bnd (pagewalk (P2V ttbr1) va s) (\<lambda>(pte, s).
       if pte = 0 then Inr (0, s)
       else Inr (PTE_PA (ld64 (mem s) pte) + OFFSET va, s))"

fun init_pages :: "nat \<Rightarrow> u64 \<Rightarrow> u64 \<Rightarrow> u64 \<Rightarrow> u64 \<Rightarrow> 'a kmem_scheme \<Rightarrow> 'a kmem_scheme res" where
  "init_pages 0 pgt va code sz s = Inr s"
| "init_pages (Suc n) pgt va code sz s =
     bnd (kalloc s) (\<lambda>(upage, s).
       if upage = 0 then Inl (Panic ''init_userspace'')
       else bnd (pagemap pgt va (V2P upage) PAGESIZE PTE_USER
                  (s\<lparr>mem := memcpy (mem s) upage code sz\<rparr>)) (\<lambda>s.
              init_pages n pgt (va + PAGESIZE) code sz s))"

definition init_userspace :: "u64 \<Rightarrow> u64 \<Rightarrow> u64 \<Rightarrow> u64 \<Rightarrow> 'a kmem_scheme \<Rightarrow> 'a kmem_scheme res" where
  "init_userspace pgt va code sz s = init_pages (npages sz) pgt va code sz s"

text \<open>\<open>alloc_pages\<close> answers whether the loop ran to its end.\<close>

fun alloc_pages :: "nat \<Rightarrow> u64 \<Rightarrow> u64 \<Rightarrow> u64 \<Rightarrow> 'a kmem_scheme \<Rightarrow> (bool \<times> 'a kmem_scheme) res" where
  "alloc_pages 0 pgt va attr s = Inr (True, s)"
| "alloc_pages (Suc n) pgt va attr s =
     bnd (kalloc s) (\<lambda>(upage, s).
       if upage = 0 then Inr (False, s)
       else bnd (pagemap pgt va (V2P upage) PAGESIZE attr s) (\<lambda>s.
              alloc_pages n pgt (va + PAGESIZE) attr s))"

definition alloc_userspace :: "u64 \<Rightarrow> u64 \<Rightarrow> u64 \<Rightarrow> 'a kmem_scheme \<Rightarrow> (int \<times> 'a kmem_scheme) res" where
  "alloc_userspace pgt va memsz s =
     bnd (alloc_pages (npages memsz) pgt va PTE_USER s) (\<lambda>(ok, s).
       Inr (if ok then sint (ucast memsz :: u32) else -1, s))"

definition grow_userspace :: "u64 \<Rightarrow> u64 \<Rightarrow> u64 \<Rightarrow> u64 \<Rightarrow> 'a kmem_scheme \<Rightarrow> (u64 \<times> 'a kmem_scheme) res" where
  "grow_userspace pgt va oldsz newsz s =
     (let start = va + oldsz; oldsz = PAGEROUNDUP oldsz; va = va + oldsz in
      bnd (alloc_pages (if oldsz < newsz then npages (newsz - oldsz) else 0) pgt va PTE_UDATA s)
        (\<lambda>(ok, s). Inr (if ok then start else 0, s)))"

definition shrink_userspace :: "u64 \<Rightarrow> u64 \<Rightarrow> u64 \<Rightarrow> u64 \<Rightarrow> 'a kmem_scheme \<Rightarrow> (u64 \<times> 'a kmem_scheme) res" where
  "shrink_userspace pgt va oldsz newsz s = Inr (0, s)"

definition map_ustack :: "u64 \<Rightarrow> 'a kmem_scheme \<Rightarrow> (u64 \<times> 'a kmem_scheme) res" where
  "map_ustack pgt s =
     bnd (kalloc s) (\<lambda>(ustack, s).
       if ustack = 0 then Inr (0, s)
       else bnd (pagemap pgt USTACKBOTTOM (V2P ustack) PAGESIZE PTE_UDATA s) (\<lambda>s.
              Inr (ustack, s)))"

text \<open>The body that \<open>cp_userspace\<close> has twice: copy the page of \<open>oldpgt\<close> at \<open>va\<close>.\<close>

definition cp_page :: "u64 \<Rightarrow> u64 \<Rightarrow> u64 \<Rightarrow> u64 \<Rightarrow> 'a kmem_scheme \<Rightarrow> (bool \<times> 'a kmem_scheme) res" where
  "cp_page newpgt oldpgt va attr s =
     bnd (pagewalk oldpgt va s) (\<lambda>(pte, s).
       if pte = 0 then Inl Fault
       else let pa = PTE_PA (ld64 (mem s) pte) in
         bnd (kalloc s) (\<lambda>(page, s).
           if page = 0 then Inr (False, s)
           else bnd (pagemap newpgt va (V2P page) PAGESIZE attr
                      (s\<lparr>mem := memcpy (mem s) page (P2V pa) PAGESIZE\<rparr>)) (\<lambda>s.
                  Inr (True, s))))"

fun cp_pages :: "nat \<Rightarrow> u64 \<Rightarrow> u64 \<Rightarrow> u64 \<Rightarrow> 'a kmem_scheme \<Rightarrow> (bool \<times> 'a kmem_scheme) res" where
  "cp_pages 0 newpgt oldpgt va s = Inr (True, s)"
| "cp_pages (Suc n) newpgt oldpgt va s =
     bnd (cp_page newpgt oldpgt va PTE_USER s) (\<lambda>(ok, s).
       if ok then cp_pages n newpgt oldpgt (va + PAGESIZE) s else Inr (False, s))"

definition cp_userspace :: "u64 \<Rightarrow> u64 \<Rightarrow> u64 \<Rightarrow> u64 \<Rightarrow> 'a kmem_scheme \<Rightarrow> (int \<times> 'a kmem_scheme) res" where
  "cp_userspace newpgt oldpgt va sz s =
     bnd (cp_pages (npages sz) newpgt oldpgt va s) (\<lambda>(ok, s).
       if \<not> ok then Inr (-1, s)
       else bnd (cp_page newpgt oldpgt USTACKBOTTOM PTE_UDATA s) (\<lambda>(ok, s).
              Inr (if ok then 0 else -1, s)))"

text \<open>\<open>free_table\<close> gets the depth of the table format: three levels.\<close>

definition free_userspace :: "u64 \<Rightarrow> u64 \<Rightarrow> 'a kmem_scheme \<Rightarrow> 'a kmem_scheme res" where
  "free_userspace pgt sz s =
     bnd (pageunmap pgt 0x1000 (PAGEROUNDUP sz) s) (\<lambda>s.
       bnd (pageunmap pgt USTACKBOTTOM PAGESIZE s) (\<lambda>s.
         free_table 3 pgt s))"

definition kpgt_init :: "u64 \<Rightarrow> u64 \<Rightarrow> 'a kmem_scheme \<Rightarrow> 'a kmem_scheme res" where
  "kpgt_init l1kpgt kend s =
     bnd (pagemap l1kpgt KERNBASE 0x40000000 (kend - KERNBASE) PTE_NORMAL s) (\<lambda>s.
       pagemap l1kpgt kend (V2P kend) (PHYMEMEND - kend) (PTE_NORMAL OR PTE_PXN OR PTE_UXN) s)"

section \<open>User spaces\<close>

text \<open>The paths that are mapped, and the frame (as a kernel address) each leads to.\<close>

definition mapped :: "mem \<Rightarrow> u64 \<Rightarrow> nat list set" where
  "mapped m pgt = {ix. path_ok 3 ix \<and> length ix = 3 \<and> leaf m pgt ix \<noteq> 0}"

definition frame :: "mem \<Rightarrow> u64 \<Rightarrow> nat list \<Rightarrow> u64" where
  "frame m pgt ix = P2V (PTE_PA (leaf m pgt ix))"

definition frames :: "mem \<Rightarrow> u64 \<Rightarrow> u64 set" where
  "frames m pgt = frame m pgt ` mapped m pgt"

text \<open>
  A user space beside the pool \<open>ps\<close>: a well-formed table whose leaves carry the access flag and
  lead to different kernel pages, none of them a table or free.
\<close>

definition uspace :: "'a kmem_scheme \<Rightarrow> u64 \<Rightarrow> u64 list \<Rightarrow> bool" where
  "uspace s pgt ps \<longleftrightarrow> aspace s pgt ps \<and> inj_on (frame (mem s) pgt) (mapped (mem s) pgt) \<and>
     (\<forall>ix\<in>mapped (mem s) pgt. kern_page (frame (mem s) pgt ix) \<and> leaf (mem s) pgt ix AND PTE_AF \<noteq> 0) \<and>
     frames (mem s) pgt \<inter> owned s pgt ps = {}"

lemma leaf_agree:
  assumes "tree 1 m pgt" "\<And>t x. t \<in> tables 1 m pgt \<Longrightarrow> in_page t x \<Longrightarrow> m' x = m x"
    and ix: "path_ok 3 ix" "length ix = 3"
  shows "leaf m' pgt ix = leaf m pgt ix"
proof -
  note l = path_ok_last [OF ix]
  have n: "node m' 1 pgt (butlast ix) = node m 1 pgt (butlast ix)"
    using l assms(1,2) by (intro node_agree) (auto simp: path_ok_def)
  have "ld64 m' (t + 8 * of_nat (last ix)) = ld64 m (t + 8 * of_nat (last ix))"
    if t: "node m 1 pgt (butlast ix) = Some t" for t
  proof -
    have "kern_page t" "t \<in> tables 1 m pgt"
      using tree_kern [OF assms(1) _ t] l t by (auto simp: tables_def)
    then show ?thesis using l assms(2) [of t]
      by (intro ld64_page_cong [of t]) (auto intro: slot_aligned8 slot_in_page kern_page_aligned)
  qed
  then show ?thesis using n by (simp add: leaf_def split: option.splits)
qed

lemma mapped_cong:
  "(\<And>ix. path_ok 3 ix \<Longrightarrow> length ix = 3 \<Longrightarrow> leaf m' pgt ix = leaf m pgt ix) \<Longrightarrow>
   mapped m' pgt = mapped m pgt"
  by (auto simp: mapped_def)

lemma frame_leaf_entry:
  "kern_page p \<Longrightarrow> PTE_PA attr = 0 \<Longrightarrow> P2V (PTE_PA (leaf_entry (V2P p) attr)) = p"
proof -
  assume p: "kern_page p" "PTE_PA attr = 0"
  have "PTE_PA (leaf_entry (V2P p) attr) = V2P p"
    unfolding leaf_entry_def PTE_PA_or PTE_PA_idem p(2) using p(1) PTE_PA_V2P by (simp add: PTE_PA_def)
  then show ?thesis by simp
qed

lemma leaf_entry_bits: "leaf_entry pa attr AND PTE_AF \<noteq> 0" "leaf_entry pa attr \<noteq> 0"
proof -
  have "bit (leaf_entry pa attr AND PTE_AF) 10" by (simp add: leaf_entry_def bit_simps)
  then show "leaf_entry pa attr AND PTE_AF \<noteq> 0" by (metis bit_0_eq bot_apply bot_bool_def)
  then show "leaf_entry pa attr \<noteq> 0" by auto
qed

lemma PTE_PA_attr [simp]: "PTE_PA PTE_USER = 0" "PTE_PA PTE_UDATA = 0"
  by (simp_all add: PTE_PA_def)

lemma page_aligned_V2P: "kern_page p \<Longrightarrow> page_aligned (V2P p)"
proof -
  assume p: "kern_page p"
  then obtain k where "unat p = 4096 * k" by (auto simp: kern_page_def elim: page_alignedE)
  moreover have "unat (V2P p) = unat p - 0xffffff8000000000" using p by (simp add: kern_page_def unat_V2P)
  moreover have "4096 * k - 0xffffff8000000000 = 4096 * (k - 0xffffff8000000)" by simp
  ultimately show ?thesis by (simp add: page_aligned_def)
qed

lemma pagemap_one:
  "page_aligned va \<Longrightarrow> page_aligned pa \<Longrightarrow> pagemap pgt va pa PAGESIZE attr s = map_pages 1 pgt va pa attr s"
  by (simp add: pagemap_def page_aligned_mod del: One_nat_def)


text \<open>Writing to one's own page moves neither tables nor pool.\<close>

lemma aspace_write:
  assumes a: "aspace s pgt ps" and p: "page_aligned p" "p \<notin> owned s pgt ps"
    and m: "\<And>x. \<not> in_page p x \<Longrightarrow> m x = mem s x"
  shows "aspace (s\<lparr>mem := m\<rparr>) pgt ps" "tables 1 m pgt = tables 1 (mem s) pgt"
    "\<And>ix. path_ok 3 ix \<Longrightarrow> length ix = 3 \<Longrightarrow> leaf m pgt ix = leaf (mem s) pgt ix"
proof -
  have tr: "tree 1 (mem s) pgt" and fp: "free_pages s ps" using a by (simp_all add: aspace_def)
  have ag: "m x = mem s x" if "t \<in> owned s pgt ps" "in_page t x" for t x
  proof -
    have "page_aligned t" "t \<noteq> p"
      using that(1) p(2) tables_kern [OF tr] free_pages_ok [OF fp] by (auto simp: owned_def dest: kern_page_aligned)
    then show ?thesis using that(2) p(1) in_page_disjoint m by blast
  qed
  then have agt: "\<And>t x. t \<in> tables 1 (mem s) pgt \<Longrightarrow> in_page t x \<Longrightarrow> m x = mem s x"
    by (auto simp: owned_def)
  note ta = tree_agree [OF tr agt]
  have "free_pages (s\<lparr>mem := m\<rparr>) ps"
    by (rule kpages.pool_write [OF fp]) (auto simp: owned_def intro: ag)
  then show "aspace (s\<lparr>mem := m\<rparr>) pgt ps" "tables 1 m pgt = tables 1 (mem s) pgt"
    using a ta by (simp_all add: aspace_def)
  show "leaf m pgt ix = leaf (mem s) pgt ix" if "path_ok 3 ix" "length ix = 3" for ix
    using leaf_agree [OF tr agt that] .
qed

text \<open>Taking the next page off the pool, and writing to it, leaves the table alone.\<close>

lemma aspace_alloc:
  assumes a: "aspace s pgt (p # ps)" and m: "\<And>x. \<not> in_page p x \<Longrightarrow> m x = mem s x"
  shows "\<exists>s1. kalloc s = Inr (p, s1) \<and> mem s1 = zero_page (mem s) p \<and> kmem_frame s s1 \<and>
           aspace (s1\<lparr>mem := m\<rparr>) pgt ps \<and> tables 1 m pgt = tables 1 (mem s) pgt \<and>
           (\<forall>ix. path_ok 3 ix \<longrightarrow> length ix = 3 \<longrightarrow> leaf m pgt ix = leaf (mem s) pgt ix)"
proof -
  have fp: "free_pages s (p # ps)" and kp: "kern_page p" using a by (auto simp: aspace_def)
  obtain s1 where s1: "kalloc s = Inr (p, s1)" "free_pages s1 ps" "mem s1 = zero_page (mem s) p"
      "kmem_frame s s1"
    using kalloc_step [OF fp] by blast
  have p: "page_aligned p" "p \<notin> set ps" "p \<notin> tables 1 (mem s) pgt"
    using a kp free_pages_ok [OF fp] by (auto simp: aspace_def dest: kern_page_aligned)
  have "page_aligned q \<and> q \<noteq> p" if "q \<in> set ps" for q using free_pages_ok [OF fp] that by auto
  then have "free_pages (s1\<lparr>mem := mem s\<rparr>) ps"
    using in_page_disjoint p(1)
    by (intro kpages.pool_write [OF s1(2)]) (auto simp: s1(3) zero_page_apply)
  then have a0: "aspace (s1\<lparr>mem := mem s\<rparr>) pgt ps"
    using a by (auto simp: aspace_def)
  have "p \<notin> owned (s1\<lparr>mem := mem s\<rparr>) pgt ps" using p by (simp add: owned_def)
  from aspace_write [OF a0 p(1) this, of m] m s1 show ?thesis by simp
qed

lemma map_fresh:
  assumes u: "uspace s pgt (p # ps)" and ps: "2 \<le> length ps" and va: "page_aligned va"
    and new: "vpath va \<notin> mapped (mem s) pgt" and attr: "PTE_PA attr = 0"
    and m: "\<And>x. \<not> in_page p x \<Longrightarrow> m x = mem s x"
  shows "\<exists>s1 t qs. kalloc s = Inr (p, s1) \<and> mem s1 = zero_page (mem s) p \<and>
      pagemap pgt va (V2P p) PAGESIZE attr (s1\<lparr>mem := m\<rparr>) = Inr t \<and> uspace t pgt qs \<and>
      mapped (mem t) pgt = insert (vpath va) (mapped (mem s) pgt) \<and>
      leaf (mem t) pgt (vpath va) = leaf_entry (V2P p) attr \<and>
      (\<forall>ix. path_ok 3 ix \<longrightarrow> length ix = 3 \<longrightarrow> ix \<noteq> vpath va \<longrightarrow> leaf (mem t) pgt ix = leaf (mem s) pgt ix) \<and>
      (\<forall>x. in_page p x \<longrightarrow> mem t x = m x) \<and>
      (\<forall>x. outside (owned s pgt (p # ps)) x \<longrightarrow> mem t x = mem s x) \<and>
      owned t pgt qs \<subseteq> owned s pgt (p # ps) - {p} \<and> suffix qs ps \<and> length ps \<le> 2 + length qs \<and>
      kmem_frame s t"
proof -
  let ?ps = "p # ps"
  have a: "aspace s pgt ?ps" and fp: "free_pages s ?ps" and kp: "kern_page p"
    using u by (auto simp: uspace_def aspace_def)
  obtain s1 where s1: "kalloc s = Inr (p, s1)" "mem s1 = zero_page (mem s) p" "kmem_frame s s1"
      "aspace (s1\<lparr>mem := m\<rparr>) pgt ps" "tables 1 m pgt = tables 1 (mem s) pgt"
      "\<And>ix. path_ok 3 ix \<Longrightarrow> length ix = 3 \<Longrightarrow> leaf m pgt ix = leaf (mem s) pgt ix"
    using aspace_alloc [OF a m] by blast
  let ?s = "s1\<lparr>mem := m\<rparr>"
  have p: "p \<notin> owned ?s pgt ps" and own: "owned s pgt ?ps = insert p (owned ?s pgt ps)"
    using a s1(5) free_pages_ok [OF fp] by (auto simp: owned_def aspace_def)
  have "leaf (mem ?s) pgt (vpath va) = 0" using new s1(6) by (simp add: mapped_def)
  then obtain t qs where t: "map_pages 1 pgt va (V2P p) attr ?s = Inr t"
      "grows pgt {vpath va} ?s ps t qs" "leaf (mem t) pgt (vpath va) = leaf_entry (V2P p) attr"
      "length ps \<le> 2 + length qs"
    using map_one [OF s1(4) ps, of va "V2P p" attr] by auto
  have g: "owned t pgt qs \<subseteq> owned ?s pgt ps" "aspace t pgt qs" "suffix qs ps" "kmem_frame ?s t"
      "\<And>ix. path_ok 3 ix \<Longrightarrow> length ix = 3 \<Longrightarrow> ix \<noteq> vpath va \<Longrightarrow> leaf (mem t) pgt ix = leaf m pgt ix"
      "\<And>x. outside (owned ?s pgt ps) x \<Longrightarrow> mem t x = m x"
    using t(2) by (auto simp: grows_def)
  have lf: "leaf (mem t) pgt ix = leaf (mem s) pgt ix" if "path_ok 3 ix" "length ix = 3" "ix \<noteq> vpath va" for ix
    using g(5) [OF that] s1(6) that by simp
  have mp: "mapped (mem t) pgt = insert (vpath va) (mapped (mem s) pgt)"
    using lf t(3) leaf_entry_bits by (fastforce simp: mapped_def)
  have fr: "frame (mem t) pgt (vpath va) = p"
    using t(3) frame_leaf_entry [OF kp attr] by (simp add: frame_def)
  have fo: "frame (mem t) pgt ix = frame (mem s) pgt ix" if "ix \<in> mapped (mem s) pgt" for ix
  proof -
    have "path_ok 3 ix" "length ix = 3" "ix \<noteq> vpath va" using that new by (auto simp: mapped_def)
    then show ?thesis using lf by (simp add: frame_def)
  qed
  have img: "frame (mem t) pgt ` mapped (mem s) pgt = frames (mem s) pgt"
    unfolding frames_def by (rule image_cong [OF refl]) (rule fo)
  then have fs: "frames (mem t) pgt = insert p (frames (mem s) pgt)"
    unfolding frames_def [of "mem t"] mp using fr by simp
  have old: "inj_on (frame (mem s) pgt) (mapped (mem s) pgt)" "frames (mem s) pgt \<inter> owned s pgt ?ps = {}"
      "\<And>ix. ix \<in> mapped (mem s) pgt \<Longrightarrow> kern_page (frame (mem s) pgt ix) \<and> leaf (mem s) pgt ix AND PTE_AF \<noteq> 0"
    using u by (auto simp: uspace_def)
  have pf: "p \<notin> frames (mem s) pgt" using old(2) own by auto
  have inj: "inj_on (frame (mem t) pgt) (mapped (mem t) pgt)"
  proof -
    have "inj_on (frame (mem t) pgt) (mapped (mem s) pgt)"
      using old(1) inj_on_cong [of "mapped (mem s) pgt" "frame (mem t) pgt" "frame (mem s) pgt"] fo by blast
    then show ?thesis unfolding mp inj_on_insert using img fr pf new by simp
  qed
  have "kern_page (frame (mem t) pgt ix) \<and> leaf (mem t) pgt ix AND PTE_AF \<noteq> 0" if "ix \<in> mapped (mem t) pgt" for ix
  proof (cases "ix = vpath va")
    case True
    then show ?thesis using fr kp t(3) leaf_entry_bits by simp
  next
    case False
    then have "ix \<in> mapped (mem s) pgt" "path_ok 3 ix" "length ix = 3"
      using that mp by (auto simp: mapped_def)
    then show ?thesis using old(3) fo lf False by simp
  qed
  moreover have "frames (mem t) pgt \<inter> owned t pgt qs = {}"
    unfolding fs using old(2) own g(1) p by auto
  ultimately have us: "uspace t pgt qs" using g(2) inj by (simp add: uspace_def)
  have out: "mem t x = mem s x" if "outside (owned s pgt ?ps) x" for x
  proof -
    have "outside (owned ?s pgt ps) x" "\<not> in_page p x" using that own by (auto simp: outside_def)
    then show ?thesis using g(6) m by simp
  qed
  have "mem t x = m x" if "in_page p x" for x
  proof (rule g(6))
    have "page_aligned q" if "q \<in> owned ?s pgt ps" for q
      using that s1(4) tables_kern free_pages_ok unfolding aspace_def owned_def
      by (metis Un_iff kern_page_aligned)
    then show "outside (owned ?s pgt ps) x"
      using p that in_page_disjoint [of p _ x] kp by (metis kern_page_aligned outside_def)
  qed
  moreover have "kmem_frame s t" using s1(3) g(4) kmem_frame_trans [of s s1 t] by simp
  moreover have "pagemap pgt va (V2P p) PAGESIZE attr ?s = Inr t"
    by (rule trans [OF pagemap_one [OF va page_aligned_V2P [OF kp]] t(1)])
  ultimately show ?thesis using s1(1,2) us mp t(3,4) lf out g(1,3) own p by blast
qed


text \<open>
  \<open>ugrows pgt V s ps t qs\<close>: the user space gained the pages \<open>V\<close>, kept the leaves it had, and
  took what it needed from the pool; memory outside the tables and the pool is unchanged.
\<close>

definition ugrows :: "u64 \<Rightarrow> nat list set \<Rightarrow> 'a kmem_scheme \<Rightarrow> u64 list \<Rightarrow> 'a kmem_scheme \<Rightarrow> u64 list \<Rightarrow> bool" where
  "ugrows pgt V s ps t qs \<longleftrightarrow> uspace t pgt qs \<and> mapped (mem t) pgt = mapped (mem s) pgt \<union> V \<and>
     (\<forall>ix\<in>mapped (mem s) pgt. leaf (mem t) pgt ix = leaf (mem s) pgt ix) \<and>
     (\<forall>x. outside (owned s pgt ps) x \<longrightarrow> mem t x = mem s x) \<and>
     owned t pgt qs \<union> frame (mem t) pgt ` V \<subseteq> owned s pgt ps \<and> suffix qs ps \<and> kmem_frame s t"

lemma ugrows_refl: "uspace s pgt ps \<Longrightarrow> ugrows pgt {} s ps s ps"
  by (simp add: ugrows_def)

lemma ugrows_uspace: "ugrows pgt V s ps t qs \<Longrightarrow> uspace t pgt qs"
  by (simp add: ugrows_def)

lemma ugrows_trans:
  assumes 1: "ugrows pgt V s ps t qs" and 2: "ugrows pgt W t qs u rs"
  shows "ugrows pgt (V \<union> W) s ps u rs"
proof -
  from 1 have s: "mapped (mem t) pgt = mapped (mem s) pgt \<union> V" "owned t pgt qs \<subseteq> owned s pgt ps"
      "frame (mem t) pgt ` V \<subseteq> owned s pgt ps" "suffix qs ps" "kmem_frame s t"
      "\<And>x. outside (owned s pgt ps) x \<Longrightarrow> mem t x = mem s x"
      "\<And>ix. ix \<in> mapped (mem s) pgt \<Longrightarrow> leaf (mem t) pgt ix = leaf (mem s) pgt ix"
    by (auto simp: ugrows_def)
  from 2 have t: "mapped (mem u) pgt = mapped (mem t) pgt \<union> W" "owned u pgt rs \<subseteq> owned t pgt qs"
      "frame (mem u) pgt ` W \<subseteq> owned t pgt qs" "suffix rs qs" "kmem_frame t u" "uspace u pgt rs"
      "\<And>x. outside (owned t pgt qs) x \<Longrightarrow> mem u x = mem t x"
      "\<And>ix. ix \<in> mapped (mem t) pgt \<Longrightarrow> leaf (mem u) pgt ix = leaf (mem t) pgt ix"
    by (auto simp: ugrows_def)
  have "frame (mem u) pgt ix = frame (mem t) pgt ix" if "ix \<in> V" for ix
    using that s(1) t(8) by (simp add: frame_def)
  then have "frame (mem u) pgt ` V \<subseteq> owned s pgt ps" using s(3) by auto
  then have "owned u pgt rs \<union> frame (mem u) pgt ` (V \<union> W) \<subseteq> owned s pgt ps"
    unfolding image_Un using s(2) t(2,3) by blast
  moreover have "mem u x = mem s x" if "outside (owned s pgt ps) x" for x
    using that s(6) t(7) [OF outside_mono [OF s(2) that]] by simp
  moreover have "leaf (mem u) pgt ix = leaf (mem s) pgt ix" if "ix \<in> mapped (mem s) pgt" for ix
    using that s(1,7) t(8) by simp
  moreover have "suffix rs ps" "kmem_frame s u"
    using s(4,5) t(4,5) by (auto intro: kmem_frame_trans suffix_order.trans)
  moreover have "mapped (mem u) pgt = mapped (mem s) pgt \<union> (V \<union> W)" using s(1) t(1) by blast
  ultimately show ?thesis using t(6) unfolding ugrows_def by blast
qed

lemma owned_aligned: "aspace s pgt ps \<Longrightarrow> p \<in> owned s pgt ps \<Longrightarrow> page_aligned p"
  using tables_kern free_pages_ok unfolding aspace_def owned_def by (metis Un_iff kern_page_aligned)

lemma outside_page:
  assumes "aspace s pgt ps" "page_aligned p" "p \<notin> owned s pgt ps" "in_page p x"
  shows "outside (owned s pgt ps) x"
  unfolding outside_def using assms owned_aligned in_page_disjoint by metis

text \<open>A mapped frame keeps its bytes while the space grows.\<close>

lemma ugrows_frame:
  assumes "uspace s pgt ps" "ugrows pgt V s ps t qs" "ix \<in> mapped (mem s) pgt"
    "in_page (frame (mem s) pgt ix) x"
  shows "mem t x = mem s x" "frame (mem t) pgt ix = frame (mem s) pgt ix"
proof -
  have "frame (mem s) pgt ix \<notin> owned s pgt ps" "page_aligned (frame (mem s) pgt ix)" "aspace s pgt ps"
    using assms(1,3) by (auto simp: uspace_def frames_def kern_page_aligned)
  then have "outside (owned s pgt ps) x" using outside_page assms(4) by blast
  then show "mem t x = mem s x" using assms(2) by (simp add: ugrows_def)
  show "frame (mem t) pgt ix = frame (mem s) pgt ix" using assms(2,3) by (simp add: ugrows_def frame_def)
qed

text \<open>One turn of the loop that maps fresh pages, with \<open>m\<close> the memory after the page is filled.\<close>

lemma user_page:
  assumes u: "uspace s pgt (p # ps)" and ps: "2 \<le> length ps" and va: "page_aligned va"
    and new: "vpath va \<notin> mapped (mem s) pgt" and attr: "PTE_PA attr = 0"
    and m: "\<And>x. \<not> in_page p x \<Longrightarrow> m x = mem s x"
  shows "\<exists>s1 t qs. kalloc s = Inr (p, s1) \<and> p \<noteq> 0 \<and> mem s1 = zero_page (mem s) p \<and>
      pagemap pgt va (V2P p) PAGESIZE attr (s1\<lparr>mem := m\<rparr>) = Inr t \<and>
      ugrows pgt {vpath va} s (p # ps) t qs \<and> frame (mem t) pgt (vpath va) = p \<and>
      leaf (mem t) pgt (vpath va) = leaf_entry (V2P p) attr \<and>
      (\<forall>x. in_page p x \<longrightarrow> mem t x = m x) \<and> length ps \<le> 2 + length qs"
proof -
  have kp: "kern_page p" using u by (auto simp: uspace_def aspace_def)
  obtain s1 t qs where t: "kalloc s = Inr (p, s1)" "mem s1 = zero_page (mem s) p"
      "pagemap pgt va (V2P p) PAGESIZE attr (s1\<lparr>mem := m\<rparr>) = Inr t" "uspace t pgt qs"
      "mapped (mem t) pgt = insert (vpath va) (mapped (mem s) pgt)"
      "leaf (mem t) pgt (vpath va) = leaf_entry (V2P p) attr"
      "\<forall>ix. path_ok 3 ix \<longrightarrow> length ix = 3 \<longrightarrow> ix \<noteq> vpath va \<longrightarrow> leaf (mem t) pgt ix = leaf (mem s) pgt ix"
      "\<forall>x. in_page p x \<longrightarrow> mem t x = m x"
      "\<forall>x. outside (owned s pgt (p # ps)) x \<longrightarrow> mem t x = mem s x"
      "owned t pgt qs \<subseteq> owned s pgt (p # ps) - {p}" "suffix qs ps" "length ps \<le> 2 + length qs"
      "kmem_frame s t"
    using map_fresh [OF u ps va new attr m] by blast
  have f: "frame (mem t) pgt (vpath va) = p"
    using t(6) frame_leaf_entry [OF kp attr] by (simp add: frame_def)
  have "leaf (mem t) pgt ix = leaf (mem s) pgt ix" if "ix \<in> mapped (mem s) pgt" for ix
  proof -
    have "path_ok 3 ix" "length ix = 3" "ix \<noteq> vpath va" using that new by (auto simp: mapped_def)
    then show ?thesis using t(7) by blast
  qed
  then have "ugrows pgt {vpath va} s (p # ps) t qs"
    using t f by (auto simp: ugrows_def owned_def suffix_ConsI)
  then show ?thesis using t f kern_page_nonzero [OF kp] by blast
qed

lemma alloc_pages_spec:
  assumes "uspace s pgt ps" "3 * n \<le> length ps" "page_aligned va" "unat va + 4096 * n \<le> 2 ^ 39"
    "PTE_PA attr = 0" "\<And>i. i < n \<Longrightarrow> vpath (page_at va i) \<notin> mapped (mem s) pgt"
  shows "\<exists>t qs. alloc_pages n pgt va attr s = Inr (True, t) \<and> ugrows pgt (vrange va n) s ps t qs \<and>
           (\<forall>i<n. \<forall>x. in_page (frame (mem t) pgt (vpath (page_at va i))) x \<longrightarrow> mem t x = 0) \<and>
           length ps \<le> 3 * n + length qs"
  using assms
proof (induction n arbitrary: va s ps)
  case 0
  then show ?case using ugrows_refl by (auto intro!: exI [of _ ps])
next
  case (Suc n)
  obtain p ps' where ps: "ps = p # ps'" using Suc.prems(2) by (cases ps) auto
  have z: "\<not> in_page p x \<Longrightarrow> zero_page (mem s) p x = mem s x" for x by (simp add: zero_page_apply)
  have "vpath va \<notin> mapped (mem s) pgt" using Suc.prems(6) [of 0] by simp
  moreover have "2 \<le> length ps'" using Suc.prems(2) ps by simp
  ultimately obtain s1 t qs where t: "kalloc s = Inr (p, s1)" "p \<noteq> 0" "mem s1 = zero_page (mem s) p"
      "pagemap pgt va (V2P p) PAGESIZE attr (s1\<lparr>mem := zero_page (mem s) p\<rparr>) = Inr t"
      "ugrows pgt {vpath va} s ps t qs" "frame (mem t) pgt (vpath va) = p"
      "\<forall>x. in_page p x \<longrightarrow> mem t x = zero_page (mem s) p x" "length ps' \<le> 2 + length qs"
    using user_page [OF Suc.prems(1) [unfolded ps] _ Suc.prems(3) _ Suc.prems(5) z] ps by blast
  have s1: "s1\<lparr>mem := zero_page (mem s) p\<rparr> = s1" using t(3) by (metis kmem.surjective kmem.update_convs(1))
  note nxt = page_next [OF Suc.prems(3,4)]
  have ut: "uspace t pgt qs" using ugrows_uspace [OF t(5)] .
  have "vpath (page_at (va + PAGESIZE) i) \<notin> mapped (mem t) pgt" if "i < n" for i
    using Suc.prems(6) [of "Suc i"] that vpath_next_ne [OF Suc.prems(3,4) that] t(5)
    by (simp add: ugrows_def page_at_Suc)
  moreover have "3 * n \<le> length qs" using t(8) Suc.prems(2) ps by simp
  ultimately obtain v rs where v: "alloc_pages n pgt (va + PAGESIZE) attr t = Inr (True, v)"
      "ugrows pgt (vrange (va + PAGESIZE) n) t qs v rs"
      "\<forall>i<n. \<forall>x. in_page (frame (mem v) pgt (vpath (page_at (va + PAGESIZE) i))) x \<longrightarrow> mem v x = 0"
      "length qs \<le> 3 * n + length rs"
    using Suc.IH [OF ut _ nxt(2) _ Suc.prems(5)] nxt(1) Suc.prems(4) by auto
  have "mem v x = 0" if i: "i < Suc n" "in_page (frame (mem v) pgt (vpath (page_at va i))) x" for i x
  proof (cases i)
    case 0
    have mt: "vpath va \<in> mapped (mem t) pgt" using t(5) by (simp add: ugrows_def)
    have "frame (mem v) pgt (vpath va) = frame (mem t) pgt (vpath va)"
      using ugrows_frame(2) [OF ut v(2) mt in_page_self] .
    then have "in_page p x" using i(2) 0 t(6) by simp
    then show ?thesis using ugrows_frame(1) [OF ut v(2) mt, of x] t(6,7) by (simp add: zero_page_apply)
  next
    case (Suc j)
    then show ?thesis using i v(3) by (simp add: page_at_Suc)
  qed
  moreover have "ugrows pgt (vrange va (Suc n)) s ps v rs"
    using ugrows_trans [OF t(5) v(2)] by (simp add: vrange_Suc)
  moreover have "alloc_pages (Suc n) pgt va attr s = Inr (True, v)"
    using t(1,2,4) v(1) s1 by simp
  ultimately show ?case using t(8) v(4) ps by fastforce
qed


section \<open>Taking pages away\<close>

text \<open>One turn of the loop of \<open>pageunmap\<close>: the frame goes back to the pool.\<close>

lemma unmap_step:
  assumes u: "uspace s pgt ps" and mp: "vpath va \<in> mapped (mem s) pgt"
  shows "\<exists>t. (\<forall>n. unmap_pages (Suc n) pgt va s = unmap_pages n pgt (va + PAGESIZE) t) \<and>
      uspace t pgt (frame (mem s) pgt (vpath va) # ps) \<and>
      mapped (mem t) pgt = mapped (mem s) pgt - {vpath va} \<and>
      (\<forall>ix\<in>mapped (mem t) pgt. leaf (mem t) pgt ix = leaf (mem s) pgt ix) \<and>
      tables 1 (mem t) pgt = tables 1 (mem s) pgt \<and>
      (\<forall>x. outside (owned s pgt (frame (mem s) pgt (vpath va) # ps)) x \<longrightarrow> mem t x = mem s x) \<and>
      kmem_frame s t"
proof -
  let ?f = "frame (mem s) pgt (vpath va)"
  have a: "aspace s pgt ps" and fp: "free_pages s ps" using u by (simp_all add: uspace_def aspace_def)
  have f: "kern_page ?f" "?f \<notin> owned s pgt ps" using u mp by (auto simp: uspace_def frames_def)
  have lf: "leaf (mem s) pgt (vpath va) \<noteq> 0" using mp by (simp add: mapped_def)
  then obtain tb where tb: "node (mem s) 1 pgt (butlast (vpath va)) = Some tb"
    unfolding leaf_def by (cases "node (mem s) 1 pgt (butlast (vpath va))") auto
  note hit = pagewalk_hit [OF tb] pagewalk_hit_spec [OF tb]
  have nz: "tb + 8 * PIDX 3 va \<noteq> 0"
    using slot_nonzero [OF _ PIDX_bound [of 3 va]] aspace_page [OF a _ tb] path_ok_last [of "vpath va"] by simp
  obtain s1 where s1: "kfree ?f s = Inr s1" "free_pages s1 (?f # ps)"
      "\<And>x. \<not> in_page ?f x \<Longrightarrow> mem s1 x = mem s x" "kmem_frame s s1"
    using kfree_step [OF fp kern_page_aligned [OF f(1)] kern_page_nonzero [OF f(1)]] f(2) by (auto simp: owned_def)
  have ag: "mem s1 x = mem s x" if "t \<in> tables 1 (mem s) pgt" "in_page t x" for t x
  proof (rule s1(3))
    have "t \<noteq> ?f" "page_aligned t" using that(1) f(2) owned_aligned [OF a] by (auto simp: owned_def)
    then show "\<not> in_page ?f x" using that(2) f(1) in_page_disjoint kern_page_aligned by blast
  qed
  have tr: "tree 1 (mem s) pgt" using a by (simp add: aspace_def)
  have T: "tree 1 (mem s1) pgt" "tables 1 (mem s1) pgt = tables 1 (mem s) pgt"
    by (rule tree_agree [OF tr], erule (1) ag)+
  have L: "leaf (mem s1) pgt ix = leaf (mem s) pgt ix" if "path_ok 3 ix" "length ix = 3" for ix
    by (rule leaf_agree [OF tr _ that]) (erule (1) ag)
  have a1: "aspace s1 pgt (?f # ps)"
    using a s1(2) T f by (auto simp: aspace_def owned_def)
  have tb1: "node (mem s1) 1 pgt (butlast (vpath va)) = Some tb"
  proof -
    have ok: "path_ok (4 - 1) (butlast (vpath va))"
      by (simp add: path_ok_def PIDX_bound)
    have "node (mem s1) 1 pgt (butlast (vpath va)) = node (mem s) 1 pgt (butlast (vpath va))"
      by (rule node_agree [OF tr ok]) (erule (1) ag)
    then show ?thesis using tb by (rule trans)
  qed
  let ?t = "s1\<lparr>mem := st64 (mem s1) (tb + 8 * PIDX 3 va) 0\<rparr>"
  note G = leaf_store [OF a1 tb1, of 0]
  have g: "aspace ?t pgt (?f # ps)" "owned ?t pgt (?f # ps) \<subseteq> owned s1 pgt (?f # ps)"
      "\<And>ix. path_ok 3 ix \<Longrightarrow> length ix = 3 \<Longrightarrow> ix \<noteq> vpath va \<Longrightarrow> leaf (mem ?t) pgt ix = leaf (mem s) pgt ix"
      "\<And>x. outside (owned s1 pgt (?f # ps)) x \<Longrightarrow> mem ?t x = mem s1 x"
    using G(1) L by (auto simp: grows_def)
  have tt: "tables 1 (mem ?t) pgt = tables 1 (mem s) pgt"
  proof -
    have px: "length (butlast (vpath va)) = 2" "path_ok 2 (butlast (vpath va))"
      using path_ok_last [of "vpath va"] by auto
    have "tables 1 (mem ?t) pgt = tables 1 (mem s1) pgt"
      using tree_leaf_store(2) [OF T(1) tb1 px PIDX_bound [of 3 va], of 0] by simp
    then show ?thesis using T(2) by simp
  qed
  have mt: "mapped (mem ?t) pgt = mapped (mem s) pgt - {vpath va}"
  proof (intro set_eqI)
    fix ix show "ix \<in> mapped (mem ?t) pgt \<longleftrightarrow> ix \<in> mapped (mem s) pgt - {vpath va}"
      using g(3) [of ix] G(2) by (cases "ix = vpath va") (auto simp: mapped_def)
  qed
  have lt: "leaf (mem ?t) pgt ix = leaf (mem s) pgt ix" if "ix \<in> mapped (mem ?t) pgt" for ix
    using that mt g(3) by (auto simp: mapped_def)
  have ft: "frame (mem ?t) pgt ix = frame (mem s) pgt ix" if "ix \<in> mapped (mem ?t) pgt" for ix
    using lt [OF that] by (simp add: frame_def)
  have inj: "inj_on (frame (mem s) pgt) (mapped (mem s) pgt)" using u by (simp add: uspace_def)
  then have injt: "inj_on (frame (mem ?t) pgt) (mapped (mem ?t) pgt)"
    using ft mt by (simp add: inj_on_def)
  have "frame (mem ?t) pgt ix \<notin> owned ?t pgt (?f # ps)" if ix: "ix \<in> mapped (mem ?t) pgt" for ix
  proof -
    have ixs: "ix \<in> mapped (mem s) pgt" "ix \<noteq> vpath va" using ix mt by auto
    have "frame (mem s) pgt ix \<noteq> ?f" using inj_onD [OF inj _ ixs(1) mp] ixs(2) by blast
    moreover have "frame (mem s) pgt ix \<notin> owned s pgt ps"
      using u ixs(1) by (auto simp: uspace_def frames_def)
    ultimately show ?thesis unfolding ft [OF ix] owned_def tt by auto
  qed
  then have "frames (mem ?t) pgt \<inter> owned ?t pgt (?f # ps) = {}" by (auto simp: frames_def)
  moreover have "kern_page (frame (mem ?t) pgt ix) \<and> leaf (mem ?t) pgt ix AND PTE_AF \<noteq> 0"
    if "ix \<in> mapped (mem ?t) pgt" for ix
  proof -
    have "ix \<in> mapped (mem s) pgt" using that mt by blast
    then show ?thesis using u lt [OF that] ft [OF that] by (simp add: uspace_def)
  qed
  ultimately have ut: "uspace ?t pgt (?f # ps)" using g(1) injt unfolding uspace_def by blast
  have "mem ?t x = mem s x" if x: "outside (owned s pgt (?f # ps)) x" for x
  proof -
    have "outside (owned s1 pgt (?f # ps)) x" "\<not> in_page ?f x"
      using x T(2) by (auto simp: owned_def outside_def)
    then show ?thesis using g(4) s1(3) by simp
  qed
  moreover have "unmap_pages (Suc n) pgt va s = unmap_pages n pgt (va + PAGESIZE) ?t" for n
    using hit nz lf s1(1) by (simp add: frame_def)
  moreover have "kmem_frame s ?t" using s1(4) by simp
  ultimately show ?thesis using ut mt lt tt by blast
qed

text \<open>\<open>unmaps pgt V s ps t qs\<close>: the pages \<open>V\<close> are gone, their frames are the new free pages.\<close>

definition unmaps :: "u64 \<Rightarrow> nat list set \<Rightarrow> 'a kmem_scheme \<Rightarrow> u64 list \<Rightarrow> 'a kmem_scheme \<Rightarrow> u64 list \<Rightarrow> bool" where
  "unmaps pgt V s ps t qs \<longleftrightarrow> uspace t pgt qs \<and> mapped (mem t) pgt = mapped (mem s) pgt - V \<and>
     (\<forall>ix\<in>mapped (mem t) pgt. leaf (mem t) pgt ix = leaf (mem s) pgt ix) \<and>
     tables 1 (mem t) pgt = tables 1 (mem s) pgt \<and> set qs = set ps \<union> frame (mem s) pgt ` V \<and>
     (\<forall>x. outside (owned s pgt qs) x \<longrightarrow> mem t x = mem s x) \<and> kmem_frame s t"

lemma unmap_pages_spec:
  assumes "uspace s pgt ps" "page_aligned va" "unat va + 4096 * n \<le> 2 ^ 39"
    "vrange va n \<subseteq> mapped (mem s) pgt"
  shows "\<exists>t qs. unmap_pages n pgt va s = Inr t \<and> unmaps pgt (vrange va n) s ps t qs"
  using assms
proof (induction n arbitrary: va s ps)
  case 0
  then show ?case by (auto simp: unmaps_def)
next
  case (Suc n)
  let ?f = "frame (mem s) pgt (vpath va)"
  have mp: "vpath va \<in> mapped (mem s) pgt" using Suc.prems(4) by (simp add: vrange_Suc)
  obtain t where t: "\<And>n. unmap_pages (Suc n) pgt va s = unmap_pages n pgt (va + PAGESIZE) t"
      "uspace t pgt (?f # ps)" "mapped (mem t) pgt = mapped (mem s) pgt - {vpath va}"
      "\<And>ix. ix \<in> mapped (mem t) pgt \<Longrightarrow> leaf (mem t) pgt ix = leaf (mem s) pgt ix"
      "tables 1 (mem t) pgt = tables 1 (mem s) pgt"
      "\<And>x. outside (owned s pgt (?f # ps)) x \<Longrightarrow> mem t x = mem s x" "kmem_frame s t"
    using unmap_step [OF Suc.prems(1) mp] by blast
  note nxt = page_next [OF Suc.prems(2,3)]
  have V: "vrange (va + PAGESIZE) n \<subseteq> mapped (mem t) pgt"
    using Suc.prems(4) t(3) vpath_notin_next [OF Suc.prems(2,3)] by (auto simp: vrange_Suc)
  obtain u qs where u: "unmap_pages n pgt (va + PAGESIZE) t = Inr u" "uspace u pgt qs"
      "mapped (mem u) pgt = mapped (mem t) pgt - vrange (va + PAGESIZE) n"
      "\<And>ix. ix \<in> mapped (mem u) pgt \<Longrightarrow> leaf (mem u) pgt ix = leaf (mem t) pgt ix"
      "tables 1 (mem u) pgt = tables 1 (mem t) pgt"
      "set qs = set (?f # ps) \<union> frame (mem t) pgt ` vrange (va + PAGESIZE) n"
      "\<And>x. outside (owned t pgt qs) x \<Longrightarrow> mem u x = mem t x" "kmem_frame t u"
    using Suc.IH [OF t(2) nxt(2) _ V] nxt(1) Suc.prems(3) by (auto simp: unmaps_def)
  have "frame (mem t) pgt ix = frame (mem s) pgt ix" if "ix \<in> mapped (mem t) pgt" for ix
    using t(4) [OF that] by (simp add: frame_def)
  then have "frame (mem t) pgt ` vrange (va + PAGESIZE) n = frame (mem s) pgt ` vrange (va + PAGESIZE) n"
    using V by (intro image_cong) auto
  then have qs: "set qs = set ps \<union> frame (mem s) pgt ` vrange va (Suc n)"
    using u(6) by (simp add: vrange_Suc)
  have "mem u x = mem s x" if x: "outside (owned s pgt qs) x" for x
  proof -
    have "owned t pgt qs = owned s pgt qs" using t(5) by (simp add: owned_def)
    moreover have "outside (owned s pgt (?f # ps)) x"
      using x u(6) by (auto simp: outside_def owned_def)
    ultimately show ?thesis using x u(7) t(6) by simp
  qed
  moreover have "mapped (mem u) pgt = mapped (mem s) pgt - vrange va (Suc n)"
    using u(3) t(3) by (auto simp: vrange_Suc)
  moreover have "kmem_frame s u" using t(7) u(8) by (rule kmem_frame_trans)
  moreover have "leaf (mem u) pgt ix = leaf (mem s) pgt ix" if "ix \<in> mapped (mem u) pgt" for ix
    using that u(3,4) t(4) by auto
  ultimately have "unmaps pgt (vrange va (Suc n)) s ps u qs"
    using u(2,5) t(5) qs by (simp add: unmaps_def)
  then show ?case using t(1) u(1) by auto
qed


section \<open>Copying\<close>

text \<open>All pages of a space, tables and frames.\<close>

definition foot :: "mem \<Rightarrow> u64 \<Rightarrow> u64 set" where
  "foot m pgt = tables 1 m pgt \<union> frames m pgt"

text \<open>A space all of whose pages stay the same is unchanged, whatever happens to the pool.\<close>

lemma uspace_agree:
  assumes u: "uspace s pgt ps" and ag: "\<And>p x. p \<in> tables 1 (mem s) pgt \<Longrightarrow> in_page p x \<Longrightarrow> mem t x = mem s x"
    and fp: "free_pages t qs" "set qs \<subseteq> set ps"
  shows "uspace t pgt qs" "mapped (mem t) pgt = mapped (mem s) pgt" "foot (mem t) pgt = foot (mem s) pgt"
    "\<And>ix. path_ok 3 ix \<Longrightarrow> length ix = 3 \<Longrightarrow> leaf (mem t) pgt ix = leaf (mem s) pgt ix"
proof -
  have tr: "tree 1 (mem s) pgt" using u by (simp add: uspace_def aspace_def)
  show L: "leaf (mem t) pgt ix = leaf (mem s) pgt ix" if "path_ok 3 ix" "length ix = 3" for ix
    by (rule leaf_agree [OF tr _ that]) (erule (1) ag)
  show m: "mapped (mem t) pgt = mapped (mem s) pgt" by (rule mapped_cong) (rule L)
  have f: "frame (mem t) pgt ix = frame (mem s) pgt ix" if "ix \<in> mapped (mem s) pgt" for ix
    using L that by (simp add: frame_def mapped_def)
  have T: "tree 1 (mem t) pgt" "tables 1 (mem t) pgt = tables 1 (mem s) pgt"
    by (rule tree_agree [OF tr], erule (1) ag)+
  have fs: "frames (mem t) pgt = frames (mem s) pgt"
    unfolding frames_def m by (rule image_cong [OF refl]) (rule f)
  then show "foot (mem t) pgt = foot (mem s) pgt" by (simp only: foot_def T)
  have "inj_on (frame (mem t) pgt) (mapped (mem s) pgt)"
    using u inj_on_cong [of "mapped (mem s) pgt" "frame (mem t) pgt" "frame (mem s) pgt"] f
    by (auto simp: uspace_def)
  moreover have "kern_page (frame (mem t) pgt ix) \<and> leaf (mem t) pgt ix AND PTE_AF \<noteq> 0"
    if "ix \<in> mapped (mem s) pgt" for ix
    using u that f L unfolding uspace_def mapped_def by auto
  moreover have "aspace t pgt qs" using u T fp by (auto simp: uspace_def aspace_def)
  moreover have "frames (mem t) pgt \<inter> owned t pgt qs = {}"
    using u fs fp T by (auto simp: uspace_def owned_def)
  ultimately show "uspace t pgt qs" by (simp add: uspace_def m)
qed

definition same_bytes :: "mem \<Rightarrow> u64 \<Rightarrow> mem \<Rightarrow> u64 \<Rightarrow> bool" where
  "same_bytes m p m' q \<longleftrightarrow> (\<forall>off. unat off < 4096 \<longrightarrow> m (p + off) = m' (q + off))"

lemma unat_page_le: "page_aligned p \<Longrightarrow> unat p + 4096 \<le> 2 ^ 64"
  by (auto elim!: page_alignedE)

lemma memcpy_page:
  "page_aligned p \<Longrightarrow> page_aligned q \<Longrightarrow>
   memcpy m p q PAGESIZE = (\<lambda>x. if in_page p x then m (q + (x - p)) else m x)"
  using memmove_copied [of p PAGESIZE q m] unat_page_le
  by (simp add: memcpy_def copied_def in_page_def fun_eq_iff)

text \<open>
  Copying one page. The old space may be any whose pages are apart from the new tables and the
  pool; only its page at \<open>va\<close> has to be mapped.
\<close>

lemma cp_page_spec:
  assumes u: "uspace s new ps" and ps: "3 \<le> length ps" and old: "uspace s old ps'"
    and apart: "foot (mem s) old \<inter> owned s new ps = {}"
    and va: "page_aligned va" "vpath va \<in> mapped (mem s) old" "vpath va \<notin> mapped (mem s) new"
    and attr: "PTE_PA attr = 0"
  shows "\<exists>t qs. cp_page new old va attr s = Inr (True, t) \<and> ugrows new {vpath va} s ps t qs \<and>
      same_bytes (mem t) (frame (mem t) new (vpath va)) (mem s) (frame (mem s) old (vpath va)) \<and>
      leaf (mem t) new (vpath va) = leaf_entry (V2P (frame (mem t) new (vpath va))) attr \<and>
      length ps \<le> 3 + length qs"
proof -
  let ?f = "frame (mem s) old (vpath va)"
  obtain p ps1 where psc: "ps = p # ps1" using ps by (cases ps) auto
  have f: "kern_page ?f" "?f \<in> foot (mem s) old" using old va(2) by (auto simp: uspace_def foot_def frames_def)
  have lf: "leaf (mem s) old (vpath va) \<noteq> 0" using va(2) by (simp add: mapped_def)
  then obtain tb where tb: "node (mem s) 1 old (butlast (vpath va)) = Some tb"
    unfolding leaf_def by (cases "node (mem s) 1 old (butlast (vpath va))") auto
  have ao: "aspace s old ps'" using old by (simp add: uspace_def)
  have nz: "tb + 8 * PIDX 3 va \<noteq> 0"
    using slot_nonzero [OF _ PIDX_bound [of 3 va]] aspace_page [OF ao _ tb] path_ok_last [of "vpath va"] by simp
  have kp: "kern_page p" using u psc by (auto simp: uspace_def aspace_def)
  have pf: "p \<noteq> ?f" using apart f(2) psc by (auto simp: owned_def)
  have al: "page_aligned p" "page_aligned ?f" using kp f(1) by (auto dest: kern_page_aligned)
  let ?m = "memcpy (zero_page (mem s) p) p ?f PAGESIZE"
  have m: "?m x = (if in_page p x then mem s (?f + (x - p)) else mem s x)" for x
  proof -
    have "\<not> in_page p (?f + (x - p))" if "in_page p x"
    proof -
      have "in_page ?f (?f + (x - p))" using that by (simp add: in_page_def)
      then show ?thesis using in_page_disjoint [OF al] pf by blast
    qed
    then show ?thesis using al by (simp add: memcpy_page zero_page_apply)
  qed
  then have m_out: "\<And>x. \<not> in_page p x \<Longrightarrow> ?m x = mem s x" by simp
  have "2 \<le> length ps1" using ps psc by simp
  then obtain s1 t qs where t: "kalloc s = Inr (p, s1)" "p \<noteq> 0" "mem s1 = zero_page (mem s) p"
      "pagemap new va (V2P p) PAGESIZE attr (s1\<lparr>mem := ?m\<rparr>) = Inr t"
      "ugrows new {vpath va} s ps t qs" "frame (mem t) new (vpath va) = p"
      "leaf (mem t) new (vpath va) = leaf_entry (V2P p) attr"
      "\<forall>x. in_page p x \<longrightarrow> mem t x = ?m x" "length ps1 \<le> 2 + length qs"
    using user_page [OF u [unfolded psc] _ va(1,3) attr m_out] psc by blast
  have "same_bytes (mem t) p (mem s) ?f"
    using t(8) m by (simp add: same_bytes_def in_page_def)
  moreover have "cp_page new old va attr s = Inr (True, t)"
    using pagewalk_hit [OF tb] pagewalk_hit_spec [OF tb] nz t(1-4)
    by (simp add: cp_page_def Let_def frame_def)
  ultimately show ?thesis using t psc by auto
qed

text \<open>The old space is left alone.\<close>

lemma apart_ugrows:
  assumes g: "ugrows new V s ps t qs" and old: "uspace s old ps" and apart: "foot (mem s) old \<inter> owned s new ps = {}"
    and u: "uspace s new ps"
  shows "uspace t old qs" "mapped (mem t) old = mapped (mem s) old"
    "foot (mem t) old \<inter> owned t new qs = {}" "foot (mem t) old = foot (mem s) old"
    "\<And>p x. p \<in> foot (mem s) old \<Longrightarrow> in_page p x \<Longrightarrow> mem t x = mem s x"
    "\<And>ix. path_ok 3 ix \<Longrightarrow> length ix = 3 \<Longrightarrow> leaf (mem t) old ix = leaf (mem s) old ix"
proof -
  have a: "aspace s new ps" "aspace s old ps" using u old by (simp_all add: uspace_def)
  show ag: "mem t x = mem s x" if p: "p \<in> foot (mem s) old" "in_page p x" for p x
  proof -
    have "page_aligned p"
      using p(1) old owned_aligned [OF a(2)] unfolding foot_def frames_def uspace_def owned_def
      by (auto dest: kern_page_aligned)
    then have "outside (owned s new ps) x" using outside_page [OF a(1) _ _ p(2)] p(1) apart by blast
    then show ?thesis using g by (simp add: ugrows_def)
  qed
  then have agt: "\<And>p x. p \<in> tables 1 (mem s) old \<Longrightarrow> in_page p x \<Longrightarrow> mem t x = mem s x"
    by (auto simp: foot_def)
  have q: "free_pages t qs" "set qs \<subseteq> set ps" "owned t new qs \<subseteq> owned s new ps"
    using g set_mono_suffix [of qs ps] by (auto simp: ugrows_def uspace_def aspace_def)
  show "uspace t old qs" "mapped (mem t) old = mapped (mem s) old" "foot (mem t) old = foot (mem s) old"
    by (rule uspace_agree [OF old _ q(1,2)], erule (1) agt)+
  then show "foot (mem t) old \<inter> owned t new qs = {}" using apart q(3) by auto
  show "leaf (mem t) old ix = leaf (mem s) old ix" if "path_ok 3 ix" "length ix = 3" for ix
    by (rule uspace_agree(4) [OF old _ q(1,2) that]) (erule (1) agt)
qed


text \<open>The pages \<open>V\<close> of \<open>new\<close> hold what those of \<open>old\<close> held, in their own frames.\<close>

definition copies :: "u64 \<Rightarrow> u64 \<Rightarrow> nat list set \<Rightarrow> u64 \<Rightarrow> 'a kmem_scheme \<Rightarrow> 'a kmem_scheme \<Rightarrow> bool" where
  "copies new old V attr s t \<longleftrightarrow> (\<forall>ix\<in>V.
     same_bytes (mem t) (frame (mem t) new ix) (mem s) (frame (mem s) old ix) \<and>
     leaf (mem t) new ix = leaf_entry (V2P (frame (mem t) new ix)) attr)"

lemma copies_ugrows:
  assumes c: "copies new old V attr s t" and ut: "uspace t new qs" and g: "ugrows new W t qs u rs"
    and V: "V \<subseteq> mapped (mem t) new"
  shows "copies new old V attr s u"
  unfolding copies_def
proof
  fix ix assume ix: "ix \<in> V"
  then have m: "ix \<in> mapped (mem t) new" using V by blast
  have "frame (mem u) new ix = frame (mem t) new ix" using ugrows_frame(2) [OF ut g m in_page_self] .
  moreover have "leaf (mem u) new ix = leaf (mem t) new ix" using g m by (simp add: ugrows_def)
  moreover have "mem u (frame (mem t) new ix + off) = mem t (frame (mem t) new ix + off)" if "unat off < 4096" for off
    using ugrows_frame(1) [OF ut g m] that by (simp add: in_page_def)
  ultimately show "same_bytes (mem u) (frame (mem u) new ix) (mem s) (frame (mem s) old ix) \<and>
     leaf (mem u) new ix = leaf_entry (V2P (frame (mem u) new ix)) attr"
    using c ix by (simp add: copies_def same_bytes_def)
qed

lemma copies_from:
  assumes c: "copies new old V attr t u" and old: "uspace s old ps" and V: "V \<subseteq> mapped (mem s) old"
    and ag: "\<And>p x. p \<in> foot (mem s) old \<Longrightarrow> in_page p x \<Longrightarrow> mem t x = mem s x"
    and lf: "\<And>ix. path_ok 3 ix \<Longrightarrow> length ix = 3 \<Longrightarrow> leaf (mem t) old ix = leaf (mem s) old ix"
  shows "copies new old V attr s u"
  unfolding copies_def
proof
  fix ix assume ix: "ix \<in> V"
  then have m: "ix \<in> mapped (mem s) old" using V by blast
  then have "frame (mem t) old ix = frame (mem s) old ix" using lf by (simp add: frame_def mapped_def)
  moreover have "frame (mem s) old ix \<in> foot (mem s) old" using m by (simp add: foot_def frames_def)
  then have "mem t (frame (mem s) old ix + off) = mem s (frame (mem s) old ix + off)" if "unat off < 4096" for off
    using ag that by (simp add: in_page_def)
  ultimately show "same_bytes (mem u) (frame (mem u) new ix) (mem s) (frame (mem s) old ix) \<and>
     leaf (mem u) new ix = leaf_entry (V2P (frame (mem u) new ix)) attr"
    using c ix by (simp add: copies_def same_bytes_def)
qed

lemma cp_pages_spec:
  assumes "uspace s new ps" "3 * n \<le> length ps" "uspace s old ps" "foot (mem s) old \<inter> owned s new ps = {}"
    "page_aligned va" "unat va + 4096 * n \<le> 2 ^ 39" "vrange va n \<subseteq> mapped (mem s) old"
    "vrange va n \<inter> mapped (mem s) new = {}"
  shows "\<exists>t qs. cp_pages n new old va s = Inr (True, t) \<and> ugrows new (vrange va n) s ps t qs \<and>
           copies new old (vrange va n) PTE_USER s t \<and> length ps \<le> 3 * n + length qs"
  using assms
proof (induction n arbitrary: va s ps)
  case 0
  then show ?case using ugrows_refl by (auto simp: copies_def intro!: exI [of _ ps])
next
  case (Suc n)
  have mp: "vpath va \<in> mapped (mem s) old" "vpath va \<notin> mapped (mem s) new"
    using Suc.prems(7,8) by (auto simp: vrange_Suc)
  have len: "3 \<le> length ps" using Suc.prems(2) by simp
  obtain t qs where t: "cp_page new old va PTE_USER s = Inr (True, t)" "ugrows new {vpath va} s ps t qs"
      "same_bytes (mem t) (frame (mem t) new (vpath va)) (mem s) (frame (mem s) old (vpath va))"
      "leaf (mem t) new (vpath va) = leaf_entry (V2P (frame (mem t) new (vpath va))) PTE_USER"
      "length ps \<le> 3 + length qs"
    using cp_page_spec [OF Suc.prems(1) len Suc.prems(3,4,5) mp PTE_PA_attr(1)] by blast
  note A = apart_ugrows [OF t(2) Suc.prems(3,4,1)]
  note nxt = page_next [OF Suc.prems(5,6)]
  have ut: "uspace t new qs" using ugrows_uspace [OF t(2)] .
  have V: "vrange (va + PAGESIZE) n \<subseteq> mapped (mem t) old" "vrange (va + PAGESIZE) n \<inter> mapped (mem t) new = {}"
    using Suc.prems(7,8) A(2) t(2) vpath_notin_next [OF Suc.prems(5,6)]
    by (auto simp: vrange_Suc ugrows_def)
  have "3 * n \<le> length qs" "unat (va + PAGESIZE) + 4096 * n \<le> 2 ^ 39"
    using t(5) Suc.prems(2,6) nxt(1) by simp_all
  note IH = Suc.IH [OF ut this(1) A(1,3) nxt(2) this(2) V]
  obtain u rs where u: "cp_pages n new old (va + PAGESIZE) t = Inr (True, u)"
      "ugrows new (vrange (va + PAGESIZE) n) t qs u rs"
      "copies new old (vrange (va + PAGESIZE) n) PTE_USER t u" "length qs \<le> 3 * n + length rs"
    using IH by blast
  have "copies new old {vpath va} PTE_USER s u"
  proof (rule copies_ugrows [OF _ ut u(2)])
    show "copies new old {vpath va} PTE_USER s t" using t(3,4) by (simp add: copies_def)
    show "{vpath va} \<subseteq> mapped (mem t) new" using t(2) by (simp add: ugrows_def)
  qed
  moreover have "copies new old (vrange (va + PAGESIZE) n) PTE_USER s u"
  proof (rule copies_from [OF u(3) Suc.prems(3)])
    show "vrange (va + PAGESIZE) n \<subseteq> mapped (mem s) old" using Suc.prems(7) by (auto simp: vrange_Suc)
  qed (fact A(5), fact A(6))
  ultimately have "copies new old (vrange va (Suc n)) PTE_USER s u"
    unfolding vrange_Suc copies_def by blast
  moreover have "ugrows new (vrange va (Suc n)) s ps u rs"
    using ugrows_trans [OF t(2) u(2)] by (simp add: vrange_Suc)
  moreover have "cp_pages (Suc n) new old va s = Inr (True, u)" using t(1) u(1) by simp
  ultimately show ?case using t(5) u(4) by fastforce
qed


lemma OFFSET_bound: "unat (OFFSET va) < 4096"
proof -
  have "OFFSET va \<le> 0xfff" unfolding OFFSET_def by (rule word_and_le1)
  then show ?thesis by (simp add: word_le_nat_alt)
qed

lemma page_offset_nonzero:
  assumes "page_aligned p" "p \<noteq> 0" "unat off < 4096"
  shows "p + off \<noteq> 0"
proof -
  have "unat p + unat off < 2 ^ 64" using assms(1,3) by (auto elim!: page_alignedE)
  then have "unat (p + off) = unat p + unat off" using unat_add_lem [of p off] by simp
  moreover have "unat p \<noteq> 0" using assms(2) by (simp add: unat_0_iff)
  ultimately have "unat (p + off) \<noteq> 0" by simp
  then show ?thesis by (metis unat_0)
qed

lemma unat_PAGEROUNDUP:
  assumes "unat x + 4095 < 2 ^ 64"
  shows "unat (PAGEROUNDUP x) = 4096 * npages x"
proof -
  have "x + PAGESIZE - 1 = x + 4095" "PAGESIZE - 1 = mask 12" by (simp_all add: mask_eq_exp_minus_1)
  then have "unat (PAGEROUNDUP x) = unat (x + 4095) div 4096 * 4096"
    unfolding PAGEROUNDUP_def using unat_and_not_mask [of "x + 4095" 12] by (simp add: add.commute)
  moreover have "unat (x + 4095) = unat x + 4095" using assms unat_add_lem [of x 4095] by simp
  ultimately show ?thesis by (simp add: npages_def)
qed

section \<open>Properties\<close>

text \<open>
  Mapping a range that is not mapped yet: \<open>pagemap\<close> returns, the leaf entry of every page
  of the range holds the physical address and attributes asked for, every other translation
  is unchanged, the table stays a proper tree, and memory changed only in tables and in pages
  that were free.
\<close>

theorem pagemap_maps:
  assumes "aspace s pgt ps" "page_aligned va" "page_aligned pa" "page_aligned sz"
    "unat va + unat sz \<le> 2 ^ 39" "2 * (unat sz div 4096) \<le> length ps"
    "\<And>i. i < unat sz div 4096 \<Longrightarrow> leaf (mem s) pgt (vpath (page_at va i)) AND PTE_AF = 0"
  shows "\<exists>t qs. pagemap pgt va pa sz attr s = Inr t \<and> aspace t pgt qs \<and>
           (\<forall>i<unat sz div 4096. leaf (mem t) pgt (vpath (page_at va i)) =
              PTE_PA (page_at pa i) OR PTE_AF OR attr OR PTE_V) \<and>
           (\<forall>ix. path_ok 3 ix \<longrightarrow> length ix = 3 \<longrightarrow> ix \<notin> vrange va (unat sz div 4096) \<longrightarrow>
              leaf (mem t) pgt ix = leaf (mem s) pgt ix) \<and>
           (\<forall>x. outside (owned s pgt ps) x \<longrightarrow> mem t x = mem s x)"
proof -
  have "4096 * (unat sz div 4096) = unat sz" using assms(4) by (auto elim!: page_alignedE)
  then have "unat va + 4096 * (unat sz div 4096) \<le> 2 ^ 39" using assms(5) by simp
  from map_pages_spec [OF assms(1,6,2) this assms(7), of pa attr] obtain t qs where
    "map_pages (unat sz div 4096) pgt va pa attr s = Inr t" "grows pgt (vrange va (unat sz div 4096)) s ps t qs"
    "\<forall>i<unat sz div 4096. leaf (mem t) pgt (vpath (page_at va i)) = leaf_entry (page_at pa i) attr"
    by blast
  then show ?thesis using assms(2-4) by (auto simp: pagemap_def page_aligned_mod grows_def leaf_entry_def)
qed

text \<open>
  Mapping over a page that is mapped already stops the machine, whichever page of the range
  it is. \<open>load_prg\<close>'s caller maps the segments of an ELF file at addresses the file chooses, so
  a file with overlapping segments reaches this panic.
\<close>

theorem pagemap_overlap_panics:
  assumes "aspace s pgt ps" "page_aligned va" "page_aligned pa" "page_aligned sz"
    "unat va + unat sz \<le> 2 ^ 39" "2 * (unat sz div 4096) \<le> length ps"
    "i < unat sz div 4096" "leaf (mem s) pgt (vpath (page_at va i)) AND PTE_AF \<noteq> 0"
  shows "pagemap pgt va pa sz attr s = Inl (Panic ''this entry has been used'')"
proof -
  have "4096 * (unat sz div 4096) = unat sz" using assms(4) by (auto elim!: page_alignedE)
  then have "unat va + 4096 * (unat sz div 4096) \<le> 2 ^ 39" using assms(5) by simp
  from map_pages_used [OF assms(1,6,2) this assms(7,8)] show ?thesis
    using assms(2-4) by (simp add: pagemap_def page_aligned_mod)
qed

text \<open>
  Translating a mapped address changes nothing and gives the address at the same offset in
  the frame the leaf entry names.
\<close>

theorem uva2ka_mapped:
  assumes "uspace s pgt ps" "vpath va \<in> mapped (mem s) pgt" "VA_START < frame (mem s) pgt (vpath va)"
  shows "uva2ka pgt va s = Inr (frame (mem s) pgt (vpath va) + OFFSET va, s)"
proof -
  let ?e = "leaf (mem s) pgt (vpath va)"
  have a: "aspace s pgt ps" using assms(1) by (simp add: uspace_def)
  have "?e \<noteq> 0" using assms(2) by (simp add: mapped_def)
  then obtain tb where tb: "node (mem s) 1 pgt (butlast (vpath va)) = Some tb"
    unfolding leaf_def by (cases "node (mem s) 1 pgt (butlast (vpath va))") auto
  have nz: "tb + 8 * PIDX 3 va \<noteq> 0"
    using slot_nonzero [OF _ PIDX_bound [of 3 va]] aspace_page [OF a _ tb] path_ok_last [of "vpath va"] by simp
  have kp: "kern_page (frame (mem s) pgt (vpath va))" using assms(1,2) by (simp add: uspace_def)
  have fr: "frame (mem s) pgt (vpath va) = PTE_PA ?e + VA_START" by (simp add: frame_def P2V_def)
  have pa: "PTE_PA ?e \<noteq> 0" using assms(3) fr by auto
  have "PTE_PA ?e + OFFSET va \<noteq> 0"
    using page_offset_nonzero [OF _ pa OFFSET_bound] page_aligned_V2P [OF kp] by (simp add: frame_def)
  then show ?thesis
    using pagewalk_hit [OF tb] pagewalk_hit_spec [OF tb] nz
    by (simp add: uva2ka_def uva2pa_def fr P2V_def ac_simps)
qed

text \<open>
  Translating an address that is not mapped does not fail: \<open>pagewalk\<close> makes the missing
  tables on the way, and the result is the offset within the page as a physical address. Only
  for a page-aligned address is it the 0 that the callers take as "not mapped"; otherwise they
  are handed an address in the first page of physical memory.
\<close>

theorem uva2ka_unmapped_bogus:
  assumes "aspace s pgt ps" "2 \<le> length ps" "leaf (mem s) pgt (vpath va) = 0" "OFFSET va \<noteq> 0"
  shows "\<exists>t. uva2ka pgt va s = Inr (VA_START + OFFSET va, t)"
proof -
  obtain tb t qs where t: "pagewalk pgt va s = Inr (tb + 8 * PIDX 3 va, t)"
      "node (mem t) 1 pgt (butlast (vpath va)) = Some tb" "grows pgt {} s ps t qs"
    using pagewalk_spec [OF assms(1,2)] by blast
  have "tb + 8 * PIDX 3 va \<noteq> 0"
    using slot_nonzero [OF _ PIDX_bound [of 3 va]] aspace_page [OF grows_aspace [OF t(3)] _ t(2)]
      path_ok_last [of "vpath va"] by simp
  moreover have "ld64 (mem t) (tb + 8 * PIDX 3 va) = 0"
    using pagewalk_hit_spec [OF t(2)] grows_leaf [OF t(3), of va] assms(3) by simp
  ultimately have "uva2pa pgt va s = Inr (OFFSET va, t)"
    using t(1) by (simp add: uva2pa_def PTE_PA_def)
  then show ?thesis using assms(4) by (simp add: uva2ka_def P2V_def add.commute)
qed

text \<open>
  C8. \<open>alloc_userspace\<close> backs every page of the range with a zeroed frame of its own; what the
  space mapped before keeps its translation and its bytes.
\<close>

theorem alloc_userspace_fresh:
  assumes "uspace s pgt ps" "3 * npages sz \<le> length ps" "page_aligned va"
    "unat va + 4096 * npages sz \<le> 2 ^ 39" "vrange va (npages sz) \<inter> mapped (mem s) pgt = {}"
  shows "\<exists>t qs. alloc_userspace pgt va sz s = Inr (sint (ucast sz :: u32), t) \<and> uspace t pgt qs \<and>
           mapped (mem t) pgt = mapped (mem s) pgt \<union> vrange va (npages sz) \<and>
           (\<forall>ix\<in>vrange va (npages sz). \<forall>x. in_page (frame (mem t) pgt ix) x \<longrightarrow> mem t x = 0) \<and>
           (\<forall>ix\<in>mapped (mem s) pgt. leaf (mem t) pgt ix = leaf (mem s) pgt ix \<and>
              (\<forall>x. in_page (frame (mem s) pgt ix) x \<longrightarrow> mem t x = mem s x))"
proof -
  have "vpath (page_at va i) \<notin> mapped (mem s) pgt" if "i < npages sz" for i
    using assms(5) that by (auto simp: vrange_def)
  from alloc_pages_spec [OF assms(1-4) PTE_PA_attr(1) this] obtain t qs where
    t: "alloc_pages (npages sz) pgt va PTE_USER s = Inr (True, t)" "ugrows pgt (vrange va (npages sz)) s ps t qs"
      "\<forall>i<npages sz. \<forall>x. in_page (frame (mem t) pgt (vpath (page_at va i))) x \<longrightarrow> mem t x = 0"
    by blast
  have "\<forall>ix\<in>mapped (mem s) pgt. \<forall>x. in_page (frame (mem s) pgt ix) x \<longrightarrow> mem t x = mem s x"
    using ugrows_frame(1) [OF assms(1) t(2)] by blast
  moreover have "\<forall>ix\<in>vrange va (npages sz). \<forall>x. in_page (frame (mem t) pgt ix) x \<longrightarrow> mem t x = 0"
    using t(3) by (auto simp: vrange_def)
  moreover have "alloc_userspace pgt va sz s = Inr (sint (ucast sz :: u32), t)"
    using t(1) by (simp add: alloc_userspace_def)
  ultimately show ?thesis using t(2) by (auto simp: ugrows_def)
qed


lemma cp_userspace_spec:
  assumes new: "uspace s new ps" "mapped (mem s) new = {}" and old: "uspace s old ps"
    and apart: "foot (mem s) old \<inter> owned s new ps = {}"
    and maps: "mapped (mem s) old = insert (vpath USTACKBOTTOM) (vrange va (npages sz))"
    and va: "page_aligned va" "unat va + 4096 * npages sz \<le> unat USTACKBOTTOM"
    and pool: "3 * npages sz + 3 \<le> length ps"
  shows "\<exists>t qs. cp_userspace new old va sz s = Inr (0, t) \<and> uspace t new qs \<and> uspace t old qs \<and>
           mapped (mem t) new = mapped (mem s) old \<and> foot (mem t) new \<inter> foot (mem t) old = {} \<and>
           (\<forall>ix\<in>mapped (mem s) old.
              same_bytes (mem t) (frame (mem t) new ix) (mem s) (frame (mem s) old ix)) \<and>
           (\<forall>ix\<in>mapped (mem s) old. leaf (mem t) old ix = leaf (mem s) old ix) \<and>
           (\<forall>p\<in>foot (mem s) old. \<forall>x. in_page p x \<longrightarrow> mem t x = mem s x) \<and>
           ugrows new (mapped (mem s) old) s ps t qs"
proof -
  let ?n = "npages sz" and ?S = "vpath USTACKBOTTOM"
  have va39: "unat va + 4096 * ?n \<le> 2 ^ 39" using va(2) by simp
  have S: "page_aligned USTACKBOTTOM" by (simp add: page_aligned_def)
  have Sn: "?S \<notin> vrange va ?n"
  proof
    assume "?S \<in> vrange va ?n"
    then obtain i where i: "i < ?n" "?S = vpath (page_at va i)" by (auto simp: vrange_def)
    have u: "unat (page_at va i) = unat va + 4096 * i" using i(1) va39 by (intro unat_page_at) simp
    have "page_aligned (page_at va i)" using va39 i(1) by (intro page_aligned_page_at [OF va(1)]) simp
    moreover have "unat (page_at va i) < 2 ^ 39" unfolding u using va39 i(1) by simp
    moreover have "unat USTACKBOTTOM < 2 ^ 39" by simp
    ultimately have "USTACKBOTTOM = page_at va i" using vpath_inj [OF S] i(2) by blast
    then have "unat USTACKBOTTOM = unat va + 4096 * i" using u by metis
    with va(2) i(1) show False by linarith
  qed
  have len: "3 * ?n \<le> length ps" using pool by simp
  have sub: "vrange va ?n \<subseteq> mapped (mem s) old" "vrange va ?n \<inter> mapped (mem s) new = {}"
    using maps new(2) by auto
  obtain t qs where t: "cp_pages ?n new old va s = Inr (True, t)" "ugrows new (vrange va ?n) s ps t qs"
      "copies new old (vrange va ?n) PTE_USER s t" "length ps \<le> 3 * ?n + length qs"
    using cp_pages_spec [OF new(1) len old apart va(1) va39 sub] by blast
  note A = apart_ugrows [OF t(2) old apart new(1)]
  have ut: "uspace t new qs" by (rule ugrows_uspace [OF t(2)])
  have mt: "mapped (mem t) new = vrange va ?n" using t(2) new(2) by (simp add: ugrows_def)
  have len': "3 \<le> length qs" using pool t(4) by simp
  have St: "?S \<in> mapped (mem t) old" "?S \<notin> mapped (mem t) new" using A(2) maps mt Sn by auto
  obtain u rs where u: "cp_page new old USTACKBOTTOM PTE_UDATA t = Inr (True, u)" "ugrows new {?S} t qs u rs"
      "same_bytes (mem u) (frame (mem u) new ?S) (mem t) (frame (mem t) old ?S)"
      "leaf (mem u) new ?S = leaf_entry (V2P (frame (mem u) new ?S)) PTE_UDATA"
    using cp_page_spec [OF ut len' A(1,3) S St PTE_PA_attr(2)] by blast
  note B = apart_ugrows [OF u(2) A(1,3) ut]
  have c1: "copies new old (vrange va ?n) PTE_USER s u"
    using copies_ugrows [OF t(3) ut u(2)] mt by simp
  have "copies new old {?S} PTE_UDATA t u" using u(3,4) by (simp add: copies_def)
  then have c2: "copies new old {?S} PTE_UDATA s u"
  proof (rule copies_from [OF _ old])
    show "{?S} \<subseteq> mapped (mem s) old" using maps by simp
  qed (fact A(5), fact A(6))
  have g: "ugrows new (vrange va ?n \<union> {?S}) s ps u rs" by (rule ugrows_trans [OF t(2) u(2)])
  have mu: "mapped (mem u) new = mapped (mem s) old" using g new(2) maps by (auto simp: ugrows_def)
  have fo: "foot (mem u) old = foot (mem s) old" using A(4) B(4) by simp
  have "frames (mem u) new \<subseteq> owned s new ps" "tables 1 (mem u) new \<subseteq> owned s new ps"
    using g new(2) unfolding frames_def ugrows_def owned_def by auto
  then have "foot (mem u) new \<subseteq> owned s new ps" by (simp add: foot_def)
  then have "foot (mem u) new \<inter> foot (mem u) old = {}" using apart fo by auto
  moreover have "\<forall>ix\<in>mapped (mem s) old. same_bytes (mem u) (frame (mem u) new ix) (mem s) (frame (mem s) old ix)"
    using c1 c2 maps unfolding copies_def by blast
  moreover have "\<forall>p\<in>foot (mem s) old. \<forall>x. in_page p x \<longrightarrow> mem u x = mem s x"
    using A(4,5) B(5) by metis
  moreover have "\<forall>ix\<in>mapped (mem s) old. leaf (mem u) old ix = leaf (mem s) old ix"
    using A(6) B(6) by (simp add: mapped_def)
  moreover have "cp_userspace new old va sz s = Inr (0, u)"
    using t(1) u(1) by (simp add: cp_userspace_def)
  moreover have "ugrows new (mapped (mem s) old) s ps u rs" using g maps by simp
  ultimately show ?thesis using ugrows_uspace [OF u(2)] B(1) mu by blast
qed


text \<open>
  \<open>cp_userspace\<close>, which \<open>fork\<close> relies on: the child gets exactly the pages the parent has,
  with the same bytes, in frames of its own; the parent's translations and bytes do not change,
  and the two spaces share no page, so no later write through one shows in the other.
\<close>

theorem cp_userspace_forks:
  assumes new: "uspace s new ps" "mapped (mem s) new = {}" and old: "uspace s old ps"
    and apart: "foot (mem s) old \<inter> owned s new ps = {}"
    and maps: "mapped (mem s) old = insert (vpath USTACKBOTTOM) (vrange va (npages sz))"
    and va: "page_aligned va" "unat va + 4096 * npages sz \<le> unat USTACKBOTTOM"
    and pool: "3 * npages sz + 3 \<le> length ps"
  shows "\<exists>t qs. cp_userspace new old va sz s = Inr (0, t) \<and> uspace t new qs \<and> uspace t old qs \<and>
           mapped (mem t) new = mapped (mem s) old \<and> foot (mem t) new \<inter> foot (mem t) old = {} \<and>
           (\<forall>ix\<in>mapped (mem s) old.
              same_bytes (mem t) (frame (mem t) new ix) (mem s) (frame (mem s) old ix)) \<and>
           (\<forall>ix\<in>mapped (mem s) old. leaf (mem t) old ix = leaf (mem s) old ix) \<and>
           (\<forall>p\<in>foot (mem s) old. \<forall>x. in_page p x \<longrightarrow> mem t x = mem s x)"
  using cp_userspace_spec [OF assms] by blast


lemma bare_unmapped:
  assumes "aspace s pgt ps" "mapped (mem s) pgt = {}"
  shows "bare 1 (mem s) pgt"
  unfolding bare_def
proof (intro allI impI)
  fix ix u i assume *: "path_ok (3 - 1) ix" "length ix = 3 - 1" "node (mem s) 1 pgt ix = Some u" "i < 512"
    "is_table (ld64 (mem s) (u + 8 * of_nat i))"
  have "path_ok 3 (ix @ [i])" "length (ix @ [i]) = 3" using * by (auto simp: path_ok_def)
  moreover have "leaf (mem s) pgt (ix @ [i]) = ld64 (mem s) (u + 8 * of_nat i)"
    using * by (simp add: leaf_def del: One_nat_def)
  ultimately have "ld64 (mem s) (u + 8 * of_nat i) = 0" using assms(2) by (auto simp: mapped_def)
  with *(5) show "ld64 (mem s) (u + 8 * of_nat i) AND PTE_AF \<noteq> 0" by (simp add: is_table_def)
qed

text \<open>
  C7. \<open>free_userspace\<close> of a space that maps its \<open>size\<close> bytes from 0x1000 on and the stack (as
  \<open>exec\<close> and \<open>fork\<close> leave it) gives every page of the space back, frames and tables, each
  once: the pool grows by exactly the pages of the space, and no other page is written.
\<close>

theorem free_userspace_returns_all:
  assumes u: "uspace s pgt ps"
    and maps: "mapped (mem s) pgt = insert (vpath USTACKBOTTOM) (vrange 0x1000 (npages sz))"
    and sz: "0x1000 + 4096 * npages sz \<le> unat USTACKBOTTOM"
  shows "\<exists>t qs. free_userspace pgt sz s = Inr t \<and> free_pages t qs \<and>
           set qs = set ps \<union> foot (mem s) pgt \<and>
           (\<forall>x. outside (set qs) x \<longrightarrow> mem t x = mem s x)"
proof -
  let ?n = "npages sz" and ?S = "vpath USTACKBOTTOM"
  have al: "page_aligned 0x1000" "page_aligned USTACKBOTTOM" by (simp_all add: page_aligned_def)
  have sz39: "unat (0x1000 :: u64) + 4096 * ?n \<le> 2 ^ 39" using sz by simp
  have "unat sz + 4095 < 2 ^ 64"
  proof -
    have "unat sz \<le> 4096 * ?n" unfolding npages_def by linarith
    then show ?thesis using sz by simp
  qed
  then have R: "unat (PAGEROUNDUP sz) = 4096 * ?n" by (rule unat_PAGEROUNDUP)
  then have Ral: "page_aligned (PAGEROUNDUP sz)" by (simp add: page_aligned_def)
  have Sn: "?S \<notin> vrange 0x1000 ?n"
  proof
    assume "?S \<in> vrange 0x1000 ?n"
    then obtain i where i: "i < ?n" "?S = vpath (page_at 0x1000 i)" by (auto simp: vrange_def)
    have v: "unat (page_at 0x1000 i) = 0x1000 + 4096 * i" using i(1) sz39 unat_page_at [of "0x1000" i] by simp
    have "page_aligned (page_at 0x1000 i)" using sz39 i(1) by (intro page_aligned_page_at [OF al(1)]) simp
    moreover have "unat (page_at 0x1000 i) < 2 ^ 39" unfolding v using sz39 i(1) by simp
    moreover have "unat USTACKBOTTOM < 2 ^ 39" by simp
    ultimately have "USTACKBOTTOM = page_at 0x1000 i" using vpath_inj [OF al(2)] i(2) by blast
    then have "unat USTACKBOTTOM = 0x1000 + 4096 * i" using v by metis
    with sz i(1) show False by linarith
  qed
  have sub: "vrange 0x1000 ?n \<subseteq> mapped (mem s) pgt" using maps by auto
  obtain t qs where t: "unmap_pages ?n pgt 0x1000 s = Inr t" "unmaps pgt (vrange 0x1000 ?n) s ps t qs"
    using unmap_pages_spec [OF u al(1) sz39 sub] by blast
  then have ut: "uspace t pgt qs" and mt: "mapped (mem t) pgt = {?S}"
    using maps Sn by (auto simp: unmaps_def)
  obtain v rs where v: "unmap_pages 1 pgt USTACKBOTTOM t = Inr v" "unmaps pgt (vrange USTACKBOTTOM 1) t qs v rs"
    using unmap_pages_spec [OF ut al(2), of 1] mt by (auto simp: vrange_def)
  have S1: "vrange USTACKBOTTOM 1 = {?S}" by (simp add: vrange_def lessThan_Suc)
  then have uv: "uspace v pgt rs" and mv: "mapped (mem v) pgt = {}" using v(2) mt by (auto simp: unmaps_def)
  have tv: "tables 1 (mem v) pgt = tables 1 (mem s) pgt" using t(2) v(2) by (simp add: unmaps_def)
  have fS: "frame (mem t) pgt ?S = frame (mem s) pgt ?S" using t(2) mt by (simp add: unmaps_def frame_def)
  have rs: "set rs = set ps \<union> frames (mem s) pgt"
    using t(2) v(2) S1 fS maps unfolding unmaps_def frames_def by auto
  have av: "aspace v pgt rs" using uv by (simp add: uspace_def)
  then have "tree 1 (mem v) pgt" "free_pages v rs" "tables 1 (mem v) pgt \<inter> set rs = {}"
    by (simp_all add: aspace_def)
  then obtain w fs where w: "free_table 3 pgt v = Inr w" "free_pages w (fs @ rs)" "set fs = tables 1 (mem s) pgt"
      "\<And>x. outside (tables 1 (mem s) pgt) x \<Longrightarrow> mem w x = mem v x"
    using free_table_spec [OF _ bare_unmapped [OF av mv]] tv unfolding freed_def by metis
  have all: "set (fs @ rs) = set ps \<union> foot (mem s) pgt" using w(3) rs by (auto simp: foot_def)
  have "mem w x = mem s x" if x: "outside (set (fs @ rs)) x" for x
  proof -
    have tt: "tables 1 (mem t) pgt = tables 1 (mem s) pgt" using t(2) by (simp add: unmaps_def)
    have qs: "set qs \<subseteq> set rs" using v(2) by (auto simp: unmaps_def)
    have "outside (owned t pgt rs) x" "outside (owned s pgt qs) x" "outside (tables 1 (mem s) pgt) x"
      using tt qs w(3) by (auto intro!: outside_mono [OF _ x] simp: owned_def)
    then show ?thesis using w(4) v(2) t(2) by (simp add: unmaps_def)
  qed
  moreover have "free_userspace pgt sz s = Inr w"
  proof -
    have "pageunmap pgt 0x1000 (PAGEROUNDUP sz) s = unmap_pages ?n pgt 0x1000 s"
      using Ral R by (simp add: pageunmap_def page_aligned_mod)
    moreover have "pageunmap pgt USTACKBOTTOM PAGESIZE t = unmap_pages 1 pgt USTACKBOTTOM t"
      by (simp add: pageunmap_def del: One_nat_def)
    ultimately show ?thesis using t(1) v(1) w(1) by (simp add: free_userspace_def)
  qed
  ultimately show ?thesis using w(2) all by metis
qed


section \<open>Witnesses\<close>

text \<open>A machine whose pool is a given list of pages, and one with twenty of them.\<close>

fun link_pages :: "u64 list \<Rightarrow> mem" where
  "link_pages [] = (\<lambda>_. 0)"
| "link_pages (p # ps) = st64 (link_pages ps) p (case ps of [] \<Rightarrow> 0 | q # _ \<Rightarrow> q)"

definition pool_state :: "u64 list \<Rightarrow> kmem" where
  "pool_state ps = boot_mem\<lparr>mem := link_pages ps, freelist := (case ps of [] \<Rightarrow> 0 | q # _ \<Rightarrow> q)\<rparr>"

lemma flist_link:
  assumes "distinct ps" "\<forall>p\<in>set ps. p \<noteq> 0 \<and> page_aligned p"
  shows "flist (link_pages ps) (case ps of [] \<Rightarrow> 0 | q # _ \<Rightarrow> q) ps"
  using assms
proof (induction ps)
  case Nil
  then show ?case by simp
next
  case (Cons p ps)
  have "flist (link_pages (p # ps)) (case ps of [] \<Rightarrow> 0 | q # _ \<Rightarrow> q) ps"
  proof (rule flist_cong)
    show "flist (link_pages ps) (case ps of [] \<Rightarrow> 0 | q # _ \<Rightarrow> q) ps" using Cons by simp
    fix q assume "q \<in> set ps"
    then have "q \<noteq> p" "aligned8 q" "aligned8 p" using Cons.prems by (auto intro: page_aligned_8)
    then show "ld64 (link_pages (p # ps)) q = ld64 (link_pages ps) q" by (simp add: ld64_st64)
  qed
  then show ?case using Cons.prems by simp
qed

lemma free_pages_pool_state:
  "distinct ps \<Longrightarrow> \<forall>p\<in>set ps. p \<noteq> 0 \<and> page_aligned p \<Longrightarrow> free_pages (pool_state ps) ps"
  using flist_link by (simp add: free_pages_def pool_state_def boot_mem_def lock_free_def)

text \<open>A fresh zeroed page is an empty space.\<close>

lemma uspace_root:
  assumes "free_pages s ps" "\<forall>p\<in>set ps. kern_page p" "kern_page r" "r \<notin> set ps"
    "\<And>x. in_page r x \<Longrightarrow> mem s x = 0"
  shows "uspace s r ps" "mapped (mem s) r = {}" "tables 1 (mem s) r = {r}"
proof -
  have z: "ld64 (mem s) (r + 8 * of_nat i) = 0" if "i < 512" for i
  proof -
    have "ld64 (mem s) (r + 8 * of_nat i) = ld64 (\<lambda>_. 0) (r + 8 * of_nat i)"
      using that assms(3,5) by (intro ld64_page_cong [of r]) (auto intro: slot_aligned8 slot_in_page kern_page_aligned)
    then show ?thesis by simp
  qed
  have n: "node (mem s) 1 r ix = Some t \<longleftrightarrow> ix = [] \<and> t = r" if "path_ok k ix" for k ix t
    using that z by (cases ix) (auto simp: path_ok_def ent_decode)
  have l: "leaf (mem s) r ix = 0" if "path_ok 3 ix" "length ix = 3" for ix
  proof -
    note * = path_ok_last [OF that]
    have "butlast ix \<noteq> []" using * by (metis list.size(3) zero_neq_numeral)
    then have "node (mem s) 1 r (butlast ix) = None"
      using n [of 2 "butlast ix"] * by (cases "node (mem s) 1 r (butlast ix)") auto
    then show ?thesis by (simp add: leaf_def)
  qed
  show m: "mapped (mem s) r = {}" using l by (auto simp: mapped_def)
  have p0: "path_ok k []" for k by (simp add: path_ok_def)
  show T: "tables 1 (mem s) r = {r}"
  proof -
    have "t \<in> tables 1 (mem s) r \<longleftrightarrow> t = r" for t
    proof -
      have "(\<exists>ix. path_ok (3 - 1) ix \<and> node (mem s) 1 r ix = Some t) \<longleftrightarrow>
          (\<exists>ix. path_ok (3 - 1) ix \<and> ix = [] \<and> t = r)"
        using n by blast
      then show ?thesis using p0 by (simp add: tables_def)
    qed
    then show ?thesis by blast
  qed
  have "tree 1 (mem s) r"
    unfolding tree_def
  proof (intro conjI allI impI)
    fix ix i t assume p: "path_ok (3 - 1) (ix @ [i])" and t: "node (mem s) 1 r ix = Some t"
      and e: "is_table (ld64 (mem s) (t + 8 * of_nat i))"
    have "path_ok 2 ix" "i < 512" using path_ok_snoc [OF p] by simp_all
    then have "t = r" using n t by blast
    then show "ld64 (mem s) (t + 8 * of_nat i) AND PTE_AF = 0" using z \<open>i < 512\<close> by simp
  qed (use n assms(3) in \<open>auto simp del: One_nat_def\<close>)
  then show "uspace s r ps"
    using assms m T by (simp add: uspace_def aspace_def frames_def owned_def)
qed

definition pages20 :: "u64 list" where
  "pages20 = pages_from 0xffffff8040100000 20"

lemma pages_from_ok:
  assumes "kern_page p" "unat p + 4096 * n \<le> 2 ^ 64"
  shows "distinct (pages_from p n)" "\<forall>q\<in>set (pages_from p n). kern_page q"
proof -
  have "inj_on (\<lambda>i. p + of_nat i * PAGESIZE) {0..<n}"
  proof (rule inj_onI)
    fix i j assume "i \<in> {0..<n}" "j \<in> {0..<n}" and eq: "p + of_nat i * PAGESIZE = p + of_nat j * PAGESIZE"
    then have "i < n" "j < n" by simp_all
    then have "unat (p + of_nat i * PAGESIZE) = unat p + 4096 * i" "unat (p + of_nat j * PAGESIZE) = unat p + 4096 * j"
      by (auto intro: pages_from_unat [OF assms(2)])
    then have "unat p + 4096 * i = unat p + 4096 * j" using eq by metis
    then show "i = j" by simp
  qed
  then show "distinct (pages_from p n)"
    unfolding pages_from_def distinct_map set_upt by simp
  show "\<forall>q\<in>set (pages_from p n). kern_page q"
    using set_pages_from [OF kern_page_aligned [OF assms(1)] assms(2)] assms(1)
    by (auto simp: kern_page_def word_le_nat_alt)
qed

lemma pages20_ok: "distinct pages20" "\<forall>p\<in>set pages20. kern_page p" "length pages20 = 20"
proof -
  have "kern_page 0xffffff8040100000" by (simp add: kern_page_def page_aligned_def)
  then show "distinct pages20" "\<forall>p\<in>set pages20. kern_page p"
    using pages_from_ok [of "0xffffff8040100000" 20] by (simp_all add: pages20_def)
  show "length pages20 = 20" by (simp add: pages20_def pages_from_def)
qed

lemma free_pages20: "free_pages (pool_state pages20) pages20"
  using free_pages_pool_state [of pages20] pages20_ok kern_page_nonzero kern_page_aligned by blast

text \<open>The space of a process just created: \<open>kalloc\<close> gave it its root table.\<close>

lemma root20:
  obtains r s ps where "kalloc (pool_state pages20) = Inr (r, s)" "uspace s r ps" "mapped (mem s) r = {}"
    "tables 1 (mem s) r = {r}" "length ps = 19" "pages20 = r # ps"
proof -
  obtain r ps where p: "pages20 = r # ps" using pages20_ok(3) by (cases pages20) auto
  obtain s where s: "kalloc (pool_state pages20) = Inr (r, s)" "free_pages s ps"
      "mem s = zero_page (mem (pool_state pages20)) r"
    using kalloc_step [OF free_pages20 [unfolded p]] p by auto
  have ok: "\<forall>p\<in>set ps. kern_page p" "kern_page r" "r \<notin> set ps" using pages20_ok unfolding p by auto
  have "uspace s r ps \<and> mapped (mem s) r = {} \<and> tables 1 (mem s) r = {r}"
    using uspace_root [OF s(2) ok] s(3) by (simp add: zero_page_apply)
  moreover have "length ps = 19" using pages20_ok(3) unfolding p by simp
  ultimately show thesis using that [OF s(1)] p by blast
qed

lemma pages_0x1000: "npages 4096 = 1" "page_aligned 0x1000" "npages 1 = 1" "npages 5000 = 2"
  by (simp_all add: npages_def page_aligned_def)

theorem pagemap_maps_witness:
  "\<exists>(s :: kmem) r ps t. aspace s r ps \<and> pagemap r 0x1000 0x40200000 0x2000 PTE_USER s = Inr t \<and>
     leaf (mem t) r (vpath 0x2000) = PTE_PA 0x40201000 OR PTE_AF OR PTE_USER OR PTE_V"
proof -
  obtain r s ps where "kalloc (pool_state pages20) = Inr (r, s)" "tables 1 (mem s) r = {r}" "pages20 = r # ps"
    and R: "uspace s r ps" "mapped (mem s) r = {}" "length ps = 19"
    by (rule root20)
  have a: "aspace s r ps" using R(1) by (simp add: uspace_def)
  have un: "leaf (mem s) r (vpath va) AND PTE_AF = 0" for va
    using R(2) vpath_simps [of va] by (auto simp: mapped_def)
  have al: "page_aligned 0x1000" "page_aligned 0x40200000" "page_aligned 0x2000" by (simp_all add: page_aligned_def)
  have two: "unat (0x2000 :: u64) div 4096 = 2" by simp
  have "unat (0x1000 :: u64) + unat (0x2000 :: u64) \<le> 2 ^ 39" "2 * 2 \<le> length ps" using R(3) by simp_all
  from pagemap_maps [OF a al, unfolded two, OF this un, of PTE_USER] obtain t where
    t: "pagemap r 0x1000 0x40200000 0x2000 PTE_USER s = Inr t"
      "\<forall>i<2. leaf (mem t) r (vpath (page_at 0x1000 i)) = PTE_PA (page_at 0x40200000 i) OR PTE_AF OR PTE_USER OR PTE_V"
    by blast
  from t(2) [rule_format, of 1] have
    "leaf (mem t) r (vpath 0x2000) = PTE_PA 0x40201000 OR PTE_AF OR PTE_USER OR PTE_V"
    by (simp add: page_at_def)
  then show ?thesis using a t(1) by blast
qed


text \<open>A process image: one page at 0x1000 and the stack, built by the code itself.\<close>

lemma image20:
  obtains r s ps where "uspace s r ps" "mapped (mem s) r = insert (vpath USTACKBOTTOM) (vrange 0x1000 1)"
    "13 \<le> length ps" "foot (mem (s :: kmem)) r \<subseteq> set pages20" "set ps \<subseteq> set pages20"
proof -
  obtain r s0 ps0 where "kalloc (pool_state pages20) = Inr (r, s0)"
    and t0: "tables 1 (mem s0) r = {r}" and p: "pages20 = r # ps0"
    and R: "uspace s0 r ps0" "mapped (mem s0) r = {}" "length ps0 = 19"
    by (rule root20)
  have al: "page_aligned 0x1000" "page_aligned USTACKBOTTOM" by (simp_all add: page_aligned_def)
  have "3 * 1 \<le> length ps0" "unat (0x1000 :: u64) + 4096 * 1 \<le> 2 ^ 39" using R(3) by simp_all
  from alloc_pages_spec [OF R(1) this(1) al(1) this(2) PTE_PA_attr(1)] R(2) obtain s1 ps1 where
    1: "ugrows r (vrange 0x1000 1) s0 ps0 s1 ps1" "length ps0 \<le> 3 * 1 + length ps1" by blast
  have m1: "mapped (mem s1) r = vrange 0x1000 1" using 1(1) R(2) by (simp add: ugrows_def)
  have v1: "vrange 0x1000 1 = {vpath 0x1000}" by (simp add: vrange_def lessThan_Suc)
  have new: "vpath (page_at USTACKBOTTOM i) \<notin> mapped (mem s1) r" if "i < 1" for i
    unfolding m1 v1 using that by (simp add: vpath_nat)
  have "3 * 1 \<le> length ps1" "unat USTACKBOTTOM + 4096 * 1 \<le> 2 ^ 39" using R(3) 1(2) by simp_all
  from alloc_pages_spec [OF ugrows_uspace [OF 1(1)] this(1) al(2) this(2) PTE_PA_attr(2) new] obtain s2 ps2 where
    2: "ugrows r (vrange USTACKBOTTOM 1) s1 ps1 s2 ps2" "length ps1 \<le> 3 * 1 + length ps2" by blast
  have g: "ugrows r (vrange 0x1000 1 \<union> vrange USTACKBOTTOM 1) s0 ps0 s2 ps2"
    by (rule ugrows_trans [OF 1(1) 2(1)])
  have m2: "mapped (mem s2) r = vrange 0x1000 1 \<union> vrange USTACKBOTTOM 1"
    using g R(2) by (simp add: ugrows_def)
  have o: "owned s0 r ps0 = set pages20" unfolding p using t0 by (simp add: owned_def)
  have "foot (mem s2) r \<subseteq> set pages20" "set ps2 \<subseteq> set pages20"
    using g o m2 by (auto simp: ugrows_def foot_def frames_def owned_def)
  moreover have "mapped (mem s2) r = insert (vpath USTACKBOTTOM) (vrange 0x1000 1)"
    using m2 by (simp add: vrange_def lessThan_Suc insert_commute)
  moreover have "13 \<le> length ps2" using R(3) 1(2) 2(2) by simp
  ultimately show thesis using that [OF ugrows_uspace [OF g]] by blast
qed

theorem pagemap_overlap_panics_witness:
  "\<exists>(s :: kmem) r. pagemap r 0 0 0x2000 PTE_USER s = Inl (Panic ''this entry has been used'')"
proof -
  obtain r ps and s :: kmem where s: "uspace s r ps" "mapped (mem s) r = insert (vpath USTACKBOTTOM) (vrange 0x1000 1)"
      "13 \<le> length ps" "foot (mem s) r \<subseteq> set pages20" "set ps \<subseteq> set pages20"
    by (rule image20)
  have a: "aspace s r ps" using s(1) by (simp add: uspace_def)
  have "vpath 0x1000 \<in> mapped (mem s) r" using s(2) by (simp add: vrange_def lessThan_Suc)
  then have used: "leaf (mem s) r (vpath (page_at 0 1)) AND PTE_AF \<noteq> 0"
    using s(1) by (simp add: uspace_def page_at_def)
  have al: "page_aligned 0" "page_aligned 0x2000" by (simp_all add: page_aligned_def)
  have n: "unat (0 :: u64) + unat (0x2000 :: u64) \<le> 2 ^ 39" "2 * (unat (0x2000 :: u64) div 4096) \<le> length ps"
      "1 < unat (0x2000 :: u64) div 4096" using s(3) by simp_all
  show ?thesis using pagemap_overlap_panics [OF a al(1,1,2) n used] by blast
qed

theorem uva2ka_mapped_witness:
  "\<exists>(s :: kmem) r f. uva2ka r 0x1234 s = Inr (f + 0x234, s)"
proof -
  obtain r ps and s :: kmem where s: "uspace s r ps" "mapped (mem s) r = insert (vpath USTACKBOTTOM) (vrange 0x1000 1)"
      "13 \<le> length ps" "foot (mem s) r \<subseteq> set pages20" "set ps \<subseteq> set pages20"
    by (rule image20)
  have v: "vpath 0x1234 = vpath 0x1000" by (simp add: vpath_nat)
  have m: "vpath 0x1234 \<in> mapped (mem s) r" using s(2) v by (simp add: vrange_def lessThan_Suc)
  then have "frame (mem s) r (vpath 0x1234) \<in> set pages20"
    using s(4) by (auto simp: foot_def frames_def)
  then have "VA_START < frame (mem s) r (vpath 0x1234)"
    using set_pages_from [of "0xffffff8040100000" 20] by (auto simp: pages20_def page_aligned_def word_less_nat_alt)
  from uva2ka_mapped [OF s(1) m this] show ?thesis by (auto simp: OFFSET_def)
qed

theorem uva2ka_unmapped_bogus_witness:
  "\<exists>(s :: kmem) r t. uva2ka r 0x5008 s = Inr (0xffffff8000000008, t)"
proof -
  obtain r s ps where "kalloc (pool_state pages20) = Inr (r, s)" "tables 1 (mem s) r = {r}" "pages20 = r # ps"
    and R: "uspace s r ps" "mapped (mem s) r = {}" "length ps = 19"
    by (rule root20)
  have a: "aspace s r ps" "2 \<le> length ps" using R by (simp_all add: uspace_def)
  have "leaf (mem s) r (vpath 0x5008) = 0" using R(2) vpath_simps [of "0x5008"] by (auto simp: mapped_def)
  from uva2ka_unmapped_bogus [OF a this] show ?thesis by (auto simp: OFFSET_def)
qed

theorem alloc_userspace_fresh_witness:
  "\<exists>(s :: kmem) r t. alloc_userspace r 0x1000 5000 s = Inr (5000, t)"
proof -
  obtain r s ps where "kalloc (pool_state pages20) = Inr (r, s)" "tables 1 (mem s) r = {r}" "pages20 = r # ps"
    and R: "uspace s r ps" "mapped (mem s) r = {}" "length ps = 19"
    by (rule root20)
  have n: "npages 5000 = 2" by (simp add: npages_def)
  have "3 * npages 5000 \<le> length ps" "page_aligned 0x1000" "unat (0x1000 :: u64) + 4096 * npages 5000 \<le> 2 ^ 39"
      "vrange 0x1000 (npages 5000) \<inter> mapped (mem s) r = {}"
    using R by (simp_all add: n page_aligned_def)
  from alloc_userspace_fresh [OF R(1) this] show ?thesis by auto
qed

theorem free_userspace_returns_all_witness:
  "\<exists>(s :: kmem) r t qs. free_userspace r 4096 s = Inr t \<and> free_pages t qs \<and> r \<in> set qs"
proof -
  obtain r ps and s :: kmem where s: "uspace s r ps" "mapped (mem s) r = insert (vpath USTACKBOTTOM) (vrange 0x1000 1)"
      "13 \<le> length ps" "foot (mem s) r \<subseteq> set pages20" "set ps \<subseteq> set pages20"
    by (rule image20)
  have n: "npages 4096 = 1" by (simp add: npages_def)
  have "r \<in> foot (mem s) r" by (simp add: foot_def tables_root)
  moreover obtain t qs where "free_userspace r 4096 s = Inr t" "free_pages t qs" "set qs = set ps \<union> foot (mem s) r"
    using free_userspace_returns_all [OF s(1), of 4096] s(2) n by auto
  ultimately show ?thesis by blast
qed


theorem cp_userspace_forks_witness:
  "\<exists>(s :: kmem) new old t. cp_userspace new old 0x1000 4096 s = Inr (0, t) \<and>
     same_bytes (mem t) (frame (mem t) new (vpath 0x1000)) (mem s) (frame (mem s) old (vpath 0x1000))"
proof -
  obtain r ps and s :: kmem where s: "uspace s r ps" "mapped (mem s) r = insert (vpath USTACKBOTTOM) (vrange 0x1000 1)"
      "13 \<le> length ps" "foot (mem s) r \<subseteq> set pages20" "set ps \<subseteq> set pages20"
    by (rule image20)
  obtain p ps1 where ps: "ps = p # ps1" using s(3) by (cases ps) auto
  have fp: "free_pages s (p # ps1)" and kp: "\<forall>q\<in>set ps1. kern_page q" "kern_page p"
    using s(1) ps by (auto simp: uspace_def aspace_def)
  have pn: "p \<notin> set ps1" using free_pages_ok [OF fp] by simp
  obtain s1 where s1: "kalloc s = Inr (p, s1)" "free_pages s1 ps1" "mem s1 = zero_page (mem s) p"
    using kalloc_step [OF fp] by blast
  note new = uspace_root [OF s1(2) kp(1,2) pn]
  have new': "uspace s1 p ps1" "mapped (mem s1) p = {}" "tables 1 (mem s1) p = {p}"
    by (rule new, simp add: s1(3) zero_page_apply)+
  have pf: "foot (mem s) r \<inter> set ps = {}" using s(1) by (auto simp: uspace_def aspace_def foot_def owned_def)
  have ag: "mem s1 x = mem s x" if "q \<in> tables 1 (mem s) r" "in_page q x" for q x
  proof -
    have "page_aligned q" "q \<noteq> p" using that(1) s(1) ps
      by (auto simp: uspace_def aspace_def dest: tables_kern kern_page_aligned)
    then have "\<not> in_page p x" using that(2) kp(2) in_page_disjoint kern_page_aligned by blast
    then show ?thesis by (simp add: s1(3) zero_page_apply)
  qed
  have old: "uspace s1 r ps1" "mapped (mem s1) r = mapped (mem s) r" "foot (mem s1) r = foot (mem s) r"
    by (rule uspace_agree [OF s(1) _ s1(2)], erule (1) ag, force simp: ps)+
  have apart: "foot (mem s1) r \<inter> owned s1 p ps1 = {}"
    using pf old(3) new'(3) ps by (simp add: owned_def)
  have n: "npages 4096 = 1" by (simp add: npages_def)
  have maps: "mapped (mem s1) r = insert (vpath USTACKBOTTOM) (vrange 0x1000 (npages 4096))"
    using old(2) s(2) n by simp
  have "page_aligned 0x1000" "unat (0x1000 :: u64) + 4096 * npages 4096 \<le> unat USTACKBOTTOM"
      "3 * npages 4096 + 3 \<le> length ps1"
    using s(3) ps by (simp_all add: n page_aligned_def)
  from cp_userspace_forks [OF new'(1,2) old(1) apart maps this] obtain t where
    "cp_userspace p r 0x1000 4096 s1 = Inr (0, t)"
    "\<forall>ix\<in>mapped (mem s1) r. same_bytes (mem t) (frame (mem t) p ix) (mem s1) (frame (mem s1) r ix)"
    by blast
  moreover have "vpath 0x1000 \<in> mapped (mem s1) r" using maps n by (simp add: vrange_def lessThan_Suc)
  ultimately show ?thesis by blast
qed

end
