(* ===== verification/Proc.thy ===== *)
theory Proc
  imports Mm
begin

text \<open>
  kernel/proc.c and include/proc.h: the process table and the operations on it that do not
  touch files. A process is named by its index in \<open>proctable.procs\<close>; a sleep channel, which in
  C is any address, is a table entry, the data of a cache buffer or another address in memory. The fields of the trap
  frame, which lies at the top of the kernel stack page, are read and written in memory.
\<close>

unbundle bit_operations_syntax

section \<open>State\<close>

datatype procstate = UNUSED | CREATED | RUNNING | RUNNABLE | SLEEPING | ZOMBIE

datatype chan = ChanProc nat | ChanBuf nat | ChanMem u64

datatype entry = NoEntry | Forkret        \<comment> \<open>where \<open>context.lr\<close> points\<close>

record pcontext =
  ctx_sp :: u64
  ctx_x0 :: "nat option"                  \<comment> \<open>\<open>(u64)p\<close>\<close>
  ctx_lr :: entry

record proc =
  p_state :: procstate
  p_ret :: int
  p_pid :: int
  p_size :: u64
  p_chan :: "chan option"
  p_ctx :: pcontext
  p_tf :: u64
  p_parent :: "nat option"
  p_kstack :: u64
  p_pgt :: u64
  p_cwd :: "nat option"                   \<comment> \<open>index in the inode table\<close>
  p_ofile :: "nat option list"            \<comment> \<open>indices in the file table\<close>
  p_name :: "u8 list"
  p_th :: bool
  p_fault :: bool                         \<comment> \<open>\<open>fault_handler\<close> is \<open>copyio_fault\<close> rather than NULL\<close>
  p_sig :: int

abbreviation NOFILE :: nat where "NOFILE \<equiv> 16"
abbreviation NPROC :: nat where "NPROC \<equiv> 256"

definition zero_context :: pcontext where
  "zero_context = \<lparr>ctx_sp = 0, ctx_x0 = None, ctx_lr = NoEntry\<rparr>"

text \<open>\<open>memset(p, 0, sizeof(*p))\<close>; \<open>UNUSED\<close> is the enumerator 0.\<close>

definition zero_proc :: proc where
  "zero_proc = \<lparr>p_state = UNUSED, p_ret = 0, p_pid = 0, p_size = 0, p_chan = None,
     p_ctx = zero_context, p_tf = 0, p_parent = None, p_kstack = 0, p_pgt = 0, p_cwd = None,
     p_ofile = replicate NOFILE None, p_name = replicate 16 0, p_th = False, p_fault = False, p_sig = 0\<rparr>"

record kproc = kmem +
  procs :: "proc list"
  next_pid :: int                         \<comment> \<open>\<open>pidalloc.pid\<close>\<close>
  cur :: "nat option"                     \<comment> \<open>\<open>mycpu()->proc\<close>\<close>
  initproc :: "nat option"
  ttbr0 :: u64

definition upd_proc :: "nat \<Rightarrow> (proc \<Rightarrow> proc) \<Rightarrow> 'a kproc_scheme \<Rightarrow> 'a kproc_scheme" where
  "upd_proc i f s = s\<lparr>procs := (procs s)[i := f (procs s ! i)]\<rparr>"

text \<open>\<open>myproc()\<close>, where the code goes on to dereference it.\<close>

definition myproc :: "'a kproc_scheme \<Rightarrow> nat res" where
  "myproc s = (case cur s of None \<Rightarrow> Inl Fault | Some i \<Rightarrow> Inr i)"

section \<open>The trap frame\<close>

text \<open>Field \<open>k\<close> of \<open>struct trapframe\<close>: x0 .. x30, then elr, spsr, sp; 34 doublewords.\<close>

abbreviation TF_ELR :: u64 where "TF_ELR \<equiv> 31"
abbreviation TF_SPSR :: u64 where "TF_SPSR \<equiv> 32"
abbreviation TF_SP :: u64 where "TF_SP \<equiv> 33"
abbreviation TF_SIZE :: u64 where "TF_SIZE \<equiv> 272"

definition tf_get :: "u64 \<Rightarrow> u64 \<Rightarrow> 'a kmem_scheme \<Rightarrow> u64" where
  "tf_get tf k s = ld64 (mem s) (tf + 8 * k)"

definition tf_set :: "u64 \<Rightarrow> u64 \<Rightarrow> u64 \<Rightarrow> 'a kmem_scheme \<Rightarrow> 'a kmem_scheme" where
  "tf_set tf k w s = s\<lparr>mem := st64 (mem s) (tf + 8 * k) w\<rparr>"

section \<open>Allocation of processes\<close>

definition newpid :: "'a kproc_scheme \<Rightarrow> (int \<times> 'a kproc_scheme) res" where
  "newpid s =
     bnd (acquire PidallocLk s) (\<lambda>s.
       let pid = next_pid s in
       bnd (release PidallocLk (s\<lparr>next_pid := pid + 1\<rparr>)) (\<lambda>s. Inr (pid, s)))"

definition pget :: "int \<Rightarrow> 'a kproc_scheme \<Rightarrow> (nat option \<times> 'a kproc_scheme) res" where
  "pget pid s =
     bnd (acquire ProctableLk s) (\<lambda>s.
       let r = scan (\<lambda>p. p_pid p = pid) (procs s) in
       bnd (release ProctableLk s) (\<lambda>s. Inr (r, s)))"

definition newproc :: "'a kproc_scheme \<Rightarrow> (nat option \<times> 'a kproc_scheme) res" where
  "newproc s =
     bnd (acquire ProctableLk s) (\<lambda>s.
       case scan (\<lambda>p. p_state p = UNUSED) (procs s) of
         None \<Rightarrow> bnd (release ProctableLk s) (\<lambda>s. Inr (None, s))
       | Some i \<Rightarrow>
           bnd (release ProctableLk (upd_proc i (\<lambda>p. p\<lparr>p_state := CREATED\<rparr>) s)) (\<lambda>s.
           bnd (newpid s) (\<lambda>(pid, s).
           let s = upd_proc i (\<lambda>p. p\<lparr>p_pid := pid, p_ctx := zero_context\<rparr>) s in
           bnd (kalloc s) (\<lambda>(kstack, s).
             let s = upd_proc i (\<lambda>p. p\<lparr>p_kstack := kstack\<rparr>) s in
             if kstack = 0 then Inr (None, s)
             else
               let sp = kstack + PAGESIZE - TF_SIZE;
                   s = upd_proc i (\<lambda>p. p\<lparr>p_tf := sp\<rparr>) s;
                   s = s\<lparr>mem := memset (mem s) sp 0 TF_SIZE\<rparr> in
               bnd (kalloc s) (\<lambda>(pgt, s).
                 let s = upd_proc i (\<lambda>p. p\<lparr>p_pgt := pgt\<rparr>) s in
                 if pgt = 0 then Inr (None, s)
                 else Inr (Some i, upd_proc i (\<lambda>p. p\<lparr>p_ctx :=
                        (p_ctx p)\<lparr>ctx_x0 := Some i, ctx_lr := Forkret, ctx_sp := sp\<rparr>\<rparr>) s))))))"

definition freeproc :: "nat \<Rightarrow> 'a kproc_scheme \<Rightarrow> 'a kproc_scheme res" where
  "freeproc i s =
     (if \<not> holding ProctableLk s then Inl (Panic ''freeproc'')
      else bnd (kfree (p_kstack (procs s ! i)) s) (\<lambda>s. Inr (upd_proc i (\<lambda>_. zero_proc) s)))"

definition proc_init :: "'a kproc_scheme \<Rightarrow> 'a kproc_scheme" where
  "proc_init s =
     (let s = lock_init PidallocLk (s\<lparr>cur := None, cli_depth := 0, intr_enabled := False\<rparr>);
          s = lock_init ProctableLk (s\<lparr>next_pid := 0\<rparr>)
      in s\<lparr>procs := replicate NPROC zero_proc\<rparr>)"

text \<open>The initial program is linked into the kernel image: \<open>ustart\<close> and \<open>sz\<close> are its symbols.\<close>

definition userproc_init :: "u64 \<Rightarrow> u64 \<Rightarrow> 'a kproc_scheme \<Rightarrow> 'a kproc_scheme res" where
  "userproc_init ustart sz s =
     bnd (newproc s) (\<lambda>(p, s).
       let s = s\<lparr>initproc := p\<rparr> in
       case p of None \<Rightarrow> Inl (Panic ''initproc'')
       | Some i \<Rightarrow>
           bnd (init_userspace (p_pgt (procs s ! i)) 0x1000 ustart sz s) (\<lambda>s.
           let s = upd_proc i (\<lambda>p. p\<lparr>p_size := sz\<rparr>) s in
           bnd (map_ustack (p_pgt (procs s ! i)) s) (\<lambda>(_, s).
           let s = upd_proc i (\<lambda>p. p\<lparr>p_name := [112, 114, 111, 99, 48, 0] @ drop 6 (p_name p)\<rparr>) s;
               tf = p_tf (procs s ! i);
               s = tf_set tf TF_SP USTACKTOP (tf_set tf TF_SPSR 0 (tf_set tf TF_ELR 0x1000 s)) in
           bnd (acquire ProctableLk s) (\<lambda>s.
             release ProctableLk (upd_proc i (\<lambda>p. p\<lparr>p_state := RUNNABLE\<rparr>) s)))))"

definition getpid :: "'a kproc_scheme \<Rightarrow> int res" where
  "getpid s = bnd (myproc s) (\<lambda>i. Inr (p_pid (procs s ! i)))"

section \<open>Sleep and wakeup\<close>

definition wakeup_acquired :: "chan option \<Rightarrow> 'a kproc_scheme \<Rightarrow> 'a kproc_scheme" where
  "wakeup_acquired ch s =
     s\<lparr>procs := map (\<lambda>p. if p_state p = SLEEPING \<and> p_chan p = ch then p\<lparr>p_state := RUNNABLE\<rparr> else p) (procs s)\<rparr>"

definition wakeup :: "chan option \<Rightarrow> 'a kproc_scheme \<Rightarrow> 'a kproc_scheme res" where
  "wakeup ch s =
     bnd (acquire ProctableLk s) (\<lambda>s. release ProctableLk (wakeup_acquired ch s))"

text \<open>
  \<open>sleep\<close> up to the \<open>cswitch\<close>, and from its return on. In between the CPU runs the scheduler and
  other processes; \<open>proctable.lk\<close> is held on both sides. \<open>sleep_exit\<close> answers whether
  \<open>sigcheck\<close> sends the process to \<open>exitproc\<close>.
\<close>

definition sleep_enter :: "chan option \<Rightarrow> lockid \<Rightarrow> 'a kproc_scheme \<Rightarrow> 'a kproc_scheme res" where
  "sleep_enter ch lk s =
     bnd (myproc s) (\<lambda>i.
     bnd (if lk \<noteq> ProctableLk then bnd (acquire ProctableLk s) (release lk) else Inr s) (\<lambda>s.
       Inr (upd_proc i (\<lambda>p. p\<lparr>p_chan := ch, p_state := SLEEPING\<rparr>) s)))"

definition sigcheck :: "nat \<Rightarrow> 'a kproc_scheme \<Rightarrow> bool \<times> 'a kproc_scheme" where
  "sigcheck i s =
     (if p_sig (procs s ! i) \<noteq> 0 then (True, upd_proc i (\<lambda>p. p\<lparr>p_sig := 0\<rparr>) s) else (False, s))"

definition sleep_exit :: "nat \<Rightarrow> lockid \<Rightarrow> 'a kproc_scheme \<Rightarrow> (bool \<times> 'a kproc_scheme) res" where
  "sleep_exit i lk s =
     bnd (release ProctableLk (upd_proc i (\<lambda>p. p\<lparr>p_chan := None\<rparr>) s)) (\<lambda>s.
     bnd (if lk \<noteq> ProctableLk then acquire lk s else Inr s) (\<lambda>s.
       Inr (sigcheck i s)))"

text \<open>\<open>yield\<close>, before and after its \<open>cswitch\<close>.\<close>

definition yield_enter :: "'a kproc_scheme \<Rightarrow> 'a kproc_scheme res" where
  "yield_enter s =
     bnd (myproc s) (\<lambda>i.
     bnd (acquire ProctableLk s) (\<lambda>s. Inr (upd_proc i (\<lambda>p. p\<lparr>p_state := RUNNABLE\<rparr>) s)))"

definition yield_exit :: "'a kproc_scheme \<Rightarrow> 'a kproc_scheme res" where
  "yield_exit s = release ProctableLk s"

text \<open>
  The body of the scheduler's inner loop, up to and after its \<open>cswitch\<close>: dispatching the process
  of slot \<open>i\<close> if it is runnable, and taking the CPU back from it.
\<close>

definition load_userspace :: "u64 \<Rightarrow> 'a kproc_scheme \<Rightarrow> 'a kproc_scheme res" where
  "load_userspace pgt s =
     (if pgt = 0 then Inl (Panic ''no pagetable'') else Inr (s\<lparr>ttbr0 := V2P pgt\<rparr>))"

definition forget_userspace :: "'a kproc_scheme \<Rightarrow> 'a kproc_scheme" where
  "forget_userspace s = s\<lparr>ttbr0 := 0\<rparr>"

definition dispatch :: "nat \<Rightarrow> 'a kproc_scheme \<Rightarrow> 'a kproc_scheme res" where
  "dispatch i s =
     load_userspace (p_pgt (procs s ! i)) ((upd_proc i (\<lambda>p. p\<lparr>p_state := RUNNING\<rparr>) s)\<lparr>cur := Some i\<rparr>)"

definition switch_back :: "'a kproc_scheme \<Rightarrow> 'a kproc_scheme" where
  "switch_back s = (forget_userspace s)\<lparr>cur := None\<rparr>"

text \<open>The head and the tail of the scheduler's outer loop.\<close>

definition schedule_enter :: "'a kproc_scheme \<Rightarrow> 'a kproc_scheme res" where
  "schedule_enter s = acquire ProctableLk (s\<lparr>irq_on := True\<rparr>)"

definition schedule_leave :: "'a kproc_scheme \<Rightarrow> 'a kproc_scheme res" where
  "schedule_leave s = release ProctableLk s"

section \<open>Signals, parents and memory\<close>

definition killproc :: "nat option \<Rightarrow> int \<Rightarrow> 'a kproc_scheme \<Rightarrow> (int \<times> 'a kproc_scheme) res" where
  "killproc p sig s =
     (case p of None \<Rightarrow> Inr (-1, s)
      | Some i \<Rightarrow>
          bnd (acquire ProctableLk (upd_proc i (\<lambda>p. p\<lparr>p_sig := sig\<rparr>) s)) (\<lambda>s.
            let s = (if p_state (procs s ! i) = SLEEPING then upd_proc i (\<lambda>p. p\<lparr>p_state := RUNNABLE\<rparr>) s else s) in
            bnd (release ProctableLk s) (\<lambda>s. Inr (0, s))))"

definition kill :: "int \<Rightarrow> int \<Rightarrow> 'a kproc_scheme \<Rightarrow> (int \<times> 'a kproc_scheme) res" where
  "kill pid sig s = bnd (pget pid s) (\<lambda>(p, s). killproc p sig s)"

definition reparent :: "nat \<Rightarrow> 'a kproc_scheme \<Rightarrow> 'a kproc_scheme" where
  "reparent pp s =
     s\<lparr>procs := map (\<lambda>p. if p_parent p = Some pp then p\<lparr>p_parent := initproc s\<rparr> else p) (procs s)\<rparr>"

definition sbrk :: "i32 \<Rightarrow> 'a kproc_scheme \<Rightarrow> (u64 \<times> 'a kproc_scheme) res" where
  "sbrk incr s =
     bnd (myproc s) (\<lambda>i. let p = procs s ! i in
     bnd (if 0 <s incr then grow_userspace (p_pgt p) 0x1000 (p_size p) (p_size p + scast incr) s
          else Inr (0, s)) (\<lambda>(h, s).
       Inr (h, upd_proc i (\<lambda>p. p\<lparr>p_size := p_size p + scast incr\<rparr>) s)))"


text \<open>
  \<open>copyout\<close> and \<open>copyin\<close> move bytes between the kernel and a user address through the MMU;
  \<open>mmu\<close> is what the hardware translates an address to under the tables in force. A fault takes
  \<open>handle_data_abort\<close> to \<open>copyio_fault\<close>, which makes the routine return -1 with the bytes
  moved so far. The C code copies from the end when the source lies below the destination.
\<close>

fun copy_dirs :: "bool \<Rightarrow> nat \<Rightarrow> nat list" where
  "copy_dirs up n = (if up then [0..<n] else rev [0..<n])"

fun put_user :: "(u64 \<Rightarrow> u64 option) \<Rightarrow> u64 \<Rightarrow> u8 list \<Rightarrow> nat list \<Rightarrow> mem \<Rightarrow> bool \<times> mem" where
  "put_user mmu udst bs [] m = (True, m)"
| "put_user mmu udst bs (k # ks) m =
     (case mmu (udst + of_nat k) of
        None \<Rightarrow> (False, m)
      | Some a \<Rightarrow> put_user mmu udst bs ks (m(a := bs ! k)))"

definition copyout :: "(u64 \<Rightarrow> u64 option) \<Rightarrow> nat \<Rightarrow> u64 \<Rightarrow> u64 \<Rightarrow> u8 list \<Rightarrow> 'a kproc_scheme \<Rightarrow> int \<times> 'a kproc_scheme" where
  "copyout mmu i udst src bs s =
     (let (ok, m) = put_user mmu udst bs (copy_dirs (udst < src) (length bs)) (mem s)
      in (if ok then 0 else -1, upd_proc i (\<lambda>p. p\<lparr>p_fault := False\<rparr>) (s\<lparr>mem := m\<rparr>)))"

fun get_user :: "(u64 \<Rightarrow> u64 option) \<Rightarrow> u64 \<Rightarrow> u64 \<Rightarrow> nat list \<Rightarrow> mem \<Rightarrow> bool \<times> mem" where
  "get_user mmu dst usrc [] m = (True, m)"
| "get_user mmu dst usrc (k # ks) m =
     (case mmu (usrc + of_nat k) of
        None \<Rightarrow> (False, m)
      | Some a \<Rightarrow> get_user mmu dst usrc ks (m(dst + of_nat k := m a)))"

definition copyin :: "(u64 \<Rightarrow> u64 option) \<Rightarrow> nat \<Rightarrow> u64 \<Rightarrow> u64 \<Rightarrow> u64 \<Rightarrow> 'a kproc_scheme \<Rightarrow> int \<times> 'a kproc_scheme" where
  "copyin mmu i dst usrc sz s =
     (let (ok, m) = get_user mmu dst usrc (copy_dirs (dst < usrc) (unat sz)) (mem s)
      in (if ok then 0 else -1, upd_proc i (\<lambda>p. p\<lparr>p_fault := False\<rparr>) (s\<lparr>mem := m\<rparr>)))"

text \<open>
  One turn of the endless loop of \<open>wait\<close> (\<open>sel\<close> tests the parent) and of \<open>waitpid\<close> (\<open>sel\<close> tests
  the pid): reap the first zombie among the processes selected, or go to sleep on the caller's
  own channel with the table still locked. \<open>addr\<close> is where the exit status lies in the table,
  \<open>status\<close> where the user wants it (0: nowhere).
\<close>

definition le_bytes :: "int \<Rightarrow> u8 list" where
  "le_bytes n = map (byte_of (word_of_int n :: u32)) [0..<4]"

definition wait_round :: "(u64 \<Rightarrow> u64 option) \<Rightarrow> (nat \<Rightarrow> u64) \<Rightarrow> (proc \<Rightarrow> bool) \<Rightarrow> u64 \<Rightarrow>
    'a kproc_scheme \<Rightarrow> (int option \<times> 'a kproc_scheme) res" where
  "wait_round mmu addr sel status s =
     bnd (myproc s) (\<lambda>me.
     bnd (acquire ProctableLk s) (\<lambda>s.
       case scan (\<lambda>cp. sel cp \<and> p_state cp = ZOMBIE) (procs s) of
         Some i \<Rightarrow>
           let ret = p_pid (procs s ! i);
               (r, s) = (if status \<noteq> 0
                         then copyout mmu me status (addr i) (le_bytes (p_ret (procs s ! i))) s
                         else (0, s));
               ret = (if r < 0 then -1 else ret) in
           bnd (freeproc i s) (\<lambda>s. bnd (release ProctableLk s) (\<lambda>s. Inr (Some ret, s)))
       | None \<Rightarrow> bnd (sleep_enter (Some (ChanProc me)) ProctableLk s) (\<lambda>s. Inr (None, s))))"

definition wait_child :: "(u64 \<Rightarrow> u64 option) \<Rightarrow> (nat \<Rightarrow> u64) \<Rightarrow> u64 \<Rightarrow>
    'a kproc_scheme \<Rightarrow> (int option \<times> 'a kproc_scheme) res" where
  "wait_child mmu addr status s = wait_round mmu addr (\<lambda>cp. p_parent cp = cur s) status s"

definition wait_pid :: "(u64 \<Rightarrow> u64 option) \<Rightarrow> (nat \<Rightarrow> u64) \<Rightarrow> int \<Rightarrow> u64 \<Rightarrow>
    'a kproc_scheme \<Rightarrow> (int option \<times> 'a kproc_scheme) res" where
  "wait_pid mmu addr pid status s = wait_round mmu addr (\<lambda>cp. p_pid cp = pid) status s"

text \<open>
  The end of \<open>exitproc\<close>, once memory and files are given back: the last \<open>cswitch\<close> of the
  process follows, with the table locked.
\<close>

definition exit_table :: "nat \<Rightarrow> int \<Rightarrow> 'a kproc_scheme \<Rightarrow> 'a kproc_scheme res" where
  "exit_table i ret s =
     bnd (acquire ProctableLk (upd_proc i (\<lambda>p. p\<lparr>p_ret := ret\<rparr>) s)) (\<lambda>s.
       let s = reparent i s;
           s = wakeup_acquired (map_option ChanProc (p_parent (procs s ! i))) s
       in Inr (upd_proc i (\<lambda>p. p\<lparr>p_state := ZOMBIE\<rparr>) s))"


section \<open>Locked sections on the process table\<close>

lemma locked_kproc [simp]:
  "procs (locked L s) = procs s" "next_pid (locked L s) = next_pid s" "cur (locked L s) = cur s"
  "initproc (locked L s) = initproc s" "ttbr0 (locked L s) = ttbr0 s"
  by (simp_all add: locked_def set_lock_def pushcli_def Let_def)

lemma cli_mark_kproc [simp]:
  "procs (cli_mark s) = procs s" "next_pid (cli_mark s) = next_pid s" "cur (cli_mark s) = cur s"
  "initproc (cli_mark s) = initproc s" "ttbr0 (cli_mark s) = ttbr0 s"
  by (simp_all add: cli_mark_def)

lemma lock_free_kproc [simp]:
  "lock_free L (s\<lparr>procs := q\<rparr>) = lock_free L s" "lock_free L (s\<lparr>next_pid := n\<rparr>) = lock_free L s"
  "lock_free L (upd_proc i f s) = lock_free L s"
  by (simp_all add: lock_free_def upd_proc_def)

lemma holding_kproc [simp]:
  "holding L (s\<lparr>procs := q\<rparr>) = holding L s" "holding L (upd_proc i f s) = holding L s"
  "holding L (s\<lparr>mem := m\<rparr>) = holding L s" "holding L (s\<lparr>freelist := p\<rparr>) = holding L s"
  by (simp_all add: holding_def upd_proc_def)

lemma locked_kproc_upd:
  "(locked L s)\<lparr>procs := q\<rparr> = locked L (s\<lparr>procs := q\<rparr>)"
  "(locked L s)\<lparr>next_pid := n\<rparr> = locked L (s\<lparr>next_pid := n\<rparr>)"
  "upd_proc i f (locked L s) = locked L (upd_proc i f s)"
  by (simp_all add: locked_def set_lock_def pushcli_def upd_proc_def Let_def)

lemma locked_table_ops:
  "wakeup_acquired ch (locked L s) = locked L (wakeup_acquired ch s)"
  "reparent i (locked L s) = locked L (reparent i s)"
  "switch_back (locked L s) = locked L (switch_back s)"
  by (simp_all add: locked_def set_lock_def pushcli_def wakeup_acquired_def reparent_def
      switch_back_def forget_userspace_def Let_def)

lemma table_ops_simps [simp]:
  "lock_free L (wakeup_acquired ch s) = lock_free L s" "lock_free L (reparent i s) = lock_free L s"
  "lock_free L (switch_back s) = lock_free L s"
  "holding L (wakeup_acquired ch s) = holding L s" "holding L (reparent i s) = holding L s"
  "holding L (switch_back s) = holding L s"
  "length (procs (wakeup_acquired ch s)) = length (procs s)" "length (procs (reparent i s)) = length (procs s)"
  "procs (switch_back s) = procs s" "cur (wakeup_acquired ch s) = cur s" "cur (reparent i s) = cur s"
  "cpuid (switch_back s) = cpuid s" "locks (switch_back s) = locks s"
  by (simp_all add: lock_free_def holding_def wakeup_acquired_def reparent_def switch_back_def forget_userspace_def)

lemma upd_proc_simps [simp]:
  "procs (upd_proc i f s) = (procs s)[i := f (procs s ! i)]" "next_pid (upd_proc i f s) = next_pid s"
  "cur (upd_proc i f s) = cur s" "initproc (upd_proc i f s) = initproc s" "mem (upd_proc i f s) = mem s"
  "freelist (upd_proc i f s) = freelist s" "locks (upd_proc i f s) = locks s"
  "cli_depth (upd_proc i f s) = cli_depth s" "cpuid (upd_proc i f s) = cpuid s"
  "irq_on (upd_proc i f s) = irq_on s" "ttbr0 (upd_proc i f s) = ttbr0 s"
  by (simp_all add: upd_proc_def)

lemma free_pages_kproc [simp]:
  "free_pages (upd_proc i f s) ps = free_pages s ps" "free_pages (cli_mark s) ps = free_pages s ps"
  "free_pages (s\<lparr>next_pid := n\<rparr>) ps = free_pages s ps"
  by (simp_all add: free_pages_def)

lemma kmem_frame_kproc:
  "kmem_frame s t \<Longrightarrow> procs t = procs s \<and> next_pid t = next_pid s \<and> cur t = cur s \<and>
     initproc t = initproc s \<and> ttbr0 t = ttbr0 s \<and> (\<forall>L. lock_free L t = lock_free L s) \<and>
     (\<forall>L. holding L t = holding L s)"
  by (cases s, cases t) (auto simp: kmem_frame_def lock_free_def holding_def)

lemma kmem_frame_more: "kmem_frame s t \<Longrightarrow> kproc.more t = kproc.more s"
  by (cases s, cases t) (simp add: kmem_frame_def)

lemma kproc_more_simps [simp]:
  "kproc.more (upd_proc i f s) = kproc.more s" "kproc.more (cli_mark s) = kproc.more s"
  "kproc.more (locked L s) = kproc.more s"
  by (simp_all add: upd_proc_def cli_mark_def locked_def set_lock_def pushcli_def Let_def)

lemma newpid_spec:
  "lock_free PidallocLk s \<Longrightarrow> newpid s = Inr (next_pid s, (cli_mark s)\<lparr>next_pid := next_pid s + 1\<rparr>)"
  by (simp add: newpid_def locked_kproc_upd release_locked Let_def) (simp add: cli_mark_def)

text \<open>A byte range inside a page that is not free may be written.\<close>

lemma free_pages_write:
  assumes "free_pages s ps" "page_aligned p" "p \<notin> set ps" "\<And>x. \<not> in_page p x \<Longrightarrow> m x = mem s x"
  shows "free_pages (s\<lparr>mem := m\<rparr>) ps"
proof (rule kpages.pool_write [OF assms(1)])
  fix q x assume "q \<in> set ps" "in_page q x"
  moreover from this have "page_aligned q" "q \<noteq> p" using free_pages_ok [OF assms(1)] assms(3) by auto
  ultimately have "\<not> in_page p x" using assms(2) in_page_disjoint by blast
  then show "m x = mem s x" by (rule assms(4))
qed

lemma memset_tf:
  assumes "page_aligned k" "\<not> in_page k x"
  shows "memset m (k + PAGESIZE - TF_SIZE) 0 TF_SIZE x = m x"
proof -
  have "\<not> unat (x - (k + PAGESIZE - TF_SIZE)) < 272"
  proof
    let ?j = "x - (k + PAGESIZE - TF_SIZE)"
    assume j: "unat ?j < 272"
    have "x - k = 3824 + ?j" by simp
    moreover have "unat (3824 + ?j) = 3824 + unat ?j" using j unat_add_lem [of 3824 ?j] by simp
    ultimately have "unat (x - k) < 4096" using j by simp
    with assms(2) show False by (simp add: in_page_def)
  qed
  then show ?thesis by (simp add: memset_filled filled_def)
qed

lemma map_option_ChanProc [simp]:
  "map_option ChanProc x = Some (ChanProc k) \<longleftrightarrow> x = Some k"
  "Some (ChanProc k) = map_option ChanProc x \<longleftrightarrow> x = Some k"
  by (cases x; auto)+

text \<open>What \<open>exit_table\<close> does to the table, without the lock.\<close>

definition exit_upd :: "nat \<Rightarrow> int \<Rightarrow> 'a kproc_scheme \<Rightarrow> 'a kproc_scheme" where
  "exit_upd i ret s =
     (let s = reparent i (upd_proc i (\<lambda>p. p\<lparr>p_ret := ret\<rparr>) s)
      in upd_proc i (\<lambda>p. p\<lparr>p_state := ZOMBIE\<rparr>)
           (wakeup_acquired (map_option ChanProc (p_parent (procs s ! i))) s))"

lemma exit_table_locked:
  "lock_free ProctableLk s \<Longrightarrow> exit_table i ret s = Inr (locked ProctableLk (exit_upd i ret s))"
  by (simp add: exit_table_def exit_upd_def Let_def locked_table_ops locked_kproc_upd)

lemma exit_upd_frame [simp]:
  "lock_free L (exit_upd i ret s) = lock_free L s" "holding L (exit_upd i ret s) = holding L s"
  "length (procs (exit_upd i ret s)) = length (procs s)"
  by (simp_all add: exit_upd_def Let_def)

lemma exit_upd_zombie: "i < length (procs s) \<Longrightarrow> p_state (procs (exit_upd i ret s) ! i) = ZOMBIE"
  by (simp add: exit_upd_def Let_def)

section \<open>Properties of the process table\<close>

lemma newproc_spec:
  assumes pool: "free_pages s (k # g # ps)" and lk: "lock_free ProctableLk s" "lock_free PidallocLk s"
    and i: "scan (\<lambda>p. p_state p = UNUSED) (procs s) = Some i"
  shows "\<exists>t. newproc s = Inr (Some i, t) \<and> free_pages t ps \<and> next_pid t = next_pid s + 1 \<and>
     procs t = (procs s)[i := (procs s ! i)\<lparr>p_state := CREATED, p_pid := next_pid s,
       p_kstack := k, p_tf := k + 3824, p_pgt := g,
       p_ctx := \<lparr>ctx_sp = k + 3824, ctx_x0 = Some i, ctx_lr = Forkret\<rparr>\<rparr>] \<and>
     (\<forall>x. in_page g x \<longrightarrow> mem t x = 0) \<and> (\<forall>f<34. tf_get (k + 3824) (of_nat f) t = 0) \<and>
     (\<forall>L. lock_free L t = lock_free L s) \<and> cur t = cur s \<and>
     (\<forall>x. \<not> in_page k x \<longrightarrow> \<not> in_page g x \<longrightarrow> mem t x = mem s x) \<and> kproc.more t = kproc.more s"
proof -
  have il: "i < length (procs s)" using scan_SomeD(1) [OF i] .
  let ?s0 = "upd_proc i (\<lambda>p. p\<lparr>p_state := CREATED\<rparr>) s"
  let ?s2 = "upd_proc i (\<lambda>p. p\<lparr>p_pid := next_pid s, p_ctx := zero_context\<rparr>)
    ((cli_mark (cli_mark ?s0))\<lparr>next_pid := next_pid s + 1\<rparr>)"
  have fresh: "k \<notin> set (g # ps)" "g \<notin> set ps" "k \<noteq> 0" "g \<noteq> 0" "page_aligned k" "page_aligned g"
    using free_pages_ok [OF pool] by auto
  have pool2: "free_pages ?s2 (k # g # ps)" using pool by simp
  then obtain s3 where s3: "kalloc ?s2 = Inr (k, s3)" "free_pages s3 (g # ps)" "mem s3 = zero_page (mem ?s2) k"
      "kmem_frame ?s2 s3"
    using kalloc_step by blast
  let ?sp = "k + PAGESIZE - TF_SIZE"
  let ?m = "memset (mem s3) ?sp 0 TF_SIZE"
  let ?s4 = "(upd_proc i (\<lambda>p. p\<lparr>p_tf := ?sp\<rparr>) (upd_proc i (\<lambda>p. p\<lparr>p_kstack := k\<rparr>) s3))\<lparr>mem := ?m\<rparr>"
  have "free_pages ?s4 (g # ps)"
    using free_pages_write [of "upd_proc i (\<lambda>p. p\<lparr>p_tf := ?sp\<rparr>) (upd_proc i (\<lambda>p. p\<lparr>p_kstack := k\<rparr>) s3)" "g # ps" k ?m]
      s3(2) fresh memset_tf [OF fresh(5)] by simp
  then obtain s5 where s5: "kalloc ?s4 = Inr (g, s5)" "free_pages s5 ps" "mem s5 = zero_page ?m g" "kmem_frame ?s4 s5"
    using kalloc_step [of ?s4 g ps] by auto
  let ?t = "upd_proc i (\<lambda>p. p\<lparr>p_ctx := (p_ctx p)\<lparr>ctx_x0 := Some i, ctx_lr := Forkret, ctx_sp := ?sp\<rparr>\<rparr>)
    (upd_proc i (\<lambda>p. p\<lparr>p_pgt := g\<rparr>) s5)"
  have sp: "?sp = k + 3824" by simp
  have "newpid (cli_mark ?s0) = Inr (next_pid s, (cli_mark (cli_mark ?s0))\<lparr>next_pid := next_pid s + 1\<rparr>)"
    using newpid_spec [of "cli_mark ?s0"] lk(2) by simp
  then have "newproc s = Inr (Some i, ?t)"
    using lk i s3(1) s5(1) fresh(3,4)
    by (simp add: newproc_def locked_kproc_upd release_locked Let_def del: cli_mark_simps)
  moreover have "free_pages ?t ps" using s5(2) by simp
  moreover note f3 = kmem_frame_kproc [OF s3(4)] and f5 = kmem_frame_kproc [OF s5(4)]
  have "procs ?t = (procs s)[i := (procs s ! i)\<lparr>p_state := CREATED, p_pid := next_pid s,
       p_kstack := k, p_tf := k + 3824, p_pgt := g,
       p_ctx := \<lparr>ctx_sp = k + 3824, ctx_x0 = Some i, ctx_lr = Forkret\<rparr>\<rparr>]"
    using f3 f5 il by (simp add: zero_context_def add.commute)
  moreover have "next_pid ?t = next_pid s + 1" "cur ?t = cur s" "\<forall>L. lock_free L ?t = lock_free L s"
    using f3 f5 by simp_all
  moreover have "\<forall>x. in_page g x \<longrightarrow> mem ?t x = 0" by (simp add: s5(3) zero_page_apply)
  moreover have "tf_get (k + 3824) (of_nat f) ?t = 0" if f: "f < 34" for f
  proof -
    have e: "k + 3824 + 8 * of_nat f = k + 8 * of_nat (478 + f)" by simp
    have z: "mem ?t x = 0" if "in_page k x" for x
    proof -
      have "\<not> in_page g x" using that in_page_disjoint [OF fresh(5,6)] fresh(1) by auto
      then show ?thesis using that by (simp add: in_page_def s5(3) s3(3) memset_filled filled_def)
    qed
    have "ld64 (mem ?t) (k + 8 * of_nat (478 + f)) = ld64 (\<lambda>_. 0) (k + 8 * of_nat (478 + f))"
      using f fresh(5) z by (intro ld64_page_cong [of k] slot_aligned8 slot_in_page) auto
    then show ?thesis unfolding tf_get_def e by simp
  qed
  moreover have "mem ?t x = mem s x" if "\<not> in_page k x" "\<not> in_page g x" for x
    using that memset_tf [OF fresh(5) that(1)] by (simp add: s5(3) s3(3) zero_page_apply)
  moreover have "kproc.more ?t = kproc.more s"
    using kmem_frame_more [OF s3(4)] kmem_frame_more [OF s5(4)] by simp
  ultimately show ?thesis by blast
qed


text \<open>
  With a free slot and two free pages \<open>newproc\<close> takes the first unused slot, gives it the
  next pid, a kernel stack page with the trap frame zeroed at its top and an empty page table,
  and a context that starts in \<open>forkret\<close> on that stack; no other slot changes and the locks
  are at rest again.
\<close>

theorem newproc_fresh:
  assumes pool: "free_pages s (k # g # ps)" and lk: "lock_free ProctableLk s" "lock_free PidallocLk s"
    and i: "scan (\<lambda>p. p_state p = UNUSED) (procs s) = Some i"
  shows "\<exists>t. newproc s = Inr (Some i, t) \<and> free_pages t ps \<and> next_pid t = next_pid s + 1 \<and>
     procs t = (procs s)[i := (procs s ! i)\<lparr>p_state := CREATED, p_pid := next_pid s,
       p_kstack := k, p_tf := k + 3824, p_pgt := g,
       p_ctx := \<lparr>ctx_sp = k + 3824, ctx_x0 = Some i, ctx_lr = Forkret\<rparr>\<rparr>] \<and>
     (\<forall>x. in_page g x \<longrightarrow> mem t x = 0) \<and> (\<forall>f<34. tf_get (k + 3824) (of_nat f) t = 0) \<and>
     (\<forall>L. lock_free L t = lock_free L s) \<and> cur t = cur s"
  using newproc_spec [OF assms] by blast

text \<open>
  Out of memory while a process is made: with no page left \<open>newproc\<close> returns NULL, but the
  slot it took stays \<open>CREATED\<close> for ever (nothing frees a slot in that state) and
  \<open>kallocator.lk\<close> stays held.
\<close>

theorem newproc_oom_leaks_slot:
  assumes pool: "free_pages s []" and lk: "lock_free ProctableLk s" "lock_free PidallocLk s"
    and i: "scan (\<lambda>p. p_state p = UNUSED) (procs s) = Some i"
  shows "\<exists>t. newproc s = Inr (None, t) \<and> p_state (procs t ! i) = CREATED \<and> holding KallocLk t"
proof -
  have il: "i < length (procs s)" using scan_SomeD(1) [OF i] .
  let ?s0 = "upd_proc i (\<lambda>p. p\<lparr>p_state := CREATED\<rparr>) s"
  let ?s2 = "upd_proc i (\<lambda>p. p\<lparr>p_pid := next_pid s, p_ctx := zero_context\<rparr>)
    ((cli_mark (cli_mark ?s0))\<lparr>next_pid := next_pid s + 1\<rparr>)"
  have "newpid (cli_mark ?s0) = Inr (next_pid s, (cli_mark (cli_mark ?s0))\<lparr>next_pid := next_pid s + 1\<rparr>)"
    using newpid_spec [of "cli_mark ?s0"] lk(2) by simp
  moreover have k: "free_pages ?s2 []" using pool by simp
  then have "kalloc ?s2 = Inr (0, locked KallocLk ?s2)"
    by (intro kalloc_empty) (simp_all add: free_pages_def)
  ultimately have "newproc s = Inr (None, upd_proc i (\<lambda>p. p\<lparr>p_kstack := 0\<rparr>) (locked KallocLk ?s2))"
    using lk i by (simp add: newproc_def locked_kproc_upd release_locked Let_def del: cli_mark_simps)
  then show ?thesis using il by simp
qed



text \<open>
  C17. Exit: the dying process is a zombie with its status, no process names it as parent any
  more (its children belong to the initial process), and its parent, if it sleeps in \<open>wait\<close>, is
  runnable. No other process changes its state.
\<close>

theorem exit_hands_over:
  assumes lk: "lock_free ProctableLk s" and i: "i < length (procs s)"
    and init: "initproc s \<noteq> Some i" "p_parent (procs s ! i) \<noteq> Some i"
  shows "\<exists>t. exit_table i ret s = Inr t \<and> length (procs t) = length (procs s) \<and>
     p_state (procs t ! i) = ZOMBIE \<and> p_ret (procs t ! i) = ret \<and>
     (\<forall>j<length (procs s). p_parent (procs t ! j) \<noteq> Some i) \<and>
     (\<forall>j<length (procs s). p_parent (procs s ! j) = Some i \<longrightarrow> p_parent (procs t ! j) = initproc s) \<and>
     (\<forall>j<length (procs s). j \<noteq> i \<longrightarrow> p_state (procs t ! j) =
        (if p_state (procs s ! j) = SLEEPING \<and> p_chan (procs s ! j) = map_option ChanProc (p_parent (procs s ! i))
         then RUNNABLE else p_state (procs s ! j)))"
  using exit_table_locked [OF lk, of i ret] i init
  by (auto simp: exit_upd_def Let_def wakeup_acquired_def reparent_def nth_list_update)

text \<open>
  A zombie child handed over by its dying parent is not announced: \<open>exitproc\<close> wakes its own
  parent only, so the initial process goes on sleeping in \<open>wait\<close> although it has a child to
  reap.
\<close>

theorem orphan_zombie_unnoticed:
  assumes lk: "lock_free ProctableLk s" and i: "i < length (procs s)" "j < length (procs s)" "k < length (procs s)"
    and ne: "j \<noteq> i" "k \<noteq> i" "initproc s = Some k" "p_parent (procs s ! i) \<noteq> Some k" "p_parent (procs s ! i) \<noteq> Some i"
    and zombie: "p_parent (procs s ! j) = Some i" "p_state (procs s ! j) = ZOMBIE"
    and init: "p_state (procs s ! k) = SLEEPING" "p_chan (procs s ! k) = Some (ChanProc k)"
  shows "\<exists>t. exit_table i ret s = Inr t \<and> p_parent (procs t ! j) = Some k \<and>
     p_state (procs t ! j) = ZOMBIE \<and> p_state (procs t ! k) = SLEEPING"
  using exit_table_locked [OF lk, of i ret] i ne zombie init
  by (auto simp: exit_upd_def Let_def wakeup_acquired_def reparent_def nth_list_update)



text \<open>
  Reaping: if a child is a zombie, \<open>wait\<close> takes the first one of the table, returns its pid,
  clears its slot and gives its kernel stack back; the table lock is free again.
\<close>

theorem wait_reaps:
  assumes pool: "free_pages s ps" and lk: "lock_free ProctableLk s" and me: "cur s = Some me"
    and i: "scan (\<lambda>cp. p_parent cp = Some me \<and> p_state cp = ZOMBIE) (procs s) = Some i"
    and ks: "page_aligned (p_kstack (procs s ! i))" "p_kstack (procs s ! i) \<noteq> 0" "p_kstack (procs s ! i) \<notin> set ps"
  shows "\<exists>t. wait_child mmu addr 0 s = Inr (Some (p_pid (procs s ! i)), t) \<and>
     procs t = (procs s)[i := zero_proc] \<and> free_pages t (p_kstack (procs s ! i) # ps) \<and>
     lock_free ProctableLk t"
proof -
  let ?s = "locked ProctableLk s"
  let ?k = "p_kstack (procs s ! i)"
  have il: "i < length (procs s)" using scan_SomeD(1) [OF i] .
  have "free_pages ?s ps" using pool by (simp add: free_pages_def)
  then obtain t where t: "kfree ?k ?s = Inr t" "free_pages t (?k # ps)" "kmem_frame ?s t"
    using kfree_step [OF _ ks] by blast
  note f = kmem_frame_kproc [OF t(3)]
  have h: "holding ProctableLk (upd_proc i (\<lambda>_. zero_proc) t)" using f by simp
  have "cli_depth (upd_proc i (\<lambda>_. zero_proc) t) \<noteq> 0"
    using t(3) by (simp add: kmem_frame_def locked_def pushcli_def Let_def)
  then obtain u where u: "release ProctableLk (upd_proc i (\<lambda>_. zero_proc) t) = Inr u" "lock_free ProctableLk u"
    using release_held [OF h] by blast
  have fu: "procs u = procs (upd_proc i (\<lambda>_. zero_proc) t)" "free_pages u (?k # ps)"
    using u(1) t(2) h
    by (auto simp: release_def popcli_def set_lock_def Let_def free_pages_def lock_free_def split: if_splits)
  have "wait_child mmu addr 0 s = Inr (Some (p_pid (procs s ! i)), u)"
    using lk me i t(1) u(1) by (simp add: wait_child_def wait_round_def myproc_def freeproc_def)
  then show ?thesis using fu u(2) f by auto
qed

text \<open>
  \<open>copyout\<close> does not look where the pointer points: it stores through any address the MMU
  translates, kernel addresses included, so \<open>wait(&status)\<close> with a kernel address overwrites
  the kernel. On translated bytes it is a plain copy.
\<close>

theorem copyout_stores_anywhere:
  assumes "\<And>k. k < length bs \<Longrightarrow> mmu (udst + of_nat k) = Some (f k)" "inj_on f {..<length bs}"
  shows "\<exists>t. copyout mmu i udst src bs s = (0, t) \<and> (\<forall>k<length bs. mem t (f k) = bs ! k) \<and>
     (\<forall>x. x \<notin> f ` {..<length bs} \<longrightarrow> mem t x = mem s x)"
proof -
  have put: "\<exists>m'. put_user mmu udst bs ks m = (True, m') \<and> (\<forall>k\<in>set ks. m' (f k) = bs ! k) \<and>
      (\<forall>x. x \<notin> f ` set ks \<longrightarrow> m' x = m x)"
    if "set ks \<subseteq> {..<length bs}" "distinct ks" for ks m
    using that
  proof (induction ks arbitrary: m)
    case Nil
    then show ?case by simp
  next
    case (Cons k ks)
    then have k: "k < length bs" "f k \<notin> f ` set ks"
      using inj_on_image_mem_iff [OF assms(2), of k "set ks"] by auto
    obtain m' where m': "put_user mmu udst bs ks (m(f k := bs ! k)) = (True, m')"
        "\<forall>k\<in>set ks. m' (f k) = bs ! k" "\<forall>x. x \<notin> f ` set ks \<longrightarrow> m' x = (m(f k := bs ! k)) x"
      using Cons.IH [of "m(f k := bs ! k)"] Cons.prems by (auto simp del: fun_upd_apply)
    then show ?case using k assms(1) by (intro exI [of _ m']) auto
  qed
  have "set (copy_dirs up (length bs)) = {..<length bs}" "distinct (copy_dirs up (length bs))" for up
    by (auto simp: atLeast0LessThan)
  then obtain m' where "put_user mmu udst bs (copy_dirs (udst < src) (length bs)) (mem s) = (True, m')"
      "\<forall>k\<in>{..<length bs}. m' (f k) = bs ! k" "\<forall>x. x \<notin> f ` {..<length bs} \<longrightarrow> m' x = mem s x"
    using put [of "copy_dirs (udst < src) (length bs)" "mem s"] by (metis subset_refl)
  then show ?thesis by (simp add: copyout_def Let_def)
qed


section \<open>Witnesses\<close>

text \<open>A machine after \<open>proc_init\<close> with twenty free pages.\<close>

definition boot_kproc :: "proc list \<Rightarrow> kproc" where
  "boot_kproc ps = kmem.extend (pool_state pages20)
     \<lparr>procs = ps, next_pid = 0, cur = None, initproc = None, ttbr0 = 0\<rparr>"

lemma boot_kproc_simps [simp]:
  "procs (boot_kproc ps) = ps" "next_pid (boot_kproc ps) = 0" "cur (boot_kproc ps) = None"
  "initproc (boot_kproc ps) = None" "lock_free L (boot_kproc ps)" "cli_depth (boot_kproc ps) = 0"
  "mem (boot_kproc ps) = mem (pool_state pages20)" "freelist (boot_kproc ps) = freelist (pool_state pages20)"
  by (simp_all add: boot_kproc_def kmem.extend_def lock_free_def pool_state_def boot_mem_def)

lemma free_pages_boot_kproc [simp]: "free_pages (boot_kproc ps) qs = free_pages (pool_state pages20) qs"
  by (simp add: free_pages_def) (simp add: pool_state_def boot_mem_def lock_free_def)

definition empty_pool :: "proc list \<Rightarrow> kproc" where
  "empty_pool ps = (boot_kproc ps)\<lparr>freelist := 0\<rparr>"

lemma scan_fresh: "scan (\<lambda>p. p_state p = UNUSED) (replicate (Suc n) zero_proc) = Some 0"
  by (simp add: zero_proc_def)

theorem newproc_fresh_witness:
  "\<exists>t. newproc (boot_kproc (replicate (Suc 3) zero_proc)) = Inr (Some 0, t) \<and> next_pid t = 1 \<and>
     p_state (procs t ! 0) = CREATED"
proof -
  obtain k g ps where p: "pages20 = k # g # ps"
    using two_elems [of pages20] pages20_ok(3) by auto
  have "free_pages (boot_kproc (replicate (Suc 3) zero_proc)) (k # g # ps)"
    using free_pages20 unfolding p [symmetric] by simp
  from newproc_fresh [OF this boot_kproc_simps(5,5)] show ?thesis
    using scan_fresh [of 3] by auto
qed

theorem newproc_oom_leaks_slot_witness:
  "\<exists>t. newproc (empty_pool (replicate (Suc 3) zero_proc)) = Inr (None, t) \<and> p_state (procs t ! 0) = CREATED"
proof -
  let ?s = "empty_pool (replicate (Suc 3) zero_proc)"
  have "free_pages ?s []" "lock_free ProctableLk ?s" "lock_free PidallocLk ?s"
    by (simp_all add: empty_pool_def free_pages_def)
  moreover have "scan (\<lambda>p. p_state p = UNUSED) (procs ?s) = Some 0"
    using scan_fresh [of 3] by (simp add: empty_pool_def)
  ultimately show ?thesis using newproc_oom_leaks_slot [of ?s 0] by auto
qed

definition sleeper :: "nat \<Rightarrow> proc" where
  "sleeper k = zero_proc\<lparr>p_state := SLEEPING, p_chan := Some (ChanProc k)\<rparr>"


definition family :: "proc list" where
  "family = [sleeper 0, zero_proc\<lparr>p_state := RUNNING, p_parent := Some 3\<rparr>,
     zero_proc\<lparr>p_state := ZOMBIE, p_pid := 5, p_parent := Some 1, p_kstack := 0xffffff8040200000\<rparr>, sleeper 3]"

definition family_state :: kproc where
  "family_state = (boot_kproc family)\<lparr>initproc := Some 0, cur := Some 1\<rparr>"

lemma family_state_simps [simp]:
  "procs family_state = family" "initproc family_state = Some 0" "cur family_state = Some 1"
  "lock_free L family_state" "length family = 4"
  by (simp_all add: family_state_def family_def lock_free_def boot_kproc_def kmem.extend_def pool_state_def boot_mem_def)

theorem exit_hands_over_witness:
  "\<exists>t. exit_table 1 9 family_state = Inr t \<and> p_state (procs t ! 1) = ZOMBIE \<and>
     p_state (procs t ! 3) = RUNNABLE \<and> p_parent (procs t ! 2) = Some 0"
proof -
  have f: "lock_free ProctableLk family_state" "1 < length (procs family_state)"
    "initproc family_state \<noteq> Some 1" "p_parent (procs family_state ! 1) \<noteq> Some 1"
    by (simp_all add: family_def zero_proc_def)
  obtain t where t: "exit_table 1 9 family_state = Inr t" "p_state (procs t ! 1) = ZOMBIE"
     "\<forall>j<4. p_parent (family ! j) = Some 1 \<longrightarrow> p_parent (procs t ! j) = Some 0"
     "\<forall>j<4. j \<noteq> 1 \<longrightarrow> p_state (procs t ! j) =
        (if p_state (family ! j) = SLEEPING \<and> p_chan (family ! j) = map_option ChanProc (p_parent (family ! 1))
         then RUNNABLE else p_state (family ! j))"
    using exit_hands_over [OF f, of 9] by auto
  have "p_parent (procs t ! 2) = Some 0" using t(3) [rule_format, of 2] by (simp add: family_def)
  moreover have "p_state (procs t ! 3) = RUNNABLE"
    using t(4) [rule_format, of 3] by (simp add: family_def sleeper_def)
  ultimately show ?thesis using t(1,2) by blast
qed

theorem orphan_zombie_unnoticed_witness:
  "\<exists>t. exit_table 1 9 family_state = Inr t \<and> p_parent (procs t ! 2) = Some 0 \<and>
     p_state (procs t ! 2) = ZOMBIE \<and> p_state (procs t ! 0) = SLEEPING"
  by (rule orphan_zombie_unnoticed) (simp_all add: family_def sleeper_def)


theorem wait_reaps_witness:
  "\<exists>t. wait_child (\<lambda>_. None) (\<lambda>_. 0) 0 family_state = Inr (Some 5, t) \<and> procs t ! 2 = zero_proc"
proof -
  have f: "free_pages family_state pages20"
    using free_pages20 family_state_simps(4) [of KallocLk]
    by (simp add: free_pages_def del: family_state_simps(4)) (simp add: family_state_def)
  have set20: "0xffffff8040200000 \<notin> set pages20"
    using set_pages_from [of "0xffffff8040100000" 20] by (auto simp: pages20_def page_aligned_def)
  have "scan (\<lambda>cp. p_parent cp = Some 1 \<and> p_state cp = ZOMBIE) (procs family_state) = Some 2"
    by (simp add: family_def sleeper_def zero_proc_def)
  from wait_reaps [OF f _ _ this, of "\<lambda>_. None" "\<lambda>_. 0"] show ?thesis
    using set20 by (auto simp: family_def page_aligned_def)
qed

theorem copyout_stores_anywhere_witness:
  "\<exists>t. copyout (\<lambda>a. Some a) 0 0xffffff8040000000 0xffffff8040300000 [1, 2] family_state = (0, t) \<and>
     mem t 0xffffff8040000001 = 2"
proof -
  have "inj_on (\<lambda>k. 0xffffff8040000000 + of_nat k :: u64) {..<length [1, 2 :: u8]}"
    by (auto simp: inj_on_def less_Suc_eq numeral_2_eq_2)
  from copyout_stores_anywhere [OF _ this, of "\<lambda>a. Some a" "0xffffff8040000000" 0 "0xffffff8040300000" family_state]
  show ?thesis by (force simp: less_Suc_eq numeral_2_eq_2)
qed

end
