(* ===== verification/Sched.thy ===== *)
theory Sched
  imports Proc
begin

text \<open>
  The scheduler on several CPUs. Every CPU runs \<open>schedule\<close> of kernel/proc.c; a step of the
  relation is one section under \<open>proctable.lk\<close>, which the code carries across \<open>cswitch\<close>: from
  the scheduler's \<open>acquire\<close>, or from that of \<open>yield\<close>, \<open>sleep\<close> or \<open>exitproc\<close>, to the next release.
  The steps are the operations of the process table themselves, run on the view a CPU has: the
  shared memory with its own \<open>struct cpu\<close>. A lock another CPU holds makes \<open>acquire\<close> spin, so
  that no step is possible.
\<close>

section \<open>Machine\<close>

datatype phase = Idle | InSched | InProc

record cpu =
  c_cur :: "nat option"
  c_depth :: nat
  c_intr :: bool
  c_irq :: bool
  c_phase :: phase

record smpk =
  shared :: kproc
  cpus :: "nat \<Rightarrow> cpu"

definition kview :: "smpk \<Rightarrow> nat \<Rightarrow> kproc" where
  "kview g c = (shared g)\<lparr>cpuid := int c, cur := c_cur (cpus g c), cli_depth := c_depth (cpus g c),
     intr_enabled := c_intr (cpus g c), irq_on := c_irq (cpus g c)\<rparr>"

definition kput :: "nat \<Rightarrow> phase \<Rightarrow> kproc \<Rightarrow> smpk \<Rightarrow> smpk" where
  "kput c ph s g = \<lparr>shared = s, cpus = (cpus g)(c := \<lparr>c_cur = cur s, c_depth = cli_depth s,
     c_intr = intr_enabled s, c_irq = irq_on s, c_phase = ph\<rparr>)\<rparr>"

text \<open>
  What a process does on its CPU (\<open>InProc\<close>) and what the scheduler does (\<open>Idle\<close>: outside the
  section, \<open>InSched\<close>: inside). A dispatched process leaves the section itself: \<open>sleep\<close>, \<open>yield\<close>
  and \<open>schedule_tail\<close> all release the table first.
\<close>

inductive sched_step :: "smpk \<Rightarrow> smpk \<Rightarrow> bool" where
  enter: "c_phase (cpus g c) = Idle \<Longrightarrow> schedule_enter (kview g c) = Inr s \<Longrightarrow>
     sched_step g (kput c InSched s g)"
| leave: "c_phase (cpus g c) = InSched \<Longrightarrow> schedule_leave (kview g c) = Inr s \<Longrightarrow>
     sched_step g (kput c Idle s g)"
| run: "c_phase (cpus g c) = InSched \<Longrightarrow> i < length (procs (shared g)) \<Longrightarrow>
     p_state (procs (shared g) ! i) = RUNNABLE \<Longrightarrow> dispatch i (kview g c) = Inr s \<Longrightarrow>
     release ProctableLk s = Inr t \<Longrightarrow> sched_step g (kput c InProc t g)"
| yield: "c_phase (cpus g c) = InProc \<Longrightarrow> yield_enter (kview g c) = Inr s \<Longrightarrow>
     sched_step g (kput c InSched (switch_back s) g)"
| sleep: "c_phase (cpus g c) = InProc \<Longrightarrow> lk \<noteq> ProctableLk \<Longrightarrow> sleep_enter ch lk (kview g c) = Inr s \<Longrightarrow>
     sched_step g (kput c InSched (switch_back s) g)"
| wait_sleep: "c_phase (cpus g c) = InProc \<Longrightarrow> wait_round mmu addr sel status (kview g c) = Inr (None, s) \<Longrightarrow>
     sched_step g (kput c InSched (switch_back s) g)"
| reap: "c_phase (cpus g c) = InProc \<Longrightarrow> wait_round mmu addr sel status (kview g c) = Inr (Some r, s) \<Longrightarrow>
     sched_step g (kput c InProc s g)"
| exit: "c_phase (cpus g c) = InProc \<Longrightarrow> c_cur (cpus g c) = Some i \<Longrightarrow>
     exit_table i ret (kview g c) = Inr s \<Longrightarrow> sched_step g (kput c InSched (switch_back s) g)"
| wake: "wakeup ch (kview g c) = Inr s \<Longrightarrow> sched_step g (kput c (c_phase (cpus g c)) s g)"
| signal: "kill pid sig (kview g c) = Inr (r, s) \<Longrightarrow> sched_step g (kput c (c_phase (cpus g c)) s g)"
| create: "c_phase (cpus g c) = InProc \<Longrightarrow> newproc (kview g c) = Inr (r, s) \<Longrightarrow>
     sched_step g (kput c InProc s g)"
| start: "c_phase (cpus g c) = InProc \<Longrightarrow> i < length (procs (shared g)) \<Longrightarrow>
     p_state (procs (shared g) ! i) = CREATED \<Longrightarrow> acquire ProctableLk (kview g c) = Inr s \<Longrightarrow>
     release ProctableLk (upd_proc i (\<lambda>p. p\<lparr>p_state := RUNNABLE, p_parent := par\<rparr>) s) = Inr t \<Longrightarrow>
     sched_step g (kput c InProc t g)"

inductive_cases sched_stepE: "sched_step g h"

inductive sched_reach :: "smpk \<Rightarrow> smpk \<Rightarrow> bool" for g where
  refl: "sched_reach g g"
| step: "sched_reach g h \<Longrightarrow> sched_step h k \<Longrightarrow> sched_reach g k"

section \<open>Where the processes run\<close>

text \<open>The processes that are running are exactly those on the CPUs, each on one.\<close>

definition run_set :: "proc list \<Rightarrow> nat set" where
  "run_set ps = {i. i < length ps \<and> p_state (ps ! i) = RUNNING}"

definition placed :: "(nat \<Rightarrow> nat option) \<Rightarrow> nat set \<Rightarrow> bool" where
  "placed on R \<longleftrightarrow> (\<forall>c i. on c = Some i \<longrightarrow> i \<in> R) \<and>
     (\<forall>c d i. on c = Some i \<longrightarrow> on d = Some i \<longrightarrow> c = d) \<and> (\<forall>i\<in>R. \<exists>c. on c = Some i)"

definition on_cpu :: "smpk \<Rightarrow> nat \<Rightarrow> nat option" where
  "on_cpu g c = c_cur (cpus g c)"

definition sched_ok :: "smpk \<Rightarrow> bool" where
  "sched_ok g \<longleftrightarrow> placed (on_cpu g) (run_set (procs (shared g))) \<and>
     (\<forall>c. c_phase (cpus g c) = InProc \<longleftrightarrow> on_cpu g c \<noteq> None)"

lemma run_set_upd:
  assumes "i < length ps"
  shows "run_set (ps[i := p]) = (if p_state p = RUNNING then insert i (run_set ps) else run_set ps - {i})"
proof (rule set_eqI)
  fix j show "j \<in> run_set (ps[i := p]) \<longleftrightarrow>
      j \<in> (if p_state p = RUNNING then insert i (run_set ps) else run_set ps - {i})"
    using assms by (cases "j = i") (simp_all add: run_set_def)
qed

lemma run_set_upd_same:
  assumes "i < length ps \<Longrightarrow> p_state p = RUNNING \<longleftrightarrow> p_state (ps ! i) = RUNNING"
  shows "run_set (ps[i := p]) = run_set ps"
proof (cases "i < length ps")
  case True
  have "i \<in> run_set ps \<longleftrightarrow> p_state p = RUNNING" using True assms by (simp add: run_set_def)
  then show ?thesis unfolding run_set_upd [OF True] by (simp split: if_splits) blast
qed (simp add: list_update_beyond)

lemma run_set_map:
  assumes "\<And>p. p_state (f p) = RUNNING \<longleftrightarrow> p_state p = RUNNING"
  shows "run_set (map f ps) = run_set ps"
proof (rule set_eqI)
  fix i show "i \<in> run_set (map f ps) \<longleftrightarrow> i \<in> run_set ps"
    by (cases "i < length ps") (simp_all only: run_set_def mem_Collect_eq length_map nth_map assms simp_thms)
qed

lemma placed_run:
  assumes "placed on R" "on c = None" "i \<notin> R"
  shows "placed (on(c := Some i)) (insert i R)"
proof -
  have new: "on d \<noteq> Some i" for d using assms(1,3) unfolding placed_def by blast
  have inj: "d = e" if "on d = Some j" "on e = Some j" for d e j
    using assms(1) that unfolding placed_def by blast
  have "d = e" if "(on(c := Some i)) d = Some j" "(on(c := Some i)) e = Some j" for d e j
    using that new inj by (simp split: if_splits)
  moreover have "j \<in> insert i R" if "(on(c := Some i)) d = Some j" for d j
    using that assms(1) unfolding placed_def by (auto split: if_splits)
  moreover have "\<exists>d. (on(c := Some i)) d = Some j" if j: "j \<in> insert i R" for j
  proof (cases "j = i")
    case True
    then show ?thesis by (intro exI [of _ c]) simp
  next
    case False
    then obtain d where d: "on d = Some j" using j assms(1) unfolding placed_def by blast
    then have "d \<noteq> c" using assms(2) by auto
    then show ?thesis using d by (intro exI [of _ d]) simp
  qed
  ultimately show ?thesis unfolding placed_def by blast
qed

lemma placed_stop:
  assumes "placed on R" "on c = Some i"
  shows "placed (on(c := None)) (R - {i})"
proof -
  have inj: "d = e" if "on d = Some j" "on e = Some j" for d e j
    using assms(1) that unfolding placed_def by blast
  have "\<exists>d. (on(c := None)) d = Some j" if j: "j \<in> R" "j \<noteq> i" for j
  proof -
    obtain d where d: "on d = Some j" using assms(1) j(1) unfolding placed_def by blast
    then have "d \<noteq> c" using assms(2) j(2) by auto
    then show ?thesis using d by (intro exI [of _ d]) simp
  qed
  moreover have "j \<in> R - {i}" if "(on(c := None)) d = Some j" for d j
    using that assms inj [of d i c] unfolding placed_def by (auto split: if_splits)
  ultimately show ?thesis using inj unfolding placed_def by (auto split: if_splits)
qed

section \<open>The operations seen from here\<close>

lemma acquire_table: "acquire L s = Inr t \<Longrightarrow> procs t = procs s \<and> cur t = cur s"
  by (auto simp: acquire_def pushcli_def set_lock_def Let_def split: if_splits)

lemma release_table: "release L s = Inr t \<Longrightarrow> procs t = procs s \<and> cur t = cur s"
  by (auto simp: release_def popcli_def set_lock_def Let_def split: if_splits)

lemma kalloc_table: "kalloc s = Inr (p, t) \<Longrightarrow> procs t = procs s \<and> cur t = cur s"
  by (auto simp: kalloc_def bnd_eq_Inr Let_def dest!: acquire_table release_table split: if_splits)

lemma kfree_table: "kfree p s = Inr t \<Longrightarrow> procs t = procs s \<and> cur t = cur s"
  by (auto simp: kfree_def bnd_eq_Inr Let_def dest!: acquire_table release_table split: if_splits)

lemmas tableD = acquire_table release_table kalloc_table kfree_table

lemma wakeup_running: "run_set (procs (wakeup_acquired ch s)) = run_set (procs s)"
  unfolding wakeup_acquired_def by (simp add: run_set_map)

lemma wakeup_keeps: "wakeup ch s = Inr t \<Longrightarrow> run_set (procs t) = run_set (procs s) \<and> cur t = cur s"
proof -
  assume "wakeup ch s = Inr t"
  then obtain u where u: "acquire ProctableLk s = Inr u" "release ProctableLk (wakeup_acquired ch u) = Inr t"
    by (auto simp: wakeup_def bnd_eq_Inr)
  then show ?thesis using acquire_table [OF u(1)] release_table [OF u(2)] by (simp add: wakeup_running)
qed

lemma reparent_running: "run_set (procs (reparent i s)) = run_set (procs s)"
  unfolding reparent_def by (simp add: run_set_map)

lemma killproc_keeps: "killproc p sig s = Inr (r, t) \<Longrightarrow> run_set (procs t) = run_set (procs s) \<and> cur t = cur s"
proof (cases p)
  case None
  then show "killproc p sig s = Inr (r, t) \<Longrightarrow> ?thesis" by (simp add: killproc_def)
next
  case (Some i)
  let ?s = "upd_proc i (\<lambda>p. p\<lparr>p_sig := sig\<rparr>) s"
  assume "killproc p sig s = Inr (r, t)"
  then obtain u v where u: "acquire ProctableLk ?s = Inr u" "release ProctableLk v = Inr t"
      "v = (if p_state (procs u ! i) = SLEEPING then upd_proc i (\<lambda>p. p\<lparr>p_state := RUNNABLE\<rparr>) u else u)"
    using Some by (auto simp: killproc_def bnd_eq_Inr Let_def)
  have "run_set (procs u) = run_set (procs s)"
    using acquire_table [OF u(1)] by (simp add: run_set_upd_same)
  moreover have "run_set (procs v) = run_set (procs u)"
    unfolding u(3) by (simp add: run_set_upd_same)
  ultimately show ?thesis using acquire_table [OF u(1)] release_table [OF u(2)] u(3) by simp
qed

lemma kill_keeps: "kill pid sig s = Inr (r, t) \<Longrightarrow> run_set (procs t) = run_set (procs s) \<and> cur t = cur s"
proof -
  assume "kill pid sig s = Inr (r, t)"
  then obtain p u v where u: "acquire ProctableLk s = Inr u" "release ProctableLk u = Inr v" "killproc p sig v = Inr (r, t)"
    by (auto simp: kill_def pget_def bnd_eq_Inr Let_def)
  then show ?thesis using acquire_table [OF u(1)] release_table [OF u(2)] killproc_keeps [OF u(3)] by simp
qed

lemma newpid_table: "newpid s = Inr (n, t) \<Longrightarrow> procs t = procs s \<and> cur t = cur s"
  by (auto simp: newpid_def bnd_eq_Inr Let_def dest!: tableD)

text \<open>A slot that does not run may get any other state but \<open>RUNNING\<close>.\<close>

definition quiet :: "nat \<Rightarrow> proc list \<Rightarrow> proc list \<Rightarrow> bool" where
  "quiet i ps qs \<longleftrightarrow> (\<exists>p. qs = ps[i := p] \<and> p_state p \<noteq> RUNNING)"

lemma quiet_running: "quiet i ps qs \<Longrightarrow> p_state (ps ! i) \<noteq> RUNNING \<Longrightarrow> run_set qs = run_set ps"
  by (auto simp: quiet_def run_set_upd_same)

lemma newproc_keeps:
  assumes "newproc s = Inr (r, t)"
  shows "run_set (procs t) = run_set (procs s) \<and> cur t = cur s"
proof -
  obtain u where u: "acquire ProctableLk s = Inr u" using assms by (auto simp: newproc_def bnd_eq_Inr)
  note uT = acquire_table [OF u]
  show ?thesis
  proof (cases "scan (\<lambda>p. p_state p = UNUSED) (procs u)")
    case None
    then have "release ProctableLk u = Inr t" using assms u by (auto simp: newproc_def bnd_eq_Inr)
    then show ?thesis using uT release_table by metis
  next
    case (Some i)
    have i: "i < length (procs s)" "p_state (procs s ! i) = UNUSED"
      using scan_SomeD [OF Some] uT by simp_all
    obtain v w pid x ks where v: "release ProctableLk (upd_proc i (\<lambda>p. p\<lparr>p_state := CREATED\<rparr>) u) = Inr v"
        "newpid v = Inr (pid, w)"
        "kalloc (upd_proc i (\<lambda>p. p\<lparr>p_pid := pid, p_ctx := zero_context\<rparr>) w) = Inr (ks, x)"
      using assms u Some by (auto simp: newproc_def bnd_eq_Inr Let_def)
    have w: "procs w = (procs s)[i := (procs s ! i)\<lparr>p_state := CREATED\<rparr>]" "cur w = cur s"
      using release_table [OF v(1)] newpid_table [OF v(2)] uT by simp_all
    then have x: "quiet i (procs s) (procs x)" "cur x = cur s"
      using kalloc_table [OF v(3)] i(1) by (auto simp: quiet_def)
    show ?thesis
    proof (cases "ks = 0")
      case True
      then have "t = upd_proc i (\<lambda>p. p\<lparr>p_kstack := ks\<rparr>) x" using assms u Some v by (simp add: newproc_def Let_def)
      then have "quiet i (procs s) (procs t)" "cur t = cur s"
        using x i(1) by (auto simp: quiet_def)
      then show ?thesis using quiet_running i(2) by simp
    next
      case False
      let ?sp = "ks + PAGESIZE - TF_SIZE"
      let ?y = "upd_proc i (\<lambda>p. p\<lparr>p_tf := ?sp\<rparr>) (upd_proc i (\<lambda>p. p\<lparr>p_kstack := ks\<rparr>) x)"
      obtain g z where z: "kalloc (?y\<lparr>mem := memset (mem ?y) ?sp 0 TF_SIZE\<rparr>) = Inr (g, z)"
          "t = (if g = 0 then upd_proc i (\<lambda>p. p\<lparr>p_pgt := g\<rparr>) z
                else upd_proc i (\<lambda>p. p\<lparr>p_ctx := (p_ctx p)\<lparr>ctx_x0 := Some i, ctx_lr := Forkret, ctx_sp := ?sp\<rparr>\<rparr>)
                       (upd_proc i (\<lambda>p. p\<lparr>p_pgt := g\<rparr>) z))"
        using assms u Some v False by (auto simp: newproc_def Let_def bnd_eq_Inr split: if_splits)
      have "quiet i (procs s) (procs z)" "cur z = cur s"
        using kalloc_table [OF z(1)] x i(1) by (auto simp: quiet_def)
      then have "quiet i (procs s) (procs t)" "cur t = cur s"
        using z(2) i(1) by (auto simp: quiet_def)
      then show ?thesis using quiet_running i(2) by simp
    qed
  qed
qed


lemma wait_round_keeps:
  assumes "wait_round mmu addr sel status s = Inr (Some r, t)"
  shows "run_set (procs t) = run_set (procs s) \<and> cur t = cur s"
proof -
  obtain me where me: "myproc s = Inr me" using assms by (auto simp: wait_round_def bnd_eq_Inr)
  obtain u where u: "acquire ProctableLk s = Inr u" using assms me by (auto simp: wait_round_def bnd_eq_Inr)
  note uT = acquire_table [OF u]
  let ?sc = "scan (\<lambda>cp. sel cp \<and> p_state cp = ZOMBIE) (procs u)"
  obtain i where i: "?sc = Some i"
    using assms me u by (cases ?sc) (auto simp: wait_round_def bnd_eq_Inr)
  have iz: "p_state (procs u ! i) = ZOMBIE" using scan_SomeD(2) [OF i] by simp
  define v where "v = (if status \<noteq> 0
      then copyout mmu me status (addr i) (le_bytes (p_ret (procs u ! i))) u else (0, u))"
  have "wait_round mmu addr sel status s = (case v of (r', s) \<Rightarrow>
      bnd (freeproc i s) (\<lambda>s. bnd (release ProctableLk s) (\<lambda>s.
        Inr (Some (if r' < 0 then -1 else p_pid (procs u ! i)), s))))"
    using me u i unfolding wait_round_def v_def Let_def by simp
  then have W: "bnd (freeproc i (snd v)) (\<lambda>s. bnd (release ProctableLk s) (\<lambda>s.
        Inr (Some (if fst v < 0 then -1 else p_pid (procs u ! i)), s))) = Inr (Some r, t)"
    using assms by (simp add: case_prod_beta)
  let ?q = "(procs u)[me := (procs u ! me)\<lparr>p_fault := False\<rparr>]"
  have c: "cur (snd v) = cur u" "procs (snd v) = procs u \<or> procs (snd v) = ?q"
    unfolding v_def copyout_def by (simp_all add: Let_def split: prod.splits)
  have q: "p_state (?q ! i) = ZOMBIE"
  proof (cases "i = me \<and> me < length (procs u)")
    case True
    then show ?thesis using iz by simp
  next
    case False
    then have "?q ! i = procs u ! i"
      by (cases "me < length (procs u)") (simp_all add: list_update_beyond)
    then show ?thesis using iz by simp
  qed
  have rq: "run_set ?q = run_set (procs u)" by (rule run_set_upd_same) simp
  have v: "run_set (procs (snd v)) = run_set (procs u)" "p_state (procs (snd v) ! i) = ZOMBIE"
    using c(2) q rq iz by metis+
  obtain w where w: "freeproc i (snd v) = Inr w" "release ProctableLk w = Inr t"
    using W by (auto simp: bnd_eq_Inr)
  obtain x where x: "kfree (p_kstack (procs (snd v) ! i)) (snd v) = Inr x" "w = upd_proc i (\<lambda>_. zero_proc) x"
    using w(1) by (auto simp: freeproc_def bnd_eq_Inr split: if_splits)
  note xT = kfree_table [OF x(1)]
  have "run_set (procs w) = run_set (procs x)"
    unfolding x(2) using v(2) xT by (simp add: run_set_upd_same zero_proc_def)
  then show ?thesis using release_table [OF w(2)] xT v(1) c(1) uT x(2) by simp
qed

text \<open>The operations after which the process has left its CPU.\<close>

lemma run_set_leaves:
  "i < length ps \<Longrightarrow> p_state p \<noteq> RUNNING \<Longrightarrow> run_set (ps[i := p]) = run_set ps - {i}"
  by (simp add: run_set_upd)

lemma yield_leaves:
  "yield_enter s = Inr t \<Longrightarrow> cur s = Some i \<Longrightarrow> i < length (procs s) \<Longrightarrow>
   run_set (procs t) = run_set (procs s) - {i}"
  by (auto simp: yield_enter_def myproc_def bnd_eq_Inr run_set_leaves dest!: acquire_table)

lemma sleep_leaves:
  assumes "sleep_enter ch lk s = Inr t" "cur s = Some i" "i < length (procs s)"
  shows "run_set (procs t) = run_set (procs s) - {i}"
proof -
  obtain u where u: "procs u = procs s" "t = upd_proc i (\<lambda>p. p\<lparr>p_chan := ch, p_state := SLEEPING\<rparr>) u"
    using assms(1,2)
    by (auto simp: sleep_enter_def myproc_def bnd_eq_Inr dest!: acquire_table release_table split: if_splits)
  then show ?thesis using assms(3) by (simp add: run_set_leaves)
qed

lemma wait_leaves:
  assumes "wait_round mmu addr sel status s = Inr (None, t)" "cur s = Some i" "i < length (procs s)"
  shows "run_set (procs t) = run_set (procs s) - {i}"
proof -
  obtain u where u: "acquire ProctableLk s = Inr u" "sleep_enter (Some (ChanProc i)) ProctableLk u = Inr t"
    using assms(1,2)
    by (auto simp: wait_round_def myproc_def bnd_eq_Inr Let_def split: option.splits prod.splits if_splits)
  then show ?thesis using acquire_table [OF u(1)] assms(2,3) sleep_leaves [OF u(2)] by simp
qed

lemma exit_leaves:
  assumes "exit_table i ret s = Inr t" "i < length (procs s)"
  shows "run_set (procs t) = run_set (procs s) - {i}"
proof -
  let ?s = "upd_proc i (\<lambda>p. p\<lparr>p_ret := ret\<rparr>) s"
  obtain u ch where u: "acquire ProctableLk ?s = Inr u"
      "t = upd_proc i (\<lambda>p. p\<lparr>p_state := ZOMBIE\<rparr>) (wakeup_acquired ch (reparent i u))"
    using assms(1) by (auto simp: exit_table_def bnd_eq_Inr Let_def)
  have "run_set (procs u) = run_set (procs s)" "length (procs u) = length (procs s)"
    using acquire_table [OF u(1)] by (simp_all add: run_set_upd_same)
  then show ?thesis unfolding u(2) using assms(2)
    by (simp add: run_set_leaves wakeup_running reparent_running)
qed


section \<open>The invariant\<close>

lemma kview_simps [simp]:
  "procs (kview g c) = procs (shared g)" "cur (kview g c) = on_cpu g c"
  by (simp_all add: kview_def on_cpu_def)

lemma kput_simps [simp]:
  "procs (shared (kput c ph s g)) = procs s" "on_cpu (kput c ph s g) = (on_cpu g)(c := cur s)"
  "c_phase (cpus (kput c ph s g) d) = (if d = c then ph else c_phase (cpus g d))"
  by (auto simp: kput_def on_cpu_def fun_eq_iff)

text \<open>A step that starts and stops nothing, one that starts a process, one that stops one.\<close>

lemma ok_keep:
  assumes "sched_ok g" "run_set (procs s) = run_set (procs (shared g))" "cur s = on_cpu g c"
    "ph = InProc \<longleftrightarrow> c_phase (cpus g c) = InProc"
  shows "sched_ok (kput c ph s g)"
proof -
  have "(on_cpu g)(c := cur s) = on_cpu g" using assms(3) by auto
  then show ?thesis using assms by (simp add: sched_ok_def)
qed

lemma ok_start:
  assumes "sched_ok g" "c_phase (cpus g c) \<noteq> InProc" "i \<notin> run_set (procs (shared g))"
    "run_set (procs s) = insert i (run_set (procs (shared g)))" "cur s = Some i"
  shows "sched_ok (kput c InProc s g)"
proof -
  have "placed (on_cpu g) (run_set (procs (shared g)))" "on_cpu g c = None"
    using assms(1,2) by (auto simp: sched_ok_def)
  from placed_run [OF this assms(3)] show ?thesis
    using assms by (auto simp: sched_ok_def)
qed

lemma ok_stop:
  assumes "sched_ok g" "on_cpu g c = Some i" "run_set (procs s) = run_set (procs (shared g)) - {i}"
    "ph \<noteq> InProc"
  shows "sched_ok (kput c ph (switch_back s) g)"
proof -
  have "placed (on_cpu g) (run_set (procs (shared g)))" using assms(1) by (simp add: sched_ok_def)
  from placed_stop [OF this assms(2)] show ?thesis
    using assms by (auto simp: sched_ok_def switch_back_def forget_userspace_def)
qed

lemma sched_ok_cur:
  assumes "sched_ok g" "c_phase (cpus g c) = InProc"
  obtains i where "on_cpu g c = Some i" "i < length (procs (shared g))"
proof -
  obtain i where i: "on_cpu g c = Some i" using assms by (auto simp: sched_ok_def)
  then have "i \<in> run_set (procs (shared g))" using assms(1) by (auto simp: sched_ok_def placed_def)
  then show thesis using that [OF i] by (simp add: run_set_def)
qed

lemma sched_step_ok:
  assumes "sched_step g h" "sched_ok g"
  shows "sched_ok h"
  using assms(1)
proof cases
  case (enter c s)
  then show ?thesis using acquire_table [of ProctableLk "(kview g c)\<lparr>irq_on := True\<rparr>" s] assms(2)
    by (auto simp: schedule_enter_def intro!: ok_keep)
next
  case (leave c s)
  then show ?thesis using release_table [of ProctableLk "kview g c" s] assms(2)
    by (auto simp: schedule_leave_def intro!: ok_keep)
next
  case (run c i s t)
  have s: "procs s = (procs (shared g))[i := (procs (shared g) ! i)\<lparr>p_state := RUNNING\<rparr>]" "cur s = Some i"
    using run(5) by (auto simp: dispatch_def load_userspace_def split: if_splits)
  have 1: "i \<notin> run_set (procs (shared g))" using run(4) by (simp add: run_set_def)
  have 2: "run_set (procs t) = insert i (run_set (procs (shared g)))"
    using release_table [OF run(6)] s(1) run(3) by (simp add: run_set_upd)
  have "c_phase (cpus g c) \<noteq> InProc" "cur t = Some i"
    using run(2) release_table [OF run(6)] s(2) by simp_all
  then show ?thesis unfolding run(1) by (intro ok_start [OF assms(2) _ 1 2])
next
  case (yield c s)
  obtain i where i: "on_cpu g c = Some i" "i < length (procs (shared g))"
    using sched_ok_cur [OF assms(2) yield(2)] .
  show ?thesis unfolding yield(1) using yield_leaves [OF yield(3), of i] i assms(2)
    by (auto intro!: ok_stop)
next
  case (sleep c lk ch s)
  obtain i where i: "on_cpu g c = Some i" "i < length (procs (shared g))"
    using sched_ok_cur [OF assms(2) sleep(2)] .
  show ?thesis unfolding sleep(1) using sleep_leaves [OF sleep(4), of i] i assms(2)
    by (auto intro!: ok_stop)
next
  case (wait_sleep c mmu addr sel status s)
  obtain i where i: "on_cpu g c = Some i" "i < length (procs (shared g))"
    using sched_ok_cur [OF assms(2) wait_sleep(2)] .
  show ?thesis unfolding wait_sleep(1) using wait_leaves [OF wait_sleep(3), of i] i assms(2)
    by (auto intro!: ok_stop)
next
  case (reap c mmu addr sel status r s)
  then show ?thesis using wait_round_keeps [OF reap(3)] assms(2) by (auto intro!: ok_keep)
next
  case (exit c i ret s)
  obtain j where j: "on_cpu g c = Some j" "j < length (procs (shared g))"
    using sched_ok_cur [OF assms(2) exit(2)] .
  have "j = i" using j(1) exit(3) by (simp add: on_cpu_def)
  then show ?thesis unfolding exit(1) using exit_leaves [OF exit(4)] j assms(2)
    by (auto intro!: ok_stop)
next
  case (wake ch c s)
  then show ?thesis using wakeup_keeps [OF wake(2)] assms(2) by (auto intro!: ok_keep)
next
  case (signal pid sig c r s)
  then show ?thesis using kill_keeps [OF signal(2)] assms(2) by (auto intro!: ok_keep)
next
  case (create c r s)
  then show ?thesis using newproc_keeps [OF create(3)] assms(2) by (auto intro!: ok_keep)
next
  case (start c i s par t)
  have s: "procs s = procs (shared g)" "cur s = on_cpu g c" using acquire_table [OF start(5)] by simp_all
  have t: "procs t = (procs (shared g))[i := (procs (shared g) ! i)\<lparr>p_state := RUNNABLE, p_parent := par\<rparr>]"
      "cur t = on_cpu g c"
    using release_table [OF start(6)] s by simp_all
  have "run_set (procs t) = run_set (procs (shared g))"
    unfolding t(1) by (rule run_set_upd_same) (simp add: start(4))
  then show ?thesis unfolding start(1) by (intro ok_keep [OF assms(2) _ t(2)]) (simp_all add: start(2))
qed

section \<open>Properties\<close>

text \<open>
  C10. However the CPUs interleave, every process that is \<open>RUNNING\<close> is current on exactly one CPU
  and every CPU's current process is \<open>RUNNING\<close>: no process ever runs on two CPUs, and none is
  lost in the state \<open>RUNNING\<close>.
\<close>

theorem one_cpu_per_process:
  assumes "sched_reach g h" "sched_ok g"
  shows "(\<forall>c i. on_cpu h c = Some i \<longrightarrow> i < length (procs (shared h)) \<and> p_state (procs (shared h) ! i) = RUNNING) \<and>
     (\<forall>c d i. on_cpu h c = Some i \<longrightarrow> on_cpu h d = Some i \<longrightarrow> c = d) \<and>
     (\<forall>i<length (procs (shared h)). p_state (procs (shared h) ! i) = RUNNING \<longrightarrow> (\<exists>!c. on_cpu h c = Some i))"
proof -
  have "sched_ok h" using assms by (induction rule: sched_reach.induct) (auto intro: sched_step_ok)
  then have "placed (on_cpu h) (run_set (procs (shared h)))" by (simp add: sched_ok_def)
  then show ?thesis unfolding placed_def run_set_def by blast
qed

section \<open>Witnesses\<close>

text \<open>Two processes ready to run on a machine with all CPUs idle.\<close>

definition two_ready :: smpk where
  "two_ready = \<lparr>shared = boot_kproc (replicate 2 (zero_proc\<lparr>p_state := RUNNABLE, p_pgt := 0xffffff8040100000\<rparr>)),
     cpus = (\<lambda>_. \<lparr>c_cur = None, c_depth = 0, c_intr = False, c_irq = True, c_phase = Idle\<rparr>)\<rparr>"

lemma two_ready_ok: "sched_ok two_ready"
  by (auto simp: sched_ok_def two_ready_def placed_def on_cpu_def run_set_def zero_proc_def)

lemma two_ready_enter:
  "\<exists>s. schedule_enter (kview two_ready 3) = Inr s \<and> procs s = procs (shared two_ready) \<and> holding ProctableLk s"
proof -
  have "lock_free ProctableLk ((kview two_ready 3)\<lparr>irq_on := True\<rparr>)"
    using boot_kproc_simps(5) [of ProctableLk] by (simp add: lock_free_def kview_def two_ready_def)
  then show ?thesis by (simp add: schedule_enter_def kview_def two_ready_def)
qed

theorem one_cpu_per_process_witness:
  "\<exists>h. sched_reach two_ready h \<and> h \<noteq> two_ready \<and>
     (\<forall>c d i. on_cpu h c = Some i \<longrightarrow> on_cpu h d = Some i \<longrightarrow> c = d)"
proof -
  obtain s where s: "schedule_enter (kview two_ready 3) = Inr s" using two_ready_enter by blast
  let ?h = "kput 3 InSched s two_ready"
  have idle: "c_phase (cpus two_ready 3) = Idle" by (simp add: two_ready_def)
  have "sched_step two_ready ?h" by (rule enter [where g = two_ready, OF idle s])
  then have r: "sched_reach two_ready ?h" by (rule sched_reach.step [OF sched_reach.refl])
  have "?h \<noteq> two_ready"
  proof
    assume "?h = two_ready"
    then have "c_phase (cpus ?h 3) = c_phase (cpus two_ready 3)" by simp
    then show False using idle by simp
  qed
  then show ?thesis using one_cpu_per_process [OF r two_ready_ok] r by blast
qed

end
