(* ===== verification/Umalloc.thy ===== *)
theory Umalloc
  imports Kstring
begin

text \<open>
  usr/malloc.c: the allocator of user programs. The free blocks form a ring in the program's own memory, in
  ascending order of address from the static header \<open>base\<close> on; sizes count units of 16 bytes, the header
  included. A \<open>union memhdr *\<close> is an address; the two loops run around the ring and are partial functions.
\<close>

unbundle bit_operations_syntax

section \<open>State and operations\<close>

text \<open>
  \<open>ubase\<close> is the address of \<open>base\<close>, \<open>ubrk\<close> the end of the heap (0x1000 plus the size the kernel keeps for the
  process), and \<open>ulimit\<close> the address up to which the kernel still has pages to give.
\<close>

record uheap =
  umem :: mem
  freep :: u64
  ubase :: u64
  ubrk :: u64
  ulimit :: u64

abbreviation MINALLOC :: u64 where "MINALLOC \<equiv> 512"
abbreviation HDR :: u64 where "HDR \<equiv> 16"               \<comment> \<open>\<open>sizeof(union memhdr)\<close>\<close>

definition hdr_ptr :: "mem \<Rightarrow> u64 \<Rightarrow> u64" where
  "hdr_ptr m p = ld64 m p"

definition hdr_size :: "mem \<Rightarrow> u64 \<Rightarrow> u64" where
  "hdr_size m p = ld64 m (p + 8)"

definition set_ptr :: "u64 \<Rightarrow> u64 \<Rightarrow> uheap \<Rightarrow> uheap" where
  "set_ptr p v s = s\<lparr>umem := st64 (umem s) p v\<rparr>"

definition set_size :: "u64 \<Rightarrow> u64 \<Rightarrow> uheap \<Rightarrow> uheap" where
  "set_size p v s = s\<lparr>umem := st64 (umem s) (p + 8) v\<rparr>"

text \<open>What a program sees of the system call: the kernel moves the end whether it had the pages or not.\<close>

definition usbrk :: "i32 \<Rightarrow> uheap \<Rightarrow> u64 \<times> uheap" where
  "usbrk incr s =
     (if 0 <s incr \<and> unat (ubrk s) + unat incr \<le> unat (ulimit s) then ubrk s else 0,
      s\<lparr>ubrk := ubrk s + scast incr\<rparr>)"

partial_function (option) find_slot :: "u64 \<Rightarrow> u64 \<Rightarrow> mem \<Rightarrow> u64 option" where
  "find_slot bp p m =
     (if p < bp \<and> bp < hdr_ptr m p then Some p
      else if hdr_ptr m p \<le> p \<and> (p < bp \<or> bp < hdr_ptr m p) then Some p
      else find_slot bp (hdr_ptr m p) m)"

definition join_next :: "u64 \<Rightarrow> u64 \<Rightarrow> uheap \<Rightarrow> uheap" where
  "join_next bp p s =
     (let nxt = hdr_ptr (umem s) p in
      if bp + HDR * hdr_size (umem s) bp = nxt then
        let s = set_size bp (hdr_size (umem s) bp + hdr_size (umem s) nxt) s
        in set_ptr bp (hdr_ptr (umem s) (hdr_ptr (umem s) p)) s
      else set_ptr bp nxt s)"

definition join_prev :: "u64 \<Rightarrow> u64 \<Rightarrow> uheap \<Rightarrow> uheap" where
  "join_prev bp p s =
     (if p + HDR * hdr_size (umem s) p = bp then
        let s = set_size p (hdr_size (umem s) p + hdr_size (umem s) bp) s
        in set_ptr p (hdr_ptr (umem s) bp) s
      else set_ptr p bp s)"

definition ufree :: "u64 \<Rightarrow> uheap \<Rightarrow> uheap option" where
  "ufree ptr s =
     (if ptr = 0 then Some s
      else let bp = ptr - HDR in
        case find_slot bp (freep s) (umem s) of None \<Rightarrow> None
        | Some p \<Rightarrow> Some ((join_prev bp p (join_next bp p s))\<lparr>freep := p\<rparr>))"

definition morecore :: "u64 \<Rightarrow> uheap \<Rightarrow> (u64 \<times> uheap) option" where
  "morecore nunits s =
     (let nunits = (if nunits < MINALLOC then MINALLOC else nunits);
          (p, s) = usbrk (ucast (HDR * nunits)) s in
      if p = 0 then Some (0, s)
      else case ufree (p + HDR) (set_size p nunits s) of None \<Rightarrow> None | Some s \<Rightarrow> Some (freep s, s))"

text \<open>The block \<open>p\<close>, which is big enough, is taken whole or gives its tail.\<close>

definition carve :: "u64 \<Rightarrow> u64 \<Rightarrow> u64 \<Rightarrow> uheap \<Rightarrow> u64 \<times> uheap" where
  "carve nunits prev p s =
     (if hdr_size (umem s) p = nunits then
        (p + HDR, (set_ptr prev (hdr_ptr (umem s) p) s)\<lparr>freep := prev\<rparr>)
      else
        let rest = hdr_size (umem s) p - nunits;
            s = set_size p rest s;
            p = p + HDR * rest;
            s = set_size p nunits s
        in (p + HDR, s\<lparr>freep := prev\<rparr>))"

partial_function (option) malloc_loop :: "u64 \<Rightarrow> u64 \<Rightarrow> u64 \<Rightarrow> uheap \<Rightarrow> (u64 \<times> uheap) option" where
  "malloc_loop nunits prev p s =
     (if nunits \<le> hdr_size (umem s) p then Some (carve nunits prev p s)
      else if p = freep s then
        (case morecore nunits s of None \<Rightarrow> None
         | Some (q, s) \<Rightarrow> if q = 0 then Some (0, s) else malloc_loop nunits q (hdr_ptr (umem s) q) s)
      else malloc_loop nunits p (hdr_ptr (umem s) p) s)"

definition units_for :: "u64 \<Rightarrow> u64" where
  "units_for nbytes = (nbytes + HDR - 1) div HDR + 1"

definition heap_start :: "uheap \<Rightarrow> uheap" where
  "heap_start s =
     (if freep s = 0 then set_size (ubase s) 0 (set_ptr (ubase s) (ubase s) (s\<lparr>freep := ubase s\<rparr>)) else s)"

definition malloc :: "u64 \<Rightarrow> uheap \<Rightarrow> (u64 \<times> uheap) option" where
  "malloc nbytes s =
     (if nbytes = 0 then Some (0, s)
      else let s = heap_start s in
        malloc_loop (units_for nbytes) (freep s) (hdr_ptr (umem s) (freep s)) s)"

section \<open>Doublewords at any address\<close>

text \<open>The heap need not be aligned, so disjointness is that of address ranges.\<close>

lemma unat_byte:
  fixes a :: u64
  assumes "unat a + k \<le> 2 ^ 64" "i < k"
  shows "unat (a + of_nat i) = unat a + i"
proof -
  have "i < 2 ^ 64" "unat a + i < 2 ^ 64" using assms by simp_all
  then show ?thesis using unat_add_lem [of a "of_nat i"] by (simp add: unat_of_nat_small)
qed

lemma unat64: "unat (w :: u64) < 2 ^ 64"
  using unsigned_less [of w] by simp

lemma unat_off: "unat (x - a) < k \<Longrightarrow> unat a + k \<le> 2 ^ 64 \<Longrightarrow> unat x = unat a + unat (x - a)" for x a :: u64
  using unat_byte [of a k "unat (x - a)"] by simp

lemma st64_out: "unat a + 8 \<le> 2 ^ 64 \<Longrightarrow> unat x < unat a \<or> unat a + 8 \<le> unat x \<Longrightarrow> st64 m a w x = m x"
  using unat_off [of x a 8] by (auto simp: st64_def)

lemma ld64_sep:
  assumes "unat a + 8 \<le> 2 ^ 64" "\<And>x. unat a \<le> unat x \<Longrightarrow> unat x < unat a + 8 \<Longrightarrow> m' x = m x"
  shows "ld64 m' a = ld64 m a"
  unfolding ld64_def using unat_byte [OF assms(1)] by (intro get_le_cong assms(2)) simp_all

lemma ld64_st64_sep:
  assumes "unat a + 8 \<le> 2 ^ 64" "unat b + 8 \<le> 2 ^ 64" "unat a + 8 \<le> unat b \<or> unat b + 8 \<le> unat a"
  shows "ld64 (st64 m a w) b = ld64 m b"
  using assms by (intro ld64_sep st64_out) auto

section \<open>Blocks and the ring\<close>

type_synonym block = "u64 \<times> nat"

definition room :: "nat \<Rightarrow> nat" where
  "room n = 16 * max 1 n"

definition finish :: "block \<Rightarrow> nat" where
  "finish b = unat (fst b) + room (snd b)"

definition bytes :: "block \<Rightarrow> nat set" where
  "bytes b = {unat (fst b) ..< finish b}"

definition span :: "block list \<Rightarrow> nat set" where
  "span bs = (\<Union>b\<in>set bs. bytes b)"

fun first :: "block list \<Rightarrow> u64 \<Rightarrow> u64" where
  "first [] e = e"
| "first (b # bs) e = fst b"

text \<open>\<open>links m bs e\<close>: the headers of \<open>bs\<close> hold their sizes and lead from one to the next and then to \<open>e\<close>.\<close>

fun links :: "mem \<Rightarrow> block list \<Rightarrow> u64 \<Rightarrow> bool" where
  "links m [] e \<longleftrightarrow> True"
| "links m (b # bs) e \<longleftrightarrow> hdr_ptr m (fst b) = first bs e \<and> unat (hdr_size m (fst b)) = snd b \<and> links m bs e"

lemma first_append: "first (xs @ ys) e = first xs (first ys e)"
  by (cases xs) simp_all

lemma links_append: "links m (xs @ ys) e \<longleftrightarrow> links m xs (first ys e) \<and> links m ys e"
  by (induction xs) (auto simp: first_append)

definition ordered :: "block list \<Rightarrow> bool" where
  "ordered bs \<longleftrightarrow> sorted_wrt (\<lambda>a b. finish a \<le> unat (fst b)) bs"

definition below :: "nat \<Rightarrow> block list \<Rightarrow> bool" where
  "below e bs \<longleftrightarrow> (\<forall>b\<in>set bs. finish b \<le> e)"

lemma ordered_simps [simp]:
  "ordered []" "ordered (b # bs) \<longleftrightarrow> (\<forall>c\<in>set bs. finish b \<le> unat (fst c)) \<and> ordered bs"
  by (auto simp: ordered_def)

lemma ordered_append:
  "ordered (xs @ ys) \<longleftrightarrow> ordered xs \<and> ordered ys \<and> (\<forall>x\<in>set xs. \<forall>y\<in>set ys. finish x \<le> unat (fst y))"
  by (auto simp: ordered_def sorted_wrt_append)

lemma span_simps [simp]:
  "span [] = {}" "span (b # bs) = bytes b \<union> span bs" "span (xs @ ys) = span xs \<union> span ys"
  by (auto simp: span_def)

lemma room_ge: "16 \<le> room n" "16 * n \<le> room n" "0 < n \<Longrightarrow> room n = 16 * n"
  by (simp_all add: room_def)

lemma finish_gt: "unat (fst b) + 16 \<le> finish b"
  using room_ge(1) [of "snd b"] by (simp add: finish_def)

text \<open>A header lies inside its block, so writes elsewhere leave it alone.\<close>

lemma hdr_cong:
  assumes "finish b \<le> 2 ^ 64" "\<And>x. unat x \<in> bytes b \<Longrightarrow> m' x = m x"
  shows "hdr_ptr m' (fst b) = hdr_ptr m (fst b)" "hdr_size m' (fst b) = hdr_size m (fst b)"
proof -
  have f: "unat (fst b) + 16 \<le> 2 ^ 64" "unat (fst b) + 16 \<le> finish b" using finish_gt [of b] assms(1) by simp_all
  then have 8: "unat (fst b + 8) = unat (fst b) + 8" using unat_byte [of "fst b" 16 8] by simp
  show "hdr_ptr m' (fst b) = hdr_ptr m (fst b)"
    unfolding hdr_ptr_def using f by (intro ld64_sep assms(2)) (simp_all add: bytes_def)
  show "hdr_size m' (fst b) = hdr_size m (fst b)"
    unfolding hdr_size_def using f 8 by (intro ld64_sep assms(2)) (simp_all add: bytes_def)
qed

lemma links_cong:
  assumes "links m bs e" "below (2 ^ 64) bs" "\<And>x. unat x \<in> span bs \<Longrightarrow> m' x = m x"
  shows "links m' bs e"
  using assms
proof (induction bs)
  case (Cons b bs)
  have "finish b \<le> 2 ^ 64" "\<And>x. unat x \<in> bytes b \<Longrightarrow> m' x = m x" using Cons.prems by (auto simp: below_def)
  note h = hdr_cong [OF this]
  have "links m' bs e" using Cons by (auto simp: below_def)
  with h Cons.prems(1) show ?case by simp
qed simp

text \<open>The two writes to a header: what they read back, and what they leave.\<close>

lemma hdr_writes:
  assumes "unat p + 16 \<le> 2 ^ 64"
  shows "hdr_ptr (st64 m p v) p = v" "hdr_size (st64 m p v) p = hdr_size m p"
    "hdr_ptr (st64 m (p + 8) v) p = hdr_ptr m p" "hdr_size (st64 m (p + 8) v) p = v"
    "unat x < unat p \<or> unat p + 16 \<le> unat x \<Longrightarrow> st64 m p v x = m x"
    "unat x < unat p \<or> unat p + 16 \<le> unat x \<Longrightarrow> st64 m (p + 8) v x = m x"
proof -
  have 8: "unat (p + 8) = unat p + 8" using unat_byte [OF assms, of 8] by simp
  show "hdr_size (st64 m p v) p = hdr_size m p" "hdr_ptr (st64 m (p + 8) v) p = hdr_ptr m p"
    unfolding hdr_size_def hdr_ptr_def using assms 8 by (auto intro!: ld64_st64_sep)
  show "unat x < unat p \<or> unat p + 16 \<le> unat x \<Longrightarrow> st64 m p v x = m x"
    "unat x < unat p \<or> unat p + 16 \<le> unat x \<Longrightarrow> st64 m (p + 8) v x = m x"
    using assms 8 by (auto intro!: st64_out)
qed (simp_all add: hdr_ptr_def hdr_size_def)

section \<open>Finding the place of a block\<close>

lemma find_up:
  assumes "links m (b # ys) e" "ordered (b # ys)" "fst b < bp" "bp \<notin> fst ` set ys" "e \<le> fst b"
  shows "find_slot bp (fst b) m = Some (fst (last (b # takeWhile (\<lambda>c. fst c < bp) ys)))"
  using assms
proof (induction ys arbitrary: b)
  case Nil
  then show ?case by (simp add: find_slot.simps [of bp "fst b"])
next
  case (Cons c ys)
  have lt: "fst b < fst c" using Cons.prems(2) finish_gt [of b] by (simp add: word_less_nat_alt)
  show ?case
  proof (cases "fst c < bp")
    case True
    have "find_slot bp (fst b) m = find_slot bp (fst c) m"
      using Cons.prems(1) True lt by (auto simp: find_slot.simps [of bp "fst b"])
    then show ?thesis using Cons.IH [of c] Cons.prems True lt by simp
  next
    case False
    then have "bp < fst c" using Cons.prems(4) less_linear [of "fst c" bp] by auto
    then show ?thesis using Cons.prems(1,3) by (auto simp: find_slot.simps [of bp "fst b"])
  qed
qed

lemma find_wrap:
  assumes "links m (b # ys) e" "ordered (b # ys)" "\<forall>c\<in>set (b # ys). bp < fst c" "e < bp"
  shows "find_slot bp (fst b) m = find_slot bp e m"
  using assms
proof (induction ys arbitrary: b)
  case Nil
  then show ?case by (auto simp: find_slot.simps [of bp "fst b"])
next
  case (Cons c ys)
  have "fst b < fst c" using Cons.prems(2) finish_gt [of b] by (simp add: word_less_nat_alt)
  then have "find_slot bp (fst b) m = find_slot bp (fst c) m"
    using Cons.prems(1,3) by (auto simp: find_slot.simps [of bp "fst b"])
  then show ?case using Cons.IH [of c] Cons.prems by simp
qed

lemma takeWhile_upto:
  assumes "ordered (xs @ b # ys)" "fst b < bp"
  shows "takeWhile (\<lambda>c. fst c < bp) (xs @ b # ys) = xs @ b # takeWhile (\<lambda>c. fst c < bp) ys"
proof -
  have "fst x < bp" if "x \<in> set xs" for x
    using that assms finish_gt [of x] by (auto simp: ordered_append word_less_nat_alt)
  then show ?thesis using assms(2) by (subst takeWhile_append2) auto
qed

text \<open>From any header of the ring the search ends at the last one below the block.\<close>

lemma find_slot_spec:
  assumes l: "links m (base # bs) (fst base)" "ordered (base # bs)" and b: "b \<in> set (base # bs)"
    and bp: "fst base < bp" "bp \<notin> fst ` set bs"
  shows "find_slot bp (fst b) m = Some (fst (last (base # takeWhile (\<lambda>c. fst c < bp) bs)))"
proof -
  obtain xs ys where xy: "base # bs = xs @ b # ys" using split_list [OF b] by blast
  have l': "links m (b # ys) (fst base)" "ordered (b # ys)"
    using l unfolding xy by (simp_all add: links_append ordered_append)
  have le: "fst base \<le> fst b"
    using l(2) b finish_gt [of base] by (auto simp: word_le_nat_alt)
  have "bp \<notin> fst ` set ys" using bp xy by (cases xs) auto
  show ?thesis
  proof (cases "fst b < bp")
    case True
    have "last (base # takeWhile (\<lambda>c. fst c < bp) bs) = last (takeWhile (\<lambda>c. fst c < bp) (base # bs))"
      using bp(1) by simp
    also have "\<dots> = last (b # takeWhile (\<lambda>c. fst c < bp) ys)"
      using takeWhile_upto [of xs b ys bp] l(2) True by (simp add: xy)
    finally show ?thesis using find_up [OF l' True \<open>bp \<notin> fst ` set ys\<close> le] by simp
  next
    case False
    have "fst b \<noteq> bp" using bp b by auto
    then have lt: "unat bp < unat (fst b)" using False less_linear [of "fst b" bp] by (simp add: word_less_nat_alt)
    have "bp < fst c" if "c \<in> set (b # ys)" for c
      using that l'(2) lt finish_gt [of b] by (auto simp: word_less_nat_alt)
    then have "find_slot bp (fst b) m = find_slot bp (fst base) m" using find_wrap [OF l'] bp(1) by blast
    then show ?thesis using find_up [OF l bp order_refl] by simp
  qed
qed

section \<open>Joining neighbours\<close>

text \<open>What a block and the blocks behind it become once it is linked in: one block less if they touch.\<close>

fun absorb :: "block \<Rightarrow> block list \<Rightarrow> block list" where
  "absorb b [] = [b]"
| "absorb b (c # cs) =
     (if unat (fst b) + 16 * snd b = unat (fst c) then (fst b, snd b + snd c) # cs else b # c # cs)"

definition attach :: "u64 \<Rightarrow> u64 \<Rightarrow> uheap \<Rightarrow> uheap" where
  "attach b nxt s =
     (if b + HDR * hdr_size (umem s) b = nxt
      then set_ptr b (hdr_ptr (umem s) nxt) (set_size b (hdr_size (umem s) b + hdr_size (umem s) nxt) s)
      else set_ptr b nxt s)"

lemma unat_end:
  assumes "unat w = n" "unat a + 16 * n < 2 ^ 64"
  shows "unat (a + HDR * w) = unat a + 16 * n"
proof -
  have "unat (HDR * w) = 16 * n" using assms unat_mult_lem [of HDR w] by simp
  then show ?thesis using assms unat_add_lem [of a "HDR * w"] by simp
qed

lemma set_simps [simp]:
  "umem (set_ptr p v s) = st64 (umem s) p v" "umem (set_size p v s) = st64 (umem s) (p + 8) v"
  "freep (set_ptr p v s) = freep s" "freep (set_size p v s) = freep s"
  "ubase (set_ptr p v s) = ubase s" "ubase (set_size p v s) = ubase s"
  "ubrk (set_ptr p v s) = ubrk s" "ubrk (set_size p v s) = ubrk s"
  "ulimit (set_ptr p v s) = ulimit s" "ulimit (set_size p v s) = ulimit s"
  by (simp_all add: set_ptr_def set_size_def)

lemma attach_spec:
  assumes l: "links (umem s) cs e" "unat (hdr_size (umem s) (fst b)) = snd b" and o: "ordered (b # cs)"
    and lim: "below lim (b # cs)" "lim < 2 ^ 64" and e: "cs \<noteq> [] \<or> e < fst b \<and> 0 < snd b"
    and pos: "\<forall>c\<in>set cs. 0 < snd c" and t: "t = attach (fst b) (first cs e) s"
  shows "links (umem t) (absorb b cs) e"
    "\<And>x. unat x < unat (fst b) \<or> unat (fst b) + 16 \<le> unat x \<Longrightarrow> umem t x = umem s x"
    "freep t = freep s" "ubase t = ubase s" "ubrk t = ubrk s" "ulimit t = ulimit s"
proof -
  have fb: "finish b \<le> lim" and fc: "\<And>c. c \<in> set cs \<Longrightarrow> finish c \<le> lim" using lim(1) by (auto simp: below_def)
  have p: "unat (fst b) + 16 \<le> 2 ^ 64" using finish_gt [of b] fb lim(2) by simp
  note W = hdr_writes [OF p]
  show out: "umem t x = umem s x" if "unat x < unat (fst b) \<or> unat (fst b) + 16 \<le> unat x" for x
    unfolding t attach_def using W(5,6) [OF that] by (simp add: Let_def)
  show "freep t = freep s" "ubase t = ubase s" "ubrk t = ubrk s" "ulimit t = ulimit s"
    unfolding t attach_def by (simp_all add: Let_def)
  have "unat (fst b) + 16 * snd b \<le> finish b" using room_ge(2) [of "snd b"] by (simp add: finish_def)
  then have ub: "unat (fst b + HDR * hdr_size (umem s) (fst b)) = unat (fst b) + 16 * snd b"
    using l(2) fb lim(2) by (intro unat_end) simp_all
  have lt: "links (umem t) cs' e" if "links (umem s) cs' e" "set cs' \<subseteq> set cs" for cs'
  proof (rule links_cong [OF that(1)])
    show "below (2 ^ 64) cs'" using that(2) lim by (force simp: below_def)
    show "umem t x = umem s x" if "unat x \<in> span cs'" for x
      using that o \<open>set cs' \<subseteq> set cs\<close> finish_gt [of b] by (intro out) (force simp: span_def bytes_def)
  qed
  show "links (umem t) (absorb b cs) e"
  proof (cases cs)
    case Nil
    have "fst b + HDR * hdr_size (umem s) (fst b) \<noteq> e"
      using e ub Nil by (auto simp: word_less_nat_alt)
    then show ?thesis using Nil W(1,2) l(2) by (simp add: t attach_def)
  next
    case (Cons c cs')
    have c: "hdr_ptr (umem s) (fst c) = first cs' e" "unat (hdr_size (umem s) (fst c)) = snd c" "links (umem s) cs' e"
      using l(1) Cons by simp_all
    have eq: "fst b + HDR * hdr_size (umem s) (fst b) = fst c \<longleftrightarrow> unat (fst b) + 16 * snd b = unat (fst c)"
      unfolding word_unat_eq_iff ub ..
    show ?thesis
    proof (cases "unat (fst b) + 16 * snd b = unat (fst c)")
      case True
      have "unat (fst c) + 16 * snd c < 2 ^ 64"
        using fc [of c] Cons lim(2) room_ge(2) [of "snd c"] by (simp add: finish_def)
      then have "unat (hdr_size (umem s) (fst b)) + unat (hdr_size (umem s) (fst c)) < 2 ^ 64"
        using l(2) c(2) True by simp
      then have "unat (hdr_size (umem s) (fst b) + hdr_size (umem s) (fst c)) = snd b + snd c"
        using l(2) c(2) unat_add_lem [of "hdr_size (umem s) (fst b)" "hdr_size (umem s) (fst c)"] by simp
      moreover have "links (umem t) cs' e" using lt [OF c(3)] Cons by auto
      ultimately show ?thesis using True eq Cons W(1-4) c(1) by (simp add: t attach_def)
    next
      case False
      have "links (umem t) cs e" using lt [OF l(1)] by simp
      then show ?thesis using False eq Cons W(1,2) l(2) by (simp add: t attach_def)
    qed
  qed
qed

lemma absorb_ne [simp]: "absorb b cs \<noteq> []" and first_absorb [simp]: "first (absorb b cs) e = fst b"
  by (cases cs; simp)+

lemma merged_block:
  assumes "unat (fst b) + 16 * snd b = unat (fst c)" "finish b \<le> unat (fst c)" "0 < snd c"
  shows "finish (fst b, snd b + snd c) = finish c" "bytes (fst b, snd b + snd c) = bytes b \<union> bytes c" "0 < snd b"
proof -
  show b: "0 < snd b" using assms(1,2) finish_gt [of b] by (cases "snd b") auto
  have f: "finish b = unat (fst c)" using assms(1) b by (simp add: finish_def room_ge(3))
  show g: "finish (fst b, snd b + snd c) = finish c" using assms(1,3) b by (simp add: finish_def room_ge(3))
  show "bytes (fst b, snd b + snd c) = bytes b \<union> bytes c"
    unfolding bytes_def g f using finish_gt [of b] finish_gt [of c] f by auto
qed

lemma absorb_ok:
  assumes "ordered (b # cs)" "\<forall>c\<in>set cs. 0 < snd c"
  shows "ordered (absorb b cs)" "below lim (b # cs) \<Longrightarrow> below lim (absorb b cs)"
    "span (absorb b cs) = bytes b \<union> span cs" "\<forall>c\<in>set (tl (absorb b cs)). 0 < snd c"
    "0 < snd b \<Longrightarrow> \<forall>c\<in>set (absorb b cs). 0 < snd c" "snd b = 0 \<Longrightarrow> absorb b cs = b # cs"
    "snd b \<le> snd (hd (absorb b cs))"
proof -
  have *: "ordered (absorb b cs) \<and> (below lim (b # cs) \<longrightarrow> below lim (absorb b cs)) \<and>
      span (absorb b cs) = bytes b \<union> span cs \<and> (\<forall>c\<in>set (tl (absorb b cs)). 0 < snd c) \<and>
      (0 < snd b \<longrightarrow> (\<forall>c\<in>set (absorb b cs). 0 < snd c)) \<and> (snd b = 0 \<longrightarrow> absorb b cs = b # cs) \<and>
      snd b \<le> snd (hd (absorb b cs))"
  proof (cases "cs \<noteq> [] \<and> unat (fst b) + 16 * snd b = unat (fst (hd cs))")
    case True
    then obtain c cs' where c: "cs = c # cs'" by (cases cs) auto
    note m = merged_block [of b c]
    have "finish (fst b, snd b + snd c) = finish c" "bytes (fst b, snd b + snd c) = bytes b \<union> bytes c" "0 < snd b"
      using m True assms c by simp_all
    then show ?thesis using assms True c by (auto simp: below_def)
  next
    case False
    then have "absorb b cs = b # cs" by (cases cs) auto
    then show ?thesis using assms by auto
  qed
  then show "ordered (absorb b cs)" "below lim (b # cs) \<Longrightarrow> below lim (absorb b cs)"
    "span (absorb b cs) = bytes b \<union> span cs" "\<forall>c\<in>set (tl (absorb b cs)). 0 < snd c"
    "0 < snd b \<Longrightarrow> \<forall>c\<in>set (absorb b cs). 0 < snd c" "snd b = 0 \<Longrightarrow> absorb b cs = b # cs"
    "snd b \<le> snd (hd (absorb b cs))" by blast+
qed

lemma absorb_elems:
  "fst ` set (absorb b cs) \<subseteq> insert (fst b) (fst ` set cs)"
  "n \<le> snd c \<Longrightarrow> c \<in> set (b # cs) \<Longrightarrow> \<exists>d\<in>set (absorb b cs). n \<le> snd d"
proof -
  show "fst ` set (absorb b cs) \<subseteq> insert (fst b) (fst ` set cs)" by (cases cs) auto
  show "\<exists>d\<in>set (absorb b cs). n \<le> snd d" if "n \<le> snd c" "c \<in> set (b # cs)" using that by (cases cs) auto
qed

section \<open>The arena\<close>

definition arena :: "uheap \<Rightarrow> block list \<Rightarrow> bool" where
  "arena s bs \<longleftrightarrow> bs \<noteq> [] \<and> hd bs = (ubase s, 0) \<and> ubase s \<noteq> 0 \<and> links (umem s) bs (ubase s) \<and> ordered bs \<and>
     below (unat (ubrk s)) bs \<and> (\<forall>c\<in>set (tl bs). 0 < snd c) \<and> freep s \<in> fst ` set bs"

text \<open>Two headers that do not overlap.\<close>

definition apart :: "u64 \<Rightarrow> u64 \<Rightarrow> bool" where
  "apart p q \<longleftrightarrow> unat p + 16 \<le> unat q \<and> unat q + 16 \<le> 2 ^ 64 \<or> unat q + 16 \<le> unat p \<and> unat p + 16 \<le> 2 ^ 64"

lemma hdr_apart:
  assumes "apart p q"
  shows "hdr_ptr (st64 m p v) q = hdr_ptr m q" "hdr_size (st64 m p v) q = hdr_size m q"
    "hdr_ptr (st64 m (p + 8) v) q = hdr_ptr m q" "hdr_size (st64 m (p + 8) v) q = hdr_size m q"
proof -
  have pq: "unat p + 16 \<le> 2 ^ 64" "unat q + 16 \<le> 2 ^ 64" using assms by (auto simp: apart_def)
  then have "unat (p + 8) = unat p + 8" "unat (q + 8) = unat q + 8"
    using unat_byte [of p 16 8] unat_byte [of q 16 8] by simp_all
  then show "hdr_ptr (st64 m p v) q = hdr_ptr m q" "hdr_size (st64 m p v) q = hdr_size m q"
    "hdr_ptr (st64 m (p + 8) v) q = hdr_ptr m q" "hdr_size (st64 m (p + 8) v) q = hdr_size m q"
    unfolding hdr_ptr_def hdr_size_def using assms pq by (auto simp: apart_def intro!: ld64_st64_sep)
qed

lemma join_attach:
  "apart bp p \<Longrightarrow> apart bp (hdr_ptr (umem s) p) \<Longrightarrow> join_next bp p s = attach bp (hdr_ptr (umem s) p) s"
  "apart p bp \<Longrightarrow> join_prev bp p s = attach p bp s"
  by (simp_all add: join_next_def join_prev_def attach_def Let_def hdr_apart)

lemma ordered_apart:
  "finish a \<le> unat (fst b) \<Longrightarrow> finish b \<le> 2 ^ 64 \<Longrightarrow> apart (fst a) (fst b) \<and> apart (fst b) (fst a)"
  using finish_gt [of a] finish_gt [of b] by (auto simp: apart_def)

lemma links_off_header:
  fixes p :: u64
  assumes "links m us e" "below (unat p) us" "\<And>x. unat x < unat p \<or> unat p + 16 \<le> unat x \<Longrightarrow> m' x = m x"
  shows "links m' us e"
proof (rule links_cong [OF assms(1)])
  have "unat p < 2 ^ 64" using unsigned_less [of p] by simp
  then show "below (2 ^ 64) us" using assms(2) by (force simp: below_def)
  show "m' x = m x" if "unat x \<in> span us" for x
    using that assms(2) by (intro assms(3)) (force simp: span_def bytes_def below_def)
qed

lemma intervals_apart:
  fixes a b c d :: nat
  assumes "{a..<b} \<inter> {c..<d} = {}" "a < b" "c < d"
  shows "a < c \<or> d \<le> a" "c < a \<or> b \<le> c"
proof -
  have "a \<in> {a..<b}" "c \<in> {c..<d}" using assms(2,3) by simp_all
  then have "a \<notin> {c..<d}" "c \<notin> {a..<b}" using assms(1) by blast+
  then show "a < c \<or> d \<le> a" "c < a \<or> b \<le> c" by auto
qed

lemma arena_split:
  assumes a: "arena s bs" and b: "ubase s < bp" "finish (bp, n) \<le> unat (ubrk s)" "bytes (bp, n) \<inter> span bs = {}"
  obtains us p hi where "bs = us @ p # hi" "find_slot bp (freep s) (umem s) = Some (fst p)"
    "finish p \<le> unat bp" "\<forall>c\<in>set hi. finish (bp, n) \<le> unat (fst c)"
proof -
  obtain bs1 where bs: "bs = (ubase s, 0) # bs1" using a by (cases bs) (auto simp: arena_def)
  have out: "unat bp < unat (fst c) \<or> finish c \<le> unat bp" "unat (fst c) < unat bp \<or> finish (bp, n) \<le> unat (fst c)"
    if "c \<in> set bs" for c
  proof -
    have "bytes (bp, n) \<inter> bytes c = {}" using b(3) that by (auto simp: span_def)
    then show "unat bp < unat (fst c) \<or> finish c \<le> unat bp" "unat (fst c) < unat bp \<or> finish (bp, n) \<le> unat (fst c)"
      using intervals_apart [of "unat bp" "finish (bp, n)" "unat (fst c)" "finish c"] finish_gt [of c] finish_gt [of "(bp, n)"]
      by (simp_all add: bytes_def)
  qed
  define lo where "lo = takeWhile (\<lambda>c. fst c < bp) bs1"
  define hi where "hi = dropWhile (\<lambda>c. fst c < bp) bs1"
  define p where "p = last ((ubase s, 0) # lo)"
  define us where "us = butlast ((ubase s, 0) # lo)"
  have bs': "bs = us @ p # hi"
  proof -
    have "us @ [p] = (ubase s, 0) # lo" unfolding us_def p_def by (rule append_butlast_last_id) simp
    then have "bs = (us @ [p]) @ hi" by (simp add: bs lo_def hi_def)
    then show ?thesis by simp
  qed
  have "fst p < bp"
  proof -
    have "p \<in> set ((ubase s, 0) # lo)" unfolding p_def by (rule last_in_set) simp
    then show ?thesis using b(1) set_takeWhileD [of p "\<lambda>c. fst c < bp" bs1] by (auto simp: lo_def)
  qed
  then have 1: "finish p \<le> unat bp" using out(1) [of p] by (simp add: bs' word_less_nat_alt)
  have o: "ordered bs" using a by (simp add: arena_def)
  have 2: "finish (bp, n) \<le> unat (fst c)" if "c \<in> set hi" for c
  proof -
    have "\<not> fst c < bp"
    proof
      assume c: "fst c < bp"
      have "hi \<noteq> []" using that by auto
      then have "\<not> fst (hd hi) < bp" unfolding hi_def by (rule hd_dropWhile)
      moreover have "unat (fst (hd hi)) \<le> unat (fst c)"
        using that o finish_gt [of "hd hi"] \<open>hi \<noteq> []\<close> unfolding bs' by (cases hi) (auto simp: ordered_append)
      ultimately show False using c by (simp add: word_less_nat_alt)
    qed
    then show ?thesis using out(2) [of c] that by (auto simp: bs' word_less_nat_alt)
  qed
  obtain c where c: "c \<in> set bs" "freep s = fst c" using a by (auto simp: arena_def)
  have "find_slot bp (fst c) (umem s) = Some (fst (last ((ubase s, 0) # takeWhile (\<lambda>c. fst c < bp) bs1)))"
  proof (rule find_slot_spec)
    show "links (umem s) ((ubase s, 0) # bs1) (fst (ubase s, 0))" "ordered ((ubase s, 0) # bs1)"
      "c \<in> set ((ubase s, 0) # bs1)" "fst (ubase s, 0) < bp"
      using a b(1) c(1) by (simp_all add: arena_def bs [symmetric] del: links.simps ordered_simps)
    show "bp \<notin> fst ` set bs1"
    proof
      assume "bp \<in> fst ` set bs1"
      then obtain d where d: "d \<in> set bs" "bp = fst d" by (auto simp: bs)
      then show False using out(1) [OF d(1)] finish_gt [of d] by simp
    qed
  qed
  then have "find_slot bp (freep s) (umem s) = Some (fst p)" unfolding c(2) p_def lo_def .
  then show thesis using that [OF bs' _ 1] 2 by blast
qed

text \<open>The frame of an operation: the bytes outside \<open>R\<close> and the bounds of the heap are the same.\<close>

definition touches :: "nat set \<Rightarrow> uheap \<Rightarrow> uheap \<Rightarrow> bool" where
  "touches R s t \<longleftrightarrow> (\<forall>x. unat x \<notin> R \<longrightarrow> umem t x = umem s x) \<and> ubase t = ubase s \<and> ulimit t = ulimit s"

lemma ufree_spec:
  assumes a: "arena s bs" and b: "ubase s < bp" "finish (bp, n) \<le> unat (ubrk s)" "bytes (bp, n) \<inter> span bs = {}"
    and n: "0 < n" "unat (hdr_size (umem s) bp) = n"
  shows "\<exists>t bs'. ufree (bp + HDR) s = Some t \<and> arena t bs' \<and> span bs' = span bs \<union> bytes (bp, n) \<and>
     touches (span bs \<union> bytes (bp, n)) s t \<and> ubrk t = ubrk s \<and> (\<exists>c\<in>set bs'. n \<le> snd c)"
proof -
  obtain us p hi where sp: "bs = us @ p # hi" "find_slot bp (freep s) (umem s) = Some (fst p)"
      "finish p \<le> unat bp" "\<forall>c\<in>set hi. finish (bp, n) \<le> unat (fst c)"
    using arena_split [OF a b] by blast
  let ?B = "(bp, n)" and ?e = "ubase s"
  have A: "hd bs = (?e, 0)" "links (umem s) bs ?e" "ordered bs" "below (unat (ubrk s)) bs" "\<forall>c\<in>set (tl bs). 0 < snd c" "?e \<noteq> 0"
    using a by (simp_all add: arena_def)
  have brk: "unat (ubrk s) < 2 ^ 64" using unsigned_less [of "ubrk s"] by simp
  have L: "links (umem s) us (fst p)" "links (umem s) hi ?e" "hdr_ptr (umem s) (fst p) = first hi ?e"
      "unat (hdr_size (umem s) (fst p)) = snd p"
    using A(2) by (simp_all add: sp(1) links_append)
  have O: "ordered us" "ordered hi" "\<forall>u\<in>set us. finish u \<le> unat (fst p)" "\<forall>c\<in>set hi. finish p \<le> unat (fst c)"
      "\<forall>u\<in>set us. \<forall>c\<in>set hi. finish u \<le> unat (fst c)"
    using A(3) by (auto simp: sp(1) ordered_append)
  have pos: "\<forall>c\<in>set hi. 0 < snd c" using A(5) by (cases us) (auto simp: sp(1))
  have bl: "below (unat (ubrk s)) (?B # hi)" "below (unat (ubrk s)) (p # hi)" "below (unat (ubrk s)) us"
    using A(4) b(2) by (auto simp: sp(1) below_def)
  have ob: "ordered (?B # hi)" using sp(4) O(2) by simp
  have fp: "finish p \<le> 2 ^ 64" "finish ?B \<le> 2 ^ 64" using bl brk by (auto simp: below_def)
  have ap: "apart bp (fst p)" "apart (fst p) bp" using ordered_apart [of p ?B] sp(3) fp by simp_all
  have "apart bp (first hi ?e)"
  proof (cases hi)
    case Nil
    have "finish (?e, 0) \<le> unat bp"
      using A(1) sp(1,3) O(3) finish_gt [of p] by (cases us) auto
    then show ?thesis using Nil ordered_apart [of "(?e, 0)" ?B] fp by simp
  next
    case (Cons c cs)
    have "finish c \<le> 2 ^ 64" using bl(1) brk Cons by (auto simp: below_def)
    then show ?thesis using Cons sp(4) ordered_apart [of ?B c] by simp
  qed
  then have j1: "join_next bp (fst p) s = attach bp (first hi ?e) s" using join_attach(1) ap(1) L(3) by simp
  define s1 where "s1 = attach bp (first hi ?e) s"
  note S1 = attach_spec [of s hi ?e ?B "unat (ubrk s)" s1, OF L(2) _ ob bl(1) brk _ pos]
  have s1: "links (umem s1) (absorb ?B hi) ?e" "freep s1 = freep s" "ubase s1 = ubase s" "ubrk s1 = ubrk s"
      "ulimit s1 = ulimit s" "\<And>x. unat x < unat bp \<or> unat bp + 16 \<le> unat x \<Longrightarrow> umem s1 x = umem s x"
    using S1 n b(1) by (simp_all add: s1_def)
  define xs where "xs = absorb ?B hi"
  note X = absorb_ok [OF ob pos, folded xs_def]
  have ox: "ordered (p # xs)"
  proof -
    have "finish p \<le> unat (fst c)" if "c \<in> set xs" for c
      using absorb_elems(1) [of ?B hi] that sp(3) O(4) unfolding xs_def by force
    then show ?thesis using X(1) by simp
  qed
  have bx: "below (unat (ubrk s1)) (p # xs)" using X(2) [OF bl(1)] bl(2) by (simp add: below_def s1(4))
  have px: "\<forall>c\<in>set xs. 0 < snd c" using X(5) n by simp
  have szp: "unat (hdr_size (umem s1) (fst p)) = snd p"
  proof -
    have "hdr_size (umem s1) (fst p) = hdr_size (umem s) (fst p)"
      using sp(3) by (intro hdr_cong(2) [OF fp(1)] s1(6)) (auto simp: bytes_def)
    then show ?thesis using L(4) by simp
  qed
  define t where "t = attach (fst p) (first xs ?e) s1"
  note T = attach_spec [of s1 xs ?e p "unat (ubrk s)" t, OF _ szp ox _ brk _ px t_def]
  have t: "links (umem t) (absorb p xs) ?e" "freep t = freep s" "ubase t = ubase s" "ubrk t = ubrk s" "ulimit t = ulimit s"
      "\<And>x. unat x < unat (fst p) \<or> unat (fst p) + 16 \<le> unat x \<Longrightarrow> umem t x = umem s1 x"
    using T s1 bx by (simp_all add: xs_def)
  define ys where "ys = absorb p xs"
  note Y = absorb_ok [OF ox px, folded ys_def]
  let ?t = "t\<lparr>freep := fst p\<rparr>" and ?bs = "us @ ys"
  have j2: "join_prev bp (fst p) s1 = t" using join_attach(2) ap(2) by (simp add: t_def xs_def)
  have run: "ufree (bp + HDR) s = Some ?t"
  proof -
    have "bp + HDR \<noteq> 0"
    proof
      assume "bp + HDR = 0"
      then have "unat (bp + HDR) = 0" by simp
      moreover have "unat (bp + HDR) = unat bp + 16"
        using finish_gt [of ?B] b(2) brk unat_add_lem [of bp HDR] by simp
      ultimately show False by simp
    qed
    then show ?thesis by (simp add: ufree_def sp(2) j1 s1_def [symmetric] j2)
  qed
  have out: "umem t x = umem s x" if "unat x \<notin> span bs \<union> bytes ?B" for x
  proof -
    have "umem s1 x = umem s x" using that finish_gt [of ?B] by (intro s1(6)) (auto simp: bytes_def)
    moreover have "umem t x = umem s1 x" using that finish_gt [of p] by (intro t(6)) (auto simp: bytes_def sp(1))
    ultimately show ?thesis by simp
  qed
  have fy: "first ys ?e = fst p" by (simp add: ys_def)
  have bu: "below (unat (fst p)) us" "below (unat bp) us"
    using O(3) sp(3) finish_gt [of p] unfolding below_def by force+
  have lu: "links (umem t) us (fst p)"
    by (rule links_off_header [OF links_off_header [OF L(1) bu(2) s1(6)] bu(1) t(6)])
  have oy: "finish u \<le> unat (fst c)" if "u \<in> set us" "c \<in> set ys" for u c
  proof -
    have "fst ` set xs \<subseteq> insert bp (fst ` set hi)" "fst ` set ys \<subseteq> insert (fst p) (fst ` set xs)"
      using absorb_elems(1) [of ?B hi] absorb_elems(1) [of p xs] by (simp_all add: xs_def ys_def)
    then have "fst c = fst p \<or> fst c = bp \<or> fst c \<in> fst ` set hi" using that(2) by blast
    moreover have "finish u \<le> unat (fst p)" "unat (fst p) \<le> unat bp" "\<forall>d\<in>set hi. finish u \<le> unat (fst d)"
      using that(1) O(3,5) sp(3) finish_gt [of p] by simp_all
    ultimately show ?thesis by auto
  qed
  have "arena ?t ?bs"
    unfolding arena_def
  proof (intro conjI)
    show "hd ?bs = (ubase ?t, 0)"
      using A(1) Y(6) t(3) by (cases us) (simp_all add: sp(1))
    show "ubase ?t \<noteq> 0" using A(6) t(3) by simp
    show "links (umem ?t) ?bs (ubase ?t)" using lu t(1,3) fy by (simp add: links_append ys_def)
    show "ordered ?bs" using O(1) Y(1) oy by (simp add: ordered_append)
    show "below (unat (ubrk ?t)) ?bs" using bl(3) Y(2) [OF bx] t(4) s1(4) by (auto simp: below_def)
    show "\<forall>c\<in>set (tl ?bs). 0 < snd c" using A(5) Y(4,5) by (cases us) (auto simp: sp(1))
    show "freep ?t \<in> fst ` set ?bs"
    proof -
      have "ys \<noteq> []" "fst (hd ys) = fst p" using fy by (cases ys; simp add: ys_def)+
      then show ?thesis by (cases ys) auto
    qed
    show "?bs \<noteq> []" by (simp add: ys_def)
  qed
  moreover have "span ?bs = span bs \<union> bytes ?B" using Y(3) X(3) by (auto simp: sp(1))
  moreover have "touches (span bs \<union> bytes ?B) s ?t" using out t(3,5) by (simp add: touches_def)
  moreover have "\<exists>c\<in>set ?bs. n \<le> snd c"
  proof -
    obtain d where d: "d \<in> set xs" "n \<le> snd d" using absorb_elems(2) [of n ?B ?B hi] by (auto simp: xs_def)
    then show ?thesis using absorb_elems(2) [of n d p xs] by (auto simp: ys_def)
  qed
  ultimately show ?thesis using run t(4) by (intro exI [of _ ?t] exI [of _ ?bs]) simp
qed

section \<open>Searching the ring\<close>

definition before :: "u64 \<Rightarrow> block list \<Rightarrow> u64" where
  "before prev us = (if us = [] then prev else fst (last us))"

lemma search_part:
  assumes "links (umem s) L e" "\<forall>c\<in>set L. fst c \<noteq> freep s"
  shows "(\<exists>us p vs. L = us @ p # vs \<and> unat nu \<le> snd p \<and>
       malloc_loop nu prev (first L e) s = Some (carve nu (before prev us) (fst p) s)) \<or>
     ((\<forall>c\<in>set L. snd c < unat nu) \<and> malloc_loop nu prev (first L e) s = malloc_loop nu (before prev L) e s)"
  using assms
proof (induction L arbitrary: prev)
  case Nil
  then show ?case by (simp add: before_def)
next
  case (Cons b L)
  have sz: "unat (hdr_size (umem s) (fst b)) = snd b" and nx: "hdr_ptr (umem s) (fst b) = first L e"
    using Cons.prems(1) by simp_all
  show ?case
  proof (cases "unat nu \<le> snd b")
    case True
    then have "malloc_loop nu prev (fst b) s = Some (carve nu prev (fst b) s)"
      using sz by (simp add: malloc_loop.simps [of nu prev] word_le_nat_alt)
    with True show ?thesis by (intro disjI1 exI [of _ "[]"] exI [of _ b] exI [of _ L]) (simp add: before_def)
  next
    case False
    then have step: "malloc_loop nu prev (fst b) s = malloc_loop nu (fst b) (first L e) s"
      using sz nx Cons.prems(2) by (simp add: malloc_loop.simps [of nu prev] word_le_nat_alt)
    have IH: "(\<exists>us p vs. L = us @ p # vs \<and> unat nu \<le> snd p \<and>
       malloc_loop nu (fst b) (first L e) s = Some (carve nu (before (fst b) us) (fst p) s)) \<or>
     ((\<forall>c\<in>set L. snd c < unat nu) \<and> malloc_loop nu (fst b) (first L e) s = malloc_loop nu (before (fst b) L) e s)"
      using Cons.IH Cons.prems by simp
    have bf: "before prev (b # us) = before (fst b) us" for us by (simp add: before_def)
    from IH show ?thesis
    proof
      assume "\<exists>us p vs. L = us @ p # vs \<and> unat nu \<le> snd p \<and>
        malloc_loop nu (fst b) (first L e) s = Some (carve nu (before (fst b) us) (fst p) s)"
      then obtain us p vs where "L = us @ p # vs" "unat nu \<le> snd p"
          "malloc_loop nu (fst b) (first L e) s = Some (carve nu (before (fst b) us) (fst p) s)" by blast
      then show ?thesis
        using step bf by (intro disjI1 exI [of _ "b # us"] exI [of _ p] exI [of _ vs]) simp
    next
      assume "(\<forall>c\<in>set L. snd c < unat nu) \<and> malloc_loop nu (fst b) (first L e) s = malloc_loop nu (before (fst b) L) e s"
      then show ?thesis using step False bf by simp
    qed
  qed
qed

lemma before_split: "us \<noteq> [] \<Longrightarrow> \<exists>us' q. us = us' @ [q] \<and> before prev us = fst q"
  by (metis append_butlast_last_id before_def)

text \<open>What the loop does when no block is big enough.\<close>

definition extend_heap :: "u64 \<Rightarrow> uheap \<Rightarrow> (u64 \<times> uheap) option" where
  "extend_heap nu s =
     (case morecore nu s of None \<Rightarrow> None
      | Some (q, s) \<Rightarrow> if q = 0 then Some (0, s) else malloc_loop nu q (hdr_ptr (umem s) q) s)"

lemma search_ring:
  assumes a: "arena s bs" and nu: "0 < unat nu"
  shows "(\<exists>us q p vs. bs = us @ q # p # vs \<and> unat nu \<le> snd p \<and>
       malloc_loop nu (freep s) (hdr_ptr (umem s) (freep s)) s = Some (carve nu (fst q) (fst p) s)) \<or>
     ((\<forall>c\<in>set bs. snd c < unat nu) \<and> malloc_loop nu (freep s) (hdr_ptr (umem s) (freep s)) s = extend_heap nu s)"
    (is "?hit \<or> ?miss")
proof -
  let ?e = "ubase s" and ?loop = "malloc_loop nu (freep s) (hdr_ptr (umem s) (freep s)) s"
  have A: "hd bs = (?e, 0)" "links (umem s) bs ?e" "ordered bs" "bs \<noteq> []" using a by (simp_all add: arena_def)
  obtain f where "f \<in> set bs" "fst f = freep s" using a by (auto simp: arena_def)
  then obtain xs ys where sp: "bs = xs @ f # ys" and f: "fst f = freep s" using split_list by metis
  have L: "links (umem s) xs (freep s)" "links (umem s) ys ?e" "hdr_ptr (umem s) (freep s) = first ys ?e"
      "unat (hdr_size (umem s) (freep s)) = snd f"
    using A(2) f by (simp_all add: sp links_append)
  have ne: "\<forall>c\<in>set xs. fst c \<noteq> freep s" "\<forall>c\<in>set ys. fst c \<noteq> freep s"
    using A(3) finish_gt [of f] finish_gt unfolding sp f [symmetric] ordered_append ordered_simps
    by (metis add_leD1 le_add1 le_antisym list.set_intros(1) not_numeral_le_zero add_le_same_cancel1)+
  have fx: "first xs (freep s) = ?e" using A(1) f by (cases xs) (simp_all add: sp)
  have base: "snd (hd bs) = 0" using A(1) by simp
  from search_part [OF L(2) ne(2), of nu "freep s"] show ?thesis
  proof
    assume "\<exists>us p vs. ys = us @ p # vs \<and> unat nu \<le> snd p \<and>
       malloc_loop nu (freep s) (first ys ?e) s = Some (carve nu (before (freep s) us) (fst p) s)"
    then obtain us p vs where h: "ys = us @ p # vs" "unat nu \<le> snd p"
        "?loop = Some (carve nu (before (freep s) us) (fst p) s)" using L(3) by auto
    show ?thesis
    proof (cases "us = []")
      case True
      then have "bs = xs @ f # p # vs" using sp h(1) by simp
      moreover have "?loop = Some (carve nu (fst f) (fst p) s)" using h(3) f True by (simp add: before_def)
      ultimately show ?thesis using h(2) by blast
    next
      case False
      then obtain us' q where q: "us = us' @ [q]" "before (freep s) us = fst q" using before_split by blast
      then have "bs = (xs @ f # us') @ q # p # vs" using sp h(1) by simp
      then show ?thesis using h q by metis
    qed
  next
    assume 1: "(\<forall>c\<in>set ys. snd c < unat nu) \<and>
       malloc_loop nu (freep s) (first ys ?e) s = malloc_loop nu (before (freep s) ys) ?e s"
    then have r1: "?loop = malloc_loop nu (before (freep s) ys) (first xs (freep s)) s" using L(3) fx by simp
    from search_part [OF L(1) ne(1), of nu "before (freep s) ys"] show ?thesis
    proof
      assume "\<exists>us p vs. xs = us @ p # vs \<and> unat nu \<le> snd p \<and>
         malloc_loop nu (before (freep s) ys) (first xs (freep s)) s =
           Some (carve nu (before (before (freep s) ys) us) (fst p) s)"
      then obtain us p vs where h: "xs = us @ p # vs" "unat nu \<le> snd p"
          "?loop = Some (carve nu (before (before (freep s) ys) us) (fst p) s)" using r1 by auto
      have "us \<noteq> []" using base h(1,2) nu sp by (cases us) auto
      then obtain us' q where q: "us = us' @ [q]" "before (before (freep s) ys) us = fst q" using before_split by blast
      then have "bs = us' @ q # p # vs @ f # ys" using sp h(1) by simp
      then show ?thesis using h q by metis
    next
      assume 2: "(\<forall>c\<in>set xs. snd c < unat nu) \<and> malloc_loop nu (before (freep s) ys) (first xs (freep s)) s =
         malloc_loop nu (before (before (freep s) ys) xs) (freep s) s"
      show ?thesis
      proof (cases "unat nu \<le> snd f")
        case True
        then have "xs \<noteq> []" using base nu sp by (cases xs) auto
        then obtain us' q where q: "xs = us' @ [q]" "before (before (freep s) ys) xs = fst q" using before_split by blast
        then have "?loop = Some (carve nu (fst q) (fst f) s)"
          using r1 2 True L(4) f by (simp add: malloc_loop.simps [of nu _ "freep s"] word_le_nat_alt)
        moreover have "bs = us' @ q # f # ys" using q(1) sp by simp
        ultimately show ?thesis using True by metis
      next
        case False
        then have "?loop = extend_heap nu s"
          using r1 2 L(4) by (simp add: malloc_loop.simps [of nu _ "freep s"] word_le_nat_alt extend_heap_def)
        then show ?thesis using 1 2 False sp by auto
      qed
    qed
  qed
qed

section \<open>Taking a block\<close>

lemma links_unlink:
  assumes "links m (us @ q # p # vs) e" "ordered (us @ q # p # vs)" "below (2 ^ 64) (us @ q # p # vs)"
  shows "links (st64 m (fst q) (hdr_ptr m (fst p))) (us @ q # vs) e"
proof -
  let ?m = "st64 m (fst q) (hdr_ptr m (fst p))"
  have q: "unat (fst q) + 16 \<le> 2 ^ 64" using assms(3) finish_gt [of q] by (simp add: below_def)
  note W = hdr_writes [OF q]
  have L: "links m us (fst q)" "links m vs e" "hdr_ptr m (fst p) = first vs e" "unat (hdr_size m (fst q)) = snd q"
    using assms(1) by (simp_all add: links_append)
  have "links ?m us (fst q)"
    using assms(2) by (intro links_off_header [OF L(1), of "fst q"] W(5)) (auto simp: ordered_append below_def)
  moreover have "links ?m vs e"
  proof (rule links_cong [OF L(2)])
    show "below (2 ^ 64) vs" using assms(3) by (simp add: below_def)
    show "?m x = m x" if "unat x \<in> span vs" for x
      using that assms(2) finish_gt [of q] by (intro W(5)) (force simp: span_def bytes_def ordered_append)
  qed
  ultimately show ?thesis using W(1,2) L(3,4) by (simp add: links_append)
qed

lemma links_shrink:
  assumes "links m (us @ p # vs) e" "ordered (us @ p # vs)" "below (2 ^ 64) (us @ p # vs)" "unat w = n"
  shows "links (st64 m (fst p + 8) w) (us @ (fst p, n) # vs) e"
proof -
  let ?m = "st64 m (fst p + 8) w"
  have p: "unat (fst p) + 16 \<le> 2 ^ 64" using assms(3) finish_gt [of p] by (simp add: below_def)
  note W = hdr_writes [OF p]
  have L: "links m us (fst p)" "links m vs e" "hdr_ptr m (fst p) = first vs e"
    using assms(1) by (simp_all add: links_append)
  have "links ?m us (fst p)"
    using assms(2) by (intro links_off_header [OF L(1), of "fst p"] W(6)) (auto simp: ordered_append below_def)
  moreover have "links ?m vs e"
  proof (rule links_cong [OF L(2)])
    show "below (2 ^ 64) vs" using assms(3) by (simp add: below_def)
    show "?m x = m x" if "unat x \<in> span vs" for x
      using that assms(2) finish_gt [of p] by (intro W(6)) (force simp: span_def bytes_def ordered_append)
  qed
  ultimately show ?thesis using W(3,4) L(3) assms(4) by (simp add: links_append)
qed

lemma ordered_disjoint:
  assumes "ordered (us @ p # vs)"
  shows "bytes p \<inter> span (us @ vs) = {}"
proof -
  have "finish c \<le> unat (fst p) \<or> finish p \<le> unat (fst c)" if "c \<in> set (us @ vs)" for c
    using assms that by (auto simp: ordered_append)
  then show ?thesis by (force simp: span_def bytes_def)
qed

text \<open>\<open>taken s bs n r t\<close>: \<open>t\<close> has the block \<open>r\<close> of \<open>n\<close> units out of the ring of \<open>s\<close>.\<close>

definition taken :: "uheap \<Rightarrow> block list \<Rightarrow> nat \<Rightarrow> u64 \<Rightarrow> uheap \<Rightarrow> block list \<Rightarrow> bool" where
  "taken s bs n r t bs' \<longleftrightarrow> arena t bs' \<and> span bs = span bs' \<union> bytes (r, n) \<and> bytes (r, n) \<inter> span bs' = {} \<and>
     unat (hdr_size (umem t) r) = n \<and> touches (span bs) s t \<and> ubrk t = ubrk s \<and> ubase s < r \<and>
     finish (r, n) \<le> unat (ubrk s)"

lemma arena_bounds:
  assumes "arena s bs" "bs = us @ q # p # vs"
  shows "ubase s < fst p" "below (2 ^ 64) bs" "finish p \<le> unat (ubrk s)" "0 < snd p" "finish q \<le> unat (fst p)"
proof -
  have b: "hd bs = (ubase s, 0)" "ordered bs" "below (unat (ubrk s)) bs" "\<forall>c\<in>set (tl bs). 0 < snd c"
    using assms by (simp_all add: arena_def)
  show "finish p \<le> unat (ubrk s)" "finish q \<le> unat (fst p)" using b(2,3) assms(2) by (simp_all add: below_def ordered_append)
  show "0 < snd p" using b(4) assms(2) by (cases us) auto
  have "unat (ubrk s) < 2 ^ 64" using unsigned_less [of "ubrk s"] by simp
  then show "below (2 ^ 64) bs" using b(3) by (force simp: below_def)
  have "finish (ubase s, 0) \<le> unat (fst p)"
    using b(1,2) assms(2) by (cases us) (auto simp: ordered_append)
  then show "ubase s < fst p" using finish_gt [of "(ubase s, 0)"] by (simp add: word_less_nat_alt)
qed

lemma carve_exact:
  assumes a: "arena s bs" "bs = us @ q # p # vs" and n: "snd p = unat nu"
  shows "\<exists>t. carve nu (fst q) (fst p) s = (fst p + HDR, t) \<and> taken s bs (unat nu) (fst p) t (us @ q # vs)"
proof -
  note B = arena_bounds [OF a]
  have A: "hd bs = (ubase s, 0)" "ubase s \<noteq> 0" "links (umem s) bs (ubase s)" "ordered bs" "below (unat (ubrk s)) bs"
      "\<forall>c\<in>set (tl bs). 0 < snd c"
    using a by (simp_all add: arena_def)
  have sz: "unat (hdr_size (umem s) (fst p)) = snd p" using A(3) by (simp add: a(2) links_append)
  then have "hdr_size (umem s) (fst p) = nu" using n by (simp add: word_unat_eq_iff)
  let ?t = "(set_ptr (fst q) (hdr_ptr (umem s) (fst p)) s)\<lparr>freep := fst q\<rparr>" and ?bs = "us @ q # vs"
  have bp: "bytes (fst p, unat nu) = bytes p" "finish (fst p, unat nu) = finish p"
    using n by (simp_all add: bytes_def finish_def)
  have fp: "finish p \<le> 2 ^ 64" using B(2) by (simp add: a(2) below_def)
  have ap: "apart (fst q) (fst p)" using ordered_apart [OF B(5) fp] by simp
  have q: "unat (fst q) + 16 \<le> 2 ^ 64" using ap by (auto simp: apart_def)
  have "arena ?t ?bs"
    unfolding arena_def
  proof (intro conjI)
    show "hd ?bs = (ubase ?t, 0)" using A(1) by (cases us) (simp_all add: a(2))
    show "links (umem ?t) ?bs (ubase ?t)"
      using links_unlink [of "umem s" us q p vs "ubase s"] A(3,4) B(2) by (simp add: a(2))
    show "ordered ?bs" using A(4) by (auto simp: a(2) ordered_append)
    show "below (unat (ubrk ?t)) ?bs" using A(5) by (auto simp: a(2) below_def)
    show "\<forall>c\<in>set (tl ?bs). 0 < snd c" using A(6) by (cases us) (auto simp: a(2))
    show "ubase ?t \<noteq> 0" using A(2) by simp
  qed simp_all
  moreover have "bytes p \<inter> span ?bs = {}" using ordered_disjoint [of "us @ [q]" p vs] A(4) by (simp add: a(2))
  moreover have "touches (span bs) s ?t"
  proof -
    have "st64 (umem s) (fst q) v x = umem s x" if "unat x \<notin> span bs" for x v
      using that finish_gt [of q] by (intro hdr_writes(5) [OF q]) (auto simp: a(2) bytes_def)
    then show ?thesis by (simp add: touches_def)
  qed
  moreover have "unat (hdr_size (umem ?t) (fst p)) = unat nu" using hdr_apart(2) [OF ap] sz n by simp
  moreover have "span bs = span ?bs \<union> bytes p" by (auto simp: a(2))
  moreover have "carve nu (fst q) (fst p) s = (fst p + HDR, ?t)"
    using \<open>hdr_size (umem s) (fst p) = nu\<close> by (simp add: carve_def)
  ultimately show ?thesis using B(1,3) by (simp add: taken_def bp)
qed

lemma carve_split:
  assumes a: "arena s bs" "bs = us @ q # p # vs" and n: "unat nu < snd p" "0 < unat nu"
  shows "\<exists>r t. carve nu (fst q) (fst p) s = (r + HDR, t) \<and>
     taken s bs (unat nu) r t (us @ q # (fst p, snd p - unat nu) # vs)"
proof -
  note B = arena_bounds [OF a]
  have A: "hd bs = (ubase s, 0)" "ubase s \<noteq> 0" "links (umem s) bs (ubase s)" "ordered bs" "below (unat (ubrk s)) bs"
      "\<forall>c\<in>set (tl bs). 0 < snd c"
    using a by (simp_all add: arena_def)
  have sz: "unat (hdr_size (umem s) (fst p)) = snd p" using A(3) by (simp add: a(2) links_append)
  define rest where "rest = hdr_size (umem s) (fst p) - nu"
  have rest: "unat rest = snd p - unat nu" "hdr_size (umem s) (fst p) \<noteq> nu"
    using n sz unat_sub [of nu "hdr_size (umem s) (fst p)"] by (auto simp: rest_def word_le_nat_alt)
  define r where "r = fst p + HDR * rest"
  let ?P = "(fst p, snd p - unat nu)" and ?R = "(r, unat nu)"
  let ?bs = "us @ q # ?P # vs"
  have fp: "finish p = unat (fst p) + 16 * snd p" "finish p < 2 ^ 64"
    using B(3,4) unat64 [of "ubrk s"] by (simp_all add: finish_def room_ge(3))
  have r: "unat r = unat (fst p) + 16 * (snd p - unat nu)"
    unfolding r_def using rest(1) fp by (intro unat_end) simp_all
  have fP: "finish ?P = unat r" "finish ?R = finish p"
    using n r fp(1) by (simp_all add: finish_def room_ge(3))
  have bP: "bytes p = bytes ?P \<union> bytes ?R" "bytes ?P \<inter> bytes ?R = {}"
    using fP r finish_gt [of ?P] finish_gt [of ?R] by (auto simp: bytes_def)
  let ?m1 = "st64 (umem s) (fst p + 8) rest"
  let ?m = "st64 ?m1 (r + 8) nu"
  let ?t = "(set_size r nu (set_size (fst p) rest s))\<lparr>freep := fst q\<rparr>"
  have rr: "unat r + 16 \<le> 2 ^ 64" "unat (fst p) + 16 \<le> 2 ^ 64"
    using finish_gt [of ?R] finish_gt [of p] fP fp by simp_all
  have l1: "links ?m1 ?bs (ubase s)"
    using links_shrink [of "umem s" "us @ [q]" p vs "ubase s" rest] A(3,4) B(2) rest(1) by (simp add: a(2))
  have dis: "bytes ?R \<inter> span ?bs = {}"
    using ordered_disjoint [of "us @ [q]" p vs] A(4) bP by (auto simp: a(2))
  have "below (2 ^ 64) ?bs" using B(2) fP r fp finish_gt [of p] by (auto simp: a(2) below_def)
  then have l: "links ?m ?bs (ubase s)"
  proof (rule links_cong [OF l1])
    show "?m x = ?m1 x" if "unat x \<in> span ?bs" for x
    proof -
      have "unat x \<notin> bytes ?R" using that dis by blast
      then show ?thesis using finish_gt [of ?R] by (intro hdr_writes(6) [OF rr(1)]) (auto simp: bytes_def)
    qed
  qed
  have "arena ?t ?bs"
    unfolding arena_def
  proof (intro conjI)
    show "hd ?bs = (ubase ?t, 0)" using A(1) by (cases us) (simp_all add: a(2))
    show "links (umem ?t) ?bs (ubase ?t)" using l by simp
    show "ordered ?bs" using A(4) fP(1) r fp(1) n by (auto simp: a(2) ordered_append)
    show "below (unat (ubrk ?t)) ?bs" using A(5) fP r fp(1) n by (auto simp: a(2) below_def)
    show "\<forall>c\<in>set (tl ?bs). 0 < snd c" using A(6) n(1) by (cases us) (auto simp: a(2))
    show "ubase ?t \<noteq> 0" using A(2) by simp
  qed simp_all
  moreover have "touches (span bs) s ?t"
  proof -
    have "?m x = umem s x" if "unat x \<notin> span bs" for x
    proof -
      have x: "unat x \<notin> bytes p" "unat x \<notin> bytes ?R" using that bP by (auto simp: a(2))
      then have "?m x = ?m1 x" using finish_gt [of ?R] by (intro hdr_writes(6) [OF rr(1)]) (auto simp: bytes_def)
      moreover have "?m1 x = umem s x" using x(1) finish_gt [of p] by (intro hdr_writes(6) [OF rr(2)]) (auto simp: bytes_def)
      ultimately show ?thesis by simp
    qed
    then show ?thesis by (simp add: touches_def)
  qed
  moreover have "hdr_size (umem ?t) r = nu" using hdr_writes(4) [OF rr(1)] by simp
  moreover have "span bs = span ?bs \<union> bytes ?R" using bP by (auto simp: a(2))
  moreover have "carve nu (fst q) (fst p) s = (r + HDR, ?t)"
    using rest(2) by (simp add: carve_def Let_def rest_def [symmetric] r_def [symmetric])
  moreover have "ubase s < r" using B(1) r by (simp add: word_less_nat_alt)
  ultimately show ?thesis using B(3) fP dis by (intro exI [of _ r] exI [of _ ?t]) (simp add: taken_def)
qed

lemma carve_spec:
  assumes "arena s bs" "bs = us @ q # p # vs" "unat nu \<le> snd p" "0 < unat nu"
  shows "\<exists>r t bs'. carve nu (fst q) (fst p) s = (r + HDR, t) \<and> taken s bs (unat nu) r t bs'"
proof (cases "snd p = unat nu")
  case True
  then show ?thesis using carve_exact [OF assms(1,2)] by blast
next
  case False
  then have "unat nu < snd p" using assms(3) by simp
  then show ?thesis using carve_split [OF assms(1,2) _ assms(4)] by blast
qed

section \<open>malloc\<close>

lemma arena_base:
  assumes "arena s bs"
  shows "unat (ubase s) + 16 \<le> unat (ubrk s)" "freep s \<noteq> 0"
proof -
  have b: "hd bs = (ubase s, 0)" "bs \<noteq> []" "ordered bs" "below (unat (ubrk s)) bs" "ubase s \<noteq> 0" "freep s \<in> fst ` set bs"
    using assms by (simp_all add: arena_def)
  then show "unat (ubase s) + 16 \<le> unat (ubrk s)"
    using finish_gt [of "(ubase s, 0)"] by (cases bs) (auto simp: below_def)
  obtain c where c: "c \<in> set bs" "freep s = fst c" using b(6) by auto
  have "unat (ubase s) \<le> unat (fst c)"
    using b(1-3) c(1) finish_gt [of "(ubase s, 0)"] by (cases bs) auto
  moreover have "0 < unat (ubase s)" using b(5) by (simp add: unat_gt_0)
  ultimately show "freep s \<noteq> 0" using c(2) by (metis not_le unat_0)
qed

lemma heap_start_arena: "arena s bs \<Longrightarrow> heap_start s = s"
  using arena_base(2) by (simp add: heap_start_def)

lemma heap_start_fresh:
  assumes "freep s = 0" "ubase s \<noteq> 0" "unat (ubase s) + 16 \<le> unat (ubrk s)"
  shows "arena (heap_start s) [(ubase s, 0)]"
proof -
  have "unat (ubase s) + 16 \<le> 2 ^ 64" using assms(3) unat64 [of "ubrk s"] by simp
  then show ?thesis
    using assms hdr_writes(2-4) [of "ubase s"] hdr_writes(1) [of "ubase s"]
    by (simp add: heap_start_def arena_def below_def finish_def room_def)
qed

lemma arena_upd:
  assumes "arena s bs" "\<And>x. unat x < unat (ubrk s) \<Longrightarrow> umem t x = umem s x" "unat (ubrk s) \<le> unat (ubrk t)"
    "freep t = freep s" "ubase t = ubase s"
  shows "arena t bs"
proof -
  have b: "links (umem s) bs (ubase s)" "below (unat (ubrk s)) bs" using assms(1) by (simp_all add: arena_def)
  have "links (umem t) bs (ubase s)"
  proof (rule links_cong [OF b(1)])
    show "below (2 ^ 64) bs" using b(2) unat64 [of "ubrk s"] by (force simp: below_def)
    show "umem t x = umem s x" if "unat x \<in> span bs" for x
      using that b(2) by (intro assms(2)) (force simp: span_def bytes_def below_def)
  qed
  moreover have "below (unat (ubrk t)) bs" using b(2) assms(3) by (force simp: below_def)
  ultimately show ?thesis using assms(1,4,5) by (simp add: arena_def)
qed

text \<open>The kernel can give what \<open>morecore\<close> asks for, and the request fits an \<open>int\<close>.\<close>

definition grantable :: "uheap \<Rightarrow> nat \<Rightarrow> bool" where
  "grantable s n \<longleftrightarrow> 16 * max 512 n < 2 ^ 31 \<and> unat (ubrk s) + 16 * max 512 n \<le> unat (ulimit s)"

lemma usbrk_grants:
  assumes w: "unat w = n" "0 < n" "16 * n < 2 ^ 31" "unat (ubrk s) + 16 * n \<le> unat (ulimit s)"
  shows "\<exists>t. usbrk (ucast (HDR * w)) s = (ubrk s, t) \<and> t = s\<lparr>ubrk := ubrk t\<rparr> \<and> unat (ubrk t) = unat (ubrk s) + 16 * n"
proof -
  let ?i = "ucast (HDR * w) :: i32"
  have "unat (HDR * w) = 16 * n" using w unat_mult_lem [of HDR w] by simp
  then have i: "unat ?i = 16 * n" using w(3) by (simp add: unsigned_ucast_eq take_bit_eq_mod)
  have "?i = of_nat (16 * n)"
    using i w(3) by (simp add: word_unat_eq_iff unsigned_of_nat take_bit_eq_mod del: of_nat_mult)
  then have si: "sint ?i = 16 * int n"
    using w(3) by (simp add: signed_of_nat signed_take_bit_int_eq_self del: of_nat_mult)
  have sc: "scast ?i = (of_nat (16 * n) :: u64)"
    by (simp add: scast_eq si)
  have "unat (ubrk s + of_nat (16 * n)) = unat (ubrk s) + 16 * n"
    using w(4) unat64 [of "ulimit s"] unat_byte [of "ubrk s" "16 * n + 1" "16 * n"] by simp
  moreover have "0 <s ?i" using si w(2) by (simp add: word_sless_alt)
  ultimately show ?thesis using w(4) i sc by (simp add: usbrk_def)
qed

lemma below_span: "below e bs \<Longrightarrow> x \<in> span bs \<Longrightarrow> x < e"
  by (force simp: below_def span_def bytes_def)

lemma morecore_spec:
  assumes a: "arena s bs" and g: "grantable s (unat nu)"
  shows "\<exists>t bs'. morecore nu s = Some (freep t, t) \<and> arena t bs' \<and>
     span bs' = span bs \<union> {unat (ubrk s)..<unat (ubrk t)} \<and> unat (ubrk s) < unat (ubrk t) \<and>
     touches (span bs \<union> {unat (ubrk s)..<unat (ubrk t)}) s t \<and> (\<exists>c\<in>set bs'. unat nu \<le> snd c)"
proof -
  define N where "N = max 512 (unat nu)"
  define w where "w = (if nu < MINALLOC then MINALLOC else nu)"
  have w: "unat w = N" by (auto simp: w_def N_def word_less_nat_alt max_def)
  have N: "0 < N" "16 * N < 2 ^ 31" "unat (ubrk s) + 16 * N \<le> unat (ulimit s)"
    using g by (auto simp: grantable_def N_def)
  obtain s1 where s1: "usbrk (ucast (HDR * w)) s = (ubrk s, s1)" "s1 = s\<lparr>ubrk := ubrk s1\<rparr>"
      "unat (ubrk s1) = unat (ubrk s) + 16 * N"
    using usbrk_grants [OF w N] by blast
  let ?p = "ubrk s" and ?B = "(ubrk s, N)"
  define s2 where "s2 = set_size ?p w s1"
  have base: "unat (ubase s) + 16 \<le> unat ?p" by (rule arena_base(1) [OF a])
  then have p0: "?p \<noteq> 0" by auto
  have fB: "finish ?B = unat (ubrk s1)" using s1(3) N(1) by (simp add: finish_def room_ge(3))
  have p16: "unat ?p + 16 \<le> 2 ^ 64" using finish_gt [of ?B] fB unat64 [of "ubrk s1"] by simp
  have m: "umem s2 = st64 (umem s) (?p + 8) w" "freep s2 = freep s" "ubase s2 = ubase s" "ubrk s2 = ubrk s1"
      "ulimit s2 = ulimit s"
    unfolding s2_def by (simp_all, subst s1(2), simp, subst s1(2), simp, subst s1(2), simp, subst s1(2), simp)
  have out: "umem s2 x = umem s x" if "unat x \<notin> bytes ?B" for x
    using that finish_gt [of ?B] unfolding m(1) by (intro hdr_writes(6) [OF p16]) (auto simp: bytes_def)
  have a2: "arena s2 bs"
    using s1(3) out by (intro arena_upd [OF a]) (auto simp: m bytes_def)
  have "below (unat ?p) bs" using a by (simp add: arena_def)
  then have dis: "bytes ?B \<inter> span bs = {}" by (auto simp: bytes_def dest: below_span)
  have "ubase s2 < ?p" using base m(3) by (simp add: word_less_nat_alt)
  moreover have "finish ?B \<le> unat (ubrk s2)" using fB m(4) by simp
  moreover have "unat (hdr_size (umem s2) ?p) = N" using hdr_writes(4) [OF p16] m(1) w by simp
  ultimately obtain t bs' where t: "ufree (?p + HDR) s2 = Some t" "arena t bs'" "span bs' = span bs \<union> bytes ?B"
      "touches (span bs \<union> bytes ?B) s2 t" "ubrk t = ubrk s2" "\<exists>c\<in>set bs'. N \<le> snd c"
    using ufree_spec [OF a2 _ _ dis N(1)] by blast
  have bB: "bytes ?B = {unat (ubrk s)..<unat (ubrk t)}" using fB t(5) m(4) by (simp add: bytes_def)
  have "morecore nu s = Some (freep t, t)"
    using p0 t(1) by (simp add: morecore_def w_def [symmetric] s1(1) s2_def [symmetric] Let_def)
  moreover have "touches (span bs \<union> bytes ?B) s t"
    using t(4) out m(3,5) unfolding touches_def by auto
  moreover have "\<exists>c\<in>set bs'. unat nu \<le> snd c" using t(6) by (force simp: N_def)
  moreover have "unat (ubrk s) < unat (ubrk t)" using t(5) m(4) s1(3) N(1) by simp
  ultimately show ?thesis using t(2,3) unfolding bB by blast
qed

lemma unat_units_for:
  assumes "nb \<noteq> 0" "unat nb + 16 \<le> 2 ^ 64"
  shows "unat (units_for nb) = (unat nb + 15) div 16 + 1" "unat nb \<le> 16 * (unat (units_for nb) - 1)"
proof -
  have e: "nb + HDR - 1 = nb + 15" by simp
  have a: "unat (nb + 15) = unat nb + 15" using assms(2) unat_add_lem [of nb 15] by simp
  have d: "unat ((nb + 15) div HDR) = (unat nb + 15) div 16" by (simp add: unat_div_distrib a)
  have "(unat nb + 15) div 16 + 1 < 2 ^ 64" using assms(2) by linarith
  then show 1: "unat (units_for nb) = (unat nb + 15) div 16 + 1"
    unfolding units_for_def e using d unat_add_lem [of "(nb + 15) div HDR" 1] by simp
  show "unat nb \<le> 16 * (unat (units_for nb) - 1)" unfolding 1 by simp
qed

text \<open>What one call does: the block comes out of the ring, or out of the ring and what the kernel adds.\<close>

lemma malloc_arena:
  assumes a: "arena (heap_start s) bs" and nb: "nb \<noteq> 0" "unat nb + 16 \<le> 2 ^ 64"
    and mem: "(\<exists>c\<in>set bs. unat (units_for nb) \<le> snd c) \<or> grantable (heap_start s) (unat (units_for nb))"
  shows "\<exists>r t bs' u us. malloc nb s = Some (r + HDR, t) \<and> arena u us \<and>
     span us = span bs \<union> {unat (ubrk (heap_start s))..<unat (ubrk u)} \<and>
     unat (ubrk (heap_start s)) \<le> unat (ubrk u) \<and>
     touches (span bs \<union> {unat (ubrk (heap_start s))..<unat (ubrk u)}) (heap_start s) u \<and>
     taken u us (unat (units_for nb)) r t bs'"
proof -
  let ?nu = "units_for nb" and ?s = "heap_start s"
  have nu: "0 < unat ?nu" using unat_units_for(1) [OF nb] by simp
  have run: "malloc nb s = malloc_loop ?nu (freep ?s) (hdr_ptr (umem ?s) (freep ?s)) ?s"
    using nb(1) by (simp add: malloc_def Let_def)
  show ?thesis
  proof (cases "\<forall>c\<in>set bs. snd c < unat ?nu")
    case False
    then obtain xs q p vs where h: "bs = xs @ q # p # vs" "unat ?nu \<le> snd p"
        "malloc nb s = Some (carve ?nu (fst q) (fst p) ?s)"
      using search_ring [OF a nu] run by auto
    then obtain r t bs' where "carve ?nu (fst q) (fst p) ?s = (r + HDR, t)" "taken ?s bs (unat ?nu) r t bs'"
      using carve_spec [OF a h(1,2) nu] by blast
    moreover have "touches X ?s ?s" for X by (simp add: touches_def)
    ultimately show ?thesis using a h(3) by (intro exI [of _ r] exI [of _ t] exI [of _ bs'] exI [of _ ?s] exI [of _ bs]) simp
  next
    case True
    then have g: "grantable ?s (unat ?nu)" using mem by (auto simp: not_le [symmetric])
    obtain u us where u: "morecore ?nu ?s = Some (freep u, u)" "arena u us"
        "span us = span bs \<union> {unat (ubrk ?s)..<unat (ubrk u)}" "unat (ubrk ?s) < unat (ubrk u)"
        "touches (span bs \<union> {unat (ubrk ?s)..<unat (ubrk u)}) ?s u" "\<exists>c\<in>set us. unat ?nu \<le> snd c"
      using morecore_spec [OF a g] by blast
    have "malloc nb s = extend_heap ?nu ?s"
    proof -
      have "\<not> (\<exists>xs q p vs. bs = xs @ q # p # vs \<and> unat ?nu \<le> snd p)"
        using True by (auto simp: not_le)
      then show ?thesis using search_ring [OF a nu] unfolding run by blast
    qed
    also have "\<dots> = malloc_loop ?nu (freep u) (hdr_ptr (umem u) (freep u)) u"
      using u(1) arena_base(2) [OF u(2)] by (simp add: extend_heap_def)
    finally have run2: "malloc nb s = malloc_loop ?nu (freep u) (hdr_ptr (umem u) (freep u)) u" .
    have "\<not> (\<forall>c\<in>set us. snd c < unat ?nu)" using u(6) by (auto simp: not_less)
    then obtain xs q p vs where h: "us = xs @ q # p # vs" "unat ?nu \<le> snd p"
        "malloc nb s = Some (carve ?nu (fst q) (fst p) u)"
      using search_ring [OF u(2) nu] run2 by auto
    then obtain r t bs' where "carve ?nu (fst q) (fst p) u = (r + HDR, t)" "taken u us (unat ?nu) r t bs'"
      using carve_spec [OF u(2) h(1,2) nu] by blast
    then show ?thesis using u(2-5) h(3)
      by (intro exI [of _ r] exI [of _ t] exI [of _ bs'] exI [of _ u] exI [of _ us]) simp
  qed
qed

section \<open>Properties\<close>

text \<open>
  \<open>heap s bs A\<close>: the free blocks \<open>bs\<close> form the ring, and the blocks \<open>A\<close> that the program holds lie apart from
  them and from each other, inside the heap, with their sizes in their headers.
\<close>

definition held :: "uheap \<Rightarrow> block list \<Rightarrow> block \<Rightarrow> bool" where
  "held s bs a \<longleftrightarrow> 0 < snd a \<and> unat (hdr_size (umem s) (fst a)) = snd a \<and> ubase s < fst a \<and>
     finish a \<le> unat (ubrk s) \<and> bytes a \<inter> span bs = {}"

definition heap :: "uheap \<Rightarrow> block list \<Rightarrow> block list \<Rightarrow> bool" where
  "heap s bs A \<longleftrightarrow> arena s bs \<and> (\<forall>a\<in>set A. held s bs a) \<and> pairwise (\<lambda>a b. bytes a \<inter> bytes b = {}) (set A) \<and> distinct A"

text \<open>A held block stays held, with its bytes, by an operation that leaves it alone.\<close>

lemma held_step:
  assumes h: "held s bs a" and t: "touches R s t" "bytes a \<inter> R = {}" "bytes a \<inter> span bs' = {}" "unat (ubrk s) \<le> unat (ubrk t)"
  shows "held t bs' a" "\<And>x. unat x \<in> bytes a \<Longrightarrow> umem t x = umem s x"
proof -
  show eq: "umem t x = umem s x" if "unat x \<in> bytes a" for x
    using that t(1,2) by (auto simp: touches_def)
  have "finish a \<le> 2 ^ 64" using h unat64 [of "ubrk s"] by (auto simp: held_def)
  then have "hdr_size (umem t) (fst a) = hdr_size (umem s) (fst a)" using eq by (rule hdr_cong(2))
  then show "held t bs' a" using h t by (simp add: held_def touches_def)
qed

lemma distinct_bytes: "bytes a \<inter> bytes b = {} \<Longrightarrow> a \<noteq> b"
  using finish_gt [of a] by (auto simp: bytes_def)

text \<open>
  C4. malloc of a positive size, when a free block is big enough or the kernel can give more: the call
  returns, its block has at least the bytes asked for behind its header, lies apart from every block
  the program already holds, the ring stays well formed, and the bytes of the blocks already held are unchanged.
\<close>

theorem malloc_gives_block:
  assumes h: "heap (heap_start s) bs A" and nb: "nb \<noteq> 0" "unat nb + 16 \<le> 2 ^ 64"
    and mem: "(\<exists>c\<in>set bs. unat (units_for nb) \<le> snd c) \<or> grantable (heap_start s) (unat (units_for nb))"
  shows "\<exists>r t bs' n. malloc nb s = Some (r + HDR, t) \<and> heap t bs' ((r, n) # A) \<and> unat nb + 16 \<le> 16 * n \<and>
     (\<forall>a\<in>set A. \<forall>x. unat x \<in> bytes a \<longrightarrow> umem t x = umem (heap_start s) x)"
proof -
  let ?s = "heap_start s" and ?n = "unat (units_for nb)"
  have a: "arena ?s bs" using h by (simp add: heap_def)
  obtain r t bs' u us where m: "malloc nb s = Some (r + HDR, t)" "arena u us"
      "span us = span bs \<union> {unat (ubrk ?s)..<unat (ubrk u)}" "unat (ubrk ?s) \<le> unat (ubrk u)"
      "touches (span bs \<union> {unat (ubrk ?s)..<unat (ubrk u)}) ?s u" "taken u us ?n r t bs'"
    using malloc_arena [OF a nb mem] by blast
  have k: "arena t bs'" "span us = span bs' \<union> bytes (r, ?n)" "bytes (r, ?n) \<inter> span bs' = {}"
      "unat (hdr_size (umem t) r) = ?n" "touches (span us) u t" "ubrk t = ubrk u" "ubase u < r" "finish (r, ?n) \<le> unat (ubrk u)"
    using m(6) by (auto simp: taken_def)
  have tt: "touches (span us) ?s t" using m(3,5) k(5) by (simp add: touches_def)
  have ge: "unat (ubrk ?s) \<le> unat (ubrk t)" using m(4) k(6) by simp
  have dis: "bytes b \<inter> span us = {}" if "b \<in> set A" for b
  proof -
    have "bytes b \<inter> span bs = {}" "finish b \<le> unat (ubrk ?s)" using h that by (auto simp: heap_def held_def)
    then show ?thesis unfolding m(3) by (auto simp: bytes_def)
  qed
  have old: "held t bs' b" "\<forall>x. unat x \<in> bytes b \<longrightarrow> umem t x = umem ?s x" if "b \<in> set A" for b
  proof -
    have hb: "held ?s bs b" using h that by (simp add: heap_def)
    have "bytes b \<inter> span bs' = {}" using dis [OF that] k(2) by auto
    from held_step [OF hb tt dis [OF that] this ge]
    show "held t bs' b" "\<forall>x. unat x \<in> bytes b \<longrightarrow> umem t x = umem ?s x" by blast+
  qed
  have n0: "0 < ?n" "unat nb + 16 \<le> 16 * ?n" using unat_units_for [OF nb] by simp_all
  have new: "held t bs' (r, ?n)"
    using n0(1) k tt m(5) by (simp add: held_def touches_def)
  have apart: "bytes (r, ?n) \<inter> bytes b = {}" if "b \<in> set A" for b
    using dis [OF that] k(2) by auto
  have "heap t bs' ((r, ?n) # A)"
    unfolding heap_def
  proof (intro conjI)
    show "\<forall>a\<in>set ((r, ?n) # A). held t bs' a" using new old(1) by simp
    show "pairwise (\<lambda>a b. bytes a \<inter> bytes b = {}) (set ((r, ?n) # A))"
      using h apart by (auto simp: heap_def pairwise_insert Int_commute)
    have "(r, ?n) \<notin> set A" using apart distinct_bytes by blast
    then show "distinct ((r, ?n) # A)" using h by (simp add: heap_def)
  qed (rule k(1))
  then show ?thesis using m(1) n0(2) old(2) by blast
qed

text \<open>
  C5. free of a block the program holds: the call returns, whatever the place of the block in the ring; exactly its bytes
  become free, touching neighbours are one block again, and the other blocks keep their bytes.
\<close>

theorem free_returns_block:
  assumes h: "heap s bs ((r, n) # A)"
  shows "\<exists>t bs'. ufree (r + HDR) s = Some t \<and> heap t bs' A \<and> span bs' = span bs \<union> bytes (r, n) \<and>
     (\<forall>a\<in>set A. \<forall>x. unat x \<in> bytes a \<longrightarrow> umem t x = umem s x)"
proof -
  have b: "held s bs (r, n)" "arena s bs" using h by (simp_all add: heap_def)
  then obtain t bs' where t: "ufree (r + HDR) s = Some t" "arena t bs'" "span bs' = span bs \<union> bytes (r, n)"
      "touches (span bs \<union> bytes (r, n)) s t" "ubrk t = ubrk s"
    using ufree_spec [of s bs r n] by (auto simp: held_def)
  have old: "held t bs' a" "\<forall>x. unat x \<in> bytes a \<longrightarrow> umem t x = umem s x" if a: "a \<in> set A" for a
  proof -
    have ha: "held s bs a" using h a by (simp add: heap_def)
    have "(r, n) \<noteq> a" using h a by (auto simp: heap_def)
    moreover have "pairwise (\<lambda>a b. bytes a \<inter> bytes b = {}) (set ((r, n) # A))" using h unfolding heap_def by blast
    ultimately have "bytes a \<inter> bytes (r, n) = {}" using a unfolding pairwise_def by auto
    then have d: "bytes a \<inter> (span bs \<union> bytes (r, n)) = {}" using ha by (auto simp: held_def)
    from held_step [OF ha t(4) d d [folded t(3)]] t(5)
    show "held t bs' a" "\<forall>x. unat x \<in> bytes a \<longrightarrow> umem t x = umem s x" by auto
  qed
  have "heap t bs' A" using h t(2) old(1) by (auto simp: heap_def pairwise_insert)
  then show ?thesis using t(1,3) old(2) by blast
qed

text \<open>
  The size of a request is cut to 32 bits on its way to the kernel: the first malloc of 4 GiB asks it for 16 bytes and
  returns a pointer to the very end of the heap, with none of the memory it promises behind it.
\<close>

theorem malloc_huge_short:
  assumes s: "freep s = 0" "ubase s \<noteq> 0" "unat (ubase s) + 16 \<le> unat (ubrk s)"
    and lim: "unat (ubrk s) + 16 \<le> unat (ulimit s)" "unat (ulimit s) \<le> 2 ^ 39"
  shows "\<exists>t. malloc 0x100000000 s = Some (ubrk s + HDR, t) \<and> ubrk t = ubrk s + 16"
proof -
  let ?e = "ubase s" and ?p = "ubrk s" and ?N = "268435457 :: u64"
  let ?s = "heap_start s"
  have ap: "apart ?p ?e" "apart ?e ?p" using s(3) lim by (auto simp: apart_def)
  have r16: "unat ?e + 16 \<le> 2 ^ 64" "unat ?p + 16 \<le> 2 ^ 64" using ap by (auto simp: apart_def)
  have lt: "?e < ?p" using s(3) by (simp add: word_less_nat_alt)
  have e: "freep ?s = ?e" "ubrk ?s = ?p" "ubase ?s = ?e" "ulimit ?s = ulimit s" using s(1) by (simp_all add: heap_start_def)
  have h: "hdr_ptr (umem ?s) ?e = ?e" "hdr_size (umem ?s) ?e = 0"
    using s(1) hdr_writes [OF r16(1)] by (simp_all add: heap_start_def)
  define s2 where "s2 = set_size ?p ?N (?s\<lparr>ubrk := ?p + 16\<rparr>)"
  have m2: "hdr_ptr (umem s2) ?e = ?e" "hdr_size (umem s2) ?e = 0" "hdr_size (umem s2) ?p = ?N" "freep s2 = ?e"
    using h e hdr_apart(3,4) [OF ap(1)] hdr_writes(4) [OF r16(2)] by (simp_all add: s2_def)
  have "find_slot ?p ?e (umem s2) = Some ?e"
    using lt by (auto simp: find_slot.simps [of ?p ?e] m2)
  moreover have "?p + HDR * ?N \<noteq> ?e"
  proof -
    have "unat (?p + HDR * ?N) = unat ?p + 16 * 268435457" using lim by (intro unat_end) simp_all
    then show ?thesis using s(3) by auto
  qed
  then have "join_next ?p ?e s2 = set_ptr ?p ?e s2" by (simp add: join_next_def m2)
  moreover have "join_prev ?p ?e (set_ptr ?p ?e s2) = set_ptr ?e ?p (set_ptr ?p ?e s2)"
    using lt hdr_apart(2) [OF ap(1)] by (simp add: join_prev_def m2)
  moreover have "?p + HDR \<noteq> 0" using unat_byte [of ?p 17 16] lim by auto
  moreover define u where "u = (set_ptr ?e ?p (set_ptr ?p ?e s2))\<lparr>freep := ?e\<rparr>"
  ultimately have free: "ufree (?p + HDR) s2 = Some u" by (simp add: ufree_def m2(4) u_def Let_def)
  have nu: "units_for 0x100000000 = ?N" by (simp add: units_for_def)
  have "ucast (HDR * ?N) = (16 :: i32)" by simp
  moreover have "usbrk 16 ?s = (?p, ?s\<lparr>ubrk := ?p + 16\<rparr>)"
    using lim by (simp add: usbrk_def e word_sless_alt)
  ultimately have "usbrk (ucast (HDR * ?N)) ?s = (?p, ?s\<lparr>ubrk := ?p + 16\<rparr>)" by (simp only:)
  moreover have "?p \<noteq> 0" using lt by auto
  ultimately have more: "morecore ?N ?s = Some (?e, u)"
    using free by (simp add: morecore_def s2_def [symmetric] u_def)
  have mu: "hdr_ptr (umem u) ?e = ?p" "hdr_size (umem u) ?p = ?N"
    using hdr_writes(1) [OF r16(1)] hdr_writes(2) [OF r16(2)] hdr_apart(2) [OF ap(2)] m2(3) by (simp_all add: u_def)
  have "malloc 0x100000000 s = malloc_loop ?N ?e ?e ?s"
    by (simp add: malloc_def nu e h)
  also have "\<dots> = malloc_loop ?N ?e ?p u"
    using more s(2) by (simp add: malloc_loop.simps [of ?N ?e ?e] h e mu)
  also have "\<dots> = Some (carve ?N ?e ?p u)"
    by (simp add: malloc_loop.simps [of ?N ?e ?p] mu)
  also have "\<dots> = Some (?p + HDR, (set_ptr ?e (hdr_ptr (umem u) ?p) u)\<lparr>freep := ?e\<rparr>)"
    by (simp add: carve_def mu)
  finally show ?thesis by (simp add: u_def s2_def)
qed

section \<open>Witnesses\<close>

definition demo_heap :: uheap where
  "demo_heap = \<lparr>umem = \<lambda>_. 0, freep = 0, ubase = 0x2000, ubrk = 0x5000, ulimit = 0x100000\<rparr>"

lemma demo_heap_ok: "heap (heap_start demo_heap) [(0x2000, 0)] []" "grantable (heap_start demo_heap) 8"
  using heap_start_fresh [of demo_heap] by (simp_all add: heap_def demo_heap_def grantable_def heap_start_def)

theorem malloc_gives_block_witness:
  "\<exists>r t n bs. malloc 100 demo_heap = Some (r + HDR, t) \<and> heap t bs [(r, n)] \<and> 116 \<le> 16 * n"
proof -
  have "unat (units_for 100) = 8" by (simp add: units_for_def)
  then show ?thesis
    using malloc_gives_block [OF demo_heap_ok(1), of 100] demo_heap_ok(2) by fastforce
qed

lemma demo_held: "heap (set_size 0x3000 4 (heap_start demo_heap)) [(0x2000, 0)] [(0x3000, 4)]"
proof -
  let ?s = "heap_start demo_heap" and ?t = "set_size 0x3000 4 (heap_start demo_heap)"
  have s: "ubase ?s = 0x2000" "ubrk ?s = 0x5000" by (simp_all add: demo_heap_def heap_start_def)
  have W: "umem ?t x = umem ?s x" if "unat x < unat (0x3000 :: u64) \<or> unat (0x3000 :: u64) + 16 \<le> unat x" for x
    using hdr_writes(6) [of "0x3000" x "umem ?s" 4] that by simp
  have a: "arena ?s [(0x2000, 0)]" using demo_heap_ok(1) by (simp add: heap_def)
  then have "links (umem ?s) [(0x2000, 0)] 0x2000" by (simp add: arena_def s del: links.simps)
  then have "links (umem ?t) [(0x2000, 0)] 0x2000"
    by (rule links_off_header [of _ _ _ "0x3000", OF _ _ W]) (simp_all add: below_def finish_def room_def)
  then have "arena ?t [(0x2000, 0)]" using a by (simp add: arena_def s del: links.simps)
  moreover have "held ?t [(0x2000, 0)] (0x3000, 4)"
    using hdr_writes(4) [of "0x3000" "umem ?s" 4] by (simp add: held_def s finish_def room_def bytes_def)
  ultimately show ?thesis by (simp add: heap_def)
qed

theorem free_returns_block_witness:
  "\<exists>t bs. ufree (0x3000 + HDR) (set_size 0x3000 4 (heap_start demo_heap)) = Some t \<and> heap t bs []"
  using free_returns_block [OF demo_held] by blast

theorem malloc_huge_short_witness: "\<exists>t. malloc 0x100000000 demo_heap = Some (0x5010, t) \<and> ubrk t = 0x5010"
  using malloc_huge_short [of demo_heap] by (simp add: demo_heap_def)

end
