(* ===== verification/Usbrk.thy ===== *)
theory Usbrk
  imports Proc Umalloc
begin

text \<open>
  The heap of a user program as the kernel keeps it: \<open>sbrk\<close> of kernel/proc.c does what \<open>usbrk\<close>, the view of the
  allocator of usr/malloc.c, says, and the pages behind the new bytes are mapped.
\<close>

unbundle bit_operations_syntax

text \<open>A process that runs with \<open>sz\<close> bytes mapped from 0x1000 on, and its stack.\<close>

definition heap_of :: "'a kproc_scheme \<Rightarrow> nat \<Rightarrow> u64 list \<Rightarrow> bool" where
  "heap_of s i ps \<longleftrightarrow> cur s = Some i \<and> i < length (procs s) \<and> uspace s (p_pgt (procs s ! i)) ps \<and>
     mapped (mem s) (p_pgt (procs s ! i)) =
       insert (vpath USTACKBOTTOM) (vrange 0x1000 (npages (p_size (procs s ! i))))"

lemma page_at_eq:
  assumes "page_aligned va" "unat va + 4096 * i < 2 ^ 39" "unat va + 4096 * j < 2 ^ 39"
    "vpath (page_at va i) = vpath (page_at va j)"
  shows "i = j"
proof -
  have b: "unat va + 4096 * i < 2 ^ 64" "unat va + 4096 * j < 2 ^ 64" by (rule order.strict_trans [OF assms(2)], simp, rule order.strict_trans [OF assms(3)], simp)
  note u = unat_page_at [OF b(1)] unat_page_at [OF b(2)]
  have "page_at va i = page_at va j"
  proof (rule vpath_inj [OF _ _ _ _ assms(4)])
    show "page_aligned (page_at va i)" "page_aligned (page_at va j)"
      by (rule page_aligned_page_at [OF assms(1) b(1)], rule page_aligned_page_at [OF assms(1) b(2)])
    show "unat (page_at va i) < 2 ^ 39" "unat (page_at va j) < 2 ^ 39" using assms(2,3) by (simp_all only: u)
  qed
  then have "unat va + 4096 * i = unat va + 4096 * j" unfolding u [symmetric] by (rule arg_cong)
  then show ?thesis by simp
qed

text \<open>The pages that \<open>grow_userspace\<close> maps are those that the new size has more.\<close>

lemma grow_count:
  assumes "unat sz \<le> unat nsz" "unat nsz + 4095 < 2 ^ 64"
  shows "npages nsz = npages sz + (if PAGEROUNDUP sz < nsz then npages (nsz - PAGEROUNDUP sz) else 0)"
proof -
  have R: "unat (PAGEROUNDUP sz) = 4096 * npages sz" using assms by (intro unat_PAGEROUNDUP) simp
  show ?thesis
  proof (cases "PAGEROUNDUP sz < nsz")
    case True
    then have "unat (nsz - PAGEROUNDUP sz) = unat nsz - 4096 * npages sz"
      using unat_sub [of "PAGEROUNDUP sz" nsz] R by simp
    moreover have "4096 * npages sz < unat nsz" using True R by (simp add: word_less_nat_alt)
    ultimately show ?thesis using True by (simp add: npages_def)
  next
    case False
    then have "unat nsz \<le> 4096 * npages sz" using R by (simp add: word_less_nat_alt)
    then show ?thesis using False assms(1) by (simp add: npages_def)
  qed
qed

lemma half_range:
  fixes k j :: int
  assumes "0 \<le> k" "k < 4294967296" "j = (k + 2147483648) mod 4294967296 - 2147483648" "0 < j"
  shows "j = k"
proof (cases "k < 2147483648")
  case True
  then have "(k + 2147483648) mod 4294967296 = k + 2147483648" using assms(1) by (intro mod_pos_pos_trivial) simp_all
  then show ?thesis using assms(3) by simp
next
  case False
  then have "(k - 2147483648 + 1 * 4294967296) mod 4294967296 = k - 2147483648"
    unfolding mod_mult_self1 using assms(2) by (intro mod_pos_pos_trivial) simp_all
  then have "j = k - 4294967296" using assms(3) by (simp add: algebra_simps)
  then show ?thesis using assms(2,4) by simp
qed

lemma sint_positive:
  fixes w :: i32
  assumes "0 <s w"
  shows "sint w = int (unat w)" "0 < unat w" "(scast w :: u64) = of_nat (unat w)"
proof -
  have 1: "sint w = (uint w + 2147483648) mod 4294967296 - 2147483648"
    using int_word_sint [of "uint w", where ?'a = 32] by simp
  have 2: "0 \<le> uint w" "uint w < 4294967296" using uint_lt2p [of w] by simp_all
  have 3: "0 < sint w" using assms by (simp add: word_sless_alt)
  have "sint w = uint w" by (rule half_range [OF 2 1 3])
  then show s: "sint w = int (unat w)" by simp
  have "w \<noteq> 0" using 3 by auto
  then show "0 < unat w" by (simp add: unat_gt_0)
  show "(scast w :: u64) = of_nat (unat w)" unfolding scast_eq s by simp
qed

lemma heap_top:
  assumes u: "ubrk u = 0x1000 + sz" "0 <s incr" "unat (ubrk u) + unat incr \<le> unat (ulimit u)"
    and lim: "unat sz + 0x1000 < 2 ^ 39" "unat (ulimit u) + 0x1000 \<le> unat USTACKBOTTOM"
  shows "unat (ubrk u) = 0x1000 + unat sz" "unat (sz + scast incr) = unat sz + unat incr"
    "fst (usbrk incr u) = ubrk u" "ubrk (snd (usbrk incr u)) = 0x1000 + (sz + scast incr)"
proof -
  show a: "unat (ubrk u) = 0x1000 + unat sz" using lim(1) u(1) unat_add_lem [of "0x1000" sz] by simp
  have b: "unat sz + unat incr < 2 ^ 39" using a u(3) lim(2) by simp
  then have "unat (sz + of_nat (unat incr)) = unat sz + unat incr"
    by (intro unat_byte [of _ "unat incr + 1"]) simp_all
  then show "unat (sz + scast incr) = unat sz + unat incr" using sint_positive(3) [OF u(2)] by simp
  show "fst (usbrk incr u) = ubrk u" "ubrk (snd (usbrk incr u)) = 0x1000 + (sz + scast incr)"
    using u by (simp_all add: usbrk_def)
qed

text \<open>
  C32. \<open>sbrk\<close> of a positive amount does to the process what the allocator's view says: it returns the old end of
  the heap and moves the end, and the kernel maps fresh pages up to the new end, changing none of the bytes that were mapped.
\<close>

theorem sbrk_refines_usbrk:
  assumes h: "heap_of s i ps" and u: "ubrk u = 0x1000 + p_size (procs s ! i)" "0 <s incr"
    and room: "unat (ubrk u) + unat incr \<le> unat (ulimit u)" "unat (p_size (procs s ! i)) + 0x1000 < 2 ^ 39"
      "unat (ulimit u) + 0x1000 \<le> unat USTACKBOTTOM" "3 * (unat incr div 4096 + 1) \<le> length ps"
  shows "\<exists>t qs. sbrk incr s = Inr (fst (usbrk incr u), t) \<and> heap_of t i qs \<and>
     ubrk (snd (usbrk incr u)) = 0x1000 + p_size (procs t ! i) \<and>
     (\<forall>ix\<in>mapped (mem s) (p_pgt (procs s ! i)). \<forall>x. in_page (frame (mem s) (p_pgt (procs s ! i)) ix) x \<longrightarrow> mem t x = mem s x)"
proof -
  let ?P = "procs s ! i"
  let ?sz = "p_size ?P" and ?pgt = "p_pgt ?P"
  let ?nsz = "?sz + scast incr" and ?R = "PAGEROUNDUP ?sz"
  note H = heap_top [OF u room(1,2,3)]
  have s: "cur s = Some i" "i < length (procs s)" "uspace s ?pgt ps"
      "mapped (mem s) ?pgt = insert (vpath USTACKBOTTOM) (vrange 0x1000 (npages ?sz))"
    using h by (simp_all add: heap_of_def)
  have lim: "unat ?nsz + 0x2000 \<le> unat USTACKBOTTOM" using H(1,2) room(1,3) by simp
  define a where "a = npages ?sz"
  define n where "n = (if ?R < ?nsz then npages (?nsz - ?R) else 0)"
  have an: "npages ?nsz = a + n"
    unfolding a_def n_def using lim by (intro grow_count) (simp_all add: H(2))
  have R: "unat ?R = 4096 * a" unfolding a_def using room(2) by (intro unat_PAGEROUNDUP) simp
  have top: "0x1000 + 4096 * (a + n) \<le> unat USTACKBOTTOM"
    unfolding an [symmetric] npages_def using lim by simp
  have b39: "0x1000 + 4096 * (a + n) < 2 ^ 39" using top by simp
  have va: "0x1000 + ?R = page_at 0x1000 a" "unat (page_at 0x1000 a) = 0x1000 + 4096 * a"
  proof -
    show "unat (page_at 0x1000 a) = 0x1000 + 4096 * a" using b39 unat_page_at [of "0x1000" a] by simp
    moreover have "unat (0x1000 + ?R) = 0x1000 + 4096 * a" using R b39 unat_add_lem [of "0x1000" ?R] by simp
    ultimately show "0x1000 + ?R = page_at 0x1000 a" by (simp add: word_unat_eq_iff)
  qed
  have al: "page_aligned 0x1000" "page_aligned USTACKBOTTOM" by (simp_all add: page_aligned_def)
  have ala: "page_aligned (page_at 0x1000 a)" using b39 by (intro page_aligned_page_at [OF al(1)]) simp
  have new: "vpath (page_at (page_at 0x1000 a) j) \<notin> mapped (mem s) ?pgt" if j: "j < n" for j
  proof
    assume "vpath (page_at (page_at 0x1000 a) j) \<in> mapped (mem s) ?pgt"
    then have "vpath (page_at 0x1000 (a + j)) = vpath USTACKBOTTOM \<or> (\<exists>k<a. vpath (page_at 0x1000 (a + j)) = vpath (page_at 0x1000 k))"
      by (auto simp: s(4) page_at_add vrange_def a_def)
    then show False
    proof
      assume v: "vpath (page_at 0x1000 (a + j)) = vpath USTACKBOTTOM"
      have uj: "unat (page_at 0x1000 (a + j)) = 0x1000 + 4096 * (a + j)"
        using b39 j unat_page_at [of "0x1000" "a + j"] by simp
      have "page_at 0x1000 (a + j) = USTACKBOTTOM"
      proof (rule vpath_inj [OF _ al(2) _ _ v])
        show "page_aligned (page_at 0x1000 (a + j))" using b39 j by (intro page_aligned_page_at [OF al(1)]) simp
        show "unat (page_at 0x1000 (a + j)) < 2 ^ 39" using uj b39 j by simp
      qed simp
      then have "unat USTACKBOTTOM = 0x1000 + 4096 * (a + j)" using uj by simp
      then show False using top j by simp
    next
      assume "\<exists>k<a. vpath (page_at 0x1000 (a + j)) = vpath (page_at 0x1000 k)"
      then obtain k where k: "k < a" "vpath (page_at 0x1000 (a + j)) = vpath (page_at 0x1000 k)" by blast
      have "a + j = k" by (rule page_at_eq [OF al(1) _ _ k(2)]) (use b39 j k(1) in simp_all)
      then show False using k(1) by simp
    qed
  qed
  have len: "3 * n \<le> length ps"
  proof -
    have "npages ?nsz \<le> npages ?sz + (unat incr div 4096 + 1)" unfolding npages_def H(2) by linarith
    then show ?thesis using an room(4) by (simp add: a_def)
  qed
  have b: "unat (page_at 0x1000 a) + 4096 * n \<le> 2 ^ 39" using va(2) b39 by simp
  obtain t qs where t: "alloc_pages n ?pgt (page_at 0x1000 a) PTE_UDATA s = Inr (True, t)"
      "ugrows ?pgt (vrange (page_at 0x1000 a) n) s ps t qs"
    using alloc_pages_spec [OF s(3) len ala b PTE_PA_attr(2) new] by blast
  have fr: "procs t = procs s" "cur t = cur s"
    using t(2) kmem_frame_kproc [of s t] by (simp_all add: ugrows_def)
  let ?t = "upd_proc i (\<lambda>p. p\<lparr>p_size := p_size p + scast incr\<rparr>) t"
  have pt: "p_size (procs ?t ! i) = ?nsz" "p_pgt (procs ?t ! i) = ?pgt" "length (procs ?t) = length (procs s)"
    using fr s(2) by simp_all
  have "grow_userspace ?pgt 0x1000 ?sz ?nsz s = Inr (ubrk u, t)"
    using t(1) u(1) by (simp add: grow_userspace_def Let_def va(1) n_def [symmetric])
  then have run: "sbrk incr s = Inr (fst (usbrk incr u), ?t)"
    using u(2) by (simp add: sbrk_def myproc_def s(1) Let_def H(3))
  have fu: "free_pages t qs" using t(2) by (simp add: ugrows_def uspace_def aspace_def)
  have us: "uspace ?t ?pgt qs"
    using uspace_agree(1) [of t ?pgt qs ?t qs] ugrows_uspace [OF t(2)] fu by simp
  have "mapped (mem ?t) ?pgt = insert (vpath USTACKBOTTOM) (vrange 0x1000 (npages ?nsz))"
    using t(2) s(4) by (simp add: ugrows_def an vrange_append a_def)
  then have "heap_of ?t i qs" using us pt s fr by (simp add: heap_of_def)
  moreover have "\<forall>ix\<in>mapped (mem s) ?pgt. \<forall>x. in_page (frame (mem s) ?pgt ix) x \<longrightarrow> mem ?t x = mem s x"
    using ugrows_frame(1) [OF s(3) t(2)] by simp
  moreover have "ubrk (snd (usbrk incr u)) = 0x1000 + p_size (procs ?t ! i)" unfolding pt(1) by (rule H(4))
  ultimately show ?thesis using run by blast
qed

text \<open>A process with one page, about to grow its heap by 16 bytes.\<close>

definition grower :: "u64 \<Rightarrow> kmem \<Rightarrow> kproc" where
  "grower pgt k = (boot_kproc [zero_proc\<lparr>p_state := RUNNING, p_size := 4096, p_pgt := pgt\<rparr>])\<lparr>mem := mem k,
     freelist := freelist k, cur := Some 0\<rparr>"

theorem sbrk_refines_usbrk_witness:
  "\<exists>(s :: kproc) t. sbrk 16 s = Inr (0x2000, t) \<and> p_size (procs t ! 0) = 0x1010"
proof -
  obtain r ps and k :: kmem where k: "uspace k r ps" "mapped (mem k) r = insert (vpath USTACKBOTTOM) (vrange 0x1000 1)"
      "13 \<le> length ps" "foot (mem k) r \<subseteq> set pages20" "set ps \<subseteq> set pages20"
    by (rule image20)
  let ?s = "grower r k" and ?u = "demo_heap\<lparr>ubrk := 0x2000\<rparr>"
  have s: "mem ?s = mem k" "freelist ?s = freelist k" "cur ?s = Some 0" "lock_free KallocLk ?s"
      "procs ?s = [zero_proc\<lparr>p_state := RUNNING, p_size := 4096, p_pgt := r\<rparr>]"
    using boot_kproc_simps(5) [of KallocLk "[zero_proc\<lparr>p_state := RUNNING, p_size := 4096, p_pgt := r\<rparr>]"]
    by (simp_all add: grower_def lock_free_def)
  have fp: "free_pages ?s ps" using k(1) s by (simp add: uspace_def aspace_def free_pages_def)
  have us: "uspace ?s r ps" using uspace_agree(1) [OF k(1) _ fp subset_refl] s(1) by simp
  have n: "npages 4096 = 1" by (simp add: npages_def)
  have h: "heap_of ?s 0 ps" using us k(2) s by (simp add: heap_of_def n)
  have incr: "0 <s (16 :: i32)" by (simp add: word_sless_alt)
  have u: "usbrk 16 ?u = (0x2000, ?u\<lparr>ubrk := 0x2010\<rparr>)" using incr by (simp add: usbrk_def demo_heap_def)
  obtain t where "sbrk 16 ?s = Inr (fst (usbrk 16 ?u), t)"
      "ubrk (snd (usbrk 16 ?u)) = 0x1000 + p_size (procs t ! 0)"
    using sbrk_refines_usbrk [OF h _ incr, of ?u] k(3) by (auto simp: s(5) demo_heap_def)
  moreover from this have "p_size (procs t ! 0) = 0x1010" by (simp add: u algebra_simps)
  ultimately show ?thesis using u by auto
qed

end
