(* ===== verification/Virtio.thy ===== *)
theory Virtio
  imports Proc "HOL-Library.Multiset"
begin

text \<open>
  kernel/driver/virtio.c: the virtio block driver. The split queue (descriptors, available and
  used ring, per-request \<open>info\<close>) is a set of lists; a data pointer is the index of the cache
  buffer it points into, and \<open>bdata\<close> holds the 1024 bytes of every such buffer, because the
  device writes them.

  The device is not part of the repository. What it does to the medium is the field \<open>dev\<close> of
  the state, a function nothing in the code changes; \<open>serve\<close> is the part of the virtio protocol
  the driver relies on: the device takes the chains of the available ring in order and returns
  their heads in the used ring.
\<close>

unbundle bit_operations_syntax

section \<open>The queue\<close>

abbreviation NQUEUE :: nat where "NQUEUE \<equiv> 8"

datatype dptr = NoPtr | HdrPtr u32 u64 | BufPtr nat | StatusPtr nat

record vdesc =
  d_addr :: dptr
  d_len :: u32
  d_flags :: u16
  d_next :: nat

abbreviation F_NEXT :: u16 where "F_NEXT \<equiv> 1"
abbreviation F_WRITE :: u16 where "F_WRITE \<equiv> 2"

record vinfo =
  vi_status :: u8
  vi_done :: bool
  vi_buf :: "nat option"

type_synonym platter = "u64 \<Rightarrow> u8 list"

record kdisk = kproc +
  vdescs :: "vdesc list"
  vavail_idx :: u16
  vavail :: "nat list"
  vused_idx :: u16
  vused :: "nat list"
  free_head :: nat
  nfree :: nat
  last_used :: u16
  vinfos :: "vinfo list"
  bdata :: "nat \<Rightarrow> u8 list"
  platter :: platter
  dev :: "u32 \<Rightarrow> u64 \<Rightarrow> u8 list \<Rightarrow> platter \<Rightarrow> u8 list \<times> u8 \<times> platter"

datatype diskop = DREAD | DWRITE

definition has_next :: "vdesc \<Rightarrow> bool" where
  "has_next d \<longleftrightarrow> d_flags d AND F_NEXT \<noteq> 0"

definition desc_init :: "vdesc list" where
  "desc_init = map (\<lambda>i. if i \<noteq> NQUEUE - 1
     then \<lparr>d_addr = NoPtr, d_len = 0, d_flags = F_NEXT, d_next = i + 1\<rparr>
     else \<lparr>d_addr = NoPtr, d_len = 0, d_flags = 0, d_next = 0\<rparr>) [0..<NQUEUE]"

definition alloc_desc :: "'a kdisk_scheme \<Rightarrow> (nat \<times> 'a kdisk_scheme) res" where
  "alloc_desc s =
     (if nfree s = 0 then Inl (Panic ''virtq kokatu'')
      else
        let d = free_head s;
            s = (if has_next (vdescs s ! d) then s\<lparr>free_head := d_next (vdescs s ! d)\<rparr> else s)
        in Inr (d, s\<lparr>nfree := nfree s - 1\<rparr>))"

text \<open>
  The loop of \<open>free_desc\<close> counts the descriptors of the chain and ends at its last one; \<open>k\<close>
  bounds it for chains that run in a circle.
\<close>

fun chain_end :: "nat \<Rightarrow> vdesc list \<Rightarrow> nat \<Rightarrow> nat \<Rightarrow> (nat \<times> nat) option" where
  "chain_end 0 D n c = None"
| "chain_end (Suc k) D n c =
     (if has_next (D ! n) then chain_end k D (d_next (D ! n)) (c + 1) else Some (n, c + 1))"

definition free_desc :: "nat \<Rightarrow> 'a kdisk_scheme \<Rightarrow> 'a kdisk_scheme res" where
  "free_desc n s =
     (let head = n; empty = nfree s = 0 in
      case chain_end NQUEUE (vdescs s) n (nfree s) of
        None \<Rightarrow> Inl Runaway
      | Some (n, c) \<Rightarrow>
          let d = (vdescs s ! n)\<lparr>d_flags := F_NEXT\<rparr>;
              d = (if empty then d else d\<lparr>d_next := free_head s\<rparr>)
          in Inr (s\<lparr>vdescs := (vdescs s)[n := d], nfree := c, free_head := head\<rparr>))"

text \<open>
  The rings are kept as lists; \<open>virtq_init\<close> answers the addresses of the pages they lie in, which \<open>virtio_init\<close> tells the device.
\<close>

definition virtq_init :: "'a kdisk_scheme \<Rightarrow> ((u64 \<times> u64 \<times> u64) \<times> 'a kdisk_scheme) res" where
  "virtq_init s =
     bnd (kalloc s) (\<lambda>(desc, s). bnd (kalloc s) (\<lambda>(avail, s). bnd (kalloc s) (\<lambda>(used, s).
       if desc = 0 \<or> avail = 0 \<or> used = 0 then Inl (Panic ''virtq init failed'')
       else Inr ((desc, avail, used), s\<lparr>vdescs := desc_init, vavail_idx := 0, vavail := replicate NQUEUE 0,
                    vused_idx := 0, vused := replicate NQUEUE 0, free_head := 0, nfree := NQUEUE,
                    last_used := 0,
                    vinfos := replicate NQUEUE \<lparr>vi_status = 0, vi_done = False, vi_buf = None\<rparr>\<rparr>))))"

section \<open>A request\<close>

definition upd_desc :: "nat \<Rightarrow> (vdesc \<Rightarrow> vdesc) \<Rightarrow> 'a kdisk_scheme \<Rightarrow> 'a kdisk_scheme" where
  "upd_desc d f s = s\<lparr>vdescs := (vdescs s)[d := f (vdescs s ! d)]\<rparr>"

definition upd_info :: "nat \<Rightarrow> (vinfo \<Rightarrow> vinfo) \<Rightarrow> 'a kdisk_scheme \<Rightarrow> 'a kdisk_scheme" where
  "upd_info d f s = s\<lparr>vinfos := (vinfos s)[d := f (vinfos s ! d)]\<rparr>"

text \<open>\<open>virtio_blk_op\<close> up to the notification of the device.\<close>

definition blk_submit :: "u64 \<Rightarrow> nat \<Rightarrow> diskop \<Rightarrow> 'a kdisk_scheme \<Rightarrow> (nat \<times> 'a kdisk_scheme) res" where
  "blk_submit bno buf op s =
     (let sector = bno * 2; ty = (case op of DREAD \<Rightarrow> 0 | DWRITE \<Rightarrow> 1) in
      bnd (acquire DiskLk s) (\<lambda>s.
      bnd (alloc_desc s) (\<lambda>(d0, s).
      let s = upd_desc d0 (\<lambda>d. d\<lparr>d_addr := HdrPtr ty sector, d_len := 16, d_flags := F_NEXT\<rparr>) s in
      bnd (alloc_desc s) (\<lambda>(d1, s).
      let s = upd_desc d0 (\<lambda>d. d\<lparr>d_next := d1\<rparr>) s;
          s = upd_desc d1 (\<lambda>d. d\<lparr>d_addr := BufPtr buf, d_len := 1024,
                d_flags := (case op of DREAD \<Rightarrow> F_NEXT OR F_WRITE | DWRITE \<Rightarrow> F_NEXT)\<rparr>) s in
      bnd (alloc_desc s) (\<lambda>(d2, s).
      let s = upd_desc d1 (\<lambda>d. d\<lparr>d_next := d2\<rparr>) s;
          s = upd_desc d2 (\<lambda>d. d\<lparr>d_addr := StatusPtr d0, d_len := 1, d_flags := F_WRITE, d_next := 0\<rparr>) s;
          s = s\<lparr>vavail := (vavail s)[unat (vavail_idx s) mod NQUEUE := d0], vavail_idx := vavail_idx s + 1\<rparr>;
          s = upd_info d0 (\<lambda>v. v\<lparr>vi_buf := Some buf\<rparr>) s
      in Inr (d0, s))))))"

text \<open>The end of \<open>virtio_blk_op\<close>, after the wait.\<close>

definition blk_finish :: "nat \<Rightarrow> 'a kdisk_scheme \<Rightarrow> 'a kdisk_scheme res" where
  "blk_finish d0 s =
     bnd (free_desc d0 (upd_info d0 (\<lambda>v. v\<lparr>vi_done := False\<rparr>) s)) (release DiskLk)"

text \<open>
  The interrupt handler; its loop runs once for every used entry it has not seen, \<open>n\<close> of them.
\<close>

fun intr_loop :: "nat \<Rightarrow> 'a kdisk_scheme \<Rightarrow> 'a kdisk_scheme res" where
  "intr_loop 0 s = Inr s"
| "intr_loop (Suc n) s =
     (let d0 = vused s ! (unat (last_used s) mod NQUEUE) in
      if vi_status (vinfos s ! d0) \<noteq> 0 then Inl (Panic ''disk op error'')
      else
        bnd (wakeup (map_option ChanBuf (vi_buf (vinfos s ! d0)))
               (upd_info d0 (\<lambda>v. v\<lparr>vi_done := True\<rparr>) s)) (\<lambda>s.
          intr_loop n ((upd_info d0 (\<lambda>v. v\<lparr>vi_buf := None\<rparr>) s)\<lparr>last_used := last_used s + 1\<rparr>)))"

definition virtio_blk_intr :: "'a kdisk_scheme \<Rightarrow> 'a kdisk_scheme res" where
  "virtio_blk_intr s =
     bnd (acquire DiskLk s) (\<lambda>s.
     bnd (intr_loop (unat (vused_idx s - last_used s)) s) (release DiskLk))"

text \<open>
  The device serves the next chain of the available ring, as the virtio protocol has it.
\<close>

definition serve :: "'a kdisk_scheme \<Rightarrow> 'a kdisk_scheme" where
  "serve s =
     (if vused_idx s = vavail_idx s then s
      else
        let d0 = vavail s ! (unat (vused_idx s) mod NQUEUE);
            d1 = d_next (vdescs s ! d0); d2 = d_next (vdescs s ! d1)
        in case (d_addr (vdescs s ! d0), d_addr (vdescs s ! d1), d_addr (vdescs s ! d2)) of
             (HdrPtr ty sec, BufPtr b, StatusPtr k) \<Rightarrow>
               let (bytes, st, pl) = dev s ty sec (bdata s b) (platter s);
                   s = (if d_flags (vdescs s ! d1) AND F_WRITE \<noteq> 0
                        then s\<lparr>bdata := (bdata s)(b := bytes)\<rparr> else s);
                   s = upd_info k (\<lambda>v. v\<lparr>vi_status := st\<rparr>) s
               in s\<lparr>platter := pl, vused := (vused s)[unat (vused_idx s) mod NQUEUE := d0],
                     vused_idx := vused_idx s + 1\<rparr>
           | _ \<Rightarrow> s)"

text \<open>
  The whole of \<open>virtio_blk_op\<close> on a machine where the device answers while the caller sleeps and
  no other process runs in between: one turn of \<open>while(!done) sleep(buf, &disk.lk)\<close> is the
  caller's \<open>sleep\<close> up to its \<open>cswitch\<close>, the scheduler leaving its section, the device, the
  interrupt, the scheduler picking the caller again, and the rest of \<open>sleep\<close>.
\<close>

definition sleep_turn :: "nat \<Rightarrow> 'a kdisk_scheme \<Rightarrow> 'a kdisk_scheme res" where
  "sleep_turn buf s =
     bnd (myproc s) (\<lambda>me.
     bnd (sleep_enter (Some (ChanBuf buf)) DiskLk s) (\<lambda>s.
     bnd (schedule_leave (switch_back s)) (\<lambda>s.
     bnd (virtio_blk_intr (serve s)) (\<lambda>s.
     bnd (schedule_enter s) (\<lambda>s.
     if p_state (procs s ! me) \<noteq> RUNNABLE then Inl Runaway
     else bnd (dispatch me s) (\<lambda>s.
     bnd (sleep_exit me DiskLk s) (\<lambda>(killed, s).
       if killed then Inl Exits else Inr s)))))))"

definition virtio_blk_op :: "u64 \<Rightarrow> nat \<Rightarrow> diskop \<Rightarrow> 'a kdisk_scheme \<Rightarrow> (int \<times> 'a kdisk_scheme) res" where
  "virtio_blk_op bno buf op s =
     bnd (blk_submit bno buf op s) (\<lambda>(d0, s).
     bnd (if vi_done (vinfos s ! d0) then Inr s else sleep_turn buf s) (\<lambda>s.
     if \<not> vi_done (vinfos s ! d0) then Inl Runaway
     else bnd (blk_finish d0 s) (\<lambda>s. Inr (0, s))))"


section \<open>Frame lemmas\<close>

lemma locked_kdisk [simp]:
  "vdescs (locked L s) = vdescs s" "vavail_idx (locked L s) = vavail_idx s" "vavail (locked L s) = vavail s"
  "vused_idx (locked L s) = vused_idx s" "vused (locked L s) = vused s" "free_head (locked L s) = free_head s"
  "nfree (locked L s) = nfree s" "last_used (locked L s) = last_used s" "vinfos (locked L s) = vinfos s"
  "bdata (locked L s) = bdata s" "platter (locked L s) = platter s" "dev (locked L s) = dev s"
  by (simp_all add: locked_def set_lock_def pushcli_def Let_def)

lemma cli_mark_kdisk [simp]:
  "vdescs (cli_mark s) = vdescs s" "vavail_idx (cli_mark s) = vavail_idx s" "vavail (cli_mark s) = vavail s"
  "vused_idx (cli_mark s) = vused_idx s" "vused (cli_mark s) = vused s" "free_head (cli_mark s) = free_head s"
  "nfree (cli_mark s) = nfree s" "last_used (cli_mark s) = last_used s" "vinfos (cli_mark s) = vinfos s"
  "bdata (cli_mark s) = bdata s" "platter (cli_mark s) = platter s" "dev (cli_mark s) = dev s"
  by (simp_all add: cli_mark_def)

lemma locked_kdisk_upd:
  "(locked L s)\<lparr>vdescs := a\<rparr> = locked L (s\<lparr>vdescs := a\<rparr>)"
  "(locked L s)\<lparr>vavail_idx := b\<rparr> = locked L (s\<lparr>vavail_idx := b\<rparr>)"
  "(locked L s)\<lparr>vavail := c\<rparr> = locked L (s\<lparr>vavail := c\<rparr>)"
  "(locked L s)\<lparr>free_head := d\<rparr> = locked L (s\<lparr>free_head := d\<rparr>)"
  "(locked L s)\<lparr>nfree := e\<rparr> = locked L (s\<lparr>nfree := e\<rparr>)"
  "(locked L s)\<lparr>last_used := g\<rparr> = locked L (s\<lparr>last_used := g\<rparr>)"
  "(locked L s)\<lparr>vinfos := h\<rparr> = locked L (s\<lparr>vinfos := h\<rparr>)"
  by (simp_all add: locked_def set_lock_def pushcli_def Let_def)

lemma lock_free_kdisk [simp]:
  "lock_free L (s\<lparr>vdescs := a\<rparr>) = lock_free L s" "lock_free L (s\<lparr>vavail_idx := b\<rparr>) = lock_free L s"
  "lock_free L (s\<lparr>vavail := c\<rparr>) = lock_free L s" "lock_free L (s\<lparr>free_head := d\<rparr>) = lock_free L s"
  "lock_free L (s\<lparr>nfree := e\<rparr>) = lock_free L s" "lock_free L (s\<lparr>last_used := g\<rparr>) = lock_free L s"
  "lock_free L (s\<lparr>vinfos := h\<rparr>) = lock_free L s" "lock_free L (s\<lparr>vused := i\<rparr>) = lock_free L s"
  "lock_free L (s\<lparr>vused_idx := j\<rparr>) = lock_free L s" "lock_free L (s\<lparr>bdata := k\<rparr>) = lock_free L s"
  "lock_free L (s\<lparr>platter := l\<rparr>) = lock_free L s"
  by (simp_all add: lock_free_def)

text \<open>Handing one lock over for another, and sections inside a section.\<close>

lemma release_under:
  "K \<noteq> L \<Longrightarrow> lock_free L s \<Longrightarrow> release L (locked K (locked L s)) = Inr (locked K s)"
  by (cases s)
    (auto simp: release_def popcli_def locked_def lock_free_def holding_def pushcli_def set_lock_def Let_def fun_eq_iff)

lemma cli_mark_locked [simp]: "cli_mark (locked L s) = locked L s"
  by (simp add: cli_mark_def locked_def pushcli_def Let_def)

section \<open>Free descriptors and chains in flight\<close>

text \<open>\<open>dchain D h ds\<close>: following \<open>next\<close> from \<open>h\<close> through flagged descriptors gives \<open>ds\<close>.\<close>

fun dchain :: "vdesc list \<Rightarrow> nat \<Rightarrow> nat list \<Rightarrow> bool" where
  "dchain D h [] = True"
| "dchain D h (d # ds) \<longleftrightarrow> h = d \<and> (ds \<noteq> [] \<longrightarrow> has_next (D ! d) \<and> dchain D (d_next (D ! d)) ds)"

text \<open>A request: three linked descriptors, the last one not flagged.\<close>

definition in_flight :: "vdesc list \<Rightarrow> nat \<times> nat \<times> nat \<Rightarrow> bool" where
  "in_flight D c = (case c of (d0, d1, d2) \<Rightarrow>
     has_next (D ! d0) \<and> d_next (D ! d0) = d1 \<and> has_next (D ! d1) \<and> d_next (D ! d1) = d2 \<and> \<not> has_next (D ! d2))"

definition chain_set :: "(nat \<times> nat \<times> nat) list \<Rightarrow> nat list" where
  "chain_set F = concat (map (\<lambda>(a, b, c). [a, b, c]) F)"

text \<open>
  The invariant of the queue: the descriptors not on the free list belong to the requests in
  flight \<open>F\<close>, three each.
\<close>

definition queue_ok :: "(nat \<times> nat \<times> nat) list \<Rightarrow> nat list \<Rightarrow> 'a kdisk_scheme \<Rightarrow> bool" where
  "queue_ok F fs s \<longleftrightarrow> length (vdescs s) = NQUEUE \<and> nfree s = length fs \<and>
     dchain (vdescs s) (free_head s) fs \<and> (\<forall>c\<in>set F. in_flight (vdescs s) c) \<and>
     distinct (fs @ chain_set F) \<and> set (fs @ chain_set F) = {..<NQUEUE}"

lemma dchain_cong: "dchain D h ds \<Longrightarrow> (\<And>d. d \<in> set ds \<Longrightarrow> E ! d = D ! d) \<Longrightarrow> dchain E h ds"
  by (induction D h ds rule: dchain.induct) auto

lemma dchain_upd: "dchain D h ds \<Longrightarrow> d \<notin> set ds \<Longrightarrow> dchain (D[d := x]) h ds"
  by (induction D h ds rule: dchain.induct) auto

lemma in_flight_cong:
  "in_flight D (a, b, c) \<Longrightarrow> E ! a = D ! a \<Longrightarrow> E ! b = D ! b \<Longrightarrow> E ! c = D ! c \<Longrightarrow> in_flight E (a, b, c)"
  by (simp add: in_flight_def)

lemma chain_set_simps [simp]:
  "chain_set [] = []" "chain_set ((a, b, c) # F) = [a, b, c] @ chain_set F"
  by (simp_all add: chain_set_def)

lemma chain_set_mem: "(a, b, c) \<in> set F \<Longrightarrow> {a, b, c} \<subseteq> set (chain_set F)"
  by (induction F) (auto simp: chain_set_def)

lemma queue_ok_count: "queue_ok F fs s \<Longrightarrow> length fs + 3 * length F = NQUEUE"
proof -
  assume "queue_ok F fs s"
  then have "length (fs @ chain_set F) = card {..<NQUEUE}"
    unfolding queue_ok_def by (metis distinct_card)
  moreover have "length (chain_set F) = 3 * length F" by (induction F) (auto simp: chain_set_def)
  ultimately show ?thesis by simp
qed

lemma has_next_flags [simp]:
  "has_next (d\<lparr>d_flags := 1\<rparr>)" "has_next (d\<lparr>d_flags := 3\<rparr>)" "\<not> has_next (d\<lparr>d_flags := 2\<rparr>)"
  by (simp_all add: has_next_def)

lemma has_next_upd [simp]:
  "has_next (d\<lparr>d_addr := a\<rparr>) = has_next d" "has_next (d\<lparr>d_len := l\<rparr>) = has_next d"
  "has_next (d\<lparr>d_next := n\<rparr>) = has_next d"
  by (simp_all add: has_next_def)

lemma desc_init_ok:
  "dchain desc_init 0 [0..<NQUEUE]" "length desc_init = NQUEUE"
  by (simp_all add: desc_init_def upt_rec has_next_def)


lemma alloc_desc_takes:
  assumes "dchain (vdescs s) (free_head s) (d # ds)" "nfree s = length (d # ds)"
  shows "\<exists>h. alloc_desc s = Inr (d, s\<lparr>free_head := h, nfree := length ds\<rparr>) \<and> dchain (vdescs s) h ds"
proof -
  let ?h = "if has_next (vdescs s ! d) then d_next (vdescs s ! d) else free_head s"
  have "dchain (vdescs s) ?h ds" using assms(1) by (cases "ds = []") auto
  moreover have "alloc_desc s = Inr (d, s\<lparr>free_head := ?h, nfree := length ds\<rparr>)"
    using assms by (auto simp: alloc_desc_def Let_def)
  ultimately show ?thesis by blast
qed

lemma alloc_desc_locked:
  "alloc_desc (locked L s) = map_sum id (\<lambda>(d, t). (d, locked L t)) (alloc_desc s)"
  by (simp add: alloc_desc_def Let_def locked_kdisk_upd)

lemma upd_desc_locked: "upd_desc d f (locked L s) = locked L (upd_desc d f s)"
  by (simp add: upd_desc_def locked_kdisk_upd)

lemma upd_info_locked: "upd_info d f (locked L s) = locked L (upd_info d f s)"
  by (simp add: upd_info_def locked_kdisk_upd)

text \<open>The three descriptors of a request, as \<open>blk_submit\<close> leaves them.\<close>

definition req_type :: "diskop \<Rightarrow> u32" where
  "req_type op = (case op of DREAD \<Rightarrow> 0 | DWRITE \<Rightarrow> 1)"

definition request :: "u64 \<Rightarrow> nat \<Rightarrow> diskop \<Rightarrow> nat \<Rightarrow> nat \<Rightarrow> nat \<Rightarrow> vdesc list \<Rightarrow> vdesc list" where
  "request bno buf op d0 d1 d2 D =
     D[d0 := \<lparr>d_addr = HdrPtr (req_type op) (bno * 2), d_len = 16, d_flags = F_NEXT, d_next = d1\<rparr>,
       d1 := \<lparr>d_addr = BufPtr buf, d_len = 1024,
              d_flags = (case op of DREAD \<Rightarrow> F_NEXT OR F_WRITE | DWRITE \<Rightarrow> F_NEXT), d_next = d2\<rparr>,
       d2 := \<lparr>d_addr = StatusPtr d0, d_len = 1, d_flags = F_WRITE, d_next = 0\<rparr>]"

lemma request_nth:
  assumes "distinct [d0, d1, d2]" "{d0, d1, d2} \<subseteq> {..<length D}"
  shows "request bno buf op d0 d1 d2 D ! d0 =
      \<lparr>d_addr = HdrPtr (req_type op) (bno * 2), d_len = 16, d_flags = F_NEXT, d_next = d1\<rparr>"
    "request bno buf op d0 d1 d2 D ! d1 = \<lparr>d_addr = BufPtr buf, d_len = 1024,
      d_flags = (case op of DREAD \<Rightarrow> F_NEXT OR F_WRITE | DWRITE \<Rightarrow> F_NEXT), d_next = d2\<rparr>"
    "request bno buf op d0 d1 d2 D ! d2 = \<lparr>d_addr = StatusPtr d0, d_len = 1, d_flags = F_WRITE, d_next = 0\<rparr>"
    "\<And>k. k \<notin> {d0, d1, d2} \<Longrightarrow> request bno buf op d0 d1 d2 D ! k = D ! k"
    "length (request bno buf op d0 d1 d2 D) = length D"
  using assms by (auto simp: request_def nth_list_update)

definition submitted :: "u64 \<Rightarrow> nat \<Rightarrow> diskop \<Rightarrow> nat \<times> nat \<times> nat \<Rightarrow> nat \<Rightarrow> 'a kdisk_scheme \<Rightarrow> 'a kdisk_scheme" where
  "submitted bno buf op c h s = (case c of (d0, d1, d2) \<Rightarrow>
     s\<lparr>vdescs := request bno buf op d0 d1 d2 (vdescs s), free_head := h, nfree := nfree s - 3,
       vavail := (vavail s)[unat (vavail_idx s) mod NQUEUE := d0], vavail_idx := vavail_idx s + 1,
       vinfos := (vinfos s)[d0 := (vinfos s ! d0)\<lparr>vi_buf := Some buf\<rparr>]\<rparr>)"

lemma request_steps:
  fixes D :: "vdesc list"
  assumes "distinct [d0, d1, d2]" "{d0, d1, d2} \<subseteq> {..<length D}"
  shows "(let D1 = D[d0 := (D ! d0)\<lparr>d_addr := HdrPtr ty sec, d_len := l, d_flags := f0\<rparr>];
              D2 = D1[d0 := (D1 ! d0)\<lparr>d_next := d1\<rparr>];
              D3 = D2[d1 := (D2 ! d1)\<lparr>d_addr := BufPtr buf, d_len := l1, d_flags := f1\<rparr>];
              D4 = D3[d1 := (D3 ! d1)\<lparr>d_next := d2\<rparr>]
          in D4[d2 := (D4 ! d2)\<lparr>d_addr := StatusPtr d0, d_len := l2, d_flags := f2, d_next := 0\<rparr>]) =
     D[d0 := \<lparr>d_addr = HdrPtr ty sec, d_len = l, d_flags = f0, d_next = d1\<rparr>,
       d1 := \<lparr>d_addr = BufPtr buf, d_len = l1, d_flags = f1, d_next = d2\<rparr>,
       d2 := \<lparr>d_addr = StatusPtr d0, d_len = l2, d_flags = f2, d_next = 0\<rparr>]"
  using assms unfolding Let_def by (intro nth_equalityI) (auto simp: nth_list_update)

lemma blk_submit_queue:
  assumes lk: "lock_free DiskLk s" and q: "queue_ok F (d0 # d1 # d2 # fs) s"
  shows "\<exists>h. blk_submit bno buf op s = Inr (d0, locked DiskLk (submitted bno buf op (d0, d1, d2) h s)) \<and>
     queue_ok ((d0, d1, d2) # F) fs (submitted bno buf op (d0, d1, d2) h s)"
proof -
  note q' = q [unfolded queue_ok_def]
  have ds: "distinct [d0, d1, d2]" "{d0, d1, d2} \<subseteq> {..<length (vdescs s)}" using q' by auto
  have ne: "d0 \<noteq> d1" "d0 \<noteq> d2" "d1 \<noteq> d2" "d0 \<notin> set fs" "d1 \<notin> set fs" "d2 \<notin> set fs"
      "{d0, d1, d2} \<inter> set (chain_set F) = {}"
    using q' by auto
  let ?D1 = "(vdescs s)[d0 := (vdescs s ! d0)\<lparr>d_addr := HdrPtr (req_type op) (bno * 2), d_len := 16, d_flags := F_NEXT\<rparr>]"
  let ?D2 = "?D1[d0 := (?D1 ! d0)\<lparr>d_next := d1\<rparr>]"
  let ?D3 = "?D2[d1 := (?D2 ! d1)\<lparr>d_addr := BufPtr buf, d_len := 1024,
                d_flags := (case op of DREAD \<Rightarrow> F_NEXT OR F_WRITE | DWRITE \<Rightarrow> F_NEXT)\<rparr>]"
  obtain h1 where a1: "alloc_desc s = Inr (d0, s\<lparr>free_head := h1, nfree := length (d1 # d2 # fs)\<rparr>)"
      "dchain (vdescs s) h1 (d1 # d2 # fs)"
    using alloc_desc_takes [of s d0 "d1 # d2 # fs"] q' by auto
  let ?s1 = "s\<lparr>free_head := h1, nfree := length (d1 # d2 # fs), vdescs := ?D1\<rparr>"
  have c1: "dchain ?D1 h1 (d1 # d2 # fs)"
    by (rule dchain_upd [OF a1(2)]) (use ne in simp)
  obtain h2 where a2: "alloc_desc ?s1 = Inr (d1, ?s1\<lparr>free_head := h2, nfree := length (d2 # fs)\<rparr>)"
      "dchain ?D1 h2 (d2 # fs)"
    using alloc_desc_takes [of ?s1 d1 "d2 # fs"] c1 by auto
  let ?s2 = "?s1\<lparr>free_head := h2, nfree := length (d2 # fs), vdescs := ?D3\<rparr>"
  have c2: "dchain ?D3 h2 (d2 # fs)"
    by (intro dchain_upd a2(2)) (use ne in simp_all)
  obtain h3 where a3: "alloc_desc ?s2 = Inr (d2, ?s2\<lparr>free_head := h3, nfree := length fs\<rparr>)"
      "dchain ?D3 h3 fs"
    using alloc_desc_takes [of ?s2 d2 fs] c2 by auto
  let ?D = "request bno buf op d0 d1 d2 (vdescs s)"
  let ?t = "submitted bno buf op (d0, d1, d2) h3 s"
  have D: "?D = (let D4 = ?D3[d1 := (?D3 ! d1)\<lparr>d_next := d2\<rparr>] in
      D4[d2 := (D4 ! d2)\<lparr>d_addr := StatusPtr d0, d_len := 1, d_flags := F_WRITE, d_next := 0\<rparr>])"
    using request_steps [OF ds] by (simp add: request_def Let_def)
  have sub: "blk_submit bno buf op s = Inr (d0, locked DiskLk ?t)"
    using lk a1(1) a2(1) a3(1) q' D
    apply (simp add: blk_submit_def Let_def alloc_desc_locked upd_desc_locked upd_desc_def upd_info_locked upd_info_def submitted_def locked_kdisk_upd req_type_def)
    apply (rule arg_cong [where f = "locked DiskLk"])
    apply simp
    done
  note rn = request_nth [OF ds]
  have "dchain ?D h3 fs"
    unfolding D Let_def by (intro dchain_upd a3(2)) (use ne in simp_all)
  moreover have "in_flight ?D c" if c: "c \<in> set F" for c
  proof -
    obtain x y z where xyz: "c = (x, y, z)" by (cases c)
    have dis: "{x, y, z} \<inter> {d0, d1, d2} = {}" using chain_set_mem [of x y z F] c ne(7) unfolding xyz by blast
    have "in_flight (vdescs s) (x, y, z)" using q' c xyz by blast
    then show ?thesis unfolding xyz by (rule in_flight_cong) (rule rn(4), use dis in blast)+
  qed
  moreover have "in_flight ?D (d0, d1, d2)"
    by (simp add: in_flight_def rn(1-3) has_next_def split: diskop.split)
  ultimately have "queue_ok ((d0, d1, d2) # F) fs ?t"
    using q' unfolding queue_ok_def submitted_def by (auto simp: rn(5))
  with sub show ?thesis by blast
qed


lemma queue_ok_split:
  "queue_ok (F @ c # G) fs s \<longleftrightarrow> queue_ok (c # F @ G) fs s"
proof -
  have s: "chain_set (F @ c # G) = chain_set F @ chain_set [c] @ chain_set G"
      "chain_set (c # F @ G) = chain_set [c] @ chain_set F @ chain_set G"
    by (simp_all add: chain_set_def)
  have d: "distinct (fs @ a @ b @ c) = distinct (fs @ b @ a @ c)" "set (fs @ a @ b @ c) = set (fs @ b @ a @ c)"
    for a b c by auto
  show ?thesis unfolding queue_ok_def s using d by simp
qed

lemma blk_submit_full:
  assumes lk: "lock_free DiskLk s" and n: "nfree s = length fs" "length fs < 3"
    and c: "dchain (vdescs s) (free_head s) fs" "distinct fs"
  shows "blk_submit bno buf op s = Inl (Panic ''virtq kokatu'')"
proof -
  have z: "nfree s = 0 \<Longrightarrow> alloc_desc s = Inl (Panic ''virtq kokatu'')" for s :: "'a kdisk_scheme"
    by (simp add: alloc_desc_def)
  consider "fs = []" | a where "fs = [a]" | a b where "fs = [a, b]"
    using n(2) by (cases fs rule: remdups_adj.cases) (auto simp: less_Suc_eq numeral_3_eq_3)
  then show ?thesis
  proof cases
    case 1
    then show ?thesis using lk n by (simp add: blk_submit_def Let_def alloc_desc_locked z)
  next
    case 2
    then obtain h where "alloc_desc s = Inr (a, s\<lparr>free_head := h, nfree := 0\<rparr>)"
      using alloc_desc_takes [of s a "[]"] n c by auto
    then show ?thesis using lk by (simp add: blk_submit_def Let_def alloc_desc_locked upd_desc_locked upd_desc_def locked_kdisk_upd z)
  next
    case 3
    then obtain h where h: "alloc_desc s = Inr (a, s\<lparr>free_head := h, nfree := 1\<rparr>)" "dchain (vdescs s) h [b]"
      using alloc_desc_takes [of s a "[b]"] n c by auto
    let ?s1 = "\<lambda>D. s\<lparr>free_head := h, nfree := 1, vdescs := D\<rparr>"
    have "\<exists>h'. alloc_desc (?s1 D) = Inr (b, (?s1 D)\<lparr>free_head := h', nfree := 0\<rparr>)" for D
      using alloc_desc_takes [of "?s1 D" b "[]"] h(2) by auto
    then obtain h' where "\<And>D. alloc_desc (?s1 D) = Inr (b, (?s1 D)\<lparr>free_head := h' D, nfree := 0\<rparr>)" by metis
    then show ?thesis using lk h(1)
      by (simp add: blk_submit_def Let_def alloc_desc_locked upd_desc_locked upd_desc_def locked_kdisk_upd z)
  qed
qed

definition finished :: "nat \<times> nat \<times> nat \<Rightarrow> 'a kdisk_scheme \<Rightarrow> 'a kdisk_scheme" where
  "finished c s = (case c of (d0, d1, d2) \<Rightarrow>
     let d = (vdescs s ! d2)\<lparr>d_flags := F_NEXT\<rparr>;
         d = (if nfree s = 0 then d else d\<lparr>d_next := free_head s\<rparr>)
     in s\<lparr>vdescs := (vdescs s)[d2 := d], nfree := nfree s + 3, free_head := d0\<rparr>)"

lemma free_desc_chain:
  assumes "in_flight (vdescs s) (d0, d1, d2)"
  shows "free_desc d0 s = Inr (finished (d0, d1, d2) s)"
  using assms by (simp add: free_desc_def finished_def in_flight_def Let_def numeral_eq_Suc)

lemma queue_ok_finished:
  assumes q: "queue_ok ((d0, d1, d2) # F) fs s"
  shows "queue_ok F (d0 # d1 # d2 # fs) (finished (d0, d1, d2) s)"
proof -
  note q' = q [unfolded queue_ok_def]
  have inf: "in_flight (vdescs s) (d0, d1, d2)" using q' by simp
  have ne: "d0 \<noteq> d1" "d0 \<noteq> d2" "d1 \<noteq> d2" "d0 \<notin> set fs" "d1 \<notin> set fs" "d2 \<notin> set fs"
      "d2 < length (vdescs s)" "{d0, d1, d2} \<inter> set (chain_set F) = {}"
    using q' by auto
  let ?D = "vdescs (finished (d0, d1, d2) s)"
  have D: "\<exists>x. ?D = (vdescs s)[d2 := x] \<and> has_next x \<and> (fs \<noteq> [] \<longrightarrow> d_next x = free_head s)"
    using q' by (auto simp: finished_def Let_def)
  then obtain x where x: "?D = (vdescs s)[d2 := x]" "has_next x" "fs \<noteq> [] \<longrightarrow> d_next x = free_head s" by blast
  have fs: "dchain ?D (free_head s) fs" unfolding x(1) by (intro dchain_upd) (use q' ne in auto)
  have "?D ! d2 = x" "?D ! d0 = vdescs s ! d0" "?D ! d1 = vdescs s ! d1" using x(1) ne by auto
  then have "dchain ?D d0 (d0 # d1 # d2 # fs)" using inf x(2,3) fs by (auto simp: in_flight_def)
  moreover have "in_flight ?D c" if c: "c \<in> set F" for c
  proof -
    obtain a b e where abe: "c = (a, b, e)" by (cases c)
    have dis: "d2 \<notin> {a, b, e}" using chain_set_mem [of a b e F] c ne(8) unfolding abe by blast
    have "in_flight (vdescs s) (a, b, e)" using q' c abe by simp
    then show ?thesis unfolding abe x(1) by (rule in_flight_cong) (use dis in auto)
  qed
  ultimately show ?thesis using q' unfolding queue_ok_def by (auto simp: finished_def Let_def)
qed


section \<open>One whole request\<close>

lemma wakeup_acquired_kdisk [simp]:
  "vdescs (wakeup_acquired c s) = vdescs s" "vinfos (wakeup_acquired c s) = vinfos s"
  "vused (wakeup_acquired c s) = vused s" "last_used (wakeup_acquired c s) = last_used s"
  "vused_idx (wakeup_acquired c s) = vused_idx s" "bdata (wakeup_acquired c s) = bdata s"
  by (simp_all add: wakeup_acquired_def)

lemma wakeup_locked:
  "L \<noteq> ProctableLk \<Longrightarrow> lock_free ProctableLk s \<Longrightarrow>
     wakeup ch (locked L s) = Inr (locked L (wakeup_acquired ch s))"
  using release_locked [of ProctableLk "wakeup_acquired ch (locked L s)"]
  by (simp add: wakeup_def locked_table_ops)

lemma upd_info_simps [simp]:
  "lock_free L (upd_info d f s) = lock_free L s" "vused (upd_info d f s) = vused s"
  "vused_idx (upd_info d f s) = vused_idx s" "last_used (upd_info d f s) = last_used s"
  "vinfos (upd_info d f s) = (vinfos s)[d := f (vinfos s ! d)]" "nfree (upd_info d f s) = nfree s"
  "vdescs (upd_info d f s) = vdescs s" "free_head (upd_info d f s) = free_head s"
  "vavail (upd_info d f s) = vavail s" "vavail_idx (upd_info d f s) = vavail_idx s"
  by (simp_all add: upd_info_def)

text \<open>The interrupt of one finished request.\<close>

lemma virtio_blk_intr_one:
  assumes lk: "lock_free DiskLk s" "lock_free ProctableLk s"
    and used: "vused_idx s = last_used s + 1" "vused s ! (unat (last_used s) mod NQUEUE) = d0"
    and d0: "d0 < length (vinfos s)" "vi_status (vinfos s ! d0) = 0"
  shows "virtio_blk_intr s = Inr (cli_mark ((wakeup_acquired (map_option ChanBuf (vi_buf (vinfos s ! d0))) s)
     \<lparr>vinfos := (vinfos s)[d0 := (vinfos s ! d0)\<lparr>vi_done := True, vi_buf := None\<rparr>],
      last_used := last_used s + 1\<rparr>))"
proof -
  let ?ch = "map_option ChanBuf (vi_buf (vinfos s ! d0))"
  let ?t = "(wakeup_acquired ?ch s)
     \<lparr>vinfos := (vinfos s)[d0 := (vinfos s ! d0)\<lparr>vi_done := True, vi_buf := None\<rparr>],
      last_used := last_used s + 1\<rparr>"
  have n: "unat (vused_idx s - last_used s) = Suc 0" using used(1) by simp
  have lk2: "lock_free ProctableLk (upd_info d0 (\<lambda>v. v\<lparr>vi_done := True\<rparr>) s)" using lk by simp
  have t: "(upd_info d0 (\<lambda>v. v\<lparr>vi_buf := None\<rparr>) (wakeup_acquired ?ch (upd_info d0 (\<lambda>v. v\<lparr>vi_done := True\<rparr>) s)))
      \<lparr>last_used := last_used s + 1\<rparr> = ?t"
    using d0(1) by (simp add: upd_info_def wakeup_acquired_def)
  have "intr_loop (Suc 0) (locked DiskLk s) = Inr (locked DiskLk ?t)"
    using used(2) d0(2) t wakeup_locked [OF _ lk2, of DiskLk ?ch]
    by (simp add: upd_info_locked locked_kdisk_upd)
  then show ?thesis using n lk(1) release_locked [of DiskLk ?t]
    by (simp add: virtio_blk_intr_def)
qed

text \<open>The caller's way into its sleep, and out of it.\<close>

definition dozing :: "nat \<Rightarrow> nat \<Rightarrow> 'a kproc_scheme \<Rightarrow> 'a kproc_scheme" where
  "dozing me buf s = cli_mark (switch_back
     (upd_proc me (\<lambda>p. p\<lparr>p_chan := Some (ChanBuf buf), p_state := SLEEPING\<rparr>) s))"

lemma sleep_down:
  assumes "lock_free DiskLk s" "lock_free ProctableLk s" "cur s = Some me"
  shows "bnd (sleep_enter (Some (ChanBuf buf)) DiskLk (locked DiskLk s)) (\<lambda>s. schedule_leave (switch_back s)) =
     Inr (dozing me buf s)"
  using assms
  by (simp add: sleep_enter_def myproc_def release_under locked_kproc_upd locked_table_ops schedule_leave_def
      release_locked dozing_def)

definition resumed :: "nat \<Rightarrow> 'a kproc_scheme \<Rightarrow> 'a kproc_scheme" where
  "resumed me s = upd_proc me (\<lambda>p. p\<lparr>p_state := RUNNING, p_chan := None\<rparr>)
     (s\<lparr>cur := Some me, ttbr0 := V2P (p_pgt (procs s ! me)), intr_enabled := True, irq_on := True\<rparr>)"

lemma sleep_up:
  assumes lk: "lock_free DiskLk s" "lock_free ProctableLk s" and d: "cli_depth s = 0"
    and me: "me < length (procs s)" "p_state (procs s ! me) = RUNNABLE" "p_pgt (procs s ! me) \<noteq> 0"
      "p_sig (procs s ! me) = 0"
  shows "bnd (schedule_enter s) (\<lambda>s. if p_state (procs s ! me) \<noteq> RUNNABLE then Inl Runaway
     else bnd (dispatch me s) (\<lambda>s. bnd (sleep_exit me DiskLk s) (\<lambda>(killed, s).
       if killed then Inl Exits else Inr s))) = Inr (locked DiskLk (resumed me s))"
proof -
  let ?s1 = "s\<lparr>irq_on := True\<rparr>"
  let ?s2 = "upd_proc me (\<lambda>p. p\<lparr>p_state := RUNNING\<rparr>) (s\<lparr>irq_on := True, cur := Some me, ttbr0 := V2P (p_pgt (procs s ! me))\<rparr>)"
  have e: "schedule_enter s = Inr (locked ProctableLk ?s1)"
    using lk by (simp add: schedule_enter_def lock_free_def)
  have dp: "dispatch me (locked ProctableLk ?s1) = Inr (locked ProctableLk ?s2)"
    using me by (simp add: dispatch_def load_userspace_def locked_def set_lock_def pushcli_def upd_proc_def Let_def)
  have f: "lock_free ProctableLk (upd_proc me (\<lambda>p. p\<lparr>p_chan := None\<rparr>) ?s2)"
      "lock_free DiskLk (cli_mark (upd_proc me (\<lambda>p. p\<lparr>p_chan := None\<rparr>) ?s2))"
    using lk by (simp_all add: lock_free_def)
  have r: "cli_mark (upd_proc me (\<lambda>p. p\<lparr>p_chan := None\<rparr>) ?s2) = resumed me s"
    using d me by (simp add: cli_mark_def resumed_def upd_proc_def)
  have "sleep_exit me DiskLk (locked ProctableLk ?s2) = Inr (False, locked DiskLk (resumed me s))"
    using release_locked [OF f(1)] f(2) me
    unfolding sleep_exit_def locked_kproc_upd by (simp add: r sigcheck_def) (simp add: resumed_def)
  then show ?thesis using me dp by (simp add: e)
qed


text \<open>
  A machine on which the disk is idle and the caller, process \<open>me\<close>, is alone: the queue holds no
  request, both locks are free, no signal is pending and nobody sleeps on a buffer.
\<close>

definition queue_idle :: "'a kdisk_scheme \<Rightarrow> bool" where
  "queue_idle s \<longleftrightarrow> (\<exists>fs. queue_ok [] fs s) \<and> vused_idx s = vavail_idx s \<and> last_used s = vused_idx s \<and>
     length (vavail s) = NQUEUE \<and> length (vused s) = NQUEUE \<and> length (vinfos s) = NQUEUE \<and>
     (\<forall>d<NQUEUE. \<not> vi_done (vinfos s ! d))"

definition caller_ok :: "nat \<Rightarrow> 'a kproc_scheme \<Rightarrow> bool" where
  "caller_ok me s \<longleftrightarrow> cur s = Some me \<and> me < length (procs s) \<and> cli_depth s = 0 \<and>
     lock_free DiskLk s \<and> lock_free ProctableLk s \<and>
     p_state (procs s ! me) = RUNNING \<and> p_chan (procs s ! me) = None \<and> p_sig (procs s ! me) = 0 \<and>
     p_pgt (procs s ! me) \<noteq> 0 \<and> ttbr0 s = V2P (p_pgt (procs s ! me)) \<and>
     (\<forall>p\<in>set (procs s). p_state p = SLEEPING \<longrightarrow> (\<forall>b. p_chan p \<noteq> Some (ChanBuf b)))"

definition disk_ready :: "nat \<Rightarrow> 'a kdisk_scheme \<Rightarrow> bool" where
  "disk_ready me s \<longleftrightarrow> queue_idle s \<and> caller_ok me s"

text \<open>What a request may change besides the medium and the buffers: the queue and the interrupt state.\<close>

definition disk_frame :: "'a kdisk_scheme \<Rightarrow> 'a kdisk_scheme \<Rightarrow> bool" where
  "disk_frame s t \<longleftrightarrow> t = s\<lparr>irq_on := irq_on t, intr_enabled := intr_enabled t,
     vdescs := vdescs t, vavail_idx := vavail_idx t, vavail := vavail t, vused_idx := vused_idx t,
     vused := vused t, free_head := free_head t, nfree := nfree t, last_used := last_used t,
     vinfos := vinfos t, bdata := bdata t, platter := platter t\<rparr>"

definition answer :: "diskop \<Rightarrow> u64 \<Rightarrow> nat \<Rightarrow> 'a kdisk_scheme \<Rightarrow> u8 list \<times> u8 \<times> platter" where
  "answer op bno b s = dev s (req_type op) (bno * 2) (bdata s b) (platter s)"

definition served :: "diskop \<Rightarrow> nat \<Rightarrow> nat \<Rightarrow> u8 list \<times> u8 \<times> platter \<Rightarrow> 'a kdisk_scheme \<Rightarrow> 'a kdisk_scheme" where
  "served op d0 b r s = (case r of (bytes, st, pl) \<Rightarrow>
     s\<lparr>bdata := (case op of DREAD \<Rightarrow> (bdata s)(b := bytes) | DWRITE \<Rightarrow> bdata s),
       vinfos := (vinfos s)[d0 := (vinfos s ! d0)\<lparr>vi_status := st\<rparr>], platter := pl,
       vused := (vused s)[unat (vused_idx s) mod NQUEUE := d0], vused_idx := vused_idx s + 1\<rparr>)"

lemma serve_one:
  assumes idx: "vavail_idx s = vused_idx s + 1" "vavail s ! (unat (vused_idx s) mod NQUEUE) = d0"
    and D: "vdescs s = request bno b op d0 d1 d2 D"
    and ds: "distinct [d0, d1, d2]" "{d0, d1, d2} \<subseteq> {..<length D}"
  shows "serve s = served op d0 b (answer op bno b s) s"
proof -
  note rn = request_nth [OF ds]
  have "vused_idx s \<noteq> vavail_idx s" using idx(1) by simp
  then show ?thesis
    by (cases "answer op bno b s"; cases op)
      (simp_all add: serve_def served_def D rn(1-3) idx(2) answer_def Let_def upd_info_def)
qed


lemma procs_back:
  assumes "me < length ps" "p_state (ps ! me) = RUNNING" "p_chan (ps ! me) = None"
    and "\<forall>p\<in>set ps. p_state p = SLEEPING \<longrightarrow> (\<forall>b. p_chan p \<noteq> Some (ChanBuf b))"
    and qs: "qs = map (\<lambda>p. if p_state p = SLEEPING \<and> p_chan p = Some (ChanBuf b) then p\<lparr>p_state := RUNNABLE\<rparr> else p)
      (ps[me := (ps ! me)\<lparr>p_chan := Some (ChanBuf b), p_state := SLEEPING\<rparr>])"
  shows "qs[me := (qs ! me)\<lparr>p_state := RUNNING, p_chan := None\<rparr>] = ps"
    "qs ! me = (ps ! me)\<lparr>p_chan := Some (ChanBuf b), p_state := RUNNABLE\<rparr>" "length qs = length ps"
proof -
  show me: "qs ! me = (ps ! me)\<lparr>p_chan := Some (ChanBuf b), p_state := RUNNABLE\<rparr>" "length qs = length ps"
    using assms(1) by (simp_all add: qs)
  show "qs[me := (qs ! me)\<lparr>p_state := RUNNING, p_chan := None\<rparr>] = ps"
  proof (rule nth_equalityI)
    fix j assume j: "j < length (qs[me := (qs ! me)\<lparr>p_state := RUNNING, p_chan := None\<rparr>])"
    show "qs[me := (qs ! me)\<lparr>p_state := RUNNING, p_chan := None\<rparr>] ! j = ps ! j"
    proof (cases "j = me")
      case True
      then show ?thesis using me assms(1-3) by simp
    next
      case False
      have "ps ! j \<in> set ps" using j me by simp
      then have "\<not> (p_state (ps ! j) = SLEEPING \<and> p_chan (ps ! j) = Some (ChanBuf b))" using assms(4) by blast
      then show ?thesis using False j me by (auto simp: qs)
    qed
  qed (simp add: me)
qed

lemma dozing_simps [simp]:
  "procs (dozing me b s) = (procs s)[me := (procs s ! me)\<lparr>p_chan := Some (ChanBuf b), p_state := SLEEPING\<rparr>]"
  "cli_depth (dozing me b s) = cli_depth s" "lock_free L (dozing me b s) = lock_free L s"
  by (simp_all add: dozing_def lock_free_def) (simp add: switch_back_def forget_userspace_def)

lemma dozing_kdisk [simp]:
  "vdescs (dozing me b s) = vdescs s" "vavail_idx (dozing me b s) = vavail_idx s"
  "vavail (dozing me b s) = vavail s" "vused_idx (dozing me b s) = vused_idx s"
  "vused (dozing me b s) = vused s" "last_used (dozing me b s) = last_used s"
  "vinfos (dozing me b s) = vinfos s" "bdata (dozing me b s) = bdata s" "platter (dozing me b s) = platter s"
  "dev (dozing me b s) = dev s" "nfree (dozing me b s) = nfree s" "free_head (dozing me b s) = free_head s"
  by (simp_all add: dozing_def cli_mark_def switch_back_def forget_userspace_def upd_proc_def)

lemma served_simps [simp]:
  "procs (served op d b r s) = procs s" "cli_depth (served op d b r s) = cli_depth s"
  "lock_free L (served op d b r s) = lock_free L s" "vdescs (served op d b r s) = vdescs s"
  "last_used (served op d b r s) = last_used s" "vused_idx (served op d b r s) = vused_idx s + 1"
  "vused (served op d b r s) = (vused s)[unat (vused_idx s) mod NQUEUE := d]"
  "vinfos (served op d b r s) = (vinfos s)[d := (vinfos s ! d)\<lparr>vi_status := fst (snd r)\<rparr>]"
  "nfree (served op d b r s) = nfree s" "free_head (served op d b r s) = free_head s"
  by (cases r; cases op; simp add: served_def lock_free_def)+

lemma submitted_simps [simp]:
  "procs (submitted bno b op c h s) = procs s" "cli_depth (submitted bno b op c h s) = cli_depth s"
  "cur (submitted bno b op c h s) = cur s"
  "lock_free L (submitted bno b op c h s) = lock_free L s" "last_used (submitted bno b op c h s) = last_used s"
  "vused_idx (submitted bno b op c h s) = vused_idx s" "vused (submitted bno b op c h s) = vused s"
  "vavail_idx (submitted bno b op c h s) = vavail_idx s + 1"
  "vavail (submitted bno b op c h s) = (vavail s)[unat (vavail_idx s) mod NQUEUE := fst c]"
  "vinfos (submitted bno b op c h s) = (vinfos s)[fst c := (vinfos s ! fst c)\<lparr>vi_buf := Some b\<rparr>]"
  "bdata (submitted bno b op c h s) = bdata s" "platter (submitted bno b op c h s) = platter s"
  "dev (submitted bno b op c h s) = dev s"
  by (cases c; simp add: submitted_def lock_free_def)+

lemma disk_frameI:
  assumes "cpuid t = cpuid s" "locks t = locks s" "mem t = mem s" "freelist t = freelist s"
    "next_pid t = next_pid s" "initproc t = initproc s" "dev t = dev s" "kdisk.more t = kdisk.more s"
    "procs t = procs s" "cur t = cur s" "ttbr0 t = ttbr0 s" "cli_depth t = cli_depth s"
  shows "disk_frame s t"
  using assms by (cases s; cases t) (simp add: disk_frame_def)

text \<open>
  The answer of the device arrives: the caller, once dispatched again, holds the disk lock and
  its request is marked done.
\<close>

lemma sleep_turn_served:
  fixes s :: "'a kdisk_scheme"
  assumes co: "caller_ok me s" and d0: "d0 < length (vinfos s)" "vi_buf (vinfos s ! d0) = Some b"
    and used: "last_used s = vused_idx s" "length (vused s) = NQUEUE"
    and srv: "serve (dozing me b s) = served op d0 b (bytes, 0, pl) (dozing me b s)"
  shows "\<exists>t. sleep_turn b (locked DiskLk s) = Inr (locked DiskLk t) \<and> caller_ok me t \<and> disk_frame s t \<and>
     vdescs t = vdescs s \<and> vavail_idx t = vavail_idx s \<and> vavail t = vavail s \<and> vused_idx t = vused_idx s + 1 \<and>
     last_used t = vused_idx s + 1 \<and> length (vused t) = NQUEUE \<and> free_head t = free_head s \<and> nfree t = nfree s \<and>
     vinfos t = (vinfos s)[d0 := (vinfos s ! d0)\<lparr>vi_status := 0, vi_done := True, vi_buf := None\<rparr>] \<and>
     bdata t = (case op of DREAD \<Rightarrow> (bdata s)(b := bytes) | DWRITE \<Rightarrow> bdata s) \<and> platter t = pl"
proof -
  note co' = co [unfolded caller_ok_def]
  let ?s2 = "dozing me b s" and ?r = "(bytes, 0 :: u8, pl)"
  let ?s3 = "served op d0 b ?r ?s2"
  let ?s4 = "cli_mark ((wakeup_acquired (Some (ChanBuf b)) ?s3)
     \<lparr>vinfos := (vinfos ?s3)[d0 := (vinfos ?s3 ! d0)\<lparr>vi_done := True, vi_buf := None\<rparr>], last_used := last_used ?s3 + 1\<rparr>)"
  let ?t = "resumed me ?s4"
  have i: "virtio_blk_intr ?s3 = Inr ?s4"
    using virtio_blk_intr_one [of ?s3 d0] co' used d0 by simp
  have ps4: "procs ?s4 = map (\<lambda>p. if p_state p = SLEEPING \<and> p_chan p = Some (ChanBuf b) then p\<lparr>p_state := RUNNABLE\<rparr> else p)
      ((procs s)[me := (procs s ! me)\<lparr>p_chan := Some (ChanBuf b), p_state := SLEEPING\<rparr>])"
    by (simp add: wakeup_acquired_def)
  have cme: "me < length (procs s)" "p_state (procs s ! me) = RUNNING" "p_chan (procs s ! me) = None"
      "\<forall>p\<in>set (procs s). p_state p = SLEEPING \<longrightarrow> (\<forall>b. p_chan p \<noteq> Some (ChanBuf b))"
    using co' by blast+
  note pb = procs_back [OF cme ps4]
  have me4: "procs ?s4 ! me = (procs s ! me)\<lparr>p_chan := Some (ChanBuf b), p_state := RUNNABLE\<rparr>"
      "length (procs ?s4) = length (procs s)"
      "(procs ?s4)[me := (procs ?s4 ! me)\<lparr>p_state := RUNNING, p_chan := None\<rparr>] = procs s"
    by (rule pb(2), rule pb(3), rule pb(1))
  have dep: "cli_depth ?s4 = 0" using co' by (simp add: wakeup_acquired_def)
  have lf: "lock_free DiskLk ?s4" "lock_free ProctableLk ?s4" using co' by simp_all
  have up: "bnd (schedule_enter ?s4) (\<lambda>s. if p_state (procs s ! me) \<noteq> RUNNABLE then Inl Runaway
     else bnd (dispatch me s) (\<lambda>s. bnd (sleep_exit me DiskLk s) (\<lambda>(killed, s).
       if killed then Inl Exits else Inr s))) = Inr (locked DiskLk ?t)"
    by (intro sleep_up lf dep; unfold me4(1,2); use co' in simp)
  have down: "bnd (sleep_enter (Some (ChanBuf b)) DiskLk (locked DiskLk s)) (\<lambda>s. schedule_leave (switch_back s)) = Inr ?s2"
    using co' by (intro sleep_down) auto
  have "sleep_turn b (locked DiskLk s) =
     bnd (bnd (sleep_enter (Some (ChanBuf b)) DiskLk (locked DiskLk s)) (\<lambda>s. schedule_leave (switch_back s)))
      (\<lambda>s. bnd (virtio_blk_intr (serve s)) (\<lambda>s. bnd (schedule_enter s) (\<lambda>s. if p_state (procs s ! me) \<noteq> RUNNABLE then Inl Runaway
     else bnd (dispatch me s) (\<lambda>s. bnd (sleep_exit me DiskLk s) (\<lambda>(killed, s).
       if killed then Inl Exits else Inr s)))))"
    using co' by (simp add: sleep_turn_def myproc_def bnd_assoc)
  also have "\<dots> = Inr (locked DiskLk ?t)" unfolding down by (simp only: bnd.simps srv i up)
  finally have run: "sleep_turn b (locked DiskLk s) = Inr (locked DiskLk ?t)" .
  have pst: "procs ?t = procs s" using me4(3) by (simp add: resumed_def del: cli_mark_kproc)
  have cu: "cur ?t = cur s" "ttbr0 ?t = ttbr0 s" "cli_depth ?t = cli_depth s"
    using co' dep unfolding resumed_def me4(1) by simp_all
  have fs: "cpuid ?t = cpuid s" "locks ?t = locks s" "mem ?t = mem s" "freelist ?t = freelist s"
      "next_pid ?t = next_pid s" "initproc ?t = initproc s" "dev ?t = dev s" "kdisk.more ?t = kdisk.more s"
      "vdescs ?t = vdescs s" "vavail_idx ?t = vavail_idx s" "vavail ?t = vavail s" "free_head ?t = free_head s"
      "nfree ?t = nfree s" "platter ?t = pl"
      "bdata ?t = (case op of DREAD \<Rightarrow> (bdata s)(b := bytes) | DWRITE \<Rightarrow> bdata s)"
    by (simp_all add: resumed_def dozing_def served_def wakeup_acquired_def switch_back_def forget_userspace_def
        upd_proc_def cli_mark_def split: diskop.split)
  have fr: "disk_frame s ?t" by (intro disk_frameI fs pst cu)
  moreover have "caller_ok me ?t" using co' unfolding caller_ok_def lock_free_def pst cu fs by blast
  moreover have "vused_idx ?t = vused_idx s + 1" "last_used ?t = vused_idx s + 1" "length (vused ?t) = NQUEUE"
      "vinfos ?t = (vinfos s)[d0 := (vinfos s ! d0)\<lparr>vi_status := 0, vi_done := True, vi_buf := None\<rparr>]"
    using used d0 by (simp_all add: resumed_def upd_proc_def)
  ultimately show ?thesis using run fs by blast
qed


lemma disk_frame_trans: "disk_frame s t \<Longrightarrow> disk_frame t u \<Longrightarrow> disk_frame s u"
  by (cases s; cases t; cases u) (simp add: disk_frame_def)

lemma disk_frame_refl [simp]: "disk_frame s s"
  by (simp add: disk_frame_def)

lemma disk_frame_submitted: "disk_frame s (submitted bno b op c h s)"
  by (cases c) (rule disk_frameI; simp add: submitted_def)

lemma disk_frame_finished: "disk_frame s (cli_mark (finished c (upd_info d f s)))"
  by (cases c) (rule disk_frameI; simp add: finished_def upd_info_def Let_def cli_mark_def)

lemma free_desc_locked:
  "free_desc n (locked L s) = map_sum id (locked L) (free_desc n s)"
  by (simp add: free_desc_def Let_def locked_kdisk_upd split: option.split)

lemma caller_ok_frame:
  assumes "caller_ok me s" "disk_frame s t"
  shows "caller_ok me t"
proof -
  have "cur t = cur s" "procs t = procs s" "cli_depth t = cli_depth s" "locks t = locks s" "ttbr0 t = ttbr0 s"
    by (subst assms(2) [unfolded disk_frame_def], simp)+
  then show ?thesis using assms(1) by (simp add: caller_ok_def lock_free_def)
qed

lemma virtio_blk_op_ok:
  assumes rd: "disk_ready me s" and ans: "answer op bno b s = (bytes, 0, pl)"
  shows "\<exists>t. virtio_blk_op bno b op s = Inr (0, t) \<and> disk_ready me t \<and> disk_frame s t \<and>
     bdata t = (case op of DREAD \<Rightarrow> (bdata s)(b := bytes) | DWRITE \<Rightarrow> bdata s) \<and> platter t = pl"
proof -
  have qi: "queue_idle s" and co: "caller_ok me s" using rd by (auto simp: disk_ready_def)
  note qi' = qi [unfolded queue_idle_def]
  obtain fs0 where q0: "queue_ok [] fs0 s" using qi' by blast
  have "length fs0 = 8" using queue_ok_count [OF q0] by simp
  then obtain d0 d1 d2 fs where fs: "fs0 = d0 # d1 # d2 # fs" by (auto simp: length_Suc_conv numeral_eq_Suc)
  have lkD: "lock_free DiskLk s" using co by (simp add: caller_ok_def)
  obtain h where sub: "blk_submit bno b op s = Inr (d0, locked DiskLk (submitted bno b op (d0, d1, d2) h s))"
      and q1: "queue_ok [(d0, d1, d2)] fs (submitted bno b op (d0, d1, d2) h s)"
    using blk_submit_queue [OF lkD q0 [unfolded fs]] by blast
  let ?s1 = "submitted bno b op (d0, d1, d2) h s"
  have ds: "distinct [d0, d1, d2]" "{d0, d1, d2} \<subseteq> {..<length (vdescs s)}" "d0 < NQUEUE"
    using q0 unfolding queue_ok_def fs by auto
  have v1: "d0 < length (vinfos ?s1)" "vi_buf (vinfos ?s1 ! d0) = Some b" "\<not> vi_done (vinfos ?s1 ! d0)"
    using qi' ds(3) by auto
  have "serve (dozing me b ?s1) = served op d0 b (answer op bno b (dozing me b ?s1)) (dozing me b ?s1)"
    by (rule serve_one [where D = "vdescs s", OF _ _ _ ds(1,2)]) (use qi' in \<open>simp_all add: submitted_def\<close>)
  moreover have "answer op bno b (dozing me b ?s1) = (bytes, 0, pl)" using ans by (simp add: answer_def)
  ultimately have srv: "serve (dozing me b ?s1) = served op d0 b (bytes, 0, pl) (dozing me b ?s1)" by simp
  have co1: "caller_ok me ?s1" by (rule caller_ok_frame [OF co disk_frame_submitted])
  have u1: "last_used ?s1 = vused_idx ?s1" "length (vused ?s1) = NQUEUE" using qi' by simp_all
  from sleep_turn_served [OF co1 v1(1,2) u1 srv] obtain t where t:
      "sleep_turn b (locked DiskLk ?s1) = Inr (locked DiskLk t)" "caller_ok me t" "disk_frame ?s1 t"
      "vdescs t = vdescs ?s1" "vavail_idx t = vavail_idx ?s1" "vavail t = vavail ?s1" "vused_idx t = vused_idx ?s1 + 1"
      "last_used t = vused_idx ?s1 + 1" "length (vused t) = NQUEUE" "free_head t = free_head ?s1" "nfree t = nfree ?s1"
      "vinfos t = (vinfos ?s1)[d0 := (vinfos ?s1 ! d0)\<lparr>vi_status := 0, vi_done := True, vi_buf := None\<rparr>]"
      "bdata t = (case op of DREAD \<Rightarrow> (bdata ?s1)(b := bytes) | DWRITE \<Rightarrow> bdata ?s1)" "platter t = pl"
    by blast
  let ?w = "upd_info d0 (\<lambda>v. v\<lparr>vi_done := False\<rparr>) t"
  let ?u = "cli_mark (finished (d0, d1, d2) ?w)"
  have qw: "queue_ok [(d0, d1, d2)] fs ?w" using q1 t(4,10,11) by (simp add: queue_ok_def)
  then have "free_desc d0 ?w = Inr (finished (d0, d1, d2) ?w)"
    by (intro free_desc_chain) (simp add: queue_ok_def)
  moreover have "lock_free DiskLk (finished (d0, d1, d2) ?w)"
    using t(2) by (simp add: caller_ok_def finished_def Let_def)
  ultimately have "blk_finish d0 (locked DiskLk t) = Inr ?u"
    by (simp add: blk_finish_def upd_info_locked free_desc_locked release_locked)
  moreover have "vi_done (vinfos t ! d0)" using t(12) v1(1) by simp
  ultimately have run: "virtio_blk_op bno b op s = Inr (0, ?u)"
    using t(1) v1(3) by (simp add: virtio_blk_op_def sub)
  have fr: "disk_frame s ?u"
    by (rule disk_frame_trans [OF disk_frame_submitted disk_frame_trans [OF t(3) disk_frame_finished]])
  have "queue_ok [] (d0 # d1 # d2 # fs) ?u"
    using queue_ok_finished [OF qw] by (simp add: queue_ok_def)
  then have "queue_idle ?u" using qi' t(5,6,7,8,9,12) v1(1)
    by (auto simp: queue_idle_def finished_def Let_def nth_list_update)
  then have "disk_ready me ?u" using caller_ok_frame [OF co fr] by (simp add: disk_ready_def)
  moreover have "bdata ?u = bdata t" "platter ?u = platter t" by (simp_all add: finished_def Let_def upd_info_def)
  ultimately show ?thesis using run fr t(13,14) by (auto split: diskop.split)
qed


section \<open>Properties of the driver\<close>

text \<open>
  C15. Descriptors are neither lost nor shared: with three free ones a request takes the first
  three of the free list and links them, a completed request gives its three back, whichever of
  the requests in flight it is; all eight descriptors are always accounted for once.
\<close>

theorem descriptors_conserved:
  assumes lk: "lock_free DiskLk s" and q: "queue_ok F fs s"
  shows "(3 \<le> length fs \<longrightarrow> (\<exists>d0 d1 d2 t. blk_submit bno b op s = Inr (d0, locked DiskLk t) \<and>
       take 3 fs = [d0, d1, d2] \<and> queue_ok ((d0, d1, d2) # F) (drop 3 fs) t)) \<and>
     (\<forall>(d0, d1, d2) \<in> set F. \<exists>G t. free_desc d0 s = Inr t \<and> mset F = add_mset (d0, d1, d2) (mset G) \<and>
       queue_ok G (d0 # d1 # d2 # fs) t)"
proof (intro conjI impI ballI, goal_cases)
  case 1
  then obtain d0 d1 d2 gs where fs: "fs = d0 # d1 # d2 # gs"
    by (auto simp: Suc_le_length_iff numeral_3_eq_3)
  show ?case
    using blk_submit_queue [OF lk q [unfolded fs], of bno b op] unfolding fs by (auto simp: numeral_3_eq_3)
next
  case (2 c)
  obtain d0 d1 d2 where c: "c = (d0, d1, d2)" by (cases c)
  with 2 obtain A B where F: "F = A @ (d0, d1, d2) # B" by (metis split_list)
  have q2: "queue_ok ((d0, d1, d2) # A @ B) fs s" using q unfolding F queue_ok_split .
  then have "free_desc d0 s = Inr (finished (d0, d1, d2) s)"
    by (intro free_desc_chain) (simp add: queue_ok_def)
  moreover have "mset F = add_mset (d0, d1, d2) (mset (A @ B))" by (simp add: F)
  ultimately show ?case using queue_ok_finished [OF q2] unfolding c prod.case by blast
qed

text \<open>
  With eight descriptors, two requests are all the queue can hold: while two processes wait
  for the disk a third one that needs a block stops the machine.
\<close>

theorem third_request_panics:
  assumes "lock_free DiskLk s" "queue_ok F fs s" "length F = 2"
  shows "virtio_blk_op bno b op s = Inl (Panic ''virtq kokatu'')"
proof -
  have "length fs < 3" using queue_ok_count [OF assms(2)] assms(3) by simp
  then have "blk_submit bno b op s = Inl (Panic ''virtq kokatu'')"
    using assms(1,2) by (intro blk_submit_full) (auto simp: queue_ok_def)
  then show ?thesis by (simp add: virtio_blk_op_def)
qed

text \<open>
  What the driver relies on of a virtio block device that has no error: a request of type 0
  stores the block of the medium, one of type 1 sets it, and both answer with status 0.
\<close>

definition block_device :: "'a kdisk_scheme \<Rightarrow> bool" where
  "block_device s \<longleftrightarrow> (\<forall>sec bytes pl. dev s 0 sec bytes pl = (pl sec, 0, pl) \<and>
     dev s 1 sec bytes pl = (bytes, 0, pl(sec := bytes)))"

lemma block_device_frame: "disk_frame s t \<Longrightarrow> block_device t = block_device s"
  by (cases s; cases t) (simp add: disk_frame_def block_device_def)

lemma blk_read:
  assumes "disk_ready me s" "block_device s"
  shows "\<exists>t. virtio_blk_op bno b DREAD s = Inr (0, t) \<and> disk_ready me t \<and> block_device t \<and> disk_frame s t \<and>
     bdata t = (bdata s)(b := platter s (bno * 2)) \<and> platter t = platter s"
proof -
  have "answer DREAD bno b s = (platter s (bno * 2), 0, platter s)"
    using assms(2) by (simp add: answer_def block_device_def req_type_def)
  from virtio_blk_op_ok [OF assms(1) this] show ?thesis using assms(2) block_device_frame by auto
qed

lemma blk_write:
  assumes "disk_ready me s" "block_device s"
  shows "\<exists>t. virtio_blk_op bno b DWRITE s = Inr (0, t) \<and> disk_ready me t \<and> block_device t \<and> disk_frame s t \<and>
     bdata t = bdata s \<and> platter t = (platter s)(bno * 2 := bdata s b)"
proof -
  have "answer DWRITE bno b s = (bdata s b, 0, (platter s)(bno * 2 := bdata s b))"
    using assms(2) by (simp add: answer_def block_device_def req_type_def)
  from virtio_blk_op_ok [OF assms(1) this] show ?thesis using assms(2) block_device_frame by auto
qed


text \<open>Witnesses.\<close>

definition ram_disk :: "u32 \<Rightarrow> u64 \<Rightarrow> u8 list \<Rightarrow> platter \<Rightarrow> u8 list \<times> u8 \<times> platter" where
  "ram_disk ty sec bytes pl =
     (if ty = 0 then (pl sec, 0, pl) else if ty = 1 then (bytes, 0, pl(sec := bytes)) else (bytes, 2, pl))"

definition runner :: proc where
  "runner = zero_proc\<lparr>p_state := RUNNING, p_pgt := 0xffffff8040300000\<rparr>"

definition idle_disk :: "(nat \<Rightarrow> u8 list) \<Rightarrow> platter \<Rightarrow> kdisk" where
  "idle_disk bs pl = kproc.extend ((boot_kproc [runner])\<lparr>cur := Some 0, ttbr0 := V2P (p_pgt runner)\<rparr>)
     \<lparr>vdescs = desc_init, vavail_idx = 0, vavail = replicate NQUEUE 0, vused_idx = 0,
      vused = replicate NQUEUE 0, free_head = 0, nfree = NQUEUE, last_used = 0,
      vinfos = replicate NQUEUE \<lparr>vi_status = 0, vi_done = False, vi_buf = None\<rparr>,
      bdata = bs, platter = pl, dev = ram_disk\<rparr>"

lemma idle_disk_ok:
  "queue_ok [] [0..<NQUEUE] (idle_disk bs pl)" "lock_free L (idle_disk bs pl)"
  "disk_ready 0 (idle_disk bs pl)" "block_device (idle_disk bs pl)" "bdata (idle_disk bs pl) = bs"
proof -
  show q: "queue_ok [] [0..<NQUEUE] (idle_disk bs pl)"
    using desc_init_ok by (auto simp: queue_ok_def idle_disk_def kproc.extend_def)
  show l: "lock_free L (idle_disk bs pl)" for L
    by (simp add: idle_disk_def lock_free_def kproc.extend_def boot_kproc_def kmem.extend_def pool_state_def boot_mem_def)
  have "queue_idle (idle_disk bs pl)"
    using q by (auto simp: queue_idle_def idle_disk_def kproc.extend_def)
  moreover have "caller_ok 0 (idle_disk bs pl)"
    by (simp add: caller_ok_def l) (simp add: idle_disk_def kproc.extend_def runner_def zero_proc_def)
  ultimately show "disk_ready 0 (idle_disk bs pl)" by (simp add: disk_ready_def)
  show "block_device (idle_disk bs pl)"
    by (simp add: block_device_def idle_disk_def kproc.extend_def ram_disk_def)
  show "bdata (idle_disk bs pl) = bs" by (simp add: idle_disk_def kproc.extend_def)
qed

theorem descriptors_conserved_witness:
  "\<exists>t. blk_submit 7 3 DREAD (idle_disk (\<lambda>_. []) (\<lambda>_. [])) = Inr (0, locked DiskLk t) \<and> queue_ok [(0, 1, 2)] [3, 4, 5, 6, 7] t"
proof -
  have e: "take 3 [0..<NQUEUE] = [0, 1, 2]" "drop 3 [0..<NQUEUE] = [3, 4, 5, 6, 7]" "3 \<le> length [0..<NQUEUE]"
    by (simp_all add: upt_rec)
  note conjunct1 [OF descriptors_conserved [OF idle_disk_ok(2,1)], THEN mp, OF e(3), of 7 3 DREAD "\<lambda>_. []" "\<lambda>_. []", unfolded e(1,2)]
  then show ?thesis by (metis list.inject)
qed

theorem third_request_panics_witness:
  "\<exists>s :: kdisk. queue_ok [(3, 4, 5), (0, 1, 2)] [6, 7] s \<and>
     virtio_blk_op 9 2 DREAD s = Inl (Panic ''virtq kokatu'')"
proof -
  have u: "[0..<NQUEUE] = [0, 1, 2, 3, 4, 5, 6, 7]" by (simp add: upt_rec)
  note i = idle_disk_ok(1) [of "\<lambda>_. []" "\<lambda>_. []", unfolded u]
  obtain h where "queue_ok [(0, 1, 2)] [3, 4, 5, 6, 7] (submitted 7 0 DREAD (0, 1, 2) h (idle_disk (\<lambda>_. []) (\<lambda>_. [])))"
    using blk_submit_queue [OF idle_disk_ok(2) i] by blast
  moreover have "lock_free DiskLk (submitted 7 0 DREAD (0, 1, 2) h (idle_disk (\<lambda>_. []) (\<lambda>_. [])))" using idle_disk_ok(2) by simp
  ultimately obtain k where
      q: "queue_ok [(3, 4, 5), (0, 1, 2)] [6, 7]
        (submitted 8 1 DREAD (3, 4, 5) k (submitted 7 0 DREAD (0, 1, 2) h (idle_disk (\<lambda>_. []) (\<lambda>_. []))))"
    using blk_submit_queue by blast
  then show ?thesis
    using third_request_panics [OF _ q, of 9 2 DREAD] idle_disk_ok(2) by (intro exI conjI) auto
qed


end
