(* ===== verification/Buf.thy ===== *)
theory Buf
  imports Virtio
begin

text \<open>
  kernel/buf.c: the cache of disk blocks. A \<open>struct buf *\<close> is the index of the buffer; the
  \<open>data\<close> of the buffers is \<open>bdata\<close> of the disk state, because the device reads and writes it.
\<close>

unbundle bit_operations_syntax

section \<open>The cache\<close>

abbreviation NBUF :: nat where "NBUF \<equiv> 32"
abbreviation BSIZE :: nat where "BSIZE \<equiv> 1024"      \<comment> \<open>\<open>sizeof(b->data)\<close>\<close>

record buf =
  b_bno :: u32
  b_ref :: u32
  b_valid :: bool

definition zero_buf :: buf where
  "zero_buf = \<lparr>b_bno = 0, b_ref = 0, b_valid = False\<rparr>"

record kbuf = kdisk +
  bcache :: "buf list"

definition upd_buf :: "nat \<Rightarrow> (buf \<Rightarrow> buf) \<Rightarrow> 'a kbuf_scheme \<Rightarrow> 'a kbuf_scheme" where
  "upd_buf i f s = s\<lparr>bcache := (bcache s)[i := f (bcache s ! i)]\<rparr>"

definition buf_init :: "'a kbuf_scheme \<Rightarrow> 'a kbuf_scheme" where
  "buf_init s = (lock_init BcacheLk s)\<lparr>bcache := replicate NBUF zero_buf, bdata := \<lambda>_. replicate BSIZE 0\<rparr>"

definition get_buf :: "u32 \<Rightarrow> 'a kbuf_scheme \<Rightarrow> (nat \<times> 'a kbuf_scheme) res" where
  "get_buf bno s =
     bnd (acquire BcacheLk s) (\<lambda>s.
       case scan (\<lambda>b. b_bno b = bno) (bcache s) of
         Some i \<Rightarrow> bnd (release BcacheLk (upd_buf i (\<lambda>b. b\<lparr>b_ref := b_ref b + 1\<rparr>) s)) (\<lambda>s. Inr (i, s))
       | None \<Rightarrow>
           (case scan (\<lambda>b. b_ref b = 0) (bcache s) of
              Some i \<Rightarrow> bnd (release BcacheLk (upd_buf i (\<lambda>b. b\<lparr>b_ref := 1, b_bno := bno\<rparr>) s)) (\<lambda>s. Inr (i, s))
            | None \<Rightarrow> Inl (Panic ''buf'')))"

definition bio_read :: "u32 \<Rightarrow> 'a kbuf_scheme \<Rightarrow> (nat \<times> 'a kbuf_scheme) res" where
  "bio_read bno s =
     bnd (get_buf bno s) (\<lambda>(i, s).
       if \<not> b_valid (bcache s ! i) then
         bnd (virtio_blk_op (ucast bno) i DREAD s) (\<lambda>(r, s).
           if r < 0 then Inl (Panic ''disk read failed'')
           else Inr (i, upd_buf i (\<lambda>b. b\<lparr>b_valid := True\<rparr>) s))
       else Inr (i, s))"

definition bio_write :: "nat \<Rightarrow> 'a kbuf_scheme \<Rightarrow> 'a kbuf_scheme res" where
  "bio_write i s =
     bnd (virtio_blk_op (ucast (b_bno (bcache s ! i))) i DWRITE s) (\<lambda>(r, s).
       Inr (upd_buf i (\<lambda>b. b\<lparr>b_valid := True\<rparr>) s))"

definition bio_dup :: "nat \<Rightarrow> 'a kbuf_scheme \<Rightarrow> (nat \<times> 'a kbuf_scheme) res" where
  "bio_dup i s =
     bnd (acquire BcacheLk s) (\<lambda>s.
     bnd (release BcacheLk (upd_buf i (\<lambda>b. b\<lparr>b_ref := b_ref b + 1\<rparr>) s)) (\<lambda>s. Inr (i, s)))"

definition bio_free :: "nat \<Rightarrow> 'a kbuf_scheme \<Rightarrow> 'a kbuf_scheme res" where
  "bio_free i s =
     bnd (acquire BcacheLk s) (\<lambda>s.
       if b_ref (bcache s ! i) = 0 then Inl (Panic ''bio_free'')
       else
         let s = upd_buf i (\<lambda>b. b\<lparr>b_ref := b_ref b - 1\<rparr>) s;
             s = (if b_ref (bcache s ! i) = 0
                  then (upd_buf i (\<lambda>_. zero_buf) s)\<lparr>bdata := (bdata s)(i := replicate BSIZE 0)\<rparr> else s)
         in release BcacheLk s)"


section \<open>Frame lemmas\<close>

lemma locked_kbuf [simp]: "bcache (locked L s) = bcache s"
  by (simp add: locked_def set_lock_def pushcli_def Let_def)

lemma cli_mark_kbuf [simp]: "bcache (cli_mark s) = bcache s"
  by (simp add: cli_mark_def)

lemma locked_kbuf_upd:
  "upd_buf i f (locked L s) = locked L (upd_buf i f s)"
  "(locked L s)\<lparr>bdata := d\<rparr> = locked L (s\<lparr>bdata := d\<rparr>)"
  by (simp_all add: upd_buf_def locked_def set_lock_def pushcli_def Let_def)

lemma upd_buf_simps [simp]:
  "bcache (upd_buf i f s) = (bcache s)[i := f (bcache s ! i)]" "lock_free L (upd_buf i f s) = lock_free L s"
  "bdata (upd_buf i f s) = bdata s" "platter (upd_buf i f s) = platter s" "dev (upd_buf i f s) = dev s"
  by (simp_all add: upd_buf_def lock_free_def)

text \<open>What the cache may change: what a disk request may, and the table of buffers.\<close>

definition buf_frame :: "'a kbuf_scheme \<Rightarrow> 'a kbuf_scheme \<Rightarrow> bool" where
  "buf_frame s t \<longleftrightarrow> t = s\<lparr>irq_on := irq_on t, intr_enabled := intr_enabled t,
     vdescs := vdescs t, vavail_idx := vavail_idx t, vavail := vavail t, vused_idx := vused_idx t,
     vused := vused t, free_head := free_head t, nfree := nfree t, last_used := last_used t,
     vinfos := vinfos t, bdata := bdata t, platter := platter t, bcache := bcache t\<rparr>"

lemma buf_frame_refl [simp]: "buf_frame s s"
  by (simp add: buf_frame_def)

lemma buf_frame_trans: "buf_frame s t \<Longrightarrow> buf_frame t u \<Longrightarrow> buf_frame s u"
  by (cases s; cases t; cases u) (simp add: buf_frame_def)

lemma buf_frame_disk:
  assumes "disk_frame s t"
  shows "buf_frame s t" "bcache t = bcache s"
proof -
  show b: "bcache t = bcache s" by (subst assms [unfolded disk_frame_def]) simp
  show "buf_frame s t" using assms b by (cases s; cases t) (simp add: disk_frame_def buf_frame_def)
qed

lemma buf_frame_upd [simp]:
  "buf_frame s (upd_buf i f s)" "buf_frame s (cli_mark s)" "buf_frame s (s\<lparr>bdata := d\<rparr>)"
  by (cases s; simp add: buf_frame_def upd_buf_def cli_mark_def)+

lemma buf_frame_upd2 [simp]:
  "buf_frame s (cli_mark (upd_buf i f s))" "buf_frame s (cli_mark ((upd_buf i f s)\<lparr>bdata := d\<rparr>))"
  by (cases s; simp add: buf_frame_def upd_buf_def cli_mark_def)+

section \<open>The abstract cache\<close>

text \<open>
  References held to a block, whether buffer \<open>i\<close> holds block \<open>n\<close>, and the content of a block.
  The cache writes through, so between two operations of the cache the content is what is on the
  medium.
\<close>

definition refs :: "'a kbuf_scheme \<Rightarrow> u32 \<Rightarrow> nat" where
  "refs s n = (case scan (\<lambda>b. b_bno b = n \<and> b_ref b \<noteq> 0) (bcache s) of
     None \<Rightarrow> 0 | Some i \<Rightarrow> unat (b_ref (bcache s ! i)))"

definition buf_holds :: "'a kbuf_scheme \<Rightarrow> nat \<Rightarrow> u32 \<Rightarrow> bool" where
  "buf_holds s i n \<longleftrightarrow> i < length (bcache s) \<and> b_bno (bcache s ! i) = n \<and> b_ref (bcache s ! i) \<noteq> 0"

definition content :: "'a kdisk_scheme \<Rightarrow> u32 \<Rightarrow> u8 list" where
  "content s n = platter s (ucast n * 2)"

definition cache_ok :: "'a kbuf_scheme \<Rightarrow> bool" where
  "cache_ok s \<longleftrightarrow> length (bcache s) = NBUF \<and>
     (\<forall>i<NBUF. b_ref (bcache s ! i) = 0 \<longrightarrow> bcache s ! i = zero_buf) \<and>
     (\<forall>i<NBUF. \<forall>j<NBUF. b_ref (bcache s ! i) \<noteq> 0 \<longrightarrow> b_ref (bcache s ! j) \<noteq> 0 \<longrightarrow>
        b_bno (bcache s ! i) = b_bno (bcache s ! j) \<longrightarrow> i = j) \<and>
     (\<forall>i<NBUF. b_ref (bcache s ! i) \<noteq> 0 \<longrightarrow> b_bno (bcache s ! i) \<noteq> 0 \<and> b_valid (bcache s ! i) \<and>
        bdata s i = content s (b_bno (bcache s ! i))) \<and>
     (\<forall>n. length (content s n) = BSIZE)"

definition cache_ready :: "nat \<Rightarrow> 'a kbuf_scheme \<Rightarrow> bool" where
  "cache_ready me s \<longleftrightarrow> cache_ok s \<and> disk_ready me s \<and> block_device s \<and> lock_free BcacheLk s"

text \<open>A reference to block \<open>n\<close> can be taken: no counter overflows and a buffer is free.\<close>

definition buf_room :: "u32 \<Rightarrow> (u32 \<Rightarrow> nat) \<Rightarrow> bool" where
  "buf_room n R \<longleftrightarrow> n \<noteq> 0 \<and> R n < 2 ^ 32 - 1 \<and> (R n \<noteq> 0 \<or> card {m. R m \<noteq> 0} < NBUF)"

lemma refs_holds:
  assumes "cache_ok s" "buf_holds s i n"
  shows "refs s n = unat (b_ref (bcache s ! i))" "refs s n \<noteq> 0" "bdata s i = content s n" "i < NBUF" "n \<noteq> 0"
proof -
  have i: "i < NBUF" "b_bno (bcache s ! i) = n" "b_ref (bcache s ! i) \<noteq> 0" "length (bcache s) = NBUF"
    using assms by (auto simp: buf_holds_def cache_ok_def)
  have "scan (\<lambda>b. b_bno b = n \<and> b_ref b \<noteq> 0) (bcache s) = Some i"
    by (rule scan_unique) (use assms(1) i in \<open>auto simp: cache_ok_def\<close>)
  then show "refs s n = unat (b_ref (bcache s ! i))" by (simp add: refs_def)
  with i show "refs s n \<noteq> 0" by (simp add: unat_eq_0)
  show "bdata s i = content s n" "n \<noteq> 0" using assms(1) i by (auto simp: cache_ok_def)
qed (use assms in \<open>auto simp: cache_ok_def buf_holds_def\<close>)

lemma refs_none:
  "refs s n = 0 \<longleftrightarrow> (\<forall>i. \<not> buf_holds s i n)"
proof (cases "scan (\<lambda>b. b_bno b = n \<and> b_ref b \<noteq> 0) (bcache s)")
  case None
  then show ?thesis unfolding scan_None_iff refs_def buf_holds_def by (auto simp: None)
next
  case (Some i)
  then show ?thesis using scan_SomeD [OF Some] by (auto simp: refs_def buf_holds_def unat_eq_0)
qed

lemma refs_obtain:
  assumes "refs s n \<noteq> 0" obtains i where "buf_holds s i n"
proof -
  from assms have "\<exists>i. buf_holds s i n" unfolding refs_none by blast
  with that show thesis by blast
qed

lemma cache_okD:
  assumes "cache_ok s"
  shows "length (bcache s) = NBUF"
    "\<And>i. i < NBUF \<Longrightarrow> b_ref (bcache s ! i) = 0 \<Longrightarrow> bcache s ! i = zero_buf"
    "\<And>i j. i < NBUF \<Longrightarrow> j < NBUF \<Longrightarrow> b_ref (bcache s ! i) \<noteq> 0 \<Longrightarrow> b_ref (bcache s ! j) \<noteq> 0 \<Longrightarrow>
        b_bno (bcache s ! i) = b_bno (bcache s ! j) \<Longrightarrow> i = j"
    "\<And>i. i < NBUF \<Longrightarrow> b_ref (bcache s ! i) \<noteq> 0 \<Longrightarrow> b_bno (bcache s ! i) \<noteq> 0 \<and> b_valid (bcache s ! i) \<and>
        bdata s i = content s (b_bno (bcache s ! i))"
    "\<And>n. length (content s n) = BSIZE"
  using assms unfolding cache_ok_def by blast+

lemma load_free:
  assumes ok: "cache_ok s" and c: "card {m. refs s m \<noteq> 0} < NBUF"
  shows "\<exists>i<NBUF. b_ref (bcache s ! i) = 0"
proof (rule ccontr)
  assume "\<not> ?thesis"
  then have all: "\<And>i. i < NBUF \<Longrightarrow> buf_holds s i (b_bno (bcache s ! i))"
    using ok by (auto simp: buf_holds_def cache_ok_def)
  let ?f = "\<lambda>i. b_bno (bcache s ! i)"
  have "inj_on ?f {..<NBUF}" using ok all by (auto simp: inj_on_def cache_ok_def buf_holds_def)
  then have "card (?f ` {..<NBUF}) = NBUF" by (simp add: card_image)
  moreover have "?f ` {..<NBUF} \<subseteq> {m. refs s m \<noteq> 0}" using all refs_none by auto
  moreover have "finite {m. refs s m \<noteq> 0}" by simp
  ultimately show False using c card_mono by (metis leD)
qed


lemma cache_ok_upd:
  assumes ok: "cache_ok s" and i: "i < NBUF"
    and t: "bcache t = (bcache s)[i := b]" "\<And>j. j \<noteq> i \<Longrightarrow> bdata t j = bdata s j"
      "\<And>n. length (content t n) = BSIZE"
      "\<And>j. j < NBUF \<Longrightarrow> j \<noteq> i \<Longrightarrow> b_ref (bcache s ! j) \<noteq> 0 \<Longrightarrow>
         content t (b_bno (bcache s ! j)) = content s (b_bno (bcache s ! j)) \<and>
         (b_ref b \<noteq> 0 \<longrightarrow> b_bno (bcache s ! j) \<noteq> b_bno b)"
    and b: "b_ref b = 0 \<Longrightarrow> b = zero_buf"
      "b_ref b \<noteq> 0 \<Longrightarrow> b_bno b \<noteq> 0 \<and> b_valid b \<and> bdata t i = content t (b_bno b)"
  shows "cache_ok t"
proof -
  have len: "length (bcache s) = NBUF" using ok by (simp add: cache_ok_def)
  have ni: "bcache t ! i = b" and nj: "\<And>j. j \<noteq> i \<Longrightarrow> bcache t ! j = bcache s ! j"
    using i len t(1) by auto
  note D = cache_okD [OF ok]
  show ?thesis
    unfolding cache_ok_def
  proof (intro conjI allI impI)
    show "length (bcache t) = NBUF" using len t(1) by simp
    show "bcache t ! j = zero_buf" if "j < NBUF" "b_ref (bcache t ! j) = 0" for j
      using that D(2) b(1) ni nj by (cases "j = i") simp_all
    show "j = k" if a: "j < NBUF" "k < NBUF" "b_ref (bcache t ! j) \<noteq> 0" "b_ref (bcache t ! k) \<noteq> 0"
      "b_bno (bcache t ! j) = b_bno (bcache t ! k)" for j k
    proof (cases "j = i")
      case True
      show ?thesis
      proof (rule ccontr)
        assume "j \<noteq> k"
        then show False using a True ni nj [of k] t(4) [of k] by simp
      qed
    next
      case False
      show ?thesis
      proof (cases "k = i")
        case True
        then show ?thesis using a False ni nj [of j] t(4) [of j] by simp
      next
        case k: False
        show ?thesis using a D(3) [of j k] unfolding nj [OF False] nj [OF k] by blast
      qed
    qed
    show "length (content t n) = BSIZE" for n by (rule t(3))
    fix j assume j: "j < NBUF" "b_ref (bcache t ! j) \<noteq> 0"
    have "b_bno (bcache t ! j) \<noteq> 0 \<and> b_valid (bcache t ! j) \<and> bdata t j = content t (b_bno (bcache t ! j))"
    proof (cases "j = i")
      case True
      then show ?thesis using j b(2) ni by simp
    next
      case False
      then show ?thesis using j D(4) [of j] t(2,4) [of j] nj [of j] by simp
    qed
    then show "b_bno (bcache t ! j) \<noteq> 0" "b_valid (bcache t ! j)" "bdata t j = content t (b_bno (bcache t ! j))"
      by blast+
  qed
qed

text \<open>How references and holders change when one buffer does.\<close>

lemma buf_holds_upd:
  assumes "cache_ok s" "i < NBUF" "bcache t = (bcache s)[i := b]"
  shows "buf_holds t j m \<longleftrightarrow> (if j = i then b_bno b = m \<and> b_ref b \<noteq> 0 else buf_holds s j m)"
  using assms(2,3) cache_okD(1) [OF assms(1)] by (auto simp: buf_holds_def)

lemma refs_upd:
  assumes ok: "cache_ok s" and ot: "cache_ok t" and i: "i < NBUF" and t: "bcache t = (bcache s)[i := b]"
    and n: "b_ref b \<noteq> 0 \<Longrightarrow> b_bno b = n" "b_ref (bcache s ! i) \<noteq> 0 \<Longrightarrow> b_bno (bcache s ! i) = n"
      "b_ref b \<noteq> 0 \<or> b_ref (bcache s ! i) \<noteq> 0"
  shows "refs t = (refs s)(n := unat (b_ref b))"
proof
  fix m
  note bh = buf_holds_upd [OF ok i t]
  show "refs t m = ((refs s)(n := unat (b_ref b))) m"
  proof (cases "refs t m = 0")
    case True
    then have none: "\<forall>j. \<not> buf_holds t j m" by (simp add: refs_none)
    show ?thesis
    proof (cases "m = n")
      case True
      then have "b_ref b = 0" using none bh n(1) by (metis (full_types))
      then show ?thesis using True \<open>refs t m = 0\<close> by simp
    next
      case False
      have "\<not> buf_holds s j m" for j
        using none bh [of j m] n(2) False by (cases "j = i") (auto simp: buf_holds_def)
      then have "refs s m = 0" using refs_none by blast
      then show ?thesis using False \<open>refs t m = 0\<close> by simp
    qed
  next
    case False
    then obtain j where j: "buf_holds t j m" by (rule refs_obtain)
    have rt: "refs t m = unat (b_ref (bcache t ! j))" by (rule refs_holds(1) [OF ot j])
    show ?thesis
    proof (cases "j = i")
      case True
      then have "b_bno b = m" "b_ref b \<noteq> 0" using j bh by auto
      moreover have "bcache t ! j = b" using True t i cache_okD(1) [OF ok] by simp
      ultimately show ?thesis using rt n(1) by simp
    next
      case False
      then have js: "buf_holds s j m" using j bh by simp
      have "bcache t ! j = bcache s ! j" using False t by simp
      moreover have "m \<noteq> n"
      proof
        assume "m = n"
        have jn: "j < NBUF" using js cache_okD(1) [OF ok] by (simp add: buf_holds_def)
        have ti: "bcache t ! i = b" using t i cache_okD(1) [OF ok] by simp
        from n(3) show False
        proof
          assume "b_ref b \<noteq> 0"
          then have "buf_holds t i n" using bh [of i n] n(1) by simp
          then show False using j \<open>m = n\<close> False cache_okD(3) [OF ot jn i] unfolding buf_holds_def by blast
        next
          assume "b_ref (bcache s ! i) \<noteq> 0"
          then have "b_bno (bcache s ! i) = n" by (rule n(2))
          then show False using \<open>b_ref (bcache s ! i) \<noteq> 0\<close> js \<open>m = n\<close> False cache_okD(3) [OF ok jn i]
            unfolding buf_holds_def by blast
        qed
      qed
      ultimately show ?thesis using rt refs_holds(1) [OF ok js] by simp
    qed
  qed
qed


section \<open>What the operations of the cache do\<close>

text \<open>A buffer for block \<open>n\<close>: the one that holds it, or a free one.\<close>

lemma get_buf_held:
  assumes ok: "cache_ok s" and lk: "lock_free BcacheLk s" and h: "buf_holds s i n"
  shows "get_buf n s = Inr (i, cli_mark (upd_buf i (\<lambda>b. b\<lparr>b_ref := b_ref b + 1\<rparr>) s))"
proof -
  have i: "i < NBUF" "n \<noteq> 0" using refs_holds(4,5) [OF ok h] .
  have "scan (\<lambda>b. b_bno b = n) (bcache s) = Some i"
  proof (rule scan_unique)
    show "i < length (bcache s)" "b_bno (bcache s ! i) = n" using h by (auto simp: buf_holds_def)
    fix j assume j: "j < length (bcache s)" "b_bno (bcache s ! j) = n"
    then have "b_ref (bcache s ! j) \<noteq> 0"
      using cache_okD(1) [OF ok] cache_okD(2) [OF ok, of j] i(2) by (auto simp: zero_buf_def)
    then show "j = i" using cache_okD(1) [OF ok] cache_okD(3) [OF ok, of j i] i(1) j h by (auto simp: buf_holds_def)
  qed
  then show ?thesis using lk by (simp add: get_buf_def locked_kbuf_upd release_locked)
qed

lemma get_buf_new:
  assumes ok: "cache_ok s" and lk: "lock_free BcacheLk s" and n: "refs s n = 0" "n \<noteq> 0"
    and c: "card {m. refs s m \<noteq> 0} < NBUF"
  shows "\<exists>i<NBUF. b_ref (bcache s ! i) = 0 \<and>
     get_buf n s = Inr (i, cli_mark (upd_buf i (\<lambda>b. b\<lparr>b_ref := 1, b_bno := n\<rparr>) s))"
proof -
  have none: "scan (\<lambda>b. b_bno b = n) (bcache s) = None"
  proof -
    have "b_bno (bcache s ! j) \<noteq> n" if "j < NBUF" for j
    proof
      assume e: "b_bno (bcache s ! j) = n"
      then have "b_ref (bcache s ! j) \<noteq> 0" using cache_okD(2) [OF ok that] n(2) by (auto simp: zero_buf_def)
      then show False using n(1) e that cache_okD(1) [OF ok] unfolding refs_none buf_holds_def by auto
    qed
    then show ?thesis using cache_okD(1) [OF ok] unfolding scan_None_iff by (metis in_set_conv_nth)
  qed
  obtain k where k: "k < NBUF" "b_ref (bcache s ! k) = 0" using load_free [OF ok c] by blast
  then have "bcache s ! k \<in> set (bcache s)" using cache_okD(1) [OF ok] by simp
  then obtain i where i: "scan (\<lambda>b. b_ref b = 0) (bcache s) = Some i"
    using scan_ex [of "bcache s" "\<lambda>b. b_ref b = 0"] k(2) by blast
  show ?thesis
    using scan_SomeD(1,2) [OF i] i none lk cache_okD(1) [OF ok]
    by (intro exI [of _ i]) (simp add: get_buf_def locked_kbuf_upd release_locked)
qed

lemma cache_ready_upd:
  assumes "cache_ready me s" "cache_ok t" "buf_frame s t" "queue_idle t" "lock_free BcacheLk t"
  shows "cache_ready me t"
proof -
  have c: "caller_ok me s" "block_device s" "lock_free BcacheLk s" using assms(1) by (auto simp: cache_ready_def disk_ready_def)
  have "cur t = cur s" "procs t = procs s" "cli_depth t = cli_depth s" "locks t = locks s" "ttbr0 t = ttbr0 s"
      "dev t = dev s"
    by (subst assms(3) [unfolded buf_frame_def], simp)+
  then have "caller_ok me t" "block_device t" using c by (simp_all add: caller_ok_def lock_free_def block_device_def)
  then show ?thesis using assms by (simp add: cache_ready_def disk_ready_def)
qed

lemma queue_idle_upd_buf [simp]: "queue_idle (upd_buf i f s) = queue_idle s" "queue_idle (cli_mark s) = queue_idle s"
    "queue_idle (s\<lparr>bdata := d\<rparr>) = queue_idle s"
  by (simp_all add: queue_idle_def upd_buf_def queue_ok_def)

lemma content_upd [simp]: "content (upd_buf i f s) = content s" "content (cli_mark s) = content s"
    "content (s\<lparr>bdata := d\<rparr>) = content s"
  by (simp_all add: content_def fun_eq_iff)

lemma block_sector_inj: "(ucast (m :: u32) :: u64) * 2 = ucast n * 2 \<longleftrightarrow> m = n"
proof
  assume e: "(ucast m :: u64) * 2 = ucast n * 2"
  have "unat ((ucast k :: u64) * 2) = unat k * 2" for k :: u32
  proof -
    have "unat k < 2 ^ 32" using unsigned_less [of k] by simp
    then have "unat k * 2 < 2 ^ 64" by simp
    moreover have "unat (ucast k :: u64) = unat k"
      using \<open>unat k < 2 ^ 32\<close> by (simp add: unsigned_ucast_eq take_bit_nat_eq_self)
    ultimately show ?thesis using unat_mult_lem [of "ucast k :: u64" 2] by simp
  qed
  then have "unat m * 2 = unat n * 2" using e by metis
  then show "m = n" by (simp add: word_unat_eq_iff)
qed simp

text \<open>
  The laws of the cache. \<open>bio_read\<close> takes a reference to the block and returns a buffer that
  holds it; nothing else can be seen of the call.
\<close>

lemma bio_read_held:
  assumes rd: "cache_ready me s" and h: "buf_holds s i n" and r: "refs s n < 2 ^ 32 - 1"
  shows "\<exists>t. bio_read n s = Inr (i, t) \<and> cache_ready me t \<and> refs t = (refs s)(n := Suc (refs s n)) \<and>
     content t = content s \<and> buf_frame s t \<and> (\<forall>j m. buf_holds t j m \<longleftrightarrow> buf_holds s j m)"
proof -
  have ok: "cache_ok s" and lk: "lock_free BcacheLk s" and qi: "queue_idle s" using rd by (auto simp: cache_ready_def disk_ready_def)
  note hh = refs_holds [OF ok h]
  let ?b = "(bcache s ! i)\<lparr>b_ref := b_ref (bcache s ! i) + 1\<rparr>"
  let ?t = "cli_mark (upd_buf i (\<lambda>b. b\<lparr>b_ref := b_ref b + 1\<rparr>) s)"
  have u: "unat (b_ref (bcache s ! i) + 1) = Suc (unat (b_ref (bcache s ! i)))"
    using r hh(1) by (subst unat_add_lem [THEN iffD1]) auto
  then have "b_ref (bcache s ! i) + 1 \<noteq> 0" by (metis nat.simps(3) unsigned_0)
  then have b: "b_ref ?b \<noteq> 0" by simp
  have bi: "b_bno (bcache s ! i) = n" "b_ref (bcache s ! i) \<noteq> 0" "b_valid (bcache s ! i)"
    using h cache_okD(4) [OF ok hh(4)] by (auto simp: buf_holds_def)
  have t: "bcache ?t = (bcache s)[i := ?b]" by simp
  have okt: "cache_ok ?t"
  proof (rule cache_ok_upd [OF ok hh(4) t])
    show "content ?t (b_bno (bcache s ! j)) = content s (b_bno (bcache s ! j)) \<and>
        (b_ref ?b \<noteq> 0 \<longrightarrow> b_bno (bcache s ! j) \<noteq> b_bno ?b)"
      if "j < NBUF" "j \<noteq> i" "b_ref (bcache s ! j) \<noteq> 0" for j
      using that cache_okD(3) [OF ok that(1) hh(4)] bi by auto
    show "b_bno ?b \<noteq> 0 \<and> b_valid ?b \<and> bdata ?t i = content ?t (b_bno ?b)"
      using hh(3,5) bi by simp
  qed (use b cache_okD(5) [OF ok] in auto)
  have "bio_read n s = Inr (i, ?t)"
    using bi(3) cache_okD(1) [OF ok] hh(4) by (simp add: bio_read_def get_buf_held [OF ok lk h])
  moreover have "refs ?t = (refs s)(n := unat (b_ref ?b))"
    by (rule refs_upd [OF ok okt hh(4) t]) (use bi b in auto)
  moreover have "buf_holds ?t j m \<longleftrightarrow> buf_holds s j m" for j m
    using buf_holds_upd [OF ok hh(4) t] b bi h by (auto simp: buf_holds_def)
  moreover have "cache_ready me ?t"
    using okt qi lk by (intro cache_ready_upd [OF rd]) simp_all
  ultimately show ?thesis using hh(1) u by auto
qed


lemma bio_read_new:
  assumes rd: "cache_ready me s" and n: "refs s n = 0" "n \<noteq> 0" and c: "card {m. refs s m \<noteq> 0} < NBUF"
  shows "\<exists>i t. bio_read n s = Inr (i, t) \<and> cache_ready me t \<and> refs t = (refs s)(n := 1) \<and>
     content t = content s \<and> buf_frame s t \<and> buf_holds t i n \<and>
     (\<forall>j m. buf_holds s j m \<longrightarrow> buf_holds t j m)"
proof -
  have ok: "cache_ok s" and lk: "lock_free BcacheLk s" and qi: "queue_idle s" and dr: "disk_ready me s"
      and bd: "block_device s" using rd by (auto simp: cache_ready_def disk_ready_def)
  obtain i where i: "i < NBUF" "b_ref (bcache s ! i) = 0"
      "get_buf n s = Inr (i, cli_mark (upd_buf i (\<lambda>b. b\<lparr>b_ref := 1, b_bno := n\<rparr>) s))"
    using get_buf_new [OF ok lk n c] by blast
  have z: "bcache s ! i = zero_buf" by (rule cache_okD(2) [OF ok i(1,2)])
  let ?s1 = "cli_mark (upd_buf i (\<lambda>b. b\<lparr>b_ref := 1, b_bno := n\<rparr>) s)"
  have b1: "bcache ?s1 = (bcache s)[i := \<lparr>b_bno = n, b_ref = 1, b_valid = False\<rparr>]" by (simp add: z zero_buf_def)
  have f1: "buf_frame s ?s1" by simp
  have q1: "disk_ready me ?s1" "block_device ?s1"
  proof -
    have "caller_ok me ?s1" using dr by (simp add: disk_ready_def caller_ok_def cli_mark_def upd_buf_def lock_free_def)
    then show "disk_ready me ?s1" using qi by (simp add: disk_ready_def)
    show "block_device ?s1" using bd by (simp add: block_device_def)
  qed
  obtain t where t: "virtio_blk_op (ucast n) i DREAD ?s1 = Inr (0, t)" "disk_ready me t" "disk_frame ?s1 t"
      "bdata t = (bdata ?s1)(i := platter ?s1 (ucast n * 2))" "platter t = platter ?s1"
    using blk_read [OF q1] by blast
  note ft = buf_frame_disk [OF t(3)]
  let ?b = "\<lparr>b_bno = n, b_ref = 1, b_valid = True\<rparr>"
  let ?u = "upd_buf i (\<lambda>b. b\<lparr>b_valid := True\<rparr>) t"
  have bu: "bcache ?u = (bcache s)[i := ?b]" using ft(2) b1 i(1) cache_okD(1) [OF ok] by simp
  have run: "bio_read n s = Inr (i, ?u)"
  proof -
    have "\<not> b_valid (bcache ?s1 ! i)" using b1 i(1) cache_okD(1) [OF ok] by simp
    then show ?thesis using i(3) t(1) by (simp only: bio_read_def bnd.simps prod.case) simp
  qed
  have ct: "content ?u = content s" using t(5) by (simp add: content_def fun_eq_iff)
  have nh: "b_bno (bcache s ! j) \<noteq> n" if "j < NBUF" "b_ref (bcache s ! j) \<noteq> 0" for j
    using n(1) that cache_okD(1) [OF ok] unfolding refs_none buf_holds_def by auto
  have oku: "cache_ok ?u"
  proof (rule cache_ok_upd [OF ok i(1) bu])
    show "b_bno ?b \<noteq> 0 \<and> b_valid ?b \<and> bdata ?u i = content ?u (b_bno ?b)"
      using n(2) t(4) ct by (simp add: content_def)
  qed (use t(4) ct nh cache_okD(5) [OF ok] in auto)
  have fu: "buf_frame s ?u" by (rule buf_frame_trans [OF f1 buf_frame_trans [OF ft(1)]]) simp
  have "lock_free BcacheLk ?u"
  proof -
    have "locks t = locks s" by (subst t(3) [unfolded disk_frame_def]) (simp add: upd_buf_def)
    then show ?thesis using lk by (simp add: lock_free_def upd_buf_def)
  qed
  then have "cache_ready me ?u" using oku fu t(2) by (intro cache_ready_upd [OF rd]) (simp_all add: disk_ready_def)
  moreover have "refs ?u = (refs s)(n := unat (b_ref ?b))"
    by (rule refs_upd [OF ok oku i(1) bu]) (use i(2) in auto)
  moreover have "buf_holds ?u i n" "\<forall>j m. buf_holds s j m \<longrightarrow> buf_holds ?u j m"
    using buf_holds_upd [OF ok i(1) bu] i(2) by (auto simp: buf_holds_def)
  ultimately show ?thesis using run ct fu by auto
qed

lemma bio_read_ok:
  assumes rd: "cache_ready me s" and room: "buf_room n (refs s)"
  shows "\<exists>i t. bio_read n s = Inr (i, t) \<and> cache_ready me t \<and> refs t = (refs s)(n := Suc (refs s n)) \<and>
     content t = content s \<and> buf_frame s t \<and> buf_holds t i n \<and>
     (\<forall>j m. buf_holds s j m \<longrightarrow> buf_holds t j m)"
proof (cases "refs s n = 0")
  case True
  then show ?thesis using bio_read_new [OF rd True] room by (auto simp: buf_room_def)
next
  case False
  then obtain i where "buf_holds s i n" by (rule refs_obtain)
  then show ?thesis using bio_read_held [OF rd, of i n] room by (auto simp: buf_room_def)
qed

text \<open>Overwriting a buffer one holds and writing it back sets the content of its block.\<close>

definition set_data :: "nat \<Rightarrow> u8 list \<Rightarrow> 'a kdisk_scheme \<Rightarrow> 'a kdisk_scheme" where
  "set_data i x s = s\<lparr>bdata := (bdata s)(i := x)\<rparr>"

lemma set_data_simps [simp]:
  "bcache (set_data i x s) = bcache s" "bdata (set_data i x s) i = x" "j \<noteq> i \<Longrightarrow> bdata (set_data i x s) j = bdata s j"
  "content (set_data i x s) = content s" "lock_free L (set_data i x s) = lock_free L s"
  "platter (set_data i x s) = platter s"
  "buf_holds (set_data i x s) j m = buf_holds s j m" "refs (set_data i x s) = refs s"
  by (simp_all add: set_data_def content_def fun_eq_iff lock_free_def buf_holds_def refs_def cong: option.case_cong)

lemma bio_write_ok:
  assumes rd: "cache_ready me s" and h: "buf_holds s i n" and x: "length x = BSIZE"
  shows "\<exists>t. bio_write i (set_data i x s) = Inr t \<and> cache_ready me t \<and> refs t = refs s \<and>
     content t = (content s)(n := x) \<and> buf_frame s t \<and> (\<forall>j m. buf_holds t j m \<longleftrightarrow> buf_holds s j m)"
proof -
  have ok: "cache_ok s" and lk: "lock_free BcacheLk s" and qi: "queue_idle s" and dr: "disk_ready me s"
      and bd: "block_device s" using rd by (auto simp: cache_ready_def disk_ready_def)
  note hh = refs_holds [OF ok h]
  let ?s1 = "set_data i x s"
  have q1: "disk_ready me ?s1" "block_device ?s1"
    using dr bd by (simp_all add: disk_ready_def queue_idle_def queue_ok_def caller_ok_def lock_free_def set_data_def block_device_def)
  obtain t where t: "virtio_blk_op (ucast n) i DWRITE ?s1 = Inr (0, t)" "disk_ready me t" "disk_frame ?s1 t"
      "bdata t = bdata ?s1" "platter t = (platter ?s1)(ucast n * 2 := bdata ?s1 i)"
    using blk_write [OF q1] by blast
  note ft = buf_frame_disk [OF t(3)]
  let ?u = "upd_buf i (\<lambda>b. b\<lparr>b_valid := True\<rparr>) t"
  have bi: "b_bno (bcache s ! i) = n" "b_ref (bcache s ! i) \<noteq> 0" "b_valid (bcache s ! i)"
    using h cache_okD(4) [OF ok hh(4)] by (auto simp: buf_holds_def)
  have run: "bio_write i ?s1 = Inr ?u" using t(1) bi(1) by (simp add: bio_write_def)
  have bu: "bcache ?u = (bcache s)[i := bcache s ! i]" using ft(2) bi(3) by (cases "bcache s ! i") simp
  have ct: "content ?u = (content s)(n := x)" using t(5) by (auto simp: content_def fun_eq_iff block_sector_inj)
  have oku: "cache_ok ?u"
  proof (rule cache_ok_upd [OF ok hh(4) bu])
    show "content ?u (b_bno (bcache s ! j)) = content s (b_bno (bcache s ! j)) \<and>
        (b_ref (bcache s ! i) \<noteq> 0 \<longrightarrow> b_bno (bcache s ! j) \<noteq> b_bno (bcache s ! i))"
      if "j < NBUF" "j \<noteq> i" "b_ref (bcache s ! j) \<noteq> 0" for j
      using that ct cache_okD(3) [OF ok that(1) hh(4)] bi by auto
    show "b_bno (bcache s ! i) \<noteq> 0 \<and> b_valid (bcache s ! i) \<and> bdata ?u i = content ?u (b_bno (bcache s ! i))"
      using t(4) ct hh(5) bi by simp
  qed (use t(4) ct x bi cache_okD(5) [OF ok] in auto)
  have f0: "buf_frame s ?s1" by (simp add: set_data_def)
  have fu: "buf_frame s ?u" by (rule buf_frame_trans [OF f0 buf_frame_trans [OF ft(1)]]) simp
  have "lock_free BcacheLk ?u"
  proof -
    have "locks t = locks s" by (subst t(3) [unfolded disk_frame_def]) (simp add: set_data_def)
    then show ?thesis using lk by (simp add: lock_free_def upd_buf_def)
  qed
  then have "cache_ready me ?u" using oku fu t(2) by (intro cache_ready_upd [OF rd]) (simp_all add: disk_ready_def)
  moreover have "refs ?u = (refs s)(n := unat (b_ref (bcache s ! i)))"
    by (rule refs_upd [OF ok oku hh(4) bu]) (use bi in auto)
  then have "refs ?u = refs s" using hh(1) by (simp add: fun_eq_iff)
  moreover have "buf_holds ?u j m \<longleftrightarrow> buf_holds s j m" for j m
    using buf_holds_upd [OF ok hh(4) bu] bi h by (auto simp: buf_holds_def)
  ultimately show ?thesis using run ct fu by blast
qed

text \<open>Giving a reference back.\<close>

lemma bio_free_ok:
  assumes rd: "cache_ready me s" and h: "buf_holds s i n"
  shows "\<exists>t. bio_free i s = Inr t \<and> cache_ready me t \<and> refs t = (refs s)(n := refs s n - 1) \<and>
     content t = content s \<and> buf_frame s t \<and>
     (\<forall>j m. buf_holds s j m \<longrightarrow> m \<noteq> n \<or> 1 < refs s n \<longrightarrow> buf_holds t j m)"
proof -
  have ok: "cache_ok s" and lk: "lock_free BcacheLk s" and qi: "queue_idle s"
    using rd by (auto simp: cache_ready_def disk_ready_def)
  note hh = refs_holds [OF ok h]
  have bi: "b_bno (bcache s ! i) = n" "b_ref (bcache s ! i) \<noteq> 0" "b_valid (bcache s ! i)"
    using h cache_okD(4) [OF ok hh(4)] by (auto simp: buf_holds_def)
  let ?r = "b_ref (bcache s ! i) - 1"
  let ?b = "if ?r = 0 then zero_buf else (bcache s ! i)\<lparr>b_ref := ?r\<rparr>"
  let ?t = "if ?r = 0 then cli_mark ((upd_buf i (\<lambda>_. zero_buf) s)\<lparr>bdata := (bdata s)(i := replicate BSIZE 0)\<rparr>)
     else cli_mark (upd_buf i (\<lambda>b. b\<lparr>b_ref := b_ref b - 1\<rparr>) s)"
  have run: "bio_free i s = Inr ?t"
    using lk bi(2) hh(4) cache_okD(1) [OF ok]
    by (simp add: bio_free_def locked_kbuf_upd release_locked Let_def)
      (simp add: upd_buf_def locked_kbuf_upd release_locked)
  have bt: "bcache ?t = (bcache s)[i := ?b]" by simp
  have ur: "unat (b_ref ?b) = refs s n - 1"
    using hh(1) bi(2) by (auto simp: zero_buf_def unat_minus_one)
  have ct: "content ?t = content s" by simp
  have okt: "cache_ok ?t"
  proof (rule cache_ok_upd [OF ok hh(4) bt])
    show "content ?t (b_bno (bcache s ! j)) = content s (b_bno (bcache s ! j)) \<and>
        (b_ref ?b \<noteq> 0 \<longrightarrow> b_bno (bcache s ! j) \<noteq> b_bno ?b)"
      if "j < NBUF" "j \<noteq> i" "b_ref (bcache s ! j) \<noteq> 0" for j
      using that cache_okD(3) [OF ok that(1) hh(4)] bi by (auto simp: zero_buf_def)
    show "b_bno ?b \<noteq> 0 \<and> b_valid ?b \<and> bdata ?t i = content ?t (b_bno ?b)" if "b_ref ?b \<noteq> 0"
      using that hh(3,5) bi by (auto simp: zero_buf_def)
  qed (use cache_okD(5) [OF ok] in auto)
  have ft: "buf_frame s ?t" by simp
  have "cache_ready me ?t" using okt qi lk by (intro cache_ready_upd [OF rd]) simp_all
  moreover have "refs ?t = (refs s)(n := unat (b_ref ?b))"
    by (rule refs_upd [OF ok okt hh(4) bt]) (use bi in \<open>auto simp: zero_buf_def\<close>)
  moreover have "buf_holds ?t j m" if "buf_holds s j m" "m \<noteq> n \<or> 1 < refs s n" for j m
    using buf_holds_upd [OF ok hh(4) bt] bi that ur by (auto simp: buf_holds_def zero_buf_def unat_eq_0)
  ultimately show ?thesis using run ct ft ur by auto
qed


section \<open>The contract the file system relies on\<close>

text \<open>
  References to blocks are counted; a reference taken shows the content of the block, writing
  sets it, and giving the reference back has no other effect.
\<close>

locale block_cache =
  fixes inv :: "'s \<Rightarrow> bool" and room :: "u32 \<Rightarrow> (u32 \<Rightarrow> nat) \<Rightarrow> bool"
    and cnt :: "'s \<Rightarrow> u32 \<Rightarrow> nat" and val :: "'s \<Rightarrow> u32 \<Rightarrow> u8 list"
    and hold :: "'s \<Rightarrow> nat \<Rightarrow> u32 \<Rightarrow> bool" and data :: "'s \<Rightarrow> nat \<Rightarrow> u8 list"
    and poke :: "nat \<Rightarrow> u8 list \<Rightarrow> 's \<Rightarrow> 's" and frame :: "'s \<Rightarrow> 's \<Rightarrow> bool"
    and rd :: "u32 \<Rightarrow> 's \<Rightarrow> (nat \<times> 's) res" and wr :: "nat \<Rightarrow> 's \<Rightarrow> 's res" and fr :: "nat \<Rightarrow> 's \<Rightarrow> 's res"
  assumes frame_trans: "frame s t \<Longrightarrow> frame t u \<Longrightarrow> frame s u"
    and rd_ok: "inv s \<Longrightarrow> room n (cnt s) \<Longrightarrow> \<exists>i t. rd n s = Inr (i, t) \<and> inv t \<and>
      cnt t = (cnt s)(n := Suc (cnt s n)) \<and> val t = val s \<and> frame s t \<and> hold t i n \<and>
      (\<forall>j m. hold s j m \<longrightarrow> hold t j m)"
    and data_ok: "inv s \<Longrightarrow> hold s i n \<Longrightarrow> data s i = val s n \<and> cnt s n \<noteq> 0"
    and wr_ok: "inv s \<Longrightarrow> hold s i n \<Longrightarrow> length x = BSIZE \<Longrightarrow> \<exists>t. wr i (poke i x s) = Inr t \<and> inv t \<and>
      cnt t = cnt s \<and> val t = (val s)(n := x) \<and> frame s t \<and> (\<forall>j m. hold t j m \<longleftrightarrow> hold s j m)"
    and fr_ok: "inv s \<Longrightarrow> hold s i n \<Longrightarrow> \<exists>t. fr i s = Inr t \<and> inv t \<and>
      cnt t = (cnt s)(n := cnt s n - 1) \<and> val t = val s \<and> frame s t \<and>
      (\<forall>j m. hold s j m \<longrightarrow> m \<noteq> n \<or> 1 < cnt s n \<longrightarrow> hold t j m)"
begin

text \<open>Looking at a block: the reference is given back, and no trace is left.\<close>

lemma peek:
  assumes "inv s" "room n (cnt s)"
  shows "\<exists>i t u. rd n s = Inr (i, t) \<and> data t i = val s n \<and> fr i t = Inr u \<and> inv u \<and>
     cnt u = cnt s \<and> val u = val s \<and> frame s u \<and> (\<forall>j m. hold s j m \<longrightarrow> hold u j m)"
proof -
  obtain i t where t: "rd n s = Inr (i, t)" "inv t" "cnt t = (cnt s)(n := Suc (cnt s n))" "val t = val s"
      "frame s t" "hold t i n" "\<forall>j m. hold s j m \<longrightarrow> hold t j m"
    using rd_ok [OF assms] by blast
  obtain u where u: "fr i t = Inr u" "inv u" "cnt u = (cnt t)(n := cnt t n - 1)" "val u = val t" "frame t u"
      "\<forall>j m. hold t j m \<longrightarrow> m \<noteq> n \<or> 1 < cnt t n \<longrightarrow> hold u j m"
    using fr_ok [OF t(2,6)] by blast
  have "hold u j m" if "hold s j m" for j m
  proof -
    have "m \<noteq> n \<or> 1 < cnt t n" using data_ok [OF assms(1) that] t(3) by auto
    then show ?thesis using u(6) t(7) that by blast
  qed
  moreover have "cnt u = cnt s" using u(3) t(3) by (simp add: fun_eq_iff)
  moreover have "data t i = val s n" using data_ok [OF t(2,6)] t(4) by simp
  moreover have "frame s u" by (rule frame_trans [OF t(5) u(5)])
  moreover have "val u = val s" using u(4) t(4) by simp
  ultimately show ?thesis using t(1) u(1,2) by blast
qed

text \<open>Read, change, write back, give back: the block has the new content, nothing else changes.\<close>

lemma rewrite:
  assumes "inv s" "room n (cnt s)"
  shows "\<exists>i t. rd n s = Inr (i, t) \<and> data t i = val s n \<and> frame s t \<and> (\<forall>x. length x = BSIZE \<longrightarrow>
     (\<exists>v u. wr i (poke i x t) = Inr v \<and> fr i v = Inr u \<and> inv u \<and> cnt u = cnt s \<and>
        val u = (val s)(n := x) \<and> frame s u \<and> (\<forall>j m. hold s j m \<longrightarrow> hold u j m)))"
proof -
  obtain i t where t: "rd n s = Inr (i, t)" "inv t" "cnt t = (cnt s)(n := Suc (cnt s n))" "val t = val s"
      "frame s t" "hold t i n" "\<forall>j m. hold s j m \<longrightarrow> hold t j m"
    using rd_ok [OF assms] by blast
  have "\<exists>v u. wr i (poke i x t) = Inr v \<and> fr i v = Inr u \<and> inv u \<and> cnt u = cnt s \<and>
        val u = (val s)(n := x) \<and> frame s u \<and> (\<forall>j m. hold s j m \<longrightarrow> hold u j m)" if x: "length x = BSIZE" for x
  proof -
    obtain v where v: "wr i (poke i x t) = Inr v" "inv v" "cnt v = cnt t" "val v = (val t)(n := x)" "frame t v"
        "\<forall>j m. hold v j m \<longleftrightarrow> hold t j m"
      using wr_ok [OF t(2,6) x] by blast
    have "hold v i n" using v(6) t(6) by blast
    then obtain u where u: "fr i v = Inr u" "inv u" "cnt u = (cnt v)(n := cnt v n - 1)" "val u = val v" "frame v u"
        "\<forall>j m. hold v j m \<longrightarrow> m \<noteq> n \<or> 1 < cnt v n \<longrightarrow> hold u j m"
      using fr_ok [OF v(2)] by blast
    have "hold u j m" if "hold s j m" for j m
    proof -
      have "m \<noteq> n \<or> 1 < cnt v n" using data_ok [OF assms(1) that] t(3) v(3) by auto
      then show ?thesis using u(6) v(6) t(7) that by blast
    qed
    moreover have "cnt u = cnt s" using u(3) v(3) t(3) by (simp add: fun_eq_iff)
    moreover have "val u = (val s)(n := x)" using u(4) v(4) t(4) by simp
    moreover have "frame s u" by (rule frame_trans [OF t(5) frame_trans [OF v(5) u(5)]])
    ultimately show ?thesis using v(1) u(1,2) by blast
  qed
  moreover have "data t i = val s n" using data_ok [OF t(2,6)] t(4) by simp
  ultimately show ?thesis using t(1,5) by blast
qed

end

interpretation bc: block_cache "cache_ready me" buf_room refs content buf_holds bdata set_data buf_frame
    bio_read bio_write bio_free
proof
  fix s t u :: "'a kbuf_scheme" and n i x
  show "buf_frame s t \<Longrightarrow> buf_frame t u \<Longrightarrow> buf_frame s u" by (rule buf_frame_trans)
  show "cache_ready me s \<Longrightarrow> buf_room n (refs s) \<Longrightarrow> \<exists>i t. bio_read n s = Inr (i, t) \<and> cache_ready me t \<and>
      refs t = (refs s)(n := Suc (refs s n)) \<and> content t = content s \<and> buf_frame s t \<and> buf_holds t i n \<and>
      (\<forall>j m. buf_holds s j m \<longrightarrow> buf_holds t j m)" by (rule bio_read_ok)
  show "cache_ready me s \<Longrightarrow> buf_holds s i n \<Longrightarrow> bdata s i = content s n \<and> refs s n \<noteq> 0"
    using refs_holds unfolding cache_ready_def by blast
  show "cache_ready me s \<Longrightarrow> buf_holds s i n \<Longrightarrow> length x = BSIZE \<Longrightarrow> \<exists>t. bio_write i (set_data i x s) = Inr t \<and>
      cache_ready me t \<and> refs t = refs s \<and> content t = (content s)(n := x) \<and> buf_frame s t \<and>
      (\<forall>j m. buf_holds t j m \<longleftrightarrow> buf_holds s j m)" by (rule bio_write_ok)
  show "cache_ready me s \<Longrightarrow> buf_holds s i n \<Longrightarrow> \<exists>t. bio_free i s = Inr t \<and> cache_ready me t \<and>
      refs t = (refs s)(n := refs s n - 1) \<and> content t = content s \<and> buf_frame s t \<and>
      (\<forall>j m. buf_holds s j m \<longrightarrow> m \<noteq> n \<or> 1 < refs s n \<longrightarrow> buf_holds t j m)" by (rule bio_free_ok)
qed


section \<open>Properties of the cache\<close>

text \<open>
  C19. A block that is read, overwritten, written back and given back reads as what was written,
  from the cache and from the medium; no other block changes, and no reference is left over.
\<close>

theorem cached_block_roundtrip:
  assumes rd: "cache_ready me s" and room: "buf_room n (refs s)" and x: "length x = BSIZE"
  shows "\<exists>i t v u j w. bio_read n s = Inr (i, t) \<and> bdata t i = content s n \<and>
     bio_write i (set_data i x t) = Inr v \<and> bio_free i v = Inr u \<and> refs u = refs s \<and> cache_ready me u \<and>
     bio_read n u = Inr (j, w) \<and> bdata w j = x \<and> content w = (content s)(n := x)"
proof -
  obtain i t v u where t: "bio_read n s = Inr (i, t)" "bdata t i = content s n"
      "bio_write i (set_data i x t) = Inr v" "bio_free i v = Inr u" "cache_ready me u" "refs u = refs s"
      "content u = (content s)(n := x)"
    using bc.rewrite [OF rd room] x by blast
  then have "buf_room n (refs u)" using room by simp
  then obtain j w where "bio_read n u = Inr (j, w)" "bdata w j = content u n" "content w = content u"
    using bc.rd_ok [OF t(5)] bc.data_ok by (metis (no_types, lifting))
  then show ?thesis using t by auto
qed

text \<open>With all 32 buffers in use, reading another block stops the machine.\<close>

theorem cache_full_panics:
  assumes ok: "cache_ok s" and lk: "lock_free BcacheLk s"
    and full: "\<forall>i<NBUF. b_ref (bcache s ! i) \<noteq> 0" and n: "refs s n = 0"
  shows "bio_read n s = Inl (Panic ''buf'')"
proof -
  have len: "length (bcache s) = NBUF" by (rule cache_okD(1) [OF ok])
  have "b_bno (bcache s ! j) \<noteq> n" if "j < NBUF" for j
    using n full that len unfolding refs_none buf_holds_def by auto
  then have "scan (\<lambda>b. b_bno b = n) (bcache s) = None"
    unfolding scan_None_iff using len by (metis in_set_conv_nth)
  moreover have "scan (\<lambda>b. b_ref b = 0) (bcache s) = None"
    unfolding scan_None_iff using len full by (metis in_set_conv_nth)
  ultimately show ?thesis using lk by (simp add: bio_read_def get_buf_def)
qed

text \<open>
  Block 0 is not told apart from a free buffer: the search for the block looks at the number
  only, which is 0 in a free buffer. If a buffer before the one that holds block 0 is free, a
  second request for block 0 gets that buffer, and the block is in the cache twice. Files with
  holes reach block 0, because \<open>ext2_inode_block\<close> reads \<open>block[i]\<close> unchecked.
\<close>

theorem block_zero_aliased:
  assumes lk: "lock_free BcacheLk s" and j: "buf_holds s j 0"
    and i: "i < j" "bcache s ! i = zero_buf" "\<forall>k<i. b_bno (bcache s ! k) \<noteq> 0"
  shows "\<exists>t. get_buf 0 s = Inr (i, t) \<and> i \<noteq> j \<and> buf_holds t i 0 \<and> buf_holds t j 0"
proof -
  have il: "i < length (bcache s)" using i(1) j by (simp add: buf_holds_def)
  then have "scan (\<lambda>b. b_bno b = 0) (bcache s) = Some i"
    using i unfolding scan_Some_iff by (simp add: zero_buf_def)
  then have "get_buf 0 s = Inr (i, cli_mark (upd_buf i (\<lambda>b. b\<lparr>b_ref := b_ref b + 1\<rparr>) s))"
    using lk by (simp add: get_buf_def locked_kbuf_upd release_locked)
  then show ?thesis using i il j by (simp add: buf_holds_def nth_list_update zero_buf_def)
qed

text \<open>Witnesses.\<close>

definition blank :: platter where
  "blank = (\<lambda>_. replicate BSIZE 0)"

definition idle_cache :: "buf list \<Rightarrow> platter \<Rightarrow> kbuf" where
  "idle_cache bs pl = kdisk.extend (idle_disk (\<lambda>i. pl (ucast (b_bno (bs ! i)) * 2)) pl) \<lparr>bcache = bs\<rparr>"

lemma idle_cache_simps [simp]:
  "bcache (idle_cache bs pl) = bs" "lock_free L (idle_cache bs pl)" "queue_idle (idle_cache bs pl)"
  "block_device (idle_cache bs pl)" "content (idle_cache bs pl) n = pl (ucast n * 2)"
  "bdata (idle_cache bs pl) i = pl (ucast (b_bno (bs ! i)) * 2)" "caller_ok 0 (idle_cache bs pl)"
proof -
  let ?d = "idle_disk (\<lambda>i. pl (ucast (b_bno (bs ! i)) * 2)) pl"
  note d = idle_disk_ok(2) [where bs = "\<lambda>i. pl (ucast (b_bno (bs ! i)) * 2)" and pl = pl]
    idle_disk_ok(3,4) [where bs = "\<lambda>i. pl (ucast (b_bno (bs ! i)) * 2)" and pl = pl]
  show "lock_free L (idle_cache bs pl)" using d(1) [of L] by (simp add: idle_cache_def kdisk.extend_def lock_free_def)
  show "queue_idle (idle_cache bs pl)" "caller_ok 0 (idle_cache bs pl)"
    using d(2) by (simp_all add: disk_ready_def idle_cache_def kdisk.extend_def queue_idle_def queue_ok_def
        caller_ok_def lock_free_def)
  show "block_device (idle_cache bs pl)"
    using d(3) by (simp add: idle_cache_def kdisk.extend_def block_device_def)
qed (simp_all add: idle_cache_def kdisk.extend_def content_def idle_disk_def kproc.extend_def)

lemma idle_cache_ready:
  assumes "\<And>n. length (pl n) = BSIZE"
  shows "cache_ready 0 (idle_cache (replicate NBUF zero_buf) pl)"
    "refs (idle_cache (replicate NBUF zero_buf) pl) = (\<lambda>_. 0)"
proof -
  show "refs (idle_cache (replicate NBUF zero_buf) pl) = (\<lambda>_. 0)"
    by (auto simp: refs_none buf_holds_def zero_buf_def fun_eq_iff)
  show "cache_ready 0 (idle_cache (replicate NBUF zero_buf) pl)"
    using assms by (simp add: cache_ready_def disk_ready_def cache_ok_def) (simp add: zero_buf_def)
qed

theorem cached_block_roundtrip_witness:
  "\<exists>i t v u. bio_read 5 (idle_cache (replicate NBUF zero_buf) blank) = Inr (i, t) \<and>
     bio_write i (set_data i (replicate BSIZE 7) t) = Inr v \<and> bio_free i v = Inr u \<and>
     content u 5 = replicate BSIZE 7"
proof -
  note r = idle_cache_ready [of blank]
  have l: "\<And>n. length (blank n) = BSIZE" by (simp add: blank_def)
  have "buf_room 5 (refs (idle_cache (replicate NBUF zero_buf) blank))" by (simp add: r(2) [OF l] buf_room_def)
  from cached_block_roundtrip [OF r(1) [OF l] this, of "replicate BSIZE 7"]
  obtain i t v u j w where x: "bio_read 5 (idle_cache (replicate NBUF zero_buf) blank) = Inr (i, t)"
     "bio_write i (set_data i (replicate BSIZE 7) t) = Inr v" "bio_free i v = Inr u" "cache_ready 0 u"
     "bio_read 5 u = Inr (j, w)" "content w = (content (idle_cache (replicate NBUF zero_buf) blank))(5 := replicate BSIZE 7)"
     "refs u = refs (idle_cache (replicate NBUF zero_buf) blank)"
    by auto
  have "buf_room 5 (refs u)" by (simp add: x(7) r(2) [OF l] buf_room_def)
  then have "content w = content u" using bc.rd_ok [OF x(4)] x(5) by fastforce
  then have "content u 5 = replicate BSIZE 7" using x(6) by (metis fun_upd_same)
  then show ?thesis using x by blast
qed

definition full_bufs :: "buf list" where
  "full_bufs = map (\<lambda>i. \<lparr>b_bno = of_nat i + 1, b_ref = 1, b_valid = True\<rparr>) [0..<NBUF]"

theorem cache_full_panics_witness:
  "bio_read 40 (idle_cache full_bufs blank) = Inl (Panic ''buf'')"
proof -
  have nth: "full_bufs ! i = \<lparr>b_bno = of_nat i + 1, b_ref = 1, b_valid = True\<rparr>" if "i < NBUF" for i
    using that by (simp add: full_bufs_def)
  have u: "unat (of_nat i + 1 :: u32) = i + 1" if "i < NBUF" for i
  proof -
    have "of_nat i + 1 = (of_nat (i + 1) :: u32)" by simp
    moreover have "unat (of_nat (i + 1) :: u32) = i + 1"
      using that take_bit_nat_eq_self [of "i + 1" 32] by (simp only: unsigned_of_nat) simp
    ultimately show ?thesis by (simp add: add.commute)
  qed
  have len: "length full_bufs = NBUF" by (simp add: full_bufs_def)
  have ok: "cache_ok (idle_cache full_bufs blank)"
    unfolding cache_ok_def
  proof (intro conjI allI impI)
    fix i j assume ij: "i < NBUF" "j < NBUF"
      "b_bno (bcache (idle_cache full_bufs blank) ! i) = b_bno (bcache (idle_cache full_bufs blank) ! j)"
    then show "i = j" using u [of i] u [of j] nth by (metis add_right_cancel buf.select_convs(1) idle_cache_simps(1))
  next
    fix i assume i: "i < NBUF"
    show "b_bno (bcache (idle_cache full_bufs blank) ! i) \<noteq> 0"
      using u [OF i] nth [OF i] by (metis add_is_0 buf.select_convs(1) idle_cache_simps(1) one_neq_zero unsigned_0)
  qed (use nth in \<open>simp_all add: len blank_def\<close>)
  have "refs (idle_cache full_bufs blank) 40 = 0"
  proof -
    have "b_bno (full_bufs ! i) \<noteq> 40" if "i < NBUF" for i
    proof
      assume "b_bno (full_bufs ! i) = 40"
      then have "unat (of_nat i + 1 :: u32) = 40" using nth [OF that] by simp
      then show False using u [OF that] that by simp
    qed
    then show ?thesis by (auto simp: refs_none buf_holds_def len)
  qed
  then show ?thesis using ok nth by (intro cache_full_panics) simp_all
qed

theorem block_zero_aliased_witness:
  "\<exists>t. get_buf 0 (idle_cache [zero_buf, \<lparr>b_bno = 0, b_ref = 1, b_valid = True\<rparr>] blank) = Inr (0, t) \<and>
     buf_holds t 0 0 \<and> buf_holds t 1 0"
  using block_zero_aliased [of "idle_cache [zero_buf, \<lparr>b_bno = 0, b_ref = 1, b_valid = True\<rparr>] blank" 1 0]
  by (simp add: buf_holds_def)

end
