(* ===== verification/Ext2_Format.thy ===== *)
theory Ext2_Format
  imports Buf
begin

text \<open>
  The on-disk formats of kernel/ext2.c and include/ext2.h, include/dirent.h, and the parts of
  ext2.c that work on the bytes of one block: bitmaps, directory entries and path names.

  A block buffer is the list of its 1024 bytes. An access outside the buffer, which in C reads or
  writes the neighbouring memory, is \<open>Fault\<close>. Names and paths are C strings, the lists of their
  bytes before the NUL.
\<close>

unbundle bit_operations_syntax

section \<open>Fields of a block\<close>

definition get16 :: "u8 list \<Rightarrow> nat \<Rightarrow> u16" where
  "get16 d o1 = get_le 2 (\<lambda>k. d ! (o1 + k))"

definition get32 :: "u8 list \<Rightarrow> nat \<Rightarrow> u32" where
  "get32 d o1 = get_le 4 (\<lambda>k. d ! (o1 + k))"

text \<open>Storing bytes at an offset.\<close>

definition put_bytes :: "nat \<Rightarrow> u8 list \<Rightarrow> u8 list \<Rightarrow> u8 list" where
  "put_bytes o1 bs d = take o1 d @ bs @ drop (o1 + length bs) d"

definition le_list :: "nat \<Rightarrow> 'a::len word \<Rightarrow> u8 list" where
  "le_list n w = map (byte_of w) [0..<n]"

definition put16 :: "nat \<Rightarrow> u16 \<Rightarrow> u8 list \<Rightarrow> u8 list" where
  "put16 o1 w d = put_bytes o1 (le_list 2 w) d"

definition put32 :: "nat \<Rightarrow> u32 \<Rightarrow> u8 list \<Rightarrow> u8 list" where
  "put32 o1 w d = put_bytes o1 (le_list 4 w) d"

lemma length_put_bytes [simp]: "o1 + length bs \<le> length d \<Longrightarrow> length (put_bytes o1 bs d) = length d"
  by (simp add: put_bytes_def)

lemma nth_put_bytes:
  "o1 + length bs \<le> length d \<Longrightarrow> i < length d \<Longrightarrow> put_bytes o1 bs d ! i =
     (if o1 \<le> i \<and> i < o1 + length bs then bs ! (i - o1) else d ! i)"
  by (auto simp: put_bytes_def nth_append min_def)

lemma length_le_list [simp]: "length (le_list n w) = n"
  by (simp add: le_list_def)

lemma length_put16 [simp]: "o1 + 2 \<le> length d \<Longrightarrow> length (put16 o1 w d) = length d"
  by (simp add: put16_def)

lemma length_put32 [simp]: "o1 + 4 \<le> length d \<Longrightarrow> length (put32 o1 w d) = length d"
  by (simp add: put32_def)

lemma get32_put32 [simp]: "o1 + 4 \<le> length d \<Longrightarrow> get32 (put32 o1 w d) o1 = w"
proof -
  assume o1: "o1 + 4 \<le> length d"
  have "get_le 4 (\<lambda>k. put32 o1 w d ! (o1 + k)) = (get_le 4 (byte_of w) :: u32)"
    using o1 by (intro get_le_cong) (simp add: put32_def nth_put_bytes le_list_def)
  then show ?thesis by (simp add: get32_def get_le_byte_of)
qed

lemma get16_put16 [simp]: "o1 + 2 \<le> length d \<Longrightarrow> get16 (put16 o1 w d) o1 = w"
proof -
  assume o1: "o1 + 2 \<le> length d"
  have "get_le 2 (\<lambda>k. put16 o1 w d ! (o1 + k)) = (get_le 2 (byte_of w) :: u16)"
    using o1 by (intro get_le_cong) (simp add: put16_def nth_put_bytes le_list_def)
  then show ?thesis by (simp add: get16_def get_le_byte_of)
qed

text \<open>A field is not disturbed by a store elsewhere.\<close>

lemma get32_put_other:
  "o2 + length bs \<le> length d \<Longrightarrow> o1 + 4 \<le> length d \<Longrightarrow> o1 + 4 \<le> o2 \<or> o2 + length bs \<le> o1 \<Longrightarrow>
     get32 (put_bytes o2 bs d) o1 = get32 d o1"
  unfolding get32_def by (rule get_le_cong) (auto simp: nth_put_bytes)

lemma get16_put_other:
  "o2 + length bs \<le> length d \<Longrightarrow> o1 + 2 \<le> length d \<Longrightarrow> o1 + 2 \<le> o2 \<or> o2 + length bs \<le> o1 \<Longrightarrow>
     get16 (put_bytes o2 bs d) o1 = get16 d o1"
  unfolding get16_def by (rule get_le_cong) (auto simp: nth_put_bytes)

section \<open>Bitmaps\<close>

text \<open>The first chunk that is not full; the search runs over \<open>bsize\<close> bytes.\<close>

definition free_chunk :: "nat \<Rightarrow> u8 list \<Rightarrow> nat option res" where
  "free_chunk bsize d =
     (case scan (\<lambda>c. c \<noteq> 0xff) (take bsize d) of
        Some i \<Rightarrow> Inr (Some i)
      | None \<Rightarrow> if length d < bsize then Inl Fault else Inr None)"

lemma odd_drop_less: "c AND 1 \<noteq> 0 \<Longrightarrow> unat (drop_bit 1 c) < unat (c :: u8)"
proof -
  assume "c AND 1 \<noteq> 0"
  then have "c \<noteq> 0" by auto
  then have "0 < unat c" by (simp add: unat_gt_0)
  moreover have "unat (drop_bit 1 c) = unat c div 2" by (simp only: drop_bit_eq_div unat_div_distrib) simp
  ultimately show ?thesis by simp
qed

text \<open>\<open>for(; chunk & 1; chunk >>= 1) n++\<close>\<close>

function ones :: "u8 \<Rightarrow> nat" where
  "ones c = (if c AND 1 \<noteq> 0 then Suc (ones (drop_bit 1 c)) else 0)"
  by auto

termination
  by (relation "measure unat") (simp_all add: odd_drop_less del: One_nat_def)

declare ones.simps [simp del]

definition find_free_ino :: "nat \<Rightarrow> u8 list \<Rightarrow> nat option res" where
  "find_free_ino bsize d =
     bnd (free_chunk bsize d) (\<lambda>r. Inr (map_option (\<lambda>i. 1 + 8 * i + ones (d ! i)) r))"

definition find_free_block :: "nat \<Rightarrow> u8 list \<Rightarrow> nat option res" where
  "find_free_block bsize d =
     bnd (free_chunk bsize d) (\<lambda>r. Inr (map_option (\<lambda>i. 8 * i + ones (d ! i)) r))"

text \<open>The loop of \<open>ibmp_write_bit\<close> and \<open>bbmp_write_bit\<close> that looks for the byte of a bit.\<close>

fun seek_bit :: "nat \<Rightarrow> nat \<Rightarrow> nat \<Rightarrow> (nat \<times> nat) option" where
  "seek_bit 0 chunkn bitn = None"
| "seek_bit (Suc k) chunkn bitn = (if bitn < 8 then Some (chunkn, bitn) else seek_bit k (chunkn + 1) (bitn - 8))"

definition write_bit :: "nat \<Rightarrow> nat \<Rightarrow> bool \<Rightarrow> u8 list \<Rightarrow> u8 list option res" where
  "write_bit bsize bitn v d =
     (case seek_bit bsize 0 bitn of
        None \<Rightarrow> Inr None
      | Some (chunkn, b) \<Rightarrow>
          if length d \<le> chunkn then Inl Fault
          else
            let c = d ! chunkn
            in Inr (Some (d[chunkn := (if v then c OR push_bit b 1 else c AND NOT (push_bit b 1))])))"

section \<open>Directory entries\<close>

text \<open>\<open>struct dirent\<close>: inode, rec_len, name_len, file_type, then the name.\<close>

definition de_inode :: "u8 list \<Rightarrow> nat \<Rightarrow> u32" where "de_inode d p = get32 d p"
definition de_rec_len :: "u8 list \<Rightarrow> nat \<Rightarrow> nat" where "de_rec_len d p = unat (get16 d (p + 4))"
definition de_name_len :: "u8 list \<Rightarrow> nat \<Rightarrow> nat" where "de_name_len d p = unat (d ! (p + 6))"
definition de_file_type :: "u8 list \<Rightarrow> nat \<Rightarrow> u8" where "de_file_type d p = d ! (p + 7)"

record dirent =
  dr_inode :: u32
  dr_rec_len :: nat
  dr_name_len :: nat
  dr_file_type :: u8
  dr_name :: "u8 list"

abbreviation DIRENT_NAME_MAX :: nat where "DIRENT_NAME_MAX \<equiv> 255"

text \<open>\<open>roundup_4byte\<close>; the buffers are aligned to four bytes, so that offsets round as addresses do.\<close>

definition roundup4 :: "nat \<Rightarrow> nat" where
  "roundup4 m = 4 * ((m + 3) div 4)"

text \<open>\<open>name_len\<close> has eight bits.\<close>

definition make_dirent :: "nat \<Rightarrow> u32 \<Rightarrow> u8 list \<Rightarrow> u8 \<Rightarrow> dirent res" where
  "make_dirent bsize inum name ft =
     (if BSIZE < bsize then Inl Fault
      else Inr \<lparr>dr_inode = inum, dr_rec_len = roundup4 (8 + length name), dr_name_len = length name mod 256,
                dr_file_type = ft, dr_name = take (length name mod 256) name\<rparr>)"

text \<open>
  \<open>search_dirent_block\<close> from position \<open>bpos\<close> on. An entry with \<open>rec_len\<close> 0 stops the advance,
  and the loop with it.
\<close>

definition entry_name :: "u8 list \<Rightarrow> nat \<Rightarrow> u8 list" where
  "entry_name d p = takeWhile (\<lambda>c. c \<noteq> 0) (take (de_name_len d p) (drop (p + 8) d))"

function search_entries :: "nat \<Rightarrow> u8 list \<Rightarrow> u8 list \<Rightarrow> nat \<Rightarrow> u32 option res" where
  "search_entries bsize d name bpos =
     (if bsize \<le> bpos then Inr None
      else if length d < bpos + 7 \<or> (de_name_len d bpos \<noteq> 0 \<and> length d < bpos + 8 + de_name_len d bpos)
        then Inl Fault
      else if entry_name d bpos = name then Inr (Some (de_inode d bpos))
      else if de_rec_len d bpos = 0 then Inl Runaway
      else search_entries bsize d name (bpos + de_rec_len d bpos))"
  by auto
termination by (relation "measure (\<lambda>(bsize, d, name, bpos). bsize - bpos)") auto

declare search_entries.simps [simp del]

definition search_dirent_block :: "nat \<Rightarrow> u8 list \<Rightarrow> u8 list \<Rightarrow> u32 option res" where
  "search_dirent_block bsize d name = search_entries bsize d name 0"

text \<open>
  The loop of \<open>ext2_dirlink\<close> over the entries of one block: it stops at an entry with
  \<open>rec_len\<close> 0 (\<open>Inl\<close>: the block counts as empty) or runs to the end and remembers the last
  entry (\<open>Inr\<close>).
\<close>

function last_entry :: "nat \<Rightarrow> u8 list \<Rightarrow> nat \<Rightarrow> nat \<Rightarrow> (nat + nat) res" where
  "last_entry bsize d seen bpos =
     (if bsize \<le> bpos then Inr (Inr seen)
      else if length d < bpos + 6 then Inl Fault
      else if de_rec_len d bpos = 0 then Inr (Inl bpos)
      else last_entry bsize d bpos (bpos + de_rec_len d bpos))"
  by auto
termination by (relation "measure (\<lambda>(bsize, d, seen, bpos). bsize - bpos)") auto

declare last_entry.simps [simp del]

text \<open>\<open>strlen(d->name)\<close>: up to the first NUL, which may lie beyond the buffer.\<close>

definition name_strlen :: "u8 list \<Rightarrow> nat \<Rightarrow> nat res" where
  "name_strlen d p =
     (case scan (\<lambda>c. c = 0) (drop (p + 8) d) of None \<Rightarrow> Inl Fault | Some n \<Rightarrow> Inr n)"

text \<open>
  Storing an entry: the fields, then \<open>memcpy(d->name, de->name, de->name_len + 1)\<close>, the name with
  its NUL.
\<close>

definition put_entry :: "nat \<Rightarrow> dirent \<Rightarrow> nat \<Rightarrow> u8 list \<Rightarrow> u8 list res" where
  "put_entry p de rec_len d =
     (if length d < p + 8 + dr_name_len de + 1 then Inl Fault
      else Inr (put_bytes (p + 8) (dr_name de @ [0])
             (put_bytes (p + 6) [of_nat (dr_name_len de), dr_file_type de]
               (put16 (p + 4) (of_nat rec_len) (put32 p (dr_inode de) d)))))"

text \<open>Whether \<open>de\<close> fits behind the last entry, and putting it there.\<close>

definition entry_fits :: "nat \<Rightarrow> u8 list \<Rightarrow> nat \<Rightarrow> dirent \<Rightarrow> bool res" where
  "entry_fits bsize d p de =
     bnd (name_strlen d p) (\<lambda>n. Inr (int (dr_rec_len de) < int bsize - int (p + 8 + n)))"

definition append_entry :: "nat \<Rightarrow> u8 list \<Rightarrow> nat \<Rightarrow> dirent \<Rightarrow> u8 list res" where
  "append_entry bsize d p de =
     bnd (name_strlen d p) (\<lambda>n.
       let q = roundup4 (p + 8 + n) in
       put_entry q de (bsize - q) (put16 (p + 4) (of_nat (q - p)) d))"

section \<open>Path names\<close>

abbreviation SLASH :: u8 where "SLASH \<equiv> 47"

text \<open>
  \<open>skippath\<close> copies the next component of the path to \<open>name\<close>, a buffer of 255 bytes, and
  returns what follows it and its slash. A component of 255 bytes or more writes past the
  buffer (already its NUL is the 256th byte); the error return of the code comes after that.
\<close>

definition skippath :: "u8 list \<Rightarrow> (u8 list \<times> u8 list) res" where
  "skippath path =
     (let p = dropWhile (\<lambda>c. c = SLASH) path;
          name = takeWhile (\<lambda>c. c \<noteq> SLASH) p
      in if DIRENT_NAME_MAX \<le> length name then Inl Fault
         else Inr (drop (length name + 1) p, name))"


section \<open>The bitmap functions\<close>

text \<open>The bits of a bitmap, and its meaning: bit \<open>n\<close> is set when block \<open>n\<close> is taken.\<close>

definition bitmap_bit :: "u8 list \<Rightarrow> nat \<Rightarrow> bool" where
  "bitmap_bit d n = bit (d ! (n div 8)) (n mod 8)"

lemma bit_zero_and_one: "c AND 1 \<noteq> 0 \<longleftrightarrow> bit (c :: u8) 0"
  by (simp add: and_one_eq bit_0 even_iff_mod_2_eq_zero)

lemma ones_spec:
  assumes "(c :: u8) \<noteq> 0xff"
  shows "ones c < 8" "\<not> bit c (ones c)" "\<And>i. i < ones c \<Longrightarrow> bit c i"
proof -
  have low: "\<not> bit c (ones c) \<and> (\<forall>i<ones c. bit c i)" for c
  proof (induction c rule: ones.induct)
    case (1 c)
    show ?case
    proof (cases "c AND 1 \<noteq> 0")
      case True
      then have "bit c 0" by (simp only: bit_zero_and_one)
      moreover have "ones c = Suc (ones (drop_bit 1 c))" using True by (subst ones.simps) (rule if_P)
      moreover have "bit (drop_bit 1 c) i = bit c (Suc i)" for i by (simp add: bit_drop_bit_eq)
      ultimately show ?thesis using 1 [OF True]
        by (auto simp: less_Suc_eq_0_disj simp del: One_nat_def)
    next
      case False
      then have "ones c = 0" by (subst ones.simps) (rule if_not_P)
      then show ?thesis using False unfolding bit_zero_and_one by simp
    qed
  qed
  show nb: "\<not> bit c (ones c)" and b: "\<And>i. i < ones c \<Longrightarrow> bit c i" using low by blast+
  show "ones c < 8"
  proof (rule ccontr)
    assume "\<not> ones c < 8"
    then have "bit c i" if "i < 8" for i using b that by simp
    then have "c = - 1" by (intro bit_word_eqI) simp
    then have "c = 0xff" by simp
    with assms show False by simp
  qed
qed


lemma full_chunk: "k < 8 \<Longrightarrow> bit (0xff :: u8) k"
proof -
  assume "k < 8"
  then have b: "bit (- 1 :: u8) k" by simp
  have "(- 1 :: u8) = 0xff" by simp
  then show ?thesis using b by (rule subst)
qed

lemma find_free_block_spec:
  assumes d: "length d = BSIZE"
  shows "find_free_block BSIZE d = Inr None \<and> (\<forall>n<8 * BSIZE. bitmap_bit d n) \<or>
     (\<exists>n<8 * BSIZE. find_free_block BSIZE d = Inr (Some n) \<and> \<not> bitmap_bit d n \<and> (\<forall>m<n. bitmap_bit d m))"
proof (cases "scan (\<lambda>c. c \<noteq> 0xff) d")
  case None
  then have f: "d ! i = 0xff" if "i < BSIZE" for i using that d unfolding scan_None_iff by (metis nth_mem)
  then have "bitmap_bit d n" if "n < 8 * BSIZE" for n
    using f [of "n div 8"] that full_chunk by (simp add: bitmap_bit_def)
  moreover have "find_free_block BSIZE d = Inr None"
    using None d by (simp add: find_free_block_def free_chunk_def)
  ultimately show ?thesis by blast
next
  case (Some i)
  note sc = scan_SomeD [OF Some]
  let ?n = "8 * i + ones (d ! i)"
  have "d ! i \<noteq> 0xff" using sc(2) by simp
  note o8 = ones_spec [OF this]
  have i: "i < BSIZE" using sc(1) d by simp
  have dm: "?n div 8 = i" "?n mod 8 = ones (d ! i)" using o8(1) by auto
  have "\<not> bitmap_bit d ?n" using o8(2) unfolding bitmap_bit_def dm .
  moreover have "bitmap_bit d m" if m: "m < ?n" for m
  proof (cases "m div 8 = i")
    case True
    then have "m mod 8 < ones (d ! i)" using m by (metis add_less_cancel_left mult_div_mod_eq)
    then show ?thesis using True o8(3) by (simp add: bitmap_bit_def)
  next
    case False
    then have "m div 8 < i" using m o8(1) by linarith
    then have "d ! (m div 8) = 0xff" using sc(3) by simp
    then show ?thesis unfolding bitmap_bit_def using full_chunk by simp
  qed
  moreover have "?n < 8 * BSIZE" using i o8(1) by simp
  moreover have "find_free_block BSIZE d = Inr (Some ?n)"
    using Some d by (simp add: find_free_block_def free_chunk_def)
  ultimately show ?thesis by blast
qed

lemma find_free_ino_block:
  "find_free_ino bsize d = bnd (find_free_block bsize d) (\<lambda>r. Inr (map_option Suc r))"
  by (simp add: find_free_ino_def find_free_block_def bnd_assoc option.map_comp o_def)

lemma seek_bit_spec:
  "seek_bit k c b = (if b div 8 < k then Some (c + b div 8, b mod 8) else None)"
proof (induction k c b rule: seek_bit.induct)
  case (2 k c b)
  show ?case
  proof (cases "b < 8")
    case False
    then have "b div 8 = Suc ((b - 8) div 8)" "b mod 8 = (b - 8) mod 8"
      by (simp_all add: le_div_geq le_mod_geq)
    then show ?thesis using 2 [OF False] False by simp
  qed simp
qed simp

lemma write_bit_spec:
  assumes d: "length d = BSIZE" and n: "n < 8 * BSIZE"
  shows "\<exists>e. write_bit BSIZE n v d = Inr (Some e) \<and> length e = BSIZE \<and>
     (\<forall>m<8 * BSIZE. bitmap_bit e m = (if m = n then v else bitmap_bit d m))"
proof -
  let ?c = "d ! (n div 8)" and ?b = "n mod 8"
  let ?x = "if v then ?c OR push_bit ?b 1 else ?c AND NOT (push_bit ?b 1)"
  let ?e = "d[n div 8 := ?x]"
  have sk: "seek_bit BSIZE 0 n = Some (n div 8, n mod 8)" using n by (simp add: seek_bit_spec less_mult_imp_div_less)
  have "n div 8 < BSIZE" using n by (simp add: less_mult_imp_div_less)
  then have w: "write_bit BSIZE n v d = Inr (Some ?e)"
    unfolding write_bit_def sk using d by (simp add: Let_def)
  have "bitmap_bit ?e m = (if m = n then v else bitmap_bit d m)" if m: "m < 8 * BSIZE" for m
  proof (cases "m div 8 = n div 8")
    case True
    have x: "bit ?x j \<longleftrightarrow> (if j = ?b then v else bit ?c j)" if "j < 8" for j
      using that by (auto simp: bit_simps)
    have "?e ! (m div 8) = ?x" using True d \<open>n div 8 < BSIZE\<close> by simp
    then have "bitmap_bit ?e m = bit ?x (m mod 8)" by (simp only: bitmap_bit_def)
    also have "\<dots> = (if m mod 8 = ?b then v else bit ?c (m mod 8))" by (rule x) simp
    also have "\<dots> = (if m = n then v else bitmap_bit d m)"
      using True by (metis bitmap_bit_def mod_mult_div_eq)
    finally show ?thesis .
  next
    case False
    then show ?thesis by (auto simp: bitmap_bit_def)
  qed
  then show ?thesis using w d by auto
qed

section \<open>The entries of a directory block\<close>

text \<open>\<open>tiles d p ps\<close>: from \<open>p\<close> on, the entries at \<open>ps\<close> cover the block to its end.\<close>

fun tiles :: "u8 list \<Rightarrow> nat \<Rightarrow> nat list \<Rightarrow> bool" where
  "tiles d p [] \<longleftrightarrow> p = BSIZE"
| "tiles d p (q # qs) \<longleftrightarrow> q = p \<and> 8 + de_name_len d p \<le> de_rec_len d p \<and> p + de_rec_len d p \<le> BSIZE \<and>
     tiles d (p + de_rec_len d p) qs"

definition dir_block :: "u8 list \<Rightarrow> nat list \<Rightarrow> bool" where
  "dir_block d ps \<longleftrightarrow> length d = BSIZE \<and> tiles d 0 ps"

lemma tiles_bounds: "tiles d p ps \<Longrightarrow> p \<le> BSIZE \<and> (\<forall>q\<in>set ps. p \<le> q \<and> q + 8 + de_name_len d q \<le> BSIZE)"
proof (induction ps arbitrary: p)
  case (Cons q qs)
  then show ?case by (fastforce simp del: One_nat_def)
qed simp

text \<open>Searching a well-formed block is looking through the list of its entries.\<close>

lemma search_entries_tiles:
  assumes "length d = BSIZE" "tiles d p ps"
  shows "search_entries BSIZE d name p = Inr (map_option (de_inode d) (find (\<lambda>q. entry_name d q = name) ps))"
  using assms(2)
proof (induction ps arbitrary: p)
  case Nil
  then show ?case by (subst search_entries.simps) simp
next
  case (Cons q qs)
  then have q: "q = p" "8 + de_name_len d p \<le> de_rec_len d p" "p + de_rec_len d p \<le> BSIZE"
      and t: "tiles d (p + de_rec_len d p) qs" by auto
  have "\<not> BSIZE \<le> p" "\<not> (length d < p + 7 \<or> (de_name_len d p \<noteq> 0 \<and> length d < p + 8 + de_name_len d p))"
      "de_rec_len d p \<noteq> 0"
    using q assms(1) by auto
  then show ?case using Cons.IH [OF t] q(1) by (subst search_entries.simps) (simp only: if_False if_True, simp)
qed

lemma search_block_tiles:
  "dir_block d ps \<Longrightarrow> search_dirent_block BSIZE d name =
     Inr (map_option (de_inode d) (find (\<lambda>q. entry_name d q = name) ps))"
  by (simp add: search_dirent_block_def dir_block_def search_entries_tiles)

lemma last_entry_tiles:
  assumes "length d = BSIZE" "tiles d p ps"
  shows "last_entry BSIZE d seen p = Inr (Inr (if ps = [] then seen else last ps))"
  using assms(2)
proof (induction ps arbitrary: p seen)
  case Nil
  then show ?case by (subst last_entry.simps) simp
next
  case (Cons q qs)
  then have q: "q = p" "8 + de_name_len d p \<le> de_rec_len d p" "p + de_rec_len d p \<le> BSIZE"
      and t: "tiles d (p + de_rec_len d p) qs" by auto
  have "\<not> BSIZE \<le> p" "\<not> length d < p + 6" "de_rec_len d p \<noteq> 0" using q assms(1) by auto
  then show ?case using Cons.IH [OF t] q(1) by (subst last_entry.simps) (simp only: if_False if_True, simp)
qed


text \<open>An entry is what its own bytes say.\<close>

lemma entry_cong:
  assumes "\<And>i. r \<le> i \<Longrightarrow> i < r + 8 + de_name_len d r \<Longrightarrow> i \<noteq> r + 4 \<Longrightarrow> i \<noteq> r + 5 \<Longrightarrow> e ! i = d ! i"
    and l: "length e = length d" "r + 8 + de_name_len d r \<le> length d"
  shows "de_inode e r = de_inode d r" "de_name_len e r = de_name_len d r" "entry_name e r = entry_name d r"
    "e ! (r + 4) = d ! (r + 4) \<Longrightarrow> e ! (r + 5) = d ! (r + 5) \<Longrightarrow> de_rec_len e r = de_rec_len d r"
proof -
  show "de_inode e r = de_inode d r"
    unfolding de_inode_def get32_def by (rule get_le_cong) (use assms(1) in simp)
  show nl: "de_name_len e r = de_name_len d r"
    unfolding de_name_len_def using assms(1) [of "r + 6"] by simp
  have "take (de_name_len d r) (drop (r + 8) e) = take (de_name_len d r) (drop (r + 8) d)"
    by (rule nth_equalityI) (use assms(1) l in auto)
  then show "entry_name e r = entry_name d r" unfolding entry_name_def nl by simp
  show "de_rec_len e r = de_rec_len d r" if "e ! (r + 4) = d ! (r + 4)" "e ! (r + 5) = d ! (r + 5)"
  proof -
    have "get_le 2 (\<lambda>k. e ! (r + 4 + k)) = (get_le 2 (\<lambda>k. d ! (r + 4 + k)) :: u16)"
    proof (rule get_le_cong)
      fix i :: nat assume "i < 2"
      then have "i = 0 \<or> i = 1" by auto
      then show "e ! (r + 4 + i) = d ! (r + 4 + i)" using that by (elim disjE) (simp_all add: add.commute)
    qed
    then show ?thesis by (simp add: de_rec_len_def get16_def)
  qed
qed

text \<open>The last entry gives the rest of its space to a new one.\<close>

definition entry_at :: "u8 list \<Rightarrow> nat \<Rightarrow> dirent \<Rightarrow> nat \<Rightarrow> bool" where
  "entry_at d q de rl \<longleftrightarrow> de_inode d q = dr_inode de \<and> de_rec_len d q = rl \<and>
     de_name_len d q = dr_name_len de \<and> entry_name d q = dr_name de"

definition dirent_ok :: "dirent \<Rightarrow> bool" where
  "dirent_ok de \<longleftrightarrow> dr_name_len de = length (dr_name de) \<and> length (dr_name de) < 256 \<and> 0 \<notin> set (dr_name de)"

lemma put_entry_ok:
  assumes d: "length d = BSIZE" and de: "dirent_ok de" and fit: "q + 8 + dr_name_len de + 1 \<le> BSIZE"
    and rl: "rl \<le> BSIZE"
  shows "\<exists>e. put_entry q de rl d = Inr e \<and> length e = BSIZE \<and> entry_at e q de rl \<and>
     (\<forall>i. i < BSIZE \<longrightarrow> i < q \<or> q + 8 + dr_name_len de < i \<longrightarrow> e ! i = d ! i)"
proof -
  let ?n = "length (dr_name de)"
  have n: "dr_name_len de = ?n" "?n < 256" "0 \<notin> set (dr_name de)" using de by (auto simp: dirent_ok_def)
  let ?a = "put16 (q + 4) (of_nat rl) (put32 q (dr_inode de) d)"
  let ?b = "put_bytes (q + 6) [of_nat ?n, dr_file_type de] ?a"
  let ?e = "put_bytes (q + 8) (dr_name de @ [0]) ?b"
  have la: "length ?a = BSIZE" using d fit n by simp
  have lb: "length ?b = BSIZE" using la fit n by simp
  have le: "length ?e = BSIZE" using lb fit n by simp
  have "put_entry q de rl d = Inr ?e" using fit d n by (simp add: put_entry_def)
  moreover have "de_inode ?e q = dr_inode de"
    using fit n d la lb by (simp add: de_inode_def get32_put_other put16_def)
  moreover have "de_rec_len ?e q = rl"
  proof -
    have "get16 ?e (q + 4) = of_nat rl" using fit n d la lb by (simp add: get16_put_other)
    moreover have "take_bit 16 rl = rl" using rl by (intro take_bit_nat_eq_self) simp
    ultimately show ?thesis by (simp add: de_rec_len_def unsigned_of_nat)
  qed
  moreover have nl: "de_name_len ?e q = ?n"
  proof -
    have "?e ! (q + 6) = of_nat ?n" using fit n lb la by (simp add: nth_put_bytes)
    moreover have "take_bit 8 ?n = ?n" using n by (intro take_bit_nat_eq_self) simp
    ultimately show ?thesis by (simp add: de_name_len_def unsigned_of_nat)
  qed
  moreover have "entry_name ?e q = dr_name de"
  proof -
    have "take ?n (drop (q + 8) ?e) = dr_name de"
      by (rule nth_equalityI) (use fit n lb le in \<open>auto simp: nth_put_bytes nth_append\<close>)
    then show ?thesis unfolding entry_name_def nl using n(3) by (auto simp: takeWhile_eq_all_conv)
  qed
  moreover have "?e ! i = d ! i" if "i < BSIZE" "i < q \<or> q + 8 + ?n < i" for i
    using that fit n d la lb by (auto simp: nth_put_bytes put16_def put32_def)
  ultimately show ?thesis using le n(1) by (auto simp: entry_at_def)
qed

lemma roundup4_bounds: "m \<le> roundup4 m" "roundup4 m < m + 4"
  unfolding roundup4_def by presburger+

lemma tiles_append:
  assumes "tiles d p (ps @ [r])" "length d = BSIZE" "length e = BSIZE"
    and same: "\<And>i. i < r + 8 + de_name_len d r \<Longrightarrow> i \<noteq> r + 4 \<Longrightarrow> i \<noteq> r + 5 \<Longrightarrow> e ! i = d ! i"
    and r: "de_rec_len e r = q - r" "r + 8 + de_name_len d r \<le> q"
    and q: "8 + de_name_len e q \<le> de_rec_len e q" "q + de_rec_len e q = BSIZE"
  shows "tiles e p (ps @ [r, q])"
  using assms(1)
proof (induction ps arbitrary: p)
  case Nil
  then have "p = r" by simp
  moreover have "de_name_len e r = de_name_len d r"
    by (rule entry_cong(2)) (use same tiles_bounds [OF Nil] assms(2,3) in auto)
  ultimately show ?case using r q by auto
next
  case (Cons s ss)
  then have s: "s = p" "8 + de_name_len d p \<le> de_rec_len d p" "p + de_rec_len d p \<le> BSIZE"
      and t: "tiles d (p + de_rec_len d p) (ss @ [r])" by auto
  have below: "p + de_rec_len d p \<le> r" using tiles_bounds [OF t] by auto
  have "de_rec_len e p = de_rec_len d p"
    by (rule entry_cong(4)) (use same s below assms(2,3) in auto)
  moreover have "de_name_len e p = de_name_len d p"
    by (rule entry_cong(2)) (use same s below assms(2,3) in auto)
  ultimately show ?case using Cons.IH [OF t] s by simp
qed


lemma append_entry_ok:
  assumes d: "dir_block d (ps @ [r])" and de: "dirent_ok de"
    and nm: "0 \<notin> set (take (de_name_len d r) (drop (r + 8) d))"
    and n: "name_strlen d r = Inr n" and q: "q = roundup4 (r + 8 + n)"
    and fit: "q + 8 + dr_name_len de + 1 \<le> BSIZE"
  shows "\<exists>e. append_entry BSIZE d r de = Inr e \<and> dir_block e (ps @ [r, q]) \<and> entry_at e q de (BSIZE - q) \<and>
     (\<forall>p\<in>set (ps @ [r]). entry_name e p = entry_name d p \<and> de_inode e p = de_inode d p)"
proof -
  have len: "length d = BSIZE" and t: "tiles d 0 (ps @ [r])" using d by (auto simp: dir_block_def)
  have rb: "r + 8 + de_name_len d r \<le> BSIZE" using tiles_bounds [OF t] by auto
  have nn: "de_name_len d r \<le> n"
  proof (rule ccontr)
    assume "\<not> ?thesis"
    moreover have "n < length (drop (r + 8) d)" "drop (r + 8) d ! n = 0"
      using n by (auto simp: name_strlen_def split: option.splits dest: scan_SomeD)
    ultimately have "0 \<in> set (take (de_name_len d r) (drop (r + 8) d))"
      by (auto simp: in_set_conv_nth intro!: exI [of _ n])
    then show False using nm by simp
  qed
  have rq: "r + 8 + n \<le> q" "q < r + 8 + n + 4" using roundup4_bounds unfolding q by blast+
  let ?d1 = "put16 (r + 4) (of_nat (q - r)) d"
  have len1: "length ?d1 = BSIZE" using len rb by simp
  obtain e where e: "put_entry q de (BSIZE - q) ?d1 = Inr e" "length e = BSIZE" "entry_at e q de (BSIZE - q)"
      "\<forall>i. i < BSIZE \<longrightarrow> i < q \<or> q + 8 + dr_name_len de < i \<longrightarrow> e ! i = ?d1 ! i"
    using put_entry_ok [OF len1 de fit, of "BSIZE - q"] by auto
  have run: "append_entry BSIZE d r de = Inr e" using n e(1) by (simp add: append_entry_def q)
  have same: "e ! i = d ! i" if "i < r + 8 + de_name_len d r" "i \<noteq> r + 4" "i \<noteq> r + 5" for i
  proof -
    have "i < BSIZE" "i < q" using that rb nn rq by auto
    moreover have "?d1 ! i = d ! i" using that rb len by (auto simp: put16_def nth_put_bytes)
    ultimately show ?thesis using e(4) by simp
  qed
  have rec: "de_rec_len e r = q - r"
  proof -
    have "get16 e (r + 4) = get16 ?d1 (r + 4)"
      unfolding get16_def by (rule get_le_cong) (use e(4) rq rb in auto)
    moreover have "get16 ?d1 (r + 4) = of_nat (q - r)" using len rb by simp
    moreover have "take_bit 16 (q - r) = q - r" using fit by (intro take_bit_nat_eq_self) simp
    ultimately show ?thesis by (simp add: de_rec_len_def unsigned_of_nat)
  qed
  have "tiles e 0 (ps @ [r, q])"
    by (rule tiles_append [OF t len e(2)])
      (use same rec rq nn fit e(3) in \<open>auto simp: entry_at_def\<close>)
  then have "dir_block e (ps @ [r, q])" using e(2) by (simp add: dir_block_def)
  moreover have "entry_name e p = entry_name d p \<and> de_inode e p = de_inode d p" if p: "p \<in> set (ps @ [r])" for p
  proof (cases "p = r")
    case True
    have "entry_name e r = entry_name d r" by (rule entry_cong(3)) (use same rb len e(2) in auto)
    moreover have "de_inode e r = de_inode d r" by (rule entry_cong(1)) (use same rb len e(2) in auto)
    ultimately show ?thesis using True by simp
  next
    case False
    then obtain a b where ab: "ps = a @ p # b" using p by (auto dest: split_list)
    have "p + 8 + de_name_len d p \<le> r"
    proof -
      have "tiles d x (a @ p # b @ [r]) \<Longrightarrow> tiles d p (p # b @ [r])" for x
        by (induction a arbitrary: x) auto
      then have "tiles d p (p # b @ [r])" using t ab by simp
      then have "tiles d (p + de_rec_len d p) (b @ [r])" "8 + de_name_len d p \<le> de_rec_len d p" by auto
      then show ?thesis using tiles_bounds [of d "p + de_rec_len d p" "b @ [r]"] by auto
    qed
    then have s: "\<And>i. p \<le> i \<Longrightarrow> i < p + 8 + de_name_len d p \<Longrightarrow> e ! i = d ! i" "p + 8 + de_name_len d p \<le> length d"
      using same rb len by auto
    have "entry_name e p = entry_name d p" by (rule entry_cong(3)) (use s len e(2) in auto)
    moreover have "de_inode e p = de_inode d p" by (rule entry_cong(1)) (use s len e(2) in auto)
    ultimately show ?thesis by simp
  qed
  ultimately show ?thesis using run e(3) by blast
qed

lemma find_cong_list: "(\<And>x. x \<in> set xs \<Longrightarrow> P x = Q x) \<Longrightarrow> find P xs = find Q xs"
  by (induction xs) auto

section \<open>Properties\<close>

text \<open>
  C20. \<open>find_free_block\<close> finds the first clear bit of the bitmap, and answers -1 only when all 8192
  are set; marking it sets that bit and no other, so that the next search finds another block.
\<close>

theorem bitmap_allocation:
  assumes d: "length d = BSIZE"
  shows "find_free_block BSIZE d =
       Inr (if \<exists>n<8 * BSIZE. \<not> bitmap_bit d n then Some (LEAST n. \<not> bitmap_bit d n) else None) \<and>
     (\<forall>n<8 * BSIZE. \<exists>e. write_bit BSIZE n True d = Inr (Some e) \<and>
       (\<forall>m<8 * BSIZE. bitmap_bit e m = (m = n \<or> bitmap_bit d m)))"
proof
  show "find_free_block BSIZE d =
       Inr (if \<exists>n<8 * BSIZE. \<not> bitmap_bit d n then Some (LEAST n. \<not> bitmap_bit d n) else None)"
    using find_free_block_spec [OF d]
  proof
    assume "\<exists>n<8 * BSIZE. find_free_block BSIZE d = Inr (Some n) \<and> \<not> bitmap_bit d n \<and> (\<forall>m<n. bitmap_bit d m)"
    then obtain n where n: "n < 8 * BSIZE" "find_free_block BSIZE d = Inr (Some n)" "\<not> bitmap_bit d n"
        "\<forall>m<n. bitmap_bit d m" by blast
    then have "(LEAST n. \<not> bitmap_bit d n) = n" by (intro Least_equality) (auto simp: not_le [symmetric])
    then show ?thesis using n by auto
  qed auto
  show "\<forall>n<8 * BSIZE. \<exists>e. write_bit BSIZE n True d = Inr (Some e) \<and>
       (\<forall>m<8 * BSIZE. bitmap_bit e m = (m = n \<or> bitmap_bit d m))"
  proof (intro allI impI)
    fix n assume "n < 8 * BSIZE"
    from write_bit_spec [OF d this, of True] show "\<exists>e. write_bit BSIZE n True d = Inr (Some e) \<and>
       (\<forall>m<8 * BSIZE. bitmap_bit e m = (m = n \<or> bitmap_bit d m))" by auto
  qed
qed

text \<open>
  C21. Directories: appending an entry behind the last one of a well-formed block, where it fits with
  its NUL, keeps the block well-formed; the new name is found with its inode unless the block
  had it already, and every other search answers as before.
\<close>

theorem dirent_append_lookup:
  assumes d: "dir_block d (ps @ [r])" and de: "dirent_ok de"
    and nm: "0 \<notin> set (take (de_name_len d r) (drop (r + 8) d))"
    and n: "name_strlen d r = Inr n" and fit: "roundup4 (r + 8 + n) + 8 + dr_name_len de + 1 \<le> BSIZE"
  shows "\<exists>e. append_entry BSIZE d r de = Inr e \<and> dir_block e (ps @ [r, roundup4 (r + 8 + n)]) \<and>
     (\<forall>name. search_dirent_block BSIZE e name =
        (if search_dirent_block BSIZE d name = Inr None \<and> name = dr_name de then Inr (Some (dr_inode de))
         else search_dirent_block BSIZE d name))"
proof -
  let ?q = "roundup4 (r + 8 + n)"
  obtain e where e: "append_entry BSIZE d r de = Inr e" "dir_block e (ps @ [r, ?q])"
      "entry_at e ?q de (BSIZE - ?q)"
      "\<forall>p\<in>set (ps @ [r]). entry_name e p = entry_name d p \<and> de_inode e p = de_inode d p"
    using append_entry_ok [OF d de nm n refl fit] by blast
  have "search_dirent_block BSIZE e name =
      (if search_dirent_block BSIZE d name = Inr None \<and> name = dr_name de then Inr (Some (dr_inode de))
       else search_dirent_block BSIZE d name)" for name
  proof -
    have f: "find (\<lambda>q. entry_name e q = name) (ps @ [r]) = find (\<lambda>q. entry_name d q = name) (ps @ [r])"
      by (rule find_cong_list) (metis e(4))
    have a: "find P (xs @ [x]) = (case find P xs of None \<Rightarrow> if P x then Some x else None | Some y \<Rightarrow> Some y)"
      for P and xs and x :: nat by (induction xs) auto
    have split: "ps @ [r, ?q] = (ps @ [r]) @ [?q]" by simp
    have fe: "find (\<lambda>q. entry_name e q = name) (ps @ [r, ?q]) =
       (case find (\<lambda>q. entry_name d q = name) (ps @ [r]) of
          None \<Rightarrow> if dr_name de = name then Some ?q else None | Some y \<Rightarrow> Some y)"
      unfolding split a [of _ "ps @ [r]"] f using e(3) by (simp add: entry_at_def)
    show ?thesis
    proof (cases "find (\<lambda>q. entry_name d q = name) (ps @ [r])")
      case None
      then show ?thesis
        unfolding search_block_tiles [OF d] search_block_tiles [OF e(2)] fe using e(3) by (auto simp: entry_at_def)
    next
      case (Some y)
      then have "y \<in> set (ps @ [r])" by (metis find_Some_iff nth_mem)
      then show ?thesis
        unfolding search_block_tiles [OF d] search_block_tiles [OF e(2)] fe using e(4) Some by auto
    qed
  qed
  then show ?thesis using e(1,2) by blast
qed

text \<open>
  The space check of \<open>ext2_dirlink\<close> counts neither the padding before the new entry nor the NUL
  \<open>memcpy\<close> stores behind its name: where name and padding fill the block exactly, the check
  passes and the store goes one byte past the buffer, into the low byte of \<open>b->bno\<close>; the
  \<open>bio_write\<close> that follows writes the directory over another block.
\<close>

theorem dirent_append_overrun:
  assumes d: "length d = BSIZE" and n: "name_strlen d r = Inr n"
    and de: "make_dirent BSIZE inum name ft = Inr de" "length name < 255" "length name mod 4 = 0"
    and full: "roundup4 (r + 8 + n) + 8 + length name = BSIZE" and pad: "(r + 8 + n) mod 4 \<noteq> 0"
  shows "entry_fits BSIZE d r de = Inr True \<and> append_entry BSIZE d r de = Inl Fault"
proof -
  have de': "dr_name_len de = length name" "dr_rec_len de = roundup4 (8 + length name)"
    using de(1,2) by (auto simp: make_dirent_def)
  have "roundup4 (8 + length name) = 8 + length name" using de(3) unfolding roundup4_def by presburger
  moreover have "r + 8 + n < roundup4 (r + 8 + n)" using pad unfolding roundup4_def by presburger
  ultimately have "int (dr_rec_len de) < int BSIZE - int (r + 8 + n)" using full de' by simp
  moreover have "r + 6 \<le> BSIZE" using full roundup4_bounds(1) [of "r + 8 + n"] by simp
  then have "length (put16 (r + 4) w d) = BSIZE" for w using d by simp
  ultimately show ?thesis using n full de' d
    by (simp add: entry_fits_def append_entry_def put_entry_def Let_def)
qed


text \<open>Witnesses: a bitmap whose first chunk is full, and a directory that holds \<open>.\<close> alone.\<close>

theorem bitmap_allocation_witness:
  "find_free_block BSIZE ((replicate BSIZE 0)[0 := 0xff]) = Inr (Some 8)"
proof -
  let ?d = "(replicate BSIZE 0)[0 := 0xff] :: u8 list"
  have l: "length ?d = BSIZE" by simp
  have c8: "\<not> bitmap_bit ?d 8" by (simp add: bitmap_bit_def)
  have "bitmap_bit ?d m" if "m < 8" for m using that full_chunk [of m] by (simp add: bitmap_bit_def)
  then have "(LEAST n. \<not> bitmap_bit ?d n) = 8" using c8 by (intro Least_equality) (auto simp: not_le [symmetric])
  moreover have "\<exists>n<8 * BSIZE. \<not> bitmap_bit ?d n" using c8 by (intro exI [of _ 8]) simp
  ultimately show ?thesis using conjunct1 [OF bitmap_allocation [OF l]] by (simp only: if_True)
qed

definition dot_block :: "u8 list" where
  "dot_block = [2, 0, 0, 0, 0, 4, 1, 2, 46] @ replicate 1015 0"

lemma dot_block_simps:
  "length dot_block = BSIZE" "de_rec_len dot_block 0 = BSIZE" "de_name_len dot_block 0 = 1"
  "name_strlen dot_block 0 = Inr 1" "dir_block dot_block ([] @ [0])" "de_inode dot_block 0 = 2"
proof -
  show l: "length dot_block = BSIZE" by (simp add: dot_block_def)
  show r: "de_rec_len dot_block 0 = BSIZE"
    by code_simp
  show n: "de_name_len dot_block 0 = 1" by (simp add: de_name_len_def dot_block_def)
  show "name_strlen dot_block 0 = Inr 1" by code_simp
  show "dir_block dot_block ([] @ [0])" by (simp add: dir_block_def l r n)
  show "de_inode dot_block 0 = 2" by code_simp
qed

theorem dirent_append_lookup_witness:
  "\<exists>e. append_entry BSIZE dot_block 0
       \<lparr>dr_inode = 7, dr_rec_len = 12, dr_name_len = 3, dr_file_type = 1, dr_name = [97, 98, 99]\<rparr> = Inr e \<and>
     search_dirent_block BSIZE e [97, 98, 99] = Inr (Some 7)"
proof -
  let ?de = "\<lparr>dr_inode = 7, dr_rec_len = 12, dr_name_len = 3, dr_file_type = 1, dr_name = [97, 98, 99]\<rparr> :: dirent"
  have de: "dirent_ok ?de" by (simp add: dirent_ok_def)
  have nm: "0 \<notin> set (take (de_name_len dot_block 0) (drop (0 + 8) dot_block))"
    by code_simp
  have fit: "roundup4 (0 + 8 + 1) + 8 + dr_name_len ?de + 1 \<le> BSIZE" by (simp add: roundup4_def)
  have "search_dirent_block BSIZE dot_block [97, 98, 99] = Inr None"
    by code_simp
  then show ?thesis using dirent_append_lookup [OF dot_block_simps(5) de nm dot_block_simps(4) fit] by auto
qed

theorem dirent_append_overrun_witness:
  "\<exists>de. make_dirent BSIZE 7 [97, 98, 99, 100] 1 = Inr de \<and>
     entry_fits BSIZE ((replicate BSIZE 0)[1008 := 97]) 1000 de = Inr True \<and>
     append_entry BSIZE ((replicate BSIZE 0)[1008 := 97]) 1000 de = Inl Fault"
proof -
  have n: "name_strlen ((replicate BSIZE 0)[1008 := 97]) 1000 = Inr 1"
    by code_simp
  obtain de where de: "make_dirent BSIZE 7 [97, 98, 99, 100] 1 = Inr de" by (simp add: make_dirent_def)
  have "entry_fits BSIZE ((replicate BSIZE 0)[1008 := 97]) 1000 de = Inr True \<and>
     append_entry BSIZE ((replicate BSIZE 0)[1008 := 97]) 1000 de = Inl Fault"
    by (rule dirent_append_overrun [OF _ n de]) (simp_all add: roundup4_def)
  then show ?thesis using de by blast
qed

end
