(* ===== verification/Inode.thy ===== *)
theory Inode
  imports Ext2_Format
begin

text \<open>
  The table of in-memory inodes of kernel/fs.c and include/fs.h, and the state of the file
  system. A \<open>struct inode *\<close> is an index in the table.
\<close>

unbundle bit_operations_syntax

section \<open>State\<close>

abbreviation NINODE :: nat where "NINODE \<equiv> 256"

record inode =
  i_mode :: u16
  i_size :: u32
  i_atime :: u32
  i_ctime :: u32
  i_mtime :: u32
  i_dtime :: u32
  i_links_count :: u16
  i_blocks :: u32
  i_block :: "u32 list"
  i_inum :: u32
  i_major :: u32
  i_minor :: u32
  i_ref :: u32

definition zero_inode :: inode where
  "zero_inode = \<lparr>i_mode = 0, i_size = 0, i_atime = 0, i_ctime = 0, i_mtime = 0, i_dtime = 0,
     i_links_count = 0, i_blocks = 0, i_block = replicate 15 0, i_inum = 0, i_major = 0, i_minor = 0, i_ref = 0\<rparr>"

record superblock =
  inodes_count :: u32
  blocks_count :: u32
  first_data_block :: u32
  blocks_per_group :: u32
  inodes_per_group :: u32
  sb_mtime :: u32
  sb_wtime :: u32
  first_ino :: u32
  inode_size :: u16
  bsize :: u32
  block_bitmap :: u32
  inode_bitmap :: u32
  inode_table :: u32

record kfs = kbuf +
  itable :: "inode list"
  sb :: superblock

definition upd_inode :: "nat \<Rightarrow> (inode \<Rightarrow> inode) \<Rightarrow> 'a kfs_scheme \<Rightarrow> 'a kfs_scheme" where
  "upd_inode i f s = s\<lparr>itable := (itable s)[i := f (itable s ! i)]\<rparr>"

text \<open>\<open>inode.mode\<close>\<close>

abbreviation S_IFMT :: u16 where "S_IFMT \<equiv> 0xf000"
abbreviation S_IFREG :: u16 where "S_IFREG \<equiv> 0x8000"
abbreviation S_IFDIR :: u16 where "S_IFDIR \<equiv> 0x4000"
abbreviation S_IFCHR :: u16 where "S_IFCHR \<equiv> 0x2000"

definition S_ISDIR :: "u16 \<Rightarrow> bool" where
  "S_ISDIR m \<longleftrightarrow> m AND S_IFMT = S_IFDIR"

definition S_ISCHR :: "u16 \<Rightarrow> bool" where
  "S_ISCHR m \<longleftrightarrow> m AND S_IFMT = S_IFCHR"

section \<open>The table\<close>

definition inode_init :: "'a kfs_scheme \<Rightarrow> 'a kfs_scheme" where
  "inode_init s = (lock_init ItableLk s)\<lparr>itable := replicate NINODE zero_inode\<rparr>"

definition find_inode :: "u32 \<Rightarrow> 'a kfs_scheme \<Rightarrow> (nat option \<times> 'a kfs_scheme) res" where
  "find_inode inum s =
     bnd (acquire ItableLk s) (\<lambda>s.
       case scan (\<lambda>i. i_inum i = inum) (itable s) of
         Some k \<Rightarrow> bnd (release ItableLk (upd_inode k (\<lambda>i. i\<lparr>i_ref := i_ref i + 1\<rparr>) s)) (\<lambda>s. Inr (Some k, s))
       | None \<Rightarrow>
           (case scan (\<lambda>i. i_ref i = 0) (itable s) of
              None \<Rightarrow> bnd (release ItableLk s) (\<lambda>s. Inr (None, s))
            | Some k \<Rightarrow>
                bnd (release ItableLk (upd_inode k (\<lambda>i. i\<lparr>i_ref := i_ref i + 1, i_inum := inum\<rparr>) s))
                  (\<lambda>s. Inr (Some k, s))))"

definition release_inode :: "nat \<Rightarrow> 'a kfs_scheme \<Rightarrow> 'a kfs_scheme res" where
  "release_inode k s =
     (if i_ref (itable s ! k) = 0 then Inl (Panic ''invalid ino'')
      else
        let s = upd_inode k (\<lambda>i. i\<lparr>i_ref := i_ref i - 1\<rparr>) s
        in Inr (if i_ref (itable s ! k) = 0 then upd_inode k (\<lambda>_. zero_inode) s else s))"

section \<open>Frame lemmas\<close>

lemma locked_kfs [simp]: "itable (locked L s) = itable s" "sb (locked L s) = sb s"
  by (simp_all add: locked_def set_lock_def pushcli_def Let_def)

lemma cli_mark_kfs [simp]: "itable (cli_mark s) = itable s" "sb (cli_mark s) = sb s"
  by (simp_all add: cli_mark_def)

lemma locked_upd_inode: "upd_inode i f (locked L s) = locked L (upd_inode i f s)"
  by (simp add: upd_inode_def locked_def set_lock_def pushcli_def Let_def)

lemma upd_inode_simps [simp]:
  "itable (upd_inode i f s) = (itable s)[i := f (itable s ! i)]" "sb (upd_inode i f s) = sb s"
  "lock_free L (upd_inode i f s) = lock_free L s"
  "refs (upd_inode i f s) = refs s" "content (upd_inode i f s) = content s"
  "buf_holds (upd_inode i f s) j n = buf_holds s j n" "bdata (upd_inode i f s) = bdata s"
  "cache_ready me (upd_inode i f s) = cache_ready me s" "bcache (upd_inode i f s) = bcache s"
  "mem (upd_inode i f s) = mem s" "cur (upd_inode i f s) = cur s" "procs (upd_inode i f s) = procs s"
  by (simp_all add: upd_inode_def lock_free_def refs_def content_def buf_holds_def fun_eq_iff cache_ready_def
      cache_ok_def disk_ready_def queue_idle_def queue_ok_def caller_ok_def block_device_def cong: option.case_cong)

lemma buf_frame_kfs:
  "buf_frame s t \<Longrightarrow> itable t = itable s \<and> sb t = sb s \<and> mem t = mem s \<and> cur t = cur s \<and> procs t = procs s \<and>
     (lock_free ItableLk t = lock_free ItableLk s)"
  by (cases s; cases t) (simp add: buf_frame_def lock_free_def)

end
