(* ===== verification/Ext2.thy ===== *)
theory Ext2
  imports Inode
begin

text \<open>
  kernel/ext2.c on top of the block cache: superblock, block and inode allocation, the inode on
  disk, the blocks of a file, directories, paths, reading and writing. A pointer that may be NULL
  is an option; -1 of the internal routines is \<open>None\<close>.
\<close>

unbundle bit_operations_syntax

section \<open>The superblock\<close>

text \<open>The fields of the block group descriptor and of the superblock, at their places on disk.\<close>

definition load_bg_desc :: "u8 list \<Rightarrow> u32 \<times> u32 \<times> u32" where
  "load_bg_desc d = (get32 d 0, get32 d 4, get32 d 8)"

definition load_superblock :: "u8 list \<Rightarrow> u32 \<times> u32 \<times> u32 \<Rightarrow> superblock" where
  "load_superblock d = (\<lambda>(bbitmap, ibitmap, table).
     \<lparr>inodes_count = get32 d 0, blocks_count = get32 d 4, first_data_block = get32 d 20,
      blocks_per_group = get32 d 32, inodes_per_group = get32 d 40, sb_mtime = get32 d 44,
      sb_wtime = get32 d 48, first_ino = get32 d 84, inode_size = get16 d 88,
      bsize = push_bit (unat (get32 d 24)) 1024, block_bitmap = bbitmap, inode_bitmap = ibitmap, inode_table = table\<rparr>)"

definition ext2_init :: "'a kfs_scheme \<Rightarrow> 'a kfs_scheme res" where
  "ext2_init s =
     bnd (bio_read 1 s) (\<lambda>(b, s).
     if get16 (bdata s b) 56 \<noteq> 0xef53 then Inl (Panic ''invalid filesystem'')
     else
       bnd (bio_read 2 s) (\<lambda>(g, s).
       let s = s\<lparr>sb := load_superblock (bdata s b) (load_bg_desc (bdata s g))\<rparr>
       in bnd (bio_free b s) (bio_free g)))"

abbreviation bsz :: "'a kfs_scheme \<Rightarrow> nat" where
  "bsz s \<equiv> unat (bsize (sb s))"

section \<open>Blocks and inode numbers\<close>

definition ext2_alloc_block :: "'a kfs_scheme \<Rightarrow> (nat option \<times> 'a kfs_scheme) res" where
  "ext2_alloc_block s =
     bnd (bio_read (block_bitmap (sb s)) s) (\<lambda>(b, s).
     bnd (find_free_block (bsz s) (bdata s b)) (\<lambda>r.
       case r of None \<Rightarrow> Inr (None, s)
       | Some bn \<Rightarrow>
           bnd (write_bit (bsz s) bn True (bdata s b)) (\<lambda>w.
           bnd (case w of None \<Rightarrow> Inr s | Some d \<Rightarrow> bio_write b (set_data b d s)) (\<lambda>s.
           bnd (bio_free b s) (\<lambda>s. Inr (Some bn, s))))))"

definition ext2_alloc_inum :: "'a kfs_scheme \<Rightarrow> (nat option \<times> 'a kfs_scheme) res" where
  "ext2_alloc_inum s =
     bnd (bio_read (inode_bitmap (sb s)) s) (\<lambda>(b, s).
     bnd (find_free_ino (bsz s) (bdata s b)) (\<lambda>r.
       case r of None \<Rightarrow> Inr (None, s)
       | Some inum \<Rightarrow>
           bnd (write_bit (bsz s) (inum - 1) True (bdata s b)) (\<lambda>w.
           bnd (case w of None \<Rightarrow> Inr s | Some d \<Rightarrow> bio_write b (set_data b d s)) (\<lambda>s.
           bnd (bio_free b s) (\<lambda>s. Inr (Some inum, s))))))"

definition ext2_alloc_inode :: "'a kfs_scheme \<Rightarrow> (nat option \<times> 'a kfs_scheme) res" where
  "ext2_alloc_inode s =
     bnd (ext2_alloc_inum s) (\<lambda>(r, s).
       case r of None \<Rightarrow> Inr (None, s) | Some inum \<Rightarrow> find_inode (of_nat inum) s)"

section \<open>The inode on disk\<close>

text \<open>The buffer with the inode, and where in it the inode lies.\<close>

definition inode_pos :: "u32 \<Rightarrow> superblock \<Rightarrow> u32 \<times> nat" where
  "inode_pos inum q =
     (let per = bsize q div ucast (inode_size q)
      in (inode_table q + (inum - 1) div per, unat (((inum - 1) mod per) * ucast (inode_size q))))"

definition ext2_raw_inode :: "u32 \<Rightarrow> 'a kfs_scheme \<Rightarrow> ((nat \<times> nat) \<times> 'a kfs_scheme) res" where
  "ext2_raw_inode inum s =
     (let (blk, offset) = inode_pos inum (sb s)
      in bnd (bio_read blk s) (\<lambda>(b, s). Inr ((b, offset), s)))"

text \<open>The bytes of \<open>struct ext2_inode\<close> the code uses end behind \<open>i_block\<close>.\<close>

abbreviation RAW_LEN :: nat where "RAW_LEN \<equiv> 100"

definition raw_store :: "nat \<Rightarrow> inode \<Rightarrow> u8 list \<Rightarrow> u8 list" where
  "raw_store p i d =
     put_bytes (p + 40) (concat (map (le_list 4) (i_block i)))
       (put32 (p + 28) (i_blocks i) (put16 (p + 26) (i_links_count i) (put32 (p + 20) (i_dtime i)
       (put32 (p + 16) (i_mtime i) (put32 (p + 12) (i_ctime i) (put32 (p + 8) (i_atime i)
       (put32 (p + 4) (i_size i) (put16 p (i_mode i) d))))))))"

definition raw_load :: "nat \<Rightarrow> u8 list \<Rightarrow> inode \<Rightarrow> inode" where
  "raw_load p d i =
     i\<lparr>i_mode := get16 d p, i_size := get32 d (p + 4), i_atime := get32 d (p + 8),
       i_ctime := get32 d (p + 12), i_mtime := get32 d (p + 16), i_dtime := get32 d (p + 20),
       i_links_count := get16 d (p + 26), i_blocks := get32 d (p + 28),
       i_block := map (\<lambda>k. get32 d (p + 40 + 4 * k)) [0..<15]\<rparr>"

definition inode_sync :: "nat \<Rightarrow> 'a kfs_scheme \<Rightarrow> 'a kfs_scheme res" where
  "inode_sync k s =
     bnd (ext2_raw_inode (i_inum (itable s ! k)) s) (\<lambda>((b, p), s).
       if BSIZE < p + RAW_LEN then Inl Fault
       else bnd (bio_write b (set_data b (raw_store p (itable s ! k) (bdata s b)) s)) (bio_free b))"

text \<open>When the table is full, the buffer of the inode is not given back.\<close>

definition ext2_get_inode :: "u32 \<Rightarrow> 'a kfs_scheme \<Rightarrow> (nat option \<times> 'a kfs_scheme) res" where
  "ext2_get_inode inum s =
     bnd (find_inode inum s) (\<lambda>(r, s).
     bnd (ext2_raw_inode inum s) (\<lambda>((b, p), s).
       case r of None \<Rightarrow> Inr (None, s)
       | Some k \<Rightarrow>
           if BSIZE < p + RAW_LEN then Inl Fault
           else
             bnd (bio_free b (upd_inode k (raw_load p (bdata s b)) s)) (\<lambda>s. Inr (Some k, s))))"

section \<open>The blocks of a file\<close>

definition ext2_inode_nblock :: "inode \<Rightarrow> nat" where
  "ext2_inode_nblock i = unat (i_blocks i div 2)"

definition read_indirect_block :: "nat \<Rightarrow> nat \<Rightarrow> 'a kfs_scheme \<Rightarrow> (nat \<times> 'a kfs_scheme) res" where
  "read_indirect_block m bnum s =
     (let idx = bnum - 12
      in if BSIZE < 4 * idx + 4 then Inl Fault else bio_read (get32 (bdata s m) (4 * idx)) s)"

definition ext2_inode_block :: "nat \<Rightarrow> nat \<Rightarrow> 'a kfs_scheme \<Rightarrow> (nat \<times> 'a kfs_scheme) res" where
  "ext2_inode_block k bi s =
     (if bi < 12 then bio_read (i_block (itable s ! k) ! bi) s
      else
        bnd (bio_read (i_block (itable s ! k) ! 12) s) (\<lambda>(m, s).
        bnd (read_indirect_block m bi s) (\<lambda>(b, s).
        bnd (bio_free m s) (\<lambda>s. Inr (b, s)))))"

text \<open>Allocating \<open>n\<close> blocks for the slots from \<open>j\<close> on; a failed allocation stores -1.\<close>

fun grow_blocks :: "nat \<Rightarrow> nat \<Rightarrow> nat \<Rightarrow> 'a kfs_scheme \<Rightarrow> 'a kfs_scheme res" where
  "grow_blocks k j 0 s = Inr s"
| "grow_blocks k j (Suc n) s =
     bnd (ext2_alloc_block s) (\<lambda>(r, s).
       if 15 \<le> j then Inl Fault
       else grow_blocks k (j + 1) n
         (upd_inode k (\<lambda>i. i\<lparr>i_block := (i_block i)[j := (case r of None \<Rightarrow> -1 | Some bn \<Rightarrow> of_nat bn)]\<rparr>) s))"

definition ext2_grow_inode_block :: "nat \<Rightarrow> nat \<Rightarrow> 'a kfs_scheme \<Rightarrow> (int \<times> 'a kfs_scheme) res" where
  "ext2_grow_inode_block k nblock s =
     (case scan (\<lambda>b. b = 0) (take 12 (i_block (itable s ! k))) of
        None \<Rightarrow> Inr (-1, s)
      | Some n \<Rightarrow>
          bnd (grow_blocks k n nblock s) (\<lambda>s.
          bnd (inode_sync k (upd_inode k (\<lambda>i. i\<lparr>i_blocks := i_blocks i + of_nat nblock * (bsize (sb s) div 512)\<rparr>) s))
            (\<lambda>s. Inr (0, s))))"

definition ext2_append_inode_block :: "nat \<Rightarrow> u32 \<Rightarrow> 'a kfs_scheme \<Rightarrow> (int \<times> 'a kfs_scheme) res" where
  "ext2_append_inode_block k blockn s =
     (case scan (\<lambda>b. b = 0) (take 12 (i_block (itable s ! k))) of
        None \<Rightarrow> Inr (-1, s)
      | Some n \<Rightarrow>
          bnd (inode_sync k (upd_inode k (\<lambda>i. i\<lparr>i_block := (i_block i)[n := blockn],
                 i_blocks := i_blocks i + bsize (sb s) div 512\<rparr>) s))
            (\<lambda>s. Inr (0, s)))"

section \<open>Directories\<close>

text \<open>The loop of \<open>ext2_search_dir\<close> over the \<open>n\<close> blocks from \<open>i\<close> on.\<close>

fun search_blocks :: "nat \<Rightarrow> u8 list \<Rightarrow> nat \<Rightarrow> nat \<Rightarrow> 'a kfs_scheme \<Rightarrow> (u32 option \<times> 'a kfs_scheme) res" where
  "search_blocks k name i 0 s = Inr (None, s)"
| "search_blocks k name i (Suc n) s =
     bnd (ext2_inode_block k i s) (\<lambda>(b, s).
     bnd (search_dirent_block (bsz s) (bdata s b) name) (\<lambda>r.
     bnd (bio_free b s) (\<lambda>s.
       case r of
         Some inum \<Rightarrow> if 0 <s inum then Inr (Some inum, s) else search_blocks k name (i + 1) n s
       | None \<Rightarrow> search_blocks k name (i + 1) n s)))"

definition ext2_search_dir :: "nat \<Rightarrow> u8 list \<Rightarrow> 'a kfs_scheme \<Rightarrow> (u32 option \<times> 'a kfs_scheme) res" where
  "ext2_search_dir k name s = search_blocks k name 0 (ext2_inode_nblock (itable s ! k)) s"

text \<open>
  The search of \<open>ext2_dirlink\<close> for a block with room. Its result is the buffer with, on the left,
  the position of an entry of length 0 (label \<open>empty_block\<close>), on the right, that of the last entry
  (label \<open>found\<close>). Blocks without room are not given back.
\<close>

fun find_room :: "nat \<Rightarrow> dirent \<Rightarrow> nat \<Rightarrow> nat \<Rightarrow> 'a kfs_scheme \<Rightarrow>
    ((nat \<times> (nat + nat)) option \<times> 'a kfs_scheme) res" where
  "find_room k de i 0 s = Inr (None, s)"
| "find_room k de i (Suc n) s =
     bnd (ext2_inode_block k i s) (\<lambda>(b, s).
     bnd (last_entry (bsz s) (bdata s b) 0 0) (\<lambda>r.
       case r of
         Inl p \<Rightarrow> Inr (Some (b, Inl p), s)
       | Inr p \<Rightarrow>
           bnd (entry_fits (bsz s) (bdata s b) p de) (\<lambda>ok.
             if ok then Inr (Some (b, Inr p), s) else find_room k de (i + 1) n s)))"

definition ext2_dirlink :: "nat \<Rightarrow> dirent \<Rightarrow> 'a kfs_scheme \<Rightarrow> (int \<times> 'a kfs_scheme) res" where
  "ext2_dirlink k de s =
     bnd (ext2_search_dir k (dr_name de) s) (\<lambda>(r, s).
       if r \<noteq> None then Inr (-1, s)
       else
         bnd (find_room k de 0 (ext2_inode_nblock (itable s ! k)) s) (\<lambda>(r, s).
         bnd (case r of
                Some x \<Rightarrow> Inr (Some x, s)
              | None \<Rightarrow>
                  if ext2_inode_nblock (itable s ! k) = 0 then
                    bnd (ext2_alloc_block s) (\<lambda>(bn, s).
                    let bn = (case bn of None \<Rightarrow> -1 | Some n \<Rightarrow> of_nat n) in
                    bnd (ext2_append_inode_block k bn s) (\<lambda>(_, s).
                    bnd (bio_read bn s) (\<lambda>(b, s). Inr (Some (b, Inl 0), s))))
                  else Inr (None, s)) (\<lambda>(r, s).
           case r of
             None \<Rightarrow> Inr (-1, s)
           | Some (b, pos) \<Rightarrow>
               bnd (case pos of
                      Inl p \<Rightarrow> put_entry p de (bsz s) (bdata s b)
                    | Inr p \<Rightarrow> append_entry (bsz s) (bdata s b) p de) (\<lambda>d.
               bnd (bio_write b (set_data b d s)) (\<lambda>s.
               bnd (bio_free b s) (\<lambda>s. Inr (0, s)))))))"

definition itype_dtype_table :: "u8 list" where
  "itype_dtype_table = [0, 5, 3, 0, 2, 0, 4, 0, 1, 0, 7, 0, 6, 0, 0]"

definition imode2dtype :: "u16 \<Rightarrow> u8 res" where
  "imode2dtype mode =
     (let ftype = unat (drop_bit 12 (mode AND S_IFMT))
      in if length itype_dtype_table \<le> ftype then Inl Fault else Inr (itype_dtype_table ! ftype))"

text \<open>Linking a new entry for inode \<open>inum\<close> into a directory; false when \<open>ext2_dirlink\<close> fails.\<close>

definition link_name :: "nat \<Rightarrow> u32 \<Rightarrow> u8 list \<Rightarrow> u8 \<Rightarrow> 'a kfs_scheme \<Rightarrow> (bool \<times> 'a kfs_scheme) res" where
  "link_name k inum name ft s =
     bnd (make_dirent (bsz s) inum name ft) (\<lambda>de.
     bnd (ext2_dirlink k de s) (\<lambda>(r, s). Inr (\<not> r < 0, s)))"

abbreviation DT_DIR :: u8 where "DT_DIR \<equiv> 2"
abbreviation DOT :: u8 where "DOT \<equiv> 46"

definition ext2_new_inode :: "u8 list \<Rightarrow> nat \<Rightarrow> u16 \<Rightarrow> u32 \<Rightarrow> 'a kfs_scheme \<Rightarrow> (nat option \<times> 'a kfs_scheme) res" where
  "ext2_new_inode name dir mode dv s =
     bnd (ext2_alloc_inode s) (\<lambda>(r, s).
       case r of None \<Rightarrow> Inr (None, s)
       | Some ino \<Rightarrow>
           let s = upd_inode ino (\<lambda>i. i\<lparr>i_mode := mode, i_major := dv, i_links_count := 1\<rparr>) s;
               inum = (\<lambda>s. i_inum (itable s ! ino)) in
           bnd (if S_ISDIR mode then
                  let s = upd_inode dir (\<lambda>i. i\<lparr>i_links_count := i_links_count i + 1\<rparr>) s in
                  bnd (link_name ino (inum s) [DOT] DT_DIR s) (\<lambda>(ok, s).
                    if \<not> ok then Inr (False, s)
                    else bnd (link_name ino (i_inum (itable s ! dir)) [DOT, DOT] DT_DIR s) (\<lambda>(ok, s).
                      if \<not> ok then Inr (False, s)
                      else Inr (True, upd_inode ino (\<lambda>i. i\<lparr>i_size := bsize (sb s)\<rparr>) s)))
                else if S_ISCHR mode then Inr (True, upd_inode ino (\<lambda>i. i\<lparr>i_size := 0\<rparr>) s)
                else Inr (True, s)) (\<lambda>(ok, s).
             if \<not> ok then Inr (None, s)
             else
               bnd (imode2dtype (i_mode (itable s ! ino))) (\<lambda>ft.
               bnd (link_name dir (inum s) name ft s) (\<lambda>(ok, s).
                 if \<not> ok then Inr (None, s)
                 else bnd (inode_sync ino s) (\<lambda>s. bnd (inode_sync dir s) (\<lambda>s. Inr (Some ino, s)))))))"

definition ext2_rm_inode :: "u8 list \<Rightarrow> nat \<Rightarrow> int" where
  "ext2_rm_inode name pdir = -1"

section \<open>Paths\<close>

lemma skippath_shorter: "skippath p = Inr (r, name) \<Longrightarrow> \<not> (r = [] \<and> name = []) \<Longrightarrow> length r < length p"
proof -
  assume s: "skippath p = Inr (r, name)" and ne: "\<not> (r = [] \<and> name = [])"
  let ?q = "dropWhile (\<lambda>c. c = SLASH) p"
  have r: "r = drop (length name + 1) ?q" "name = takeWhile (\<lambda>c. c \<noteq> SLASH) ?q"
    using s by (auto simp: skippath_def Let_def split: if_splits)
  have "?q \<noteq> []"
    using ne r by (metis drop_Nil takeWhile.simps(1))
  then have "length r < length ?q" unfolding r(1) by simp
  also have "\<dots> \<le> length p" by (rule length_dropWhile_le)
  finally show ?thesis .
qed

text \<open>
  \<open>traverse_inode\<close> and \<open>traverse_inode_parent\<close>, which differ in the test that ends the walk. The
  inode is NULL where \<open>ext2_get_inode\<close> found no slot.
\<close>

function traverse :: "bool \<Rightarrow> nat option \<Rightarrow> u8 list \<Rightarrow> 'a kfs_scheme \<Rightarrow>
    ((nat option \<times> u8 list) \<times> 'a kfs_scheme) res" where
  "traverse parent pi path s =
     (case skippath path of
        Inl e \<Rightarrow> Inl e
      | Inr (rest, name) \<Rightarrow>
          if rest = [] \<and> (parent \<or> name = []) then Inr ((pi, name), s)
          else case pi of None \<Rightarrow> Inl Fault
          | Some k \<Rightarrow>
              if \<not> S_ISDIR (i_mode (itable s ! k)) then Inr ((pi, name), s)
              else bnd (ext2_search_dir k name s) (\<lambda>(r, s).
                case r of None \<Rightarrow> Inr ((None, name), s)
                | Some inum \<Rightarrow> bnd (ext2_get_inode inum s) (\<lambda>(r, s). traverse parent r rest s)))"
  by pat_completeness auto
termination
  by (relation "measure (\<lambda>(parent, pi, path, s). length path)") (use skippath_shorter in auto)

declare traverse.simps [simp del]

abbreviation EXT2_ROOT_INO :: u32 where "EXT2_ROOT_INO \<equiv> 2"

definition path_start :: "u8 list \<Rightarrow> 'a kfs_scheme \<Rightarrow> (nat option \<times> 'a kfs_scheme) res" where
  "path_start path s =
     (if path \<noteq> [] \<and> hd path = SLASH then ext2_get_inode EXT2_ROOT_INO s
      else bnd (myproc s) (\<lambda>i. Inr (p_cwd (procs s ! i), s)))"

definition ext2_path2inode :: "u8 list \<Rightarrow> 'a kfs_scheme \<Rightarrow> (nat option \<times> 'a kfs_scheme) res" where
  "ext2_path2inode path s =
     bnd (path_start path s) (\<lambda>(ino, s).
     bnd (traverse False ino path s) (\<lambda>((r, name), s). Inr (r, s)))"

definition ext2_path2inode_parent :: "u8 list \<Rightarrow> 'a kfs_scheme \<Rightarrow> ((nat option \<times> u8 list) \<times> 'a kfs_scheme) res" where
  "ext2_path2inode_parent path s = bnd (path_start path s) (\<lambda>(ino, s). traverse True ino path s)"

definition ext2_mknod :: "u8 list \<Rightarrow> u16 \<Rightarrow> u32 \<Rightarrow> 'a kfs_scheme \<Rightarrow> (nat option \<times> 'a kfs_scheme) res" where
  "ext2_mknod path mode dv s =
     bnd (ext2_path2inode_parent path s) (\<lambda>((r, name), s).
       case r of None \<Rightarrow> Inr (None, s) | Some pdir \<Rightarrow> ext2_new_inode name pdir mode dv s)"

definition ext2_mkdir :: "u8 list \<Rightarrow> 'a kfs_scheme \<Rightarrow> (nat option \<times> 'a kfs_scheme) res" where
  "ext2_mkdir path s =
     bnd (ext2_path2inode_parent path s) (\<lambda>((r, name), s).
       case r of None \<Rightarrow> Inr (None, s) | Some pdir \<Rightarrow> ext2_new_inode name pdir S_IFDIR 0 s)"

definition ext2_rm :: "u8 list \<Rightarrow> 'a kfs_scheme \<Rightarrow> (int \<times> 'a kfs_scheme) res" where
  "ext2_rm path s =
     bnd (ext2_path2inode_parent path s) (\<lambda>((r, name), s).
       case r of None \<Rightarrow> Inr (-1, s) | Some pdir \<Rightarrow> Inr (ext2_rm_inode name pdir, s))"

end
