(* ===== verification/Ext2_Rw.thy ===== *)
theory Ext2_Rw
  imports Ext2
begin

text \<open>
  \<open>ext2_read_inode\<close> and \<open>ext2_w_inode\<close> of kernel/ext2.c. The buffer of the caller is user memory
  or a local variable of the kernel: \<open>put\<close> stores bytes at an offset in it, \<open>src\<close> fetches them. The bytes
  read are also returned.
\<close>

unbundle bit_operations_syntax

section \<open>The caller's buffer\<close>

text \<open>\<open>memcpy\<close> through the MMU; a fault in the kernel stops the machine.\<close>

definition put_mem :: "(u64 \<Rightarrow> u64 option) \<Rightarrow> u64 \<Rightarrow> nat \<Rightarrow> u8 list \<Rightarrow> 'a kmem_scheme \<Rightarrow> 'a kmem_scheme res" where
  "put_mem mmu a off bs s =
     (let (ok, m) = put_user mmu (a + of_nat off) bs [0..<length bs] (mem s)
      in if ok then Inr (s\<lparr>mem := m\<rparr>) else Inl (Panic ''data abort EL1''))"

fun fetch :: "(u64 \<Rightarrow> u64 option) \<Rightarrow> u64 \<Rightarrow> nat \<Rightarrow> mem \<Rightarrow> u8 list option" where
  "fetch mmu a 0 m = Some []"
| "fetch mmu a (Suc n) m =
     (case mmu a of None \<Rightarrow> None | Some p \<Rightarrow> map_option (\<lambda>bs. m p # bs) (fetch mmu (a + 1) n m))"

definition src_mem :: "(u64 \<Rightarrow> u64 option) \<Rightarrow> u64 \<Rightarrow> nat \<Rightarrow> nat \<Rightarrow> 'a kmem_scheme \<Rightarrow> u8 list res" where
  "src_mem mmu a off n s =
     (case fetch mmu (a + of_nat off) n (mem s) of
        None \<Rightarrow> Inl (Panic ''data abort EL1'') | Some bs \<Rightarrow> Inr bs)"

text \<open>A local variable.\<close>

definition put_local :: "nat \<Rightarrow> u8 list \<Rightarrow> 's \<Rightarrow> 's res" where
  "put_local off bs s = Inr s"

section \<open>Reading\<close>

text \<open>\<open>cpsize\<close> of one round: what is wanted, at most to the end of the block.\<close>

definition chunk :: "u64 \<Rightarrow> u32 \<Rightarrow> u32 \<Rightarrow> nat" where
  "chunk sz offblkoff bs =
     (let cp = min sz (ucast bs)
      in unat (if ucast bs < ucast offblkoff + cp then ucast (bs - offblkoff) else cp))"

fun read_loop :: "(nat \<Rightarrow> u8 list \<Rightarrow> 'a kfs_scheme \<Rightarrow> 'a kfs_scheme res) \<Rightarrow> nat \<Rightarrow> nat \<Rightarrow> nat \<Rightarrow>
    u64 \<Rightarrow> u32 \<Rightarrow> u8 list \<Rightarrow> 'a kfs_scheme \<Rightarrow> (u8 list \<times> 'a kfs_scheme) res" where
  "read_loop put k i 0 sz offblkoff acc s = Inr (acc, s)"
| "read_loop put k i (Suc n) sz offblkoff acc s =
     bnd (ext2_inode_block k i s) (\<lambda>(b, s).
       let cp = chunk sz offblkoff (bsize (sb s)) in
       if BSIZE < unat offblkoff + cp then Inl Fault
       else
         let bs = take cp (drop (unat offblkoff) (bdata s b)) in
         bnd (put (length acc) bs s) (\<lambda>s.
         bnd (bio_free b s) (\<lambda>s. read_loop put k (i + 1) n (sz - of_nat cp) 0 (acc @ bs) s)))"

text \<open>The number of rounds of \<open>for(i = offblk; i < nblock && i <= lastblk; i++)\<close>.\<close>

definition rounds :: "u64 \<Rightarrow> u64 \<Rightarrow> u32 \<Rightarrow> nat \<Rightarrow> nat" where
  "rounds off sz bs nblock =
     min nblock (unat (ucast ((sz + off) div ucast bs) :: u32) + 1) - unat (ucast (off div ucast bs) :: u32)"

definition ext2_read_inode :: "(nat \<Rightarrow> u8 list \<Rightarrow> 'a kfs_scheme \<Rightarrow> 'a kfs_scheme res) \<Rightarrow> nat \<Rightarrow>
    u64 \<Rightarrow> u64 \<Rightarrow> 'a kfs_scheme \<Rightarrow> (int \<times> u8 list \<times> 'a kfs_scheme) res" where
  "ext2_read_inode put k off sz s =
     (let ino = itable s ! k; bs = bsize (sb s) in
      if ucast (i_size ino) < off then Inr (-1, [], s)
      else
        let sz = (if ucast (i_size ino) < off + sz then ucast (i_size ino) - off else sz) in
        bnd (read_loop put k (unat (ucast (off div ucast bs) :: u32)) (rounds off sz bs (ext2_inode_nblock ino))
               sz (ucast (off mod ucast bs)) [] s)
          (\<lambda>(r, s). Inr (int (length r), r, s)))"

section \<open>Writing\<close>

fun write_loop :: "(nat \<Rightarrow> nat \<Rightarrow> 'a kfs_scheme \<Rightarrow> u8 list res) \<Rightarrow> nat \<Rightarrow> nat \<Rightarrow> nat \<Rightarrow>
    u64 \<Rightarrow> u32 \<Rightarrow> nat \<Rightarrow> 'a kfs_scheme \<Rightarrow> 'a kfs_scheme res" where
  "write_loop src k i 0 sz offblkoff pos s = Inr s"
| "write_loop src k i (Suc n) sz offblkoff pos s =
     bnd (ext2_inode_block k i s) (\<lambda>(b, s).
       let cp = chunk sz offblkoff (bsize (sb s)) in
       if BSIZE < unat offblkoff + cp then Inl Fault
       else
         bnd (src pos cp s) (\<lambda>bs.
         bnd (bio_write b (set_data b (put_bytes (unat offblkoff) bs (bdata s b)) s)) (\<lambda>s.
         let sz = (if ucast (bsize (sb s)) < sz then sz - ucast (bsize (sb s)) else 0) in
         bnd (bio_free b s) (\<lambda>s. write_loop src k (i + 1) n sz 0 (pos + cp) s))))"

definition ext2_w_inode :: "(nat \<Rightarrow> nat \<Rightarrow> 'a kfs_scheme \<Rightarrow> u8 list res) \<Rightarrow> nat \<Rightarrow>
    u64 \<Rightarrow> u64 \<Rightarrow> 'a kfs_scheme \<Rightarrow> (int \<times> 'a kfs_scheme) res" where
  "ext2_w_inode src k off sz s =
     (let bs = bsize (sb s) in
      if ucast (i_size (itable s ! k)) < off then Inr (-1, s)
      else
        let s = (if ucast (i_size (itable s ! k)) < off + sz
                 then upd_inode k (\<lambda>i. i\<lparr>i_size := ucast (off + sz)\<rparr>) s else s);
            lastblk = (ucast ((sz + off) div ucast bs) :: u32);
            nblock = ext2_inode_nblock (itable s ! k)
        in bnd (if nblock < unat lastblk
                then bnd (ext2_grow_inode_block k (unat lastblk - nblock) s) (\<lambda>(_, s). Inr s)
                else Inr s) (\<lambda>s.
           bnd (write_loop src k (unat (ucast (off div ucast bs) :: u32))
                  (rounds off sz bs (ext2_inode_nblock (itable s ! k))) sz (ucast (off mod ucast bs)) 0 s) (\<lambda>s.
           bnd (inode_sync k s) (\<lambda>s. Inr (sint (ucast sz :: u32), s)))))"

end
