(* ===== verification/Ext2_Files.thy ===== *)
theory Ext2_Files
  imports Ext2_Rw
begin

text \<open>
  What the operations of Ext2 and Ext2_Rw do to files: the block map of an inode, the inode on
  disk, reading as a slice of the file, writing, and two ways in which writing loses data.
\<close>

unbundle bit_operations_syntax

section \<open>Room in the cache\<close>

text \<open>Enough free buffers and counters far from overflow for \<open>j\<close> more references.\<close>

definition spare :: "nat \<Rightarrow> (u32 \<Rightarrow> nat) \<Rightarrow> bool" where
  "spare j R \<longleftrightarrow> card {m. R m \<noteq> 0} + j \<le> NBUF \<and> (\<forall>m. R m + j < 2 ^ 32 - 1)"

lemma spare_room: "spare (Suc j) R \<Longrightarrow> n \<noteq> 0 \<Longrightarrow> buf_room n R"
proof -
  assume s: "spare (Suc j) R" and n: "n \<noteq> 0"
  have "R n + Suc j < 2 ^ 32 - 1" "card {m. R m \<noteq> 0} < NBUF" using s by (auto simp: spare_def)
  then show ?thesis using n by (simp add: buf_room_def)
qed

lemma spare_Suc: "spare (Suc j) R \<Longrightarrow> spare j (R(n := Suc (R n)))"
proof -
  assume s: "spare (Suc j) R"
  have "{m. (R(n := Suc (R n))) m \<noteq> 0} = insert n {m. R m \<noteq> 0}" by auto
  then have "card {m. (R(n := Suc (R n))) m \<noteq> 0} \<le> Suc (card {m. R m \<noteq> 0})"
    by (simp add: card_insert_le_m1 card_insert_if)
  moreover have "card {m. R m \<noteq> 0} + Suc j \<le> NBUF" "\<And>m. R m + Suc j < 2 ^ 32 - 1"
    using s unfolding spare_def by blast+
  moreover have "(R(n := Suc (R n))) m + j < 2 ^ 32 - 1" for m
    using \<open>\<And>m. R m + Suc j < 2 ^ 32 - 1\<close> [of m] by (cases "m = n") simp_all
  ultimately show ?thesis unfolding spare_def by auto
qed

lemma spare_mono: "spare j R \<Longrightarrow> i \<le> j \<Longrightarrow> spare i R"
  unfolding spare_def by (meson add_left_mono le_trans order.strict_trans1)

section \<open>The block map\<close>

text \<open>The number of block \<open>bi\<close> of a file: twelve direct slots, then one indirect block.\<close>

definition file_blk :: "'a kfs_scheme \<Rightarrow> nat \<Rightarrow> nat \<Rightarrow> u32" where
  "file_blk s k bi = (if bi < 12 then i_block (itable s ! k) ! bi
     else get32 (content s (i_block (itable s ! k) ! 12)) (4 * (bi - 12)))"

abbreviation MAXBLK :: nat where "MAXBLK \<equiv> 268"      \<comment> \<open>12 direct and 256 indirect\<close>

definition mapped_blk :: "'a kfs_scheme \<Rightarrow> nat \<Rightarrow> nat \<Rightarrow> bool" where
  "mapped_blk s k bi \<longleftrightarrow> bi < MAXBLK \<and> file_blk s k bi \<noteq> 0 \<and>
     (12 \<le> bi \<longrightarrow> i_block (itable s ! k) ! 12 \<noteq> 0)"

lemma ext2_inode_block_ok:
  assumes rd: "cache_ready me s" and sp: "spare 2 (refs s)" and m: "mapped_blk s k bi"
  shows "\<exists>b t. ext2_inode_block k bi s = Inr (b, t) \<and> cache_ready me t \<and>
     refs t = (refs s)(file_blk s k bi := Suc (refs s (file_blk s k bi))) \<and> content t = content s \<and>
     buf_frame s t \<and> buf_holds t b (file_blk s k bi) \<and> bdata t b = content s (file_blk s k bi) \<and>
     (\<forall>j m. buf_holds s j m \<longrightarrow> buf_holds t j m)"
proof (cases "bi < 12")
  case True
  then have "file_blk s k bi = i_block (itable s ! k) ! bi" "file_blk s k bi \<noteq> 0"
    using m by (auto simp: file_blk_def mapped_blk_def)
  moreover have "buf_room (file_blk s k bi) (refs s)"
    by (rule spare_room [of 1]) (use sp calculation(2) in \<open>simp_all add: numeral_2_eq_2\<close>)
  then obtain b t where "bio_read (file_blk s k bi) s = Inr (b, t)" "cache_ready me t"
      "refs t = (refs s)(file_blk s k bi := Suc (refs s (file_blk s k bi)))" "content t = content s"
      "buf_frame s t" "buf_holds t b (file_blk s k bi)" "\<forall>j m. buf_holds s j m \<longrightarrow> buf_holds t j m"
    using bc.rd_ok [OF rd] by blast
  moreover from this have "bdata t b = content s (file_blk s k bi)" using bc.data_ok by metis
  ultimately show ?thesis using True by (auto simp: ext2_inode_block_def)
next
  case False
  let ?m = "i_block (itable s ! k) ! 12" and ?n = "file_blk s k bi"
  have nz: "?m \<noteq> 0" "?n \<noteq> 0" "bi < MAXBLK" using m False by (auto simp: mapped_blk_def)
  have n: "?n = get32 (content s ?m) (4 * (bi - 12))" using False by (simp add: file_blk_def)
  have "buf_room ?m (refs s)" by (rule spare_room [of 1]) (use sp nz in \<open>simp_all add: numeral_2_eq_2\<close>)
  then obtain b1 t1 where t1: "bio_read ?m s = Inr (b1, t1)" "cache_ready me t1"
      "refs t1 = (refs s)(?m := Suc (refs s ?m))" "content t1 = content s"
      "buf_frame s t1" "buf_holds t1 b1 ?m" "\<forall>j m. buf_holds s j m \<longrightarrow> buf_holds t1 j m"
    using bc.rd_ok [OF rd] by blast
  have d1: "bdata t1 b1 = content s ?m" using bc.data_ok [OF t1(2,6)] t1(4) by simp
  have sp1: "spare 1 (refs t1)" unfolding t1(3) by (rule spare_Suc) (use sp in \<open>simp add: numeral_2_eq_2\<close>)
  have "buf_room ?n (refs t1)" by (rule spare_room [of 0]) (use sp1 nz in simp_all)
  then obtain b2 t2 where t2: "bio_read ?n t1 = Inr (b2, t2)" "cache_ready me t2"
      "refs t2 = (refs t1)(?n := Suc (refs t1 ?n))" "content t2 = content t1"
      "buf_frame t1 t2" "buf_holds t2 b2 ?n" "\<forall>j m. buf_holds t1 j m \<longrightarrow> buf_holds t2 j m"
    using bc.rd_ok [OF t1(2)] by blast
  have h2: "buf_holds t2 b1 ?m" using t2(7) t1(6) by blast
  then obtain t3 where t3: "bio_free b1 t2 = Inr t3" "cache_ready me t3"
      "refs t3 = (refs t2)(?m := refs t2 ?m - 1)" "content t3 = content t2" "buf_frame t2 t3"
      "\<forall>j m. buf_holds t2 j m \<longrightarrow> m \<noteq> ?m \<or> 1 < refs t2 ?m \<longrightarrow> buf_holds t3 j m"
    using bc.fr_ok [OF t2(2)] by blast
  have r3: "refs t3 = (refs s)(?n := Suc (refs s ?n))"
    unfolding t3(3) t2(3) t1(3) by (auto simp: fun_eq_iff)
  have keep: "buf_holds t3 j m" if "buf_holds s j m" for j m
  proof -
    have "m \<noteq> ?m \<or> 1 < refs t2 ?m"
      using bc.data_ok [OF rd that] unfolding t2(3) t1(3) by auto
    then show ?thesis using that t1(7) t2(7) t3(6) by blast
  qed
  have hb: "buf_holds t3 b2 ?n"
  proof -
    have "?n \<noteq> ?m \<or> 1 < refs t2 ?m" unfolding t2(3) t1(3) by auto
    then show ?thesis using t3(6) t2(6) by blast
  qed
  have "ext2_inode_block k bi s = Inr (b2, t3)"
    using False t1(1) t2(1) t3(1) nz(3) n d1
    by (simp add: ext2_inode_block_def read_indirect_block_def Let_def)
  moreover have "bdata t3 b2 = content s ?n" using bc.data_ok [OF t3(2) hb] t3(4) t2(4) t1(4) by simp
  moreover have "content t3 = content s" using t3(4) t2(4) t1(4) by simp
  moreover have "buf_frame s t3" by (rule buf_frame_trans [OF t1(5) buf_frame_trans [OF t2(5) t3(5)]])
  ultimately show ?thesis using t3(2) r3 hb keep by blast
qed


section \<open>Reading\<close>

text \<open>Byte \<open>x\<close> of a file, and its bytes from \<open>x\<close> on.\<close>

definition file_byte :: "'a kfs_scheme \<Rightarrow> nat \<Rightarrow> nat \<Rightarrow> u8" where
  "file_byte s k x = content s (file_blk s k (x div BSIZE)) ! (x mod BSIZE)"

definition file_bytes :: "'a kfs_scheme \<Rightarrow> nat \<Rightarrow> nat \<Rightarrow> nat \<Rightarrow> u8 list" where
  "file_bytes s k x n = map (\<lambda>j. file_byte s k (x + j)) [0..<n]"

lemma file_bytes_simps [simp]: "length (file_bytes s k x n) = n" "file_bytes s k x 0 = []"
  by (simp_all add: file_bytes_def)

lemma file_bytes_append: "file_bytes s k x (n + m) = file_bytes s k x n @ file_bytes s k (x + n) m"
  unfolding file_bytes_def by (rule nth_equalityI) (auto simp: nth_append)

lemma file_bytes_block:
  assumes "length (content s (file_blk s k i)) = BSIZE" "p + n \<le> BSIZE"
  shows "take n (drop p (content s (file_blk s k i))) = file_bytes s k (BSIZE * i + p) n"
proof (rule nth_equalityI)
  show "length (take n (drop p (content s (file_blk s k i)))) = length (file_bytes s k (BSIZE * i + p) n)"
    using assms by simp
  fix j assume "j < length (take n (drop p (content s (file_blk s k i))))"
  then have j: "j < n" "p + j < BSIZE" using assms by auto
  have "BSIZE * i + p + j = BSIZE * i + (p + j)" by simp
  then have "(BSIZE * i + p + j) div BSIZE = i" "(BSIZE * i + p + j) mod BSIZE = p + j"
    using j(2) by (simp_all only: div_mult_self4 mod_mult_self4) simp_all
  then show "take n (drop p (content s (file_blk s k i))) ! j = file_bytes s k (BSIZE * i + p) n ! j"
    using j assms by (simp add: file_bytes_def file_byte_def)
qed

lemma file_cong:
  assumes "itable t = itable s" "content t = content s"
  shows "file_blk t k = file_blk s k" "mapped_blk t k = mapped_blk s k" "file_bytes t k = file_bytes s k"
  using assms by (auto simp: file_blk_def mapped_blk_def file_bytes_def file_byte_def fun_eq_iff)

lemma mem_upd_cache [simp]:
  "cache_ready me (s\<lparr>mem := m\<rparr>) = cache_ready me s" "buf_holds (s\<lparr>mem := m\<rparr>) b n = buf_holds s b n"
  "refs (s\<lparr>mem := m\<rparr>) = refs s" "content (s\<lparr>mem := m\<rparr>) = content s"
  by (simp_all add: cache_ready_def cache_ok_def disk_ready_def queue_idle_def queue_ok_def caller_ok_def
      block_device_def lock_free_def buf_holds_def refs_def content_def fun_eq_iff cong: option.case_cong)

lemma content_length: "cache_ready me s \<Longrightarrow> length (content s n) = BSIZE"
  by (simp add: cache_ready_def cache_ok_def)

text \<open>The arithmetic of one round, away from words.\<close>

lemma unat_ucast_32_64 [simp]: "unat (ucast (x :: u32) :: u64) = unat x"
proof -
  have "unat x < 2 ^ 32" using unsigned_less [of x] by simp
  then show ?thesis by (simp add: unsigned_ucast_eq take_bit_nat_eq_self)
qed

lemma chunk_nat:
  assumes "unat o1 < BSIZE"
  shows "chunk sz o1 1024 = min (unat sz) (BSIZE - unat o1)"
proof -
  have u: "unat (ucast o1 :: u64) = unat o1" by simp
  let ?cp = "min sz (1024 :: u64)"
  have cp: "unat ?cp = min (unat sz) BSIZE" by (simp add: min_def word_le_nat_alt)
  have sum: "unat (ucast o1 + ?cp :: u64) = unat o1 + unat ?cp"
    using assms cp u by (subst unat_add_lem [THEN iffD1]) auto
  have sub: "unat (ucast (1024 - o1) :: u64) = BSIZE - unat o1"
    using assms by (simp add: unat_sub word_le_nat_alt)
  show ?thesis
  proof (cases "BSIZE < unat o1 + unat ?cp")
    case True
    then have "(1024 :: u64) < ucast o1 + ?cp" by (simp add: word_less_nat_alt sum)
    then show ?thesis using True cp sub by (simp add: chunk_def Let_def)
  next
    case False
    then have "\<not> (1024 :: u64) < ucast o1 + ?cp" by (simp add: word_less_nat_alt sum)
    then show ?thesis using False cp assms by (simp add: chunk_def Let_def)
  qed
qed


text \<open>
  The caller's buffer as the read loop uses it: \<open>put\<close> acts on the memory alone, and storing two
  chunks one after the other is storing their concatenation.
\<close>

locale byte_sink =
  fixes put :: "nat \<Rightarrow> u8 list \<Rightarrow> 'a kfs_scheme \<Rightarrow> 'a kfs_scheme res"
    and eff :: "nat \<Rightarrow> u8 list \<Rightarrow> mem \<Rightarrow> mem option" and err :: stop
  assumes put_eff: "put off bs s = (case eff off bs (mem s) of None \<Rightarrow> Inl err | Some m \<Rightarrow> Inr (s\<lparr>mem := m\<rparr>))"
    and eff_nil: "eff off [] m = Some m"
    and eff_append: "eff off (bs @ cs) m = Option.bind (eff off bs m) (eff (off + length bs) cs)"
begin

text \<open>\<open>n\<close> rounds from block \<open>i\<close> on, starting \<open>unat o1\<close> bytes into it.\<close>

lemma read_loop_ok:
  assumes "cache_ready me s" "spare 2 (refs s)" "bsize (sb s) = 1024" "unat o1 < BSIZE"
    and "\<forall>j<n. mapped_blk s k (i + j)"
    and "eff (length acc) (file_bytes s k (BSIZE * i + unat o1) (min (unat sz) (BSIZE * n - unat o1))) (mem s) = Some m'"
  shows "\<exists>t. read_loop put k i n sz o1 acc s =
       Inr (acc @ file_bytes s k (BSIZE * i + unat o1) (min (unat sz) (BSIZE * n - unat o1)), t) \<and>
     cache_ready me t \<and> refs t = refs s \<and> content t = content s \<and> mem t = m' \<and> buf_frame (s\<lparr>mem := m'\<rparr>) t"
  using assms
proof (induction n arbitrary: i sz o1 acc s)
  case 0
  then show ?case using eff_nil by auto
next
  case (Suc n)
  let ?cp = "min (unat sz) (BSIZE - unat o1)" and ?x = "BSIZE * i + unat o1"
  let ?rest = "min (unat (sz - of_nat ?cp)) (BSIZE * n)"
  have cp: "chunk sz o1 (bsize (sb s)) = ?cp" using Suc.prems(3,4) chunk_nat by simp
  have sz': "unat (sz - of_nat ?cp) = unat sz - ?cp"
  proof -
    have "take_bit 64 ?cp = ?cp" using Suc.prems(4) by (intro take_bit_nat_eq_self) simp
    then have u: "unat (of_nat ?cp :: u64) = ?cp" by (simp add: unsigned_of_nat)
    then have "(of_nat ?cp :: u64) \<le> sz" by (simp add: word_le_nat_alt)
    then show ?thesis using u by (simp add: unat_sub)
  qed
  have total: "min (unat sz) (BSIZE * Suc n - unat o1) = ?cp + ?rest"
    unfolding sz' using Suc.prems(4) by (auto simp: min_def)
  have xs: "?rest \<noteq> 0 \<Longrightarrow> ?x + ?cp = BSIZE * (i + 1)" using Suc.prems(4) unfolding sz' by (auto simp: min_def split: if_splits)
  have bytes: "file_bytes s k ?x (?cp + ?rest) = file_bytes s k ?x ?cp @ file_bytes s k (BSIZE * (i + 1)) ?rest"
  proof (cases "?rest = 0")
    case True
    show ?thesis unfolding True by simp
  next
    case False
    show ?thesis unfolding file_bytes_append xs [OF False] ..
  qed
  have "mapped_blk s k i" using Suc.prems(5) by (metis add.right_neutral zero_less_Suc)
  from ext2_inode_block_ok [OF Suc.prems(1,2) this]
  obtain b t where t: "ext2_inode_block k i s = Inr (b, t)" "cache_ready me t"
      "refs t = (refs s)(file_blk s k i := Suc (refs s (file_blk s k i)))" "content t = content s"
      "buf_frame s t" "buf_holds t b (file_blk s k i)" "bdata t b = content s (file_blk s k i)"
    by blast
  have ft: "itable t = itable s" "sb t = sb s" "mem t = mem s" using buf_frame_kfs [OF t(5)] by auto
  have chunk: "take ?cp (drop (unat o1) (bdata t b)) = file_bytes s k ?x ?cp"
    unfolding t(7) using Suc.prems(4) content_length [OF Suc.prems(1)] by (intro file_bytes_block) auto
  obtain m1 where m1: "eff (length acc) (file_bytes s k ?x ?cp) (mem s) = Some m1"
      "eff (length acc + ?cp) (file_bytes s k (BSIZE * (i + 1)) ?rest) m1 = Some m'"
    using Suc.prems(6) unfolding total bytes eff_append
    by (cases "eff (length acc) (file_bytes s k ?x ?cp) (mem s)") auto
  let ?t1 = "t\<lparr>mem := m1\<rparr>"
  have put: "put (length acc) (file_bytes s k ?x ?cp) t = Inr ?t1" using put_eff m1(1) ft(3) by simp
  obtain u where u: "bio_free b ?t1 = Inr u" "cache_ready me u"
      "refs u = (refs ?t1)(file_blk s k i := refs ?t1 (file_blk s k i) - 1)" "content u = content ?t1" "buf_frame ?t1 u"
    using bc.fr_ok [of me ?t1 b "file_blk s k i"] t(2,6) by auto
  have fu: "itable u = itable s" "sb u = sb s" "mem u = m1" using buf_frame_kfs [OF u(5)] ft by auto
  have cu: "content u = content s" "refs u = refs s" using u(3,4) t(3,4) by (auto simp: fun_eq_iff)
  note fc = file_cong [OF fu(1) cu(1)]
  have fr1: "buf_frame (s\<lparr>mem := m1\<rparr>) u"
  proof -
    have "buf_frame (s\<lparr>mem := m1\<rparr>) ?t1" using t(5) by (cases s; cases t) (simp add: buf_frame_def)
    then show ?thesis using u(5) by (rule buf_frame_trans)
  qed
  have "\<forall>j<n. mapped_blk u k (i + 1 + j)" using Suc.prems(5) unfolding fc by auto
  moreover have "eff (length (acc @ file_bytes s k ?x ?cp))
      (file_bytes u k (BSIZE * (i + 1) + unat (0 :: u32)) (min (unat (sz - of_nat ?cp)) (BSIZE * n - unat (0 :: u32)))) (mem u) = Some m'"
    using m1(2) by (simp add: fc fu(3))
  ultimately obtain v where v: "read_loop put k (i + 1) n (sz - of_nat ?cp) 0 (acc @ file_bytes s k ?x ?cp) u =
       Inr ((acc @ file_bytes s k ?x ?cp) @ file_bytes u k (BSIZE * (i + 1) + unat (0 :: u32))
          (min (unat (sz - of_nat ?cp)) (BSIZE * n - unat (0 :: u32))), v)"
      "cache_ready me v" "refs v = refs u" "content v = content u" "mem v = m'" "buf_frame (u\<lparr>mem := m'\<rparr>) v"
    using Suc.IH [OF u(2), of 0 "i + 1" "acc @ file_bytes s k ?x ?cp" "sz - of_nat ?cp"] Suc.prems(2,3) cu(2) fu(2) by auto
  have "unat o1 + ?cp \<le> BSIZE" using Suc.prems(4) by auto
  then have "read_loop put k i (Suc n) sz o1 acc s = read_loop put k (i + 1) n (sz - of_nat ?cp) 0 (acc @ file_bytes s k ?x ?cp) u"
    using t(1) cp chunk put u(1) ft(2) by (simp add: Let_def)
  moreover have "buf_frame (s\<lparr>mem := m'\<rparr>) v"
  proof -
    have "buf_frame (s\<lparr>mem := m'\<rparr>) (u\<lparr>mem := m'\<rparr>)" using fr1 by (cases s; cases u) (simp add: buf_frame_def)
    then show ?thesis using v(6) by (rule buf_frame_trans)
  qed
  ultimately show ?case using v cu unfolding total bytes by (simp add: fc)
qed

end


text \<open>Both buffers are sinks.\<close>

lemma put_user_app_idx:
  "put_user mmu u bs (ks @ ls) m =
     (case put_user mmu u bs ks m of (ok, m1) \<Rightarrow> if ok then put_user mmu u bs ls m1 else (False, m1))"
  by (induction mmu u bs ks m rule: put_user.induct) (simp_all add: fun_upd_def split: option.split)

lemma put_user_fst: "\<forall>k\<in>set ks. k < length bs \<Longrightarrow> put_user mmu u (bs @ cs) ks m = put_user mmu u bs ks m"
  by (induction mmu u bs ks m rule: put_user.induct) (auto simp: nth_append split: option.split)

lemma put_user_snd:
  "put_user mmu u (bs @ cs) (map ((+) (length bs)) ks) m = put_user mmu (u + of_nat (length bs)) cs ks m"
  by (induction ks arbitrary: m) (auto simp: nth_append add.assoc split: option.split)

lemma put_user_append:
  "put_user mmu u (bs @ cs) [0..<length (bs @ cs)] m =
     (case put_user mmu u bs [0..<length bs] m of (ok, m1) \<Rightarrow>
        if ok then put_user mmu (u + of_nat (length bs)) cs [0..<length cs] m1 else (False, m1))"
proof -
  have "[0..<length (bs @ cs)] = [0..<length bs] @ map ((+) (length bs)) [0..<length cs]"
    by (rule nth_equalityI) (auto simp: nth_append)
  then show ?thesis by (simp only: put_user_app_idx put_user_snd) (simp add: put_user_fst)
qed

definition mem_eff :: "(u64 \<Rightarrow> u64 option) \<Rightarrow> u64 \<Rightarrow> nat \<Rightarrow> u8 list \<Rightarrow> mem \<Rightarrow> mem option" where
  "mem_eff mmu a off bs m =
     (case put_user mmu (a + of_nat off) bs [0..<length bs] m of (ok, m1) \<Rightarrow> if ok then Some m1 else None)"

interpretation user_sink: byte_sink "put_mem mmu a" "mem_eff mmu a" "Panic ''data abort EL1''"
proof
  fix off bs cs m and s :: "'a kfs_scheme"
  show "put_mem mmu a off bs s = (case mem_eff mmu a off bs (mem s) of
      None \<Rightarrow> Inl (Panic ''data abort EL1'') | Some m \<Rightarrow> Inr (s\<lparr>mem := m\<rparr>))"
    by (auto simp: put_mem_def mem_eff_def split: prod.split)
  show "mem_eff mmu a off [] m = Some m" by (simp add: mem_eff_def)
  show "mem_eff mmu a off (bs @ cs) m = Option.bind (mem_eff mmu a off bs m) (mem_eff mmu a (off + length bs) cs)"
    unfolding mem_eff_def put_user_append by (auto simp: add.assoc split: prod.split)
qed

interpretation local_sink: byte_sink put_local "\<lambda>_ _ m. Some m" Fault
  by unfold_locales (simp_all add: put_local_def)

text \<open>A file all of whose blocks are there, as far as its size goes.\<close>

definition plain_file :: "'a kfs_scheme \<Rightarrow> nat \<Rightarrow> bool" where
  "plain_file s k \<longleftrightarrow> bsize (sb s) = 1024 \<and>
     (\<forall>bi<ext2_inode_nblock (itable s ! k). mapped_blk s k bi) \<and>
     unat (i_size (itable s ! k)) \<le> BSIZE * ext2_inode_nblock (itable s ! k)"

lemma unat_small_div:
  "unat (x :: u64) < 2 ^ 32 \<Longrightarrow> unat (ucast (x div 1024) :: u32) = unat x div 1024"
proof -
  assume "unat x < 2 ^ 32"
  then have "unat (x div 1024) < 2 ^ 32" by (simp add: unat_div_distrib)
  then show ?thesis by (simp add: unsigned_ucast_eq take_bit_nat_eq_self unat_div_distrib)
qed

lemma unat_mod_1024: "unat (ucast ((x :: u64) mod 1024) :: u32) = unat x mod 1024"
proof -
  have "unat (x mod 1024) = unat x mod 1024" by (simp add: unat_mod_distrib)
  moreover have "unat x mod 1024 < 2 ^ 32"
    by (rule less_trans [of _ 1024]) simp_all
  ultimately show ?thesis by (simp add: unsigned_ucast_eq take_bit_nat_eq_self)
qed

lemma rounds_nat:
  assumes "unat off + unat sz < 2 ^ 32"
  shows "rounds off sz 1024 nb = min nb ((unat off + unat sz) div BSIZE + 1) - unat off div BSIZE"
proof -
  have "unat (sz + off) = unat off + unat sz"
    using assms by (subst unat_add_lem [THEN iffD1]) simp_all
  then show ?thesis using assms by (simp add: rounds_def unat_small_div)
qed

context byte_sink
begin

lemma read_inode_ok:
  assumes rd: "cache_ready me s" and sp: "spare 2 (refs s)" and pf: "plain_file s k"
    and off: "unat off \<le> unat (i_size (itable s ! k))" "unat off + unat sz < 2 ^ 64"
    and n: "n = min (unat sz) (unat (i_size (itable s ! k)) - unat off)"
    and m': "eff 0 (file_bytes s k (unat off) n) (mem s) = Some m'"
  shows "\<exists>t. ext2_read_inode put k off sz s = Inr (int n, file_bytes s k (unat off) n, t) \<and>
     cache_ready me t \<and> refs t = refs s \<and> content t = content s \<and> mem t = m' \<and> buf_frame (s\<lparr>mem := m'\<rparr>) t"
proof -
  let ?isz = "i_size (itable s ! k)" and ?nb = "ext2_inode_nblock (itable s ! k)"
  have bs: "bsize (sb s) = 1024" using pf by (simp add: plain_file_def)
  have isz: "unat ?isz < 2 ^ 32" using unsigned_less [of ?isz] by simp
  have le: "\<not> ucast ?isz < off" using off(1) by (simp add: word_less_nat_alt)
  have sum: "unat (off + sz) = unat off + unat sz" using off(2) by (subst unat_add_lem [THEN iffD1]) simp_all
  let ?sz = "if ucast ?isz < off + sz then ucast ?isz - off else sz"
  have sz: "unat ?sz = n"
  proof (cases "ucast ?isz < off + sz")
    case True
    then have "unat ?isz < unat off + unat sz" using sum by (simp add: word_less_nat_alt)
    moreover have "unat (ucast ?isz - off) = unat ?isz - unat off"
      using off(1) by (subst unat_sub) (simp_all add: word_le_nat_alt)
    ultimately show ?thesis using True n by simp
  next
    case False
    then have "unat off + unat sz \<le> unat ?isz" using sum by (simp add: word_less_nat_alt)
    then show ?thesis using False n by simp
  qed
  have on: "unat off + n \<le> unat ?isz" using n off(1) by simp
  have lt: "unat off + unat ?sz < 2 ^ 32" using on isz sz by linarith
  let ?q = "unat off div BSIZE" and ?o = "ucast (off mod 1024) :: u32"
  have o1: "unat ?o = unat off mod BSIZE" by (rule unat_mod_1024)
  have q: "unat (ucast (off div 1024) :: u32) = ?q" using lt by (intro unat_small_div) simp
  let ?r = "min ?nb ((unat off + n) div BSIZE + 1) - ?q"
  have r: "rounds off ?sz 1024 ?nb = ?r" using rounds_nat [OF lt] unfolding sz .
  have tot: "min (unat ?sz) (BSIZE * ?r - unat ?o) = n"
  proof -
    have a: "unat off + n \<le> BSIZE * ?nb" using on pf unfolding plain_file_def by linarith
    have b: "unat off + n < BSIZE * ((unat off + n) div BSIZE + 1)" by simp
    have "unat off + n \<le> BSIZE * min ?nb ((unat off + n) div BSIZE + 1)"
      using a b by (cases "?nb \<le> (unat off + n) div BSIZE + 1") (simp_all add: min_def)
    then have "unat off + n \<le> BSIZE * ?r + BSIZE * ?q"
      by (cases "?q \<le> min ?nb ((unat off + n) div BSIZE + 1)") (auto simp: algebra_simps diff_mult_distrib2)
    then have "unat off mod BSIZE + n \<le> BSIZE * ?r"
      using mult_div_mod_eq [of BSIZE "unat off"] by linarith
    then have "n \<le> BSIZE * ?r - unat off mod BSIZE" by linarith
    then show ?thesis unfolding sz o1 by (rule min_absorb1)
  qed
  have x: "BSIZE * ?q + unat ?o = unat off" unfolding o1 by simp
  have mp: "\<forall>j<?r. mapped_blk s k (?q + j)" using pf by (auto simp: plain_file_def)
  have "eff (length ([] :: u8 list)) (file_bytes s k (BSIZE * ?q + unat ?o) (min (unat ?sz) (BSIZE * ?r - unat ?o))) (mem s) = Some m'"
    using m' unfolding tot x by simp
  from read_loop_ok [OF rd sp bs _ mp this] o1 obtain t where
      "read_loop put k ?q ?r ?sz ?o [] s = Inr (file_bytes s k (unat off) n, t)" "cache_ready me t"
      "refs t = refs s" "content t = content s" "mem t = m'" "buf_frame (s\<lparr>mem := m'\<rparr>) t"
    unfolding tot x by auto
  then show ?thesis using le r q bs by (simp add: ext2_read_inode_def Let_def)
qed

end


section \<open>The inode on disk\<close>

lemma length_words [simp]: "length (concat (map (le_list 4) ws)) = 4 * length ws"
  by (induction ws) simp_all

lemma nth_words: "k < length ws \<Longrightarrow> j < 4 \<Longrightarrow> concat (map (le_list 4) ws) ! (4 * k + j) = byte_of (ws ! k) j"
proof (induction ws arbitrary: k)
  case (Cons w ws)
  show ?case
  proof (cases k)
    case 0
    then show ?thesis using Cons.prems by (simp add: nth_append) (simp add: le_list_def)
  next
    case (Suc m)
    then show ?thesis using Cons by (simp add: nth_append)
  qed
qed simp

lemma get32_words:
  assumes "o1 + 4 * length ws \<le> length d" "k < length ws"
  shows "get32 (put_bytes o1 (concat (map (le_list 4) ws)) d) (o1 + 4 * k) = (ws ! k :: u32)"
proof -
  have "get_le 4 (\<lambda>j. put_bytes o1 (concat (map (le_list 4) ws)) d ! (o1 + 4 * k + j)) = (get_le 4 (byte_of (ws ! k)) :: u32)"
    by (rule get_le_cong) (use assms in \<open>simp add: nth_put_bytes nth_words\<close>)
  then show ?thesis by (simp add: get32_def get_le_byte_of)
qed

lemma raw_store_length [simp]:
  "length (i_block i) = 15 \<Longrightarrow> p + RAW_LEN \<le> length d \<Longrightarrow> length (raw_store p i d) = length d"
  by (simp add: raw_store_def)

lemma put_fields_other:
  "o2 + 4 \<le> length d \<Longrightarrow> o1 + 4 \<le> length d \<Longrightarrow> o1 + 4 \<le> o2 \<or> o2 + 4 \<le> o1 \<Longrightarrow> get32 (put32 o2 v d) o1 = get32 d o1"
  "o2 + 2 \<le> length d \<Longrightarrow> o1 + 4 \<le> length d \<Longrightarrow> o1 + 4 \<le> o2 \<or> o2 + 2 \<le> o1 \<Longrightarrow> get32 (put16 o2 w d) o1 = get32 d o1"
  "o2 + 4 \<le> length d \<Longrightarrow> o1 + 2 \<le> length d \<Longrightarrow> o1 + 2 \<le> o2 \<or> o2 + 4 \<le> o1 \<Longrightarrow> get16 (put32 o2 v d) o1 = get16 d o1"
  "o2 + 2 \<le> length d \<Longrightarrow> o1 + 2 \<le> length d \<Longrightarrow> o1 + 2 \<le> o2 \<or> o2 + 2 \<le> o1 \<Longrightarrow> get16 (put16 o2 w d) o1 = get16 d o1"
  unfolding put32_def put16_def by (simp_all add: get32_put_other get16_put_other)

text \<open>What is stored of an inode is what is loaded.\<close>

lemma raw_load_store:
  assumes "length (i_block i) = 15" "p + RAW_LEN \<le> length d"
  shows "raw_load p (raw_store p i d) j = i\<lparr>i_inum := i_inum j, i_major := i_major j, i_minor := i_minor j, i_ref := i_ref j\<rparr>"
proof -
  let ?s = "raw_store p i d"
  have g: "get16 ?s p = i_mode i" "get32 ?s (p + 4) = i_size i" "get32 ?s (p + 8) = i_atime i"
      "get32 ?s (p + 12) = i_ctime i" "get32 ?s (p + 16) = i_mtime i" "get32 ?s (p + 20) = i_dtime i"
      "get16 ?s (p + 26) = i_links_count i" "get32 ?s (p + 28) = i_blocks i"
    using assms by (simp_all add: raw_store_def get32_put_other get16_put_other put_fields_other)
  have "map (\<lambda>k. get32 ?s (p + 40 + 4 * k)) [0..<15] = i_block i"
    by (rule nth_equalityI) (use assms in \<open>simp_all add: raw_store_def get32_words\<close>)
  then show ?thesis using g by (simp add: raw_load_def)
qed

text \<open>Where inode \<open>inum\<close> lies, and that it lies inside a block.\<close>

definition inode_blk :: "'a kfs_scheme \<Rightarrow> u32 \<Rightarrow> u32" where
  "inode_blk s inum = fst (inode_pos inum (sb s))"

definition inode_off :: "'a kfs_scheme \<Rightarrow> u32 \<Rightarrow> nat" where
  "inode_off s inum = snd (inode_pos inum (sb s))"

definition inode_fits :: "'a kfs_scheme \<Rightarrow> nat \<Rightarrow> bool" where
  "inode_fits s k \<longleftrightarrow> (let inum = i_inum (itable s ! k) in
     inode_blk s inum \<noteq> 0 \<and> inode_off s inum + RAW_LEN \<le> BSIZE \<and> length (i_block (itable s ! k)) = 15)"

lemma inode_sync_ok:
  assumes rd: "cache_ready me s" and sp: "spare 1 (refs s)" and fit: "inode_fits s k"
  shows "\<exists>t. inode_sync k s = Inr t \<and> cache_ready me t \<and> refs t = refs s \<and> buf_frame s t \<and>
     content t = (content s)(inode_blk s (i_inum (itable s ! k)) :=
       raw_store (inode_off s (i_inum (itable s ! k))) (itable s ! k) (content s (inode_blk s (i_inum (itable s ! k)))))"
proof -
  let ?inum = "i_inum (itable s ! k)"
  let ?n = "inode_blk s ?inum" and ?p = "inode_off s ?inum"
  let ?x = "raw_store ?p (itable s ! k) (content s ?n)"
  have f: "?n \<noteq> 0" "?p + RAW_LEN \<le> BSIZE" "length (i_block (itable s ! k)) = 15"
    using fit by (auto simp: inode_fits_def Let_def)
  have pos: "inode_pos ?inum (sb s) = (?n, ?p)" by (simp add: inode_blk_def inode_off_def)
  have "buf_room ?n (refs s)" by (rule spare_room [of 0]) (use sp f in simp_all)
  moreover have "length ?x = BSIZE" using f content_length [OF rd] by simp
  ultimately obtain b t v u where t: "bio_read ?n s = Inr (b, t)" "bdata t b = content s ?n" "buf_frame s t"
      "bio_write b (set_data b ?x t) = Inr v" "bio_free b v = Inr u" "cache_ready me u" "refs u = refs s"
      "content u = (content s)(?n := ?x)" "buf_frame s u"
    using bc.rewrite [OF rd] by blast
  have "itable t = itable s" using buf_frame_kfs [OF t(3)] by blast
  then have "inode_sync k s = Inr u"
    using f t by (simp add: inode_sync_def ext2_raw_inode_def pos)
  then show ?thesis using t(6-9) by blast
qed

section \<open>Writing\<close>

text \<open>One round of the write loop.\<close>

lemma write_round:
  assumes rd: "cache_ready me s" and sp: "spare 2 (refs s)" and bs: "bsize (sb s) = 1024" and o1: "unat o1 < BSIZE"
    and m: "mapped_blk s k i" and src: "\<And>t. mem t = mem s \<Longrightarrow> src pos (min (unat sz) (BSIZE - unat o1)) t = Inr bs"
    and len: "length bs = min (unat sz) (BSIZE - unat o1)"
  shows "\<exists>u. write_loop src k i (Suc n) sz o1 pos s =
       write_loop src k (i + 1) n (if 1024 < sz then sz - 1024 else 0) 0 (pos + length bs) u \<and>
     cache_ready me u \<and> refs u = refs s \<and> buf_frame s u \<and>
     content u = (content s)(file_blk s k i := put_bytes (unat o1) bs (content s (file_blk s k i)))"
proof -
  let ?n = "file_blk s k i" and ?cp = "min (unat sz) (BSIZE - unat o1)"
  let ?x = "put_bytes (unat o1) bs (content s ?n)"
  obtain b t where t: "ext2_inode_block k i s = Inr (b, t)" "cache_ready me t"
      "refs t = (refs s)(?n := Suc (refs s ?n))" "content t = content s" "buf_frame s t" "buf_holds t b ?n"
      "bdata t b = content s ?n"
    using ext2_inode_block_ok [OF rd sp m] by blast
  have ft: "sb t = sb s" "mem t = mem s" using buf_frame_kfs [OF t(5)] by auto
  have lx: "length ?x = BSIZE" using len o1 content_length [OF rd] by simp
  obtain v where v: "bio_write b (set_data b ?x t) = Inr v" "cache_ready me v" "refs v = refs t"
      "content v = (content t)(?n := ?x)" "buf_frame t v" "\<forall>j m. buf_holds v j m \<longleftrightarrow> buf_holds t j m"
    using bc.wr_ok [OF t(2,6) lx] by blast
  have "buf_holds v b ?n" using v(6) t(6) by blast
  then obtain u where u: "bio_free b v = Inr u" "cache_ready me u" "refs u = (refs v)(?n := refs v ?n - 1)"
      "content u = content v" "buf_frame v u"
    using bc.fr_ok [OF v(2)] by blast
  have fv: "sb v = sb s" using buf_frame_kfs [OF v(5)] ft by simp
  have cp: "chunk sz o1 (bsize (sb t)) = ?cp" using bs ft o1 chunk_nat by simp
  have le: "unat o1 + ?cp \<le> BSIZE" using o1 by auto
  have "write_loop src k i (Suc n) sz o1 pos s =
       write_loop src k (i + 1) n (if 1024 < sz then sz - 1024 else 0) 0 (pos + ?cp) u"
    using t(1,7) cp le src [OF ft(2)] v(1) u(1) fv bs by (simp add: Let_def)
  moreover have "refs u = refs s" using u(3) v(3) t(3) by (auto simp: fun_eq_iff)
  moreover have "buf_frame s u" by (rule buf_frame_trans [OF t(5) buf_frame_trans [OF v(5) u(5)]])
  ultimately show ?thesis using u(2,4) v(4) t(4) len by auto
qed


lemma sint_ucast_small: "unat (x :: u64) < 2 ^ 31 \<Longrightarrow> sint (ucast x :: u32) = int (unat x)"
proof -
  assume x: "unat x < 2 ^ 31"
  then have u: "unat (ucast x :: u32) = unat x" by (simp add: unsigned_ucast_eq take_bit_nat_eq_self)
  have "sint (ucast x :: u32) = signed_take_bit 31 (uint (ucast x :: u32))" by (simp add: sint_uint)
  also have "uint (ucast x :: u32) = int (unat x)" using u by (metis uint_nat)
  also have "signed_take_bit 31 (int (unat x)) = int (unat x)"
    using x by (intro signed_take_bit_int_eq_self) (simp_all del: of_nat_unat)
  finally show ?thesis .
qed

lemma plain_word_facts:
  assumes "unat (off :: u64) + unat (sz :: u64) < 2 ^ 32"
  shows "unat (off + sz) = unat off + unat sz" "unat (sz + off) = unat off + unat sz"
    "unat (ucast (off div 1024) :: u32) = unat off div BSIZE" "unat (ucast (off mod 1024) :: u32) = unat off mod BSIZE"
    "unat (ucast ((sz + off) div 1024) :: u32) = (unat off + unat sz) div BSIZE"
    "unat (ucast (off + sz) :: u32) = unat off + unat sz"
proof -
  show a: "unat (off + sz) = unat off + unat sz" using assms by (subst unat_add_lem [THEN iffD1]) simp_all
  then show b: "unat (sz + off) = unat off + unat sz" by (simp add: add.commute)
  show "unat (ucast (off div 1024) :: u32) = unat off div BSIZE" using assms by (intro unat_small_div) simp
  show "unat (ucast (off mod 1024) :: u32) = unat off mod BSIZE" by (rule unat_mod_1024)
  show "unat (ucast ((sz + off) div 1024) :: u32) = (unat off + unat sz) div BSIZE"
    using unat_small_div [of "sz + off"] assms b by simp
  show "unat (ucast (off + sz) :: u32) = unat off + unat sz"
    using assms a by (simp add: unsigned_ucast_eq take_bit_nat_eq_self)
qed

text \<open>The data blocks of a file, its indirect block and the block its inode lies in are all different.\<close>

definition separate :: "'a kfs_scheme \<Rightarrow> nat \<Rightarrow> bool" where
  "separate s k \<longleftrightarrow> (\<forall>i<ext2_inode_nblock (itable s ! k).
     file_blk s k i \<noteq> inode_blk s (i_inum (itable s ! k)) \<and> file_blk s k i \<noteq> i_block (itable s ! k) ! 12) \<and>
   inj_on (file_blk s k) {..<ext2_inode_nblock (itable s ! k)} \<and>
   i_block (itable s ! k) ! 12 \<noteq> inode_blk s (i_inum (itable s ! k))"

text \<open>A file at rest: in the inode table, with all its blocks, and room in the cache to work on it.\<close>

definition stored_file :: "nat \<Rightarrow> 'a kfs_scheme \<Rightarrow> nat \<Rightarrow> bool" where
  "stored_file me s k \<longleftrightarrow> cache_ready me s \<and> spare 2 (refs s) \<and> plain_file s k \<and> separate s k \<and>
     inode_fits s k \<and> k < length (itable s)"

lemma stored_fileD:
  assumes "stored_file me s k"
  shows "cache_ready me s" "spare 2 (refs s)" "plain_file s k" "separate s k" "inode_fits s k" "k < length (itable s)"
  using assms by (auto simp: stored_file_def)

text \<open>A source of bytes: a buffer of the caller that holds \<open>bs\<close>.\<close>

definition source :: "(nat \<Rightarrow> nat \<Rightarrow> 'a kfs_scheme \<Rightarrow> u8 list res) \<Rightarrow> u8 list \<Rightarrow> mem \<Rightarrow> bool" where
  "source src bs m \<longleftrightarrow> (\<forall>pos n t. mem t = m \<longrightarrow> pos + n \<le> length bs \<longrightarrow> src pos n t = Inr (take n (drop pos bs)))"

text \<open>
  A write of at most one block's size, inside the blocks the file has: the part of it that lies
  in the first block is stored, the rest is not, and the inode is written back.
\<close>

lemma w_inode_small:
  assumes st: "stored_file me s k"
    and off: "unat off \<le> unat (i_size (itable s ! k))" "unat off + unat sz < 2 ^ 32"
    and blocks: "(unat off + unat sz) div BSIZE \<le> ext2_inode_nblock (itable s ! k)"
      "unat off div BSIZE < ext2_inode_nblock (itable s ! k)"
    and sz: "unat sz \<le> BSIZE" "length bs = unat sz" and src: "source src bs (mem s)"
    and isz: "isz = max (unat (i_size (itable s ! k))) (unat off + unat sz)"
  shows "\<exists>t. ext2_w_inode src k off sz s = Inr (int (unat sz), t) \<and> cache_ready me t \<and> refs t = refs s \<and>
     itable t = (itable s)[k := (itable s ! k)\<lparr>i_size := of_nat isz\<rparr>] \<and>
     content t = (content s)(file_blk s k (unat off div BSIZE) :=
         put_bytes (unat off mod BSIZE) (take (BSIZE - unat off mod BSIZE) bs) (content s (file_blk s k (unat off div BSIZE))),
       inode_blk s (i_inum (itable s ! k)) :=
         raw_store (inode_off s (i_inum (itable s ! k))) ((itable s ! k)\<lparr>i_size := of_nat isz\<rparr>)
           (content s (inode_blk s (i_inum (itable s ! k)))))"
proof -
  note rd = stored_fileD(1) [OF st] and sp = stored_fileD(2) [OF st] and pf = stored_fileD(3) [OF st]
    and sep = stored_fileD(4) [OF st] and fit = stored_fileD(5) [OF st] and kl = stored_fileD(6) [OF st]
  let ?i = "itable s ! k" and ?nb = "ext2_inode_nblock (itable s ! k)" and ?q = "unat off div BSIZE"
  let ?o = "ucast (off mod 1024) :: u32"
  note w = plain_word_facts [OF off(2)]
  have bs0: "bsize (sb s) = 1024" using pf by (simp add: plain_file_def)
  have le: "\<not> ucast (i_size ?i) < off" using off(1) by (simp add: word_less_nat_alt)
  let ?s1 = "upd_inode k (\<lambda>i. i\<lparr>i_size := of_nat isz\<rparr>) s"
  have s1: "(if ucast (i_size ?i) < off + sz then upd_inode k (\<lambda>i. i\<lparr>i_size := ucast (off + sz)\<rparr>) s else s) = ?s1"
  proof (cases "ucast (i_size ?i) < off + sz")
    case True
    then have "isz = unat off + unat sz" using isz by (simp add: word_less_nat_alt w(1))
    then have "isz = unat (ucast (off + sz) :: u32)" using w(6) by simp
    then have "ucast (off + sz) = (of_nat isz :: u32)" by simp
    then show ?thesis using True by simp
  next
    case False
    then have "isz = unat (i_size ?i)" using isz by (simp add: word_less_nat_alt w(1))
    then have "of_nat isz = i_size ?i" by simp
    then have "upd_inode k (\<lambda>i. i\<lparr>i_size := of_nat isz\<rparr>) s = s" by (simp add: upd_inode_def)
    then show ?thesis using False by simp
  qed
  have it1: "itable ?s1 ! k = ?i\<lparr>i_size := of_nat isz\<rparr>" using kl by simp
  have nb1: "ext2_inode_nblock (itable ?s1 ! k) = ?nb" unfolding it1 by (simp add: ext2_inode_nblock_def)
  have fb1: "file_blk ?s1 k = file_blk s k" by (rule ext) (simp add: file_blk_def it1 del: upd_inode_simps(1))
  have mp1: "mapped_blk ?s1 k = mapped_blk s k"
    by (rule ext) (simp add: mapped_blk_def fb1 it1 del: upd_inode_simps(1))
  let ?r = "min ?nb ((unat off + unat sz) div BSIZE + 1) - ?q"
  let ?cp = "min (unat sz) (BSIZE - unat ?o)"
  have o1: "unat ?o = unat off mod BSIZE" by (rule w(4))
  have ol: "unat ?o < BSIZE" unfolding o1 by simp
  have tk: "take (BSIZE - unat ?o) bs = take ?cp bs" using sz(2) by (simp add: min_def)
  have src1: "src 0 ?cp t = Inr (take ?cp bs)" if "mem t = mem s" for t
    using src that sz(2) unfolding source_def by fastforce
  have lcp: "length (take ?cp bs) = ?cp" using sz(2) by simp
  let ?n = "file_blk s k ?q" and ?c1 = "(content s)(file_blk s k ?q :=
      put_bytes (unat ?o) (take ?cp bs) (content s (file_blk s k ?q)))"
  have mq: "mapped_blk s k ?q" using pf blocks(2) by (simp add: plain_file_def)
  have r: "?r = 1 \<or> ?r = 2"
  proof -
    have "(unat off + unat sz) div BSIZE \<le> ?q + 1" using sz(1) by linarith
    moreover have "?q \<le> (unat off + unat sz) div BSIZE" by (rule div_le_mono) simp
    moreover have "min n (b + 1) - a = 1 \<or> min n (b + 1) - a = 2" if "b \<le> a + 1" "a \<le> b" "a < n" for a b n :: nat
      using that by linarith
    ultimately show ?thesis using blocks(2) by blast
  qed
  obtain m where m: "?r = Suc m" "m = 0 \<or> m = 1" using r by force
  obtain u where u: "write_loop src k ?q (Suc m) sz ?o 0 ?s1 =
         write_loop src k (?q + 1) m (if 1024 < sz then sz - 1024 else 0) 0 (0 + length (take ?cp bs)) u"
      "cache_ready me u" "refs u = refs ?s1" "buf_frame ?s1 u" "content u = ?c1"
    using write_round [of me ?s1 ?o k ?q src 0 sz "take ?cp bs" m] rd sp bs0 ol mq mp1 fb1 src1 lcp by auto
  have nz: "(if 1024 < sz then sz - 1024 else 0) = 0" using sz(1) by (simp add: word_less_nat_alt not_less)
  have loop: "\<exists>v. write_loop src k ?q ?r sz ?o 0 ?s1 = Inr v \<and> cache_ready me v \<and> refs v = refs s \<and>
      buf_frame ?s1 v \<and> content v = ?c1"
  proof (cases "m = 0")
    case True
    then show ?thesis using m u by simp
  next
    case False
    then have m1: "m = Suc 0" and r2: "?r = 2" using m by auto
    then have q1: "?q + 1 < ?nb" by simp
    have fu: "itable u = itable ?s1" "sb u = sb s" "mem u = mem s" using buf_frame_kfs [OF u(4)] by auto
    have fb: "file_blk u k j = file_blk s k j" if "j < ?nb" for j
    proof -
      have "content u (i_block ?i ! 12) = content s (i_block ?i ! 12)"
        using sep blocks(2) unfolding u(5) separate_def by auto
      then show ?thesis using fb1 by (simp add: file_blk_def fu(1) it1 fun_eq_iff del: upd_inode_simps(1))
    qed
    have mp: "mapped_blk u k (?q + 1)"
    proof -
      have "mapped_blk s k (?q + 1)" using pf q1 unfolding plain_file_def by blast
      then show ?thesis unfolding mapped_blk_def fb [OF q1] fu(1) it1 by simp
    qed
    have srcu: "src (length (take ?cp bs)) (min (unat (0 :: u64)) (BSIZE - unat (0 :: u32))) t = Inr []" if "mem t = mem u" for t
      using src that sz(2) fu(3) unfolding source_def by fastforce
    obtain v where v: "write_loop src k (?q + 1) (Suc 0) 0 0 (length (take ?cp bs)) u =
         write_loop src k (?q + 1 + 1) 0 (if 1024 < (0 :: u64) then 0 - 1024 else 0) 0 (length (take ?cp bs) + length ([] :: u8 list)) v"
        "cache_ready me v" "refs v = refs u" "buf_frame u v"
        "content v = (content u)(file_blk u k (?q + 1) := put_bytes (unat (0 :: u32)) [] (content u (file_blk u k (?q + 1))))"
      using write_round [of me u 0 k "?q + 1" src "length (take ?cp bs)" 0 "[]" 0, OF u(2) _ _ _ mp srcu]
        sp u(3) fu(2) bs0 by auto
    have "content v = content u" unfolding v(5) by (simp add: put_bytes_def)
    then have "content v = ?c1" using u(5) by (rule trans)
    moreover have "buf_frame ?s1 v" by (rule buf_frame_trans [OF u(4) v(4)])
    ultimately show ?thesis using v(1-3) u(1,3) m1 nz m(1) by (auto simp del: write_loop.simps(2))
  qed
  then obtain v where v: "write_loop src k ?q ?r sz ?o 0 ?s1 = Inr v" "cache_ready me v" "refs v = refs s"
      "buf_frame ?s1 v" "content v = ?c1" by blast
  have fv: "itable v = itable ?s1" "sb v = sb s" using buf_frame_kfs [OF v(4)] by auto
  have inum: "i_inum (itable v ! k) = i_inum ?i" unfolding fv(1) it1 by simp
  have ib: "inode_blk v = inode_blk s" "inode_off v = inode_off s"
    by (simp_all add: inode_blk_def inode_off_def fv(2) fun_eq_iff)
  have fitv: "inode_fits v k" using fit inum ib by (simp add: inode_fits_def Let_def fv(1) kl)
  have "spare 1 (refs v)" using v(3) spare_mono [OF sp] by simp
  from inode_sync_ok [OF v(2) this fitv] obtain t where t: "inode_sync k v = Inr t" "cache_ready me t"
      "refs t = refs v" "buf_frame v t"
      "content t = (content v)(inode_blk s (i_inum ?i) := raw_store (inode_off s (i_inum ?i)) (itable v ! k)
         (content v (inode_blk s (i_inum ?i))))"
    unfolding inum ib by blast
  have "content v (inode_blk s (i_inum ?i)) = content s (inode_blk s (i_inum ?i))"
    using sep blocks(2) unfolding v(5) separate_def by auto
  then have ct: "content t = (content s)(?n := put_bytes (unat off mod BSIZE) (take (BSIZE - unat off mod BSIZE) bs) (content s ?n),
       inode_blk s (i_inum ?i) := raw_store (inode_off s (i_inum ?i)) (?i\<lparr>i_size := of_nat isz\<rparr>)
           (content s (inode_blk s (i_inum ?i))))"
    unfolding t(5) v(5) fv(1) it1 using tk unfolding o1 by simp
  have "itable t = (itable s)[k := ?i\<lparr>i_size := of_nat isz\<rparr>]" using buf_frame_kfs [OF t(4)] fv(1) by simp
  moreover have "ext2_w_inode src k off sz s = Inr (int (unat sz), t)"
  proof -
    have "sint (ucast sz :: u32) = int (unat sz)" using sz(1) by (intro sint_ucast_small) simp
    moreover have "\<not> ?nb < unat (ucast ((sz + off) div 1024) :: u32)" using blocks(1) w(5) by simp
    moreover have "rounds off sz 1024 ?nb = ?r" by (rule rounds_nat [OF off(2)])
    ultimately show ?thesis
      using le v(1) t(1) bs0 w(3) by (simp add: ext2_w_inode_def Let_def s1 nb1 del: upd_inode_simps(1))
  qed
  ultimately show ?thesis using t(2,3) v(3) ct by auto
qed

lemma unat_of_nat_u32: "n < 2 ^ 32 \<Longrightarrow> unat (of_nat n :: u32) = n"
  by (simp add: unsigned_of_nat take_bit_nat_eq_self)

lemma next_block: "(a :: nat) + (BSIZE - a mod BSIZE) = BSIZE * (a div BSIZE + 1)"
proof -
  have "p < B \<Longrightarrow> B * q + p + (B - p) = B * (q + 1)" for p q B :: nat by simp
  from this [of "a mod BSIZE" BSIZE "a div BSIZE"] show ?thesis
    unfolding mult_div_mod_eq by simp
qed

text \<open>Byte by byte.\<close>

lemma w_inode_bytes:
  assumes st: "stored_file me s k"
    and off: "unat off \<le> unat (i_size (itable s ! k))" "unat off + unat sz < 2 ^ 32"
    and blocks: "(unat off + unat sz) div BSIZE \<le> ext2_inode_nblock (itable s ! k)"
      "unat off div BSIZE < ext2_inode_nblock (itable s ! k)"
    and sz: "unat sz \<le> BSIZE" "length bs = unat sz" and src: "source src bs (mem s)"
  shows "\<exists>t. ext2_w_inode src k off sz s = Inr (int (unat sz), t) \<and> cache_ready me t \<and> refs t = refs s \<and>
     unat (i_size (itable t ! k)) = max (unat (i_size (itable s ! k))) (unat off + unat sz) \<and>
     (\<forall>x < BSIZE * ext2_inode_nblock (itable s ! k). file_byte t k x =
        (if unat off \<le> x \<and> x < unat off + min (unat sz) (BSIZE - unat off mod BSIZE)
         then bs ! (x - unat off) else file_byte s k x))"
proof -
  let ?i = "itable s ! k" and ?q = "unat off div BSIZE" and ?p = "unat off mod BSIZE"
  let ?nb = "ext2_inode_nblock ?i" and ?isz = "max (unat (i_size ?i)) (unat off + unat sz)"
  let ?n = "file_blk s k ?q" and ?bs = "take (BSIZE - ?p) bs" and ?ib = "inode_blk s (i_inum ?i)"
  from w_inode_small [OF st off blocks sz src refl] obtain t where t:
      "ext2_w_inode src k off sz s = Inr (int (unat sz), t)" "cache_ready me t" "refs t = refs s"
      "itable t = (itable s)[k := ?i\<lparr>i_size := of_nat ?isz\<rparr>]"
      "content t = (content s)(?n := put_bytes ?p ?bs (content s ?n),
         ?ib := raw_store (inode_off s (i_inum ?i)) (?i\<lparr>i_size := of_nat ?isz\<rparr>) (content s ?ib))"
    by blast
  have it: "itable t ! k = ?i\<lparr>i_size := of_nat ?isz\<rparr>" using t(4) stored_fileD(6) [OF st] by simp
  have "?isz < 2 ^ 32" using off(2) unsigned_less [of "i_size ?i"] by simp
  then have "unat (of_nat ?isz :: u32) = ?isz" by (rule unat_of_nat_u32)
  moreover have "i_size (itable t ! k) = of_nat ?isz" using it by simp
  ultimately have isz: "unat (i_size (itable t ! k)) = ?isz" by (simp only:)
  have sep: "file_blk s k j \<noteq> ?ib" "file_blk s k j \<noteq> i_block ?i ! 12" if "j < ?nb" for j
    using stored_fileD(4) [OF st] that unfolding separate_def by auto
  have inj: "file_blk s k j = ?n \<longleftrightarrow> j = ?q" if "j < ?nb" for j
    using stored_fileD(4) [OF st] that blocks(2) unfolding separate_def inj_on_def by auto
  have "content t (i_block ?i ! 12) = content s (i_block ?i ! 12)"
    using sep(2) [OF blocks(2)] stored_fileD(4) [OF st] unfolding t(5) separate_def by auto
  then have fb: "file_blk t k j = file_blk s k j" for j by (simp add: file_blk_def it)
  have ct: "content t (file_blk s k j) = (if j = ?q then put_bytes ?p ?bs (content s ?n) else content s (file_blk s k j))"
    if "j < ?nb" for j using sep(1) [OF that] inj [OF that] unfolding t(5) by auto
  have len: "length (content s ?n) = BSIZE" by (rule content_length [OF stored_fileD(1) [OF st]])
  have lb: "length ?bs = min (unat sz) (BSIZE - ?p)" using sz(2) by (simp add: min.commute)
  have byte: "file_byte t k x = (if unat off \<le> x \<and> x < unat off + min (unat sz) (BSIZE - ?p)
         then bs ! (x - unat off) else file_byte s k x)" if x: "x < BSIZE * ?nb" for x
  proof (cases "x div BSIZE = ?q")
    case True
    have m: "x = BSIZE * ?q + x mod BSIZE" using mult_div_mod_eq [of BSIZE x] True by simp
    have mo: "unat off = BSIZE * ?q + ?p" by simp
    have xl: "x mod BSIZE < BSIZE" "?p < BSIZE" by simp_all
    have c: "(unat off \<le> x \<and> x < unat off + min (unat sz) (BSIZE - ?p)) =
        (?p \<le> x mod BSIZE \<and> x mod BSIZE < ?p + min (unat sz) (BSIZE - ?p))" using m mo by linarith
    have d: "x - unat off = x mod BSIZE - ?p" using m mo by linarith
    have "file_byte t k x = put_bytes ?p ?bs (content s ?n) ! (x mod BSIZE)"
      using ct [of ?q] blocks(2) by (simp add: file_byte_def fb True)
    also have "\<dots> = (if ?p \<le> x mod BSIZE \<and> x mod BSIZE < ?p + length ?bs then ?bs ! (x mod BSIZE - ?p) else content s ?n ! (x mod BSIZE))"
      using xl by (intro nth_put_bytes) (unfold len lb, linarith+)
    also have "\<dots> = (if unat off \<le> x \<and> x < unat off + min (unat sz) (BSIZE - ?p)
         then bs ! (x - unat off) else file_byte s k x)"
      unfolding c d lb by (simp add: file_byte_def True)
    finally show ?thesis .
  next
    case False
    have "unat off < x \<longrightarrow> unat off + (BSIZE - ?p) \<le> x"
    proof
      assume "unat off < x"
      then have "?q + 1 \<le> x div BSIZE" using False div_le_mono [of "unat off" x BSIZE] by simp
      then have "BSIZE * (?q + 1) \<le> BSIZE * (x div BSIZE)" by simp
      moreover have "BSIZE * (x div BSIZE) \<le> x" by simp
      moreover have "unat off + (BSIZE - ?p) = BSIZE * (?q + 1)" by (rule next_block)
      ultimately show "unat off + (BSIZE - ?p) \<le> x" by linarith
    qed
    then have nc: "(unat off \<le> x \<and> x < unat off + min (unat sz) (BSIZE - ?p)) = False"
      using False by (cases "unat off = x") auto
    have "x div BSIZE < ?nb" using x by (simp add: less_mult_imp_div_less mult.commute)
    then show ?thesis unfolding nc using ct False by (simp add: file_byte_def fb)
  qed
  show ?thesis using t(1-3) isz byte by blast
qed

lemma file_bytes_split:
  assumes "r \<le> n" "length bs = n" "\<And>j. j < n \<Longrightarrow> file_byte t k (x + j) = (if j < r then bs ! j else file_byte s k (x + j))"
  shows "file_bytes t k x n = take r bs @ file_bytes s k (x + r) (n - r)"
  by (rule nth_equalityI) (use assms in \<open>auto simp: nth_append file_bytes_def\<close>)

section \<open>Properties\<close>

text \<open>
  C22. Reading a file whose blocks are all there copies to the caller's buffer the bytes of the file from the
  offset on, as many as are asked for and lie before the end of the file, whatever blocks they are in;
  the count is returned, and neither the disk nor the references to the cache change.
\<close>

theorem read_is_file_slice:
  assumes "cache_ready me s" "spare 2 (refs s)" "plain_file s k"
    and "unat off \<le> unat (i_size (itable s ! k))" "unat off + unat sz < 2 ^ 64"
    and "n = min (unat sz) (unat (i_size (itable s ! k)) - unat off)"
    and "put_user mmu a (file_bytes s k (unat off) n) [0..<n] (mem s) = (True, m')"
  shows "\<exists>t. ext2_read_inode (put_mem mmu a) k off sz s = Inr (int n, file_bytes s k (unat off) n, t) \<and>
     content t = content s \<and> refs t = refs s \<and> cache_ready me t \<and> mem t = m'"
proof -
  have "mem_eff mmu a 0 (file_bytes s k (unat off) n) (mem s) = Some m'"
    using assms(7) by (simp add: mem_eff_def)
  from user_sink.read_inode_ok [OF assms(1-6) this] show ?thesis by blast
qed

text \<open>
  C23. An inode that is written back is what is loaded from the disk afterwards: of another slot of the
  inode table only the number, the device and the reference count stay.
\<close>

theorem inode_disk_roundtrip:
  assumes "cache_ready me s" "spare 1 (refs s)" "inode_fits s k" "i_inum (itable s ! k) = inum"
  shows "\<exists>t. inode_sync k s = Inr t \<and> cache_ready me t \<and>
     raw_load (inode_off t inum) (content t (inode_blk t inum)) j =
       (itable s ! k)\<lparr>i_inum := i_inum j, i_major := i_major j, i_minor := i_minor j, i_ref := i_ref j\<rparr>"
proof -
  from inode_sync_ok [OF assms(1-3)] obtain t where t: "inode_sync k s = Inr t" "cache_ready me t" "buf_frame s t"
      "content t = (content s)(inode_blk s inum := raw_store (inode_off s inum) (itable s ! k) (content s (inode_blk s inum)))"
    unfolding assms(4) by blast
  have "sb t = sb s" using buf_frame_kfs [OF t(3)] by blast
  then have "inode_blk t inum = inode_blk s inum" "inode_off t inum = inode_off s inum"
    by (simp_all add: inode_blk_def inode_off_def)
  moreover have "length (i_block (itable s ! k)) = 15" "inode_off s inum + RAW_LEN \<le> length (content s (inode_blk s inum))"
    using assms(3,4) content_length [OF assms(1)] by (simp_all add: inode_fits_def Let_def)
  ultimately show ?thesis using t raw_load_store by simp
qed

text \<open>
  C24. A write that stays inside one block the file has stores the caller's bytes at the offset, leaves every
  other byte of the file as it was, extends the size and returns the number of bytes.
\<close>

theorem write_inside_block:
  assumes st: "stored_file me s k"
    and off: "unat off \<le> unat (i_size (itable s ! k))" "unat off mod BSIZE + unat sz \<le> BSIZE"
    and nb: "unat off div BSIZE < ext2_inode_nblock (itable s ! k)" "unat off + unat sz < 2 ^ 32"
    and src: "length bs = unat sz" "source src bs (mem s)"
  shows "\<exists>t. ext2_w_inode src k off sz s = Inr (int (unat sz), t) \<and> cache_ready me t \<and>
     unat (i_size (itable t ! k)) = max (unat (i_size (itable s ! k))) (unat off + unat sz) \<and>
     (\<forall>x < BSIZE * ext2_inode_nblock (itable s ! k). file_byte t k x =
        (if unat off \<le> x \<and> x < unat off + unat sz then bs ! (x - unat off) else file_byte s k x))"
proof -
  have "(unat off + unat sz) div BSIZE \<le> (unat off + (BSIZE - unat off mod BSIZE)) div BSIZE"
    using off(2) by (intro div_le_mono) linarith
  then have "(unat off + unat sz) div BSIZE \<le> unat off div BSIZE + 1" unfolding next_block by simp
  then have b: "(unat off + unat sz) div BSIZE \<le> ext2_inode_nblock (itable s ! k)" using nb(1) by linarith
  have m: "min (unat sz) (BSIZE - unat off mod BSIZE) = unat sz" using off(2) by linarith
  from w_inode_bytes [OF st off(1) nb(2) b nb(1) _ src] off(2) show ?thesis unfolding m by auto
qed

text \<open>
  C25. A write of at most a block's size that runs into the next block keeps only what fits into the first one:
  the bytes behind the block boundary are not stored, although the size is extended over them and the
  full count is returned. (\<open>size > bsize ? size - bsize : 0\<close> counts a whole block as written.)
\<close>

theorem write_across_blocks_truncated:
  assumes st: "stored_file me s k"
    and off: "unat off \<le> unat (i_size (itable s ! k))" "BSIZE < unat off mod BSIZE + unat sz" "unat sz \<le> BSIZE"
    and nb: "unat off div BSIZE + 1 < ext2_inode_nblock (itable s ! k)" "unat off + unat sz < 2 ^ 32"
    and src: "length bs = unat sz" "source src bs (mem s)"
  shows "\<exists>t. ext2_w_inode src k off sz s = Inr (int (unat sz), t) \<and>
     unat off + unat sz \<le> unat (i_size (itable t ! k)) \<and>
     file_bytes t k (unat off) (unat sz) =
       take (BSIZE - unat off mod BSIZE) bs @
       file_bytes s k (unat off + (BSIZE - unat off mod BSIZE)) (unat sz - (BSIZE - unat off mod BSIZE))"
proof -
  let ?r = "BSIZE - unat off mod BSIZE"
  have "(unat off + unat sz) div BSIZE \<le> (unat off + BSIZE) div BSIZE" using off(3) by (intro div_le_mono) simp
  then have b: "(unat off + unat sz) div BSIZE \<le> ext2_inode_nblock (itable s ! k)" "unat off div BSIZE < ext2_inode_nblock (itable s ! k)"
    using nb(1) by simp_all
  have m: "min (unat sz) ?r = ?r" "?r \<le> unat sz" using off(2) by linarith+
  from w_inode_bytes [OF st off(1) nb(2) b off(3) src] obtain t where t: "ext2_w_inode src k off sz s = Inr (int (unat sz), t)"
      "unat (i_size (itable t ! k)) = max (unat (i_size (itable s ! k))) (unat off + unat sz)"
      "\<forall>x < BSIZE * ext2_inode_nblock (itable s ! k). file_byte t k x =
        (if unat off \<le> x \<and> x < unat off + ?r then bs ! (x - unat off) else file_byte s k x)"
    unfolding m(1) by blast
  have inside: "unat off + unat sz \<le> BSIZE * ext2_inode_nblock (itable s ! k)"
  proof -
    have "unat off + unat sz \<le> unat off + ?r + BSIZE" using off(3) by linarith
    also have "\<dots> = BSIZE * (unat off div BSIZE + 2)" unfolding next_block by simp
    also have "\<dots> \<le> BSIZE * ext2_inode_nblock (itable s ! k)" using nb(1) by (intro mult_le_mono2) linarith
    finally show ?thesis .
  qed
  have byte: "file_byte t k (unat off + j) = (if j < ?r then bs ! j else file_byte s k (unat off + j))" if "j < unat sz" for j
  proof -
    obtain r where r: "r = ?r" by blast
    have "unat off + j < BSIZE * ext2_inode_nblock (itable s ! k)" using inside that by linarith
    then show ?thesis using t(3) unfolding r [symmetric] by simp
  qed
  have "file_bytes t k (unat off) (unat sz) = take ?r bs @ file_bytes s k (unat off + ?r) (unat sz - ?r)"
    by (rule file_bytes_split [OF m(2) src(1) byte])
  then show ?thesis using t(1,2) by auto
qed

text \<open>
  C26. Appending less than a block to a file that ends at the end of its last block (an empty file among them)
  stores nothing: no block is allocated, since the block to write has the number \<open>nblock\<close> and the file grows
  only when \<open>lastblk > nblock\<close>. The full count is returned, the size is extended, and reading the bytes
  back returns none.
\<close>

theorem append_at_block_end_lost:
  assumes rd: "cache_ready me s" "spare 1 (refs s)" and fit: "inode_fits s k" "k < length (itable s)" "bsize (sb s) = 1024"
    and off: "unat off = BSIZE * ext2_inode_nblock (itable s ! k)" "i_size (itable s ! k) = ucast off"
    and sz: "unat sz < BSIZE" "unat off + unat sz < 2 ^ 32"
  shows "\<exists>t. ext2_w_inode src k off sz s = Inr (int (unat sz), t) \<and>
     unat (i_size (itable t ! k)) = unat off + unat sz \<and>
     (\<forall>n. n \<noteq> inode_blk s (i_inum (itable s ! k)) \<longrightarrow> content t n = content s n) \<and>
     ext2_read_inode put k off sz t = Inr (0, [], t)"
proof -
  let ?i = "itable s ! k" and ?s1 = "upd_inode k (\<lambda>i. i\<lparr>i_size := ucast (off + sz)\<rparr>) s"
  let ?nb = "ext2_inode_nblock ?i"
  note w = plain_word_facts [OF sz(2)]
  have o32: "unat off < 2 ^ 32" using sz(2) by linarith
  then have isz: "unat (i_size ?i) = unat off"
    unfolding off(2) by (simp add: unsigned_ucast_eq take_bit_nat_eq_self)
  have q: "unat off div BSIZE = ?nb" "(unat off + unat sz) div BSIZE = ?nb" using off(1) sz(1) by simp_all
  have le: "\<not> ucast (i_size ?i) < off" by (simp add: word_less_nat_alt isz)
  have s1: "(if ucast (i_size ?i) < off + sz then ?s1 else s) = ?s1"
  proof (cases "ucast (i_size ?i) < off + sz")
    case False
    then have "unat sz = 0" by (simp add: word_less_nat_alt w(1) isz)
    then have "ucast (off + sz) = i_size ?i" using w(6) isz by (simp add: word_unat_eq_iff)
    then show ?thesis by (simp add: upd_inode_def)
  qed simp
  have i1: "itable ?s1 ! k = ?i\<lparr>i_size := ucast (off + sz)\<rparr>" using fit(2) by simp
  have nb1: "ext2_inode_nblock (itable ?s1 ! k) = ?nb" unfolding i1 by (simp add: ext2_inode_nblock_def)
  have "inode_fits ?s1 k"
    using fit(1) by (simp add: inode_fits_def Let_def inode_blk_def inode_off_def fit(2))
  moreover have "i_inum (itable ?s1 ! k) = i_inum ?i" unfolding i1 by simp
  moreover have "inode_blk ?s1 = inode_blk s" by (simp add: inode_blk_def fun_eq_iff)
  ultimately obtain t where t: "inode_sync k ?s1 = Inr t" "buf_frame ?s1 t"
      "\<forall>n. n \<noteq> inode_blk s (i_inum ?i) \<longrightarrow> content t n = content s n"
    using inode_sync_ok [of me ?s1 k] rd by auto
  have it: "itable t ! k = ?i\<lparr>i_size := ucast (off + sz)\<rparr>" "sb t = sb s" using buf_frame_kfs [OF t(2)] i1 by simp_all
  have r: "rounds off sz 1024 ?nb = 0" using rounds_nat [OF sz(2)] q by simp
  have "sint (ucast sz :: u32) = int (unat sz)" using sz(1) by (intro sint_ucast_small) simp
  moreover have "\<not> ?nb < unat (ucast ((sz + off) div 1024) :: u32)" using w(5) q by simp
  ultimately have "ext2_w_inode src k off sz s = Inr (int (unat sz), t)"
    using le t(1) fit(3) r by (simp add: ext2_w_inode_def Let_def s1 nb1 del: upd_inode_simps(1))
  moreover have "ext2_read_inode put k off sz t = Inr (0, [], t)"
  proof -
    have "unat (ucast (i_size (itable t ! k)) :: u64) = unat off + unat sz" unfolding it(1) using w(6) by simp
    then have c: "(ucast (i_size (itable t ! k)) :: u64) = off + sz" by (simp only: word_unat_eq_iff w(1))
    then have "\<not> ucast (i_size (itable t ! k)) < off" by (simp add: word_less_nat_alt w(1))
    moreover have "ext2_inode_nblock (itable t ! k) = ?nb" unfolding it(1) by (simp add: ext2_inode_nblock_def)
    ultimately show ?thesis using r fit(3) by (simp add: ext2_read_inode_def Let_def c it(2))
  qed
  moreover have "unat (i_size (itable t ! k)) = unat off + unat sz" using it(1) w(6) by simp
  ultimately show ?thesis using t(3) by blast
qed

section \<open>A file system with one file\<close>

text \<open>An empty disk, superblock with the inode table in block 5, and a file of blocks 10 and 11.\<close>

definition demo_fs :: "nat \<Rightarrow> kfs" where
  "demo_fs n = kbuf.extend (idle_cache (replicate NBUF zero_buf) blank)
     \<lparr>itable = [zero_inode\<lparr>i_inum := 2, i_ref := 1, i_mode := S_IFREG, i_size := 1024 * of_nat n, i_blocks := 2 * of_nat n,
        i_block := [10, 11, 0, 0, 0, 0, 0, 0, 0, 0, 0, 0, 0, 0, 0]\<rparr>],
      sb = \<lparr>inodes_count = 8, blocks_count = 64, first_data_block = 1, blocks_per_group = 64, inodes_per_group = 8,
        sb_mtime = 0, sb_wtime = 0, first_ino = 11, inode_size = 128, bsize = 1024, block_bitmap = 3, inode_bitmap = 4,
        inode_table = 5\<rparr>\<rparr>"

lemma demo_fs_simps [simp]:
  "itable (demo_fs n) ! 0 = zero_inode\<lparr>i_inum := 2, i_ref := 1, i_mode := S_IFREG, i_size := 1024 * of_nat n,
     i_blocks := 2 * of_nat n, i_block := [10, 11, 0, 0, 0, 0, 0, 0, 0, 0, 0, 0, 0, 0, 0]\<rparr>"
  "length (itable (demo_fs n)) = 1" "bsize (sb (demo_fs n)) = 1024" "inode_size (sb (demo_fs n)) = 128"
  "inode_table (sb (demo_fs n)) = 5" "content (demo_fs n) = (\<lambda>_. replicate BSIZE 0)"
  "refs (demo_fs n) = (\<lambda>_. 0)" "cache_ready 0 (demo_fs n)"
proof -
  let ?s = "idle_cache (replicate NBUF zero_buf) blank"
  note r = idle_cache_ready [of blank]
  have l: "\<And>n. length (blank n) = BSIZE" by (simp add: blank_def)
  have "refs (demo_fs n) = refs ?s"
    by (simp add: demo_fs_def kbuf.extend_def refs_def buf_holds_def fun_eq_iff cong: option.case_cong)
  then show "refs (demo_fs n) = (\<lambda>_. 0)" using r(2) [OF l] by (rule trans)
  have c: "content (demo_fs n) = content ?s" by (simp add: demo_fs_def kbuf.extend_def content_def fun_eq_iff)
  then show "content (demo_fs n) = (\<lambda>_. replicate BSIZE 0)" by (simp add: fun_eq_iff blank_def)
  show "cache_ready 0 (demo_fs n)"
    using r(1) [OF l] by (simp add: demo_fs_def kbuf.extend_def cache_ready_def cache_ok_def disk_ready_def queue_idle_def
        queue_ok_def caller_ok_def block_device_def lock_free_def buf_holds_def content_def cong: option.case_cong)
qed (simp_all add: demo_fs_def kbuf.extend_def)

lemma demo_file:
  assumes "n = 1 \<or> n = 2"
  shows "stored_file 0 (demo_fs n) 0" "ext2_inode_nblock (itable (demo_fs n) ! 0) = n"
    "unat (i_size (itable (demo_fs n) ! 0)) = BSIZE * n" "inode_fits (demo_fs n) 0" "spare 2 (refs (demo_fs n))"
    "plain_file (demo_fs n) 0"
proof -
  show nb: "ext2_inode_nblock (itable (demo_fs n) ! 0) = n" "unat (i_size (itable (demo_fs n) ! 0)) = BSIZE * n"
    using assms by (auto simp: ext2_inode_nblock_def)
  show sp: "spare 2 (refs (demo_fs n))" by (simp add: spare_def)
  have pos: "inode_blk (demo_fs n) 2 = 5" "inode_off (demo_fs n) 2 = 128"
    by (simp_all add: inode_blk_def inode_off_def inode_pos_def)
  show fit: "inode_fits (demo_fs n) 0" by (simp add: inode_fits_def pos)
  have fb: "file_blk (demo_fs n) 0 0 = 10" "file_blk (demo_fs n) 0 1 = 11" by (simp_all add: file_blk_def)
  have lt: "P 0 \<and> P 1 \<Longrightarrow> \<forall>i<n. P i" for P using assms by (auto simp: less_Suc_eq numeral_2_eq_2)
  show pf: "plain_file (demo_fs n) 0" unfolding plain_file_def nb
    by (intro conjI lt) (simp_all add: mapped_blk_def fb [unfolded One_nat_def])
  have "inj_on (file_blk (demo_fs n) 0) {..<n}"
    using assms fb by (auto simp: inj_on_def less_Suc_eq numeral_2_eq_2)
  moreover have "\<forall>i<n. file_blk (demo_fs n) 0 i \<noteq> 5 \<and> file_blk (demo_fs n) 0 i \<noteq> 0"
    by (intro lt) (simp add: fb [unfolded One_nat_def])
  ultimately have "separate (demo_fs n) 0" unfolding separate_def nb by (simp add: pos)
  then show "stored_file 0 (demo_fs n) 0" using sp pf fit by (simp add: stored_file_def)
qed

text \<open>A caller's buffer full of sevens.\<close>

definition sevens :: "nat \<Rightarrow> nat \<Rightarrow> 's \<Rightarrow> u8 list res" where
  "sevens pos n s = Inr (replicate n 7)"

lemma sevens_source: "source sevens (replicate n 7) m"
  by (auto simp: source_def sevens_def min_def)

theorem read_is_file_slice_witness:
  "\<exists>t. ext2_read_inode (put_mem Some 64) 0 1023 2 (demo_fs 2) = Inr (2, [0, 0], t) \<and> mem t 64 = 0"
proof -
  have fb: "file_bytes (demo_fs 2) 0 1023 2 = [0, 0]"
    by (simp add: file_bytes_def file_byte_def file_blk_def upt_rec)
  obtain m' where m': "put_user Some 64 [0, 0] [0..<2] (mem (demo_fs 2)) = (True, m')" "m' 64 = 0"
    by (simp add: upt_rec)
  have "\<exists>t. ext2_read_inode (put_mem Some 64) 0 1023 2 (demo_fs 2) =
       Inr (int 2, file_bytes (demo_fs 2) 0 (unat (1023 :: u64)) 2, t) \<and>
     content t = content (demo_fs 2) \<and> refs t = refs (demo_fs 2) \<and> cache_ready 0 t \<and> mem t = m'"
    by (rule read_is_file_slice) (use demo_file [of 2] fb m'(1) in simp_all)
  then show ?thesis using fb m'(2) by auto
qed

theorem inode_disk_roundtrip_witness:
  "\<exists>t. inode_sync 0 (demo_fs 2) = Inr t \<and>
     i_size (raw_load (inode_off t 2) (content t (inode_blk t 2)) zero_inode) = 2048"
proof -
  have "spare 1 (refs (demo_fs 2))" by (simp add: spare_def)
  from inode_disk_roundtrip [OF demo_fs_simps(8) this demo_file(4) [of 2], of 2 zero_inode] show ?thesis by auto
qed

theorem write_inside_block_witness:
  "\<exists>t. ext2_w_inode sevens 0 1020 4 (demo_fs 2) = Inr (4, t) \<and> file_byte t 0 1023 = 7"
proof -
  have "\<exists>t. ext2_w_inode sevens 0 1020 4 (demo_fs 2) = Inr (int (unat (4 :: u64)), t) \<and> cache_ready 0 t \<and>
     unat (i_size (itable t ! 0)) = max (unat (i_size (itable (demo_fs 2) ! 0))) (unat (1020 :: u64) + unat (4 :: u64)) \<and>
     (\<forall>x < BSIZE * ext2_inode_nblock (itable (demo_fs 2) ! 0). file_byte t 0 x =
        (if unat (1020 :: u64) \<le> x \<and> x < unat (1020 :: u64) + unat (4 :: u64)
         then replicate 4 7 ! (x - unat (1020 :: u64)) else file_byte (demo_fs 2) 0 x))"
    by (rule write_inside_block) (use demo_file [of 2] sevens_source in \<open>simp_all del: demo_fs_simps(1)\<close>)
  then obtain t where t: "ext2_w_inode sevens 0 1020 4 (demo_fs 2) = Inr (int (unat (4 :: u64)), t)"
     "\<forall>x < BSIZE * 2. file_byte t 0 x = (if 1020 \<le> x \<and> x < 1024
         then replicate 4 7 ! (x - 1020) else file_byte (demo_fs 2) 0 x)"
    using demo_file(2) [of 2] by (auto simp del: demo_fs_simps(1))
  have "file_byte t 0 1023 = replicate 4 7 ! 3" using t(2) by simp
  then show ?thesis using t(1) by simp
qed

theorem write_across_blocks_truncated_witness:
  "\<exists>t. ext2_w_inode sevens 0 1022 4 (demo_fs 2) = Inr (4, t) \<and> file_bytes t 0 1022 4 = [7, 7, 0, 0]"
proof -
  have "\<exists>t. ext2_w_inode sevens 0 1022 4 (demo_fs 2) = Inr (int (unat (4 :: u64)), t) \<and>
     unat (1022 :: u64) + unat (4 :: u64) \<le> unat (i_size (itable t ! 0)) \<and>
     file_bytes t 0 (unat (1022 :: u64)) (unat (4 :: u64)) =
       take (BSIZE - unat (1022 :: u64) mod BSIZE) (replicate 4 7) @
       file_bytes (demo_fs 2) 0 (unat (1022 :: u64) + (BSIZE - unat (1022 :: u64) mod BSIZE))
         (unat (4 :: u64) - (BSIZE - unat (1022 :: u64) mod BSIZE))"
    by (rule write_across_blocks_truncated) (use demo_file [of 2] sevens_source in \<open>simp_all del: demo_fs_simps(1)\<close>)
  moreover have "file_bytes (demo_fs 2) 0 1024 2 = [0, 0]"
    by (simp add: file_bytes_def file_byte_def file_blk_def upt_rec)
  moreover have "take 2 (replicate 4 7) = [7, 7 :: u8]" by (simp add: numeral_2_eq_2)
  ultimately show ?thesis by auto
qed

theorem append_at_block_end_lost_witness:
  "\<exists>t. ext2_w_inode sevens 0 1024 5 (demo_fs 1) = Inr (5, t) \<and> unat (i_size (itable t ! 0)) = 1029 \<and>
     ext2_read_inode put_local 0 1024 5 t = Inr (0, [], t)"
proof -
  have "\<exists>t. ext2_w_inode sevens 0 1024 5 (demo_fs 1) = Inr (int (unat (5 :: u64)), t) \<and>
     unat (i_size (itable t ! 0)) = unat (1024 :: u64) + unat (5 :: u64) \<and>
     (\<forall>n. n \<noteq> inode_blk (demo_fs 1) (i_inum (itable (demo_fs 1) ! 0)) \<longrightarrow> content t n = content (demo_fs 1) n) \<and>
     ext2_read_inode put_local 0 1024 5 t = Inr (0, [], t)"
  proof (rule append_at_block_end_lost [of 0])
    show "i_size (itable (demo_fs 1) ! 0) = ucast (1024 :: u64)" by simp
  qed (use demo_file [of 1] in \<open>simp_all add: spare_def del: demo_fs_simps(1)\<close>)
  then show ?thesis by auto
qed

end
