(* ===== verification/File.thy ===== *)
theory File
  imports Ext2_Files
begin

text \<open>
  kernel/file.c, kernel/cdev.c and the wrappers of kernel/fs.c: the table of open files, the
  descriptors of a process, and the system calls on files. A \<open>struct file *\<close> is an index in
  the file table; \<open>None\<close> is NULL. The bytes of a path are a list without the NUL. The table
  \<open>cdevsw\<close> of device routines is an argument, since its entries are functions on the state;
  \<open>mmu\<close> is what the hardware translates user addresses to.
\<close>

unbundle bit_operations_syntax

section \<open>State\<close>

abbreviation NFILE :: nat where "NFILE \<equiv> 128"
abbreviation NCDEV :: nat where "NCDEV \<equiv> 32"

record file_t =
  f_ref :: int
  f_ino :: "nat option"
  f_off :: u64
  f_readable :: bool
  f_writable :: bool

definition zero_file :: file_t where
  "zero_file = \<lparr>f_ref = 0, f_ino = None, f_off = 0, f_readable = False, f_writable = False\<rparr>"

record kfile = kfs +
  ftable :: "file_t list"

definition upd_file :: "nat \<Rightarrow> (file_t \<Rightarrow> file_t) \<Rightarrow> 'a kfile_scheme \<Rightarrow> 'a kfile_scheme" where
  "upd_file i f s = s\<lparr>ftable := (ftable s)[i := f (ftable s ! i)]\<rparr>"

definition set_ofile :: "nat \<Rightarrow> nat \<Rightarrow> nat option \<Rightarrow> 'a kproc_scheme \<Rightarrow> 'a kproc_scheme" where
  "set_ofile i fd f s = upd_proc i (\<lambda>p. p\<lparr>p_ofile := (p_ofile p)[fd := f]\<rparr>) s"

section \<open>The wrappers of fs.c\<close>

definition read_inode :: "(nat \<Rightarrow> u8 list \<Rightarrow> 'a kfs_scheme \<Rightarrow> 'a kfs_scheme res) \<Rightarrow> nat \<Rightarrow> u64 \<Rightarrow> u64 \<Rightarrow>
    'a kfs_scheme \<Rightarrow> (int \<times> u8 list \<times> 'a kfs_scheme) res" where
  "read_inode put k off sz s = ext2_read_inode put k off sz s"

definition write_inode :: "(nat \<Rightarrow> nat \<Rightarrow> 'a kfs_scheme \<Rightarrow> u8 list res) \<Rightarrow> nat \<Rightarrow> u64 \<Rightarrow> u64 \<Rightarrow>
    'a kfs_scheme \<Rightarrow> (int \<times> 'a kfs_scheme) res" where
  "write_inode src k off sz s = ext2_w_inode src k off sz s"

definition get_inode :: "u32 \<Rightarrow> 'a kfs_scheme \<Rightarrow> (nat option \<times> 'a kfs_scheme) res" where
  "get_inode inum s = ext2_get_inode inum s"

definition fs_mknod :: "u8 list \<Rightarrow> u16 \<Rightarrow> u32 \<Rightarrow> 'a kfs_scheme \<Rightarrow> (nat option \<times> 'a kfs_scheme) res" where
  "fs_mknod path mode dv s = ext2_mknod path mode dv s"

definition fs_mkdir :: "u8 list \<Rightarrow> 'a kfs_scheme \<Rightarrow> (nat option \<times> 'a kfs_scheme) res" where
  "fs_mkdir path s = ext2_mkdir path s"

definition path2inode :: "u8 list \<Rightarrow> 'a kfs_scheme \<Rightarrow> (nat option \<times> 'a kfs_scheme) res" where
  "path2inode path s = ext2_path2inode path s"

definition fs_init :: "'a kfs_scheme \<Rightarrow> 'a kfs_scheme res" where
  "fs_init s = ext2_init s"

section \<open>Character devices\<close>

text \<open>A routine takes the file, the user address and the size.\<close>

record 's cdev =
  cd_read :: "nat \<Rightarrow> u64 \<Rightarrow> u64 \<Rightarrow> 's \<Rightarrow> (int \<times> 's) res"
  cd_write :: "nat \<Rightarrow> u64 \<Rightarrow> u64 \<Rightarrow> 's \<Rightarrow> (int \<times> 's) res"

type_synonym 's cdevs = "'s cdev option list"

definition register_cdev :: "nat \<Rightarrow> 's cdev \<Rightarrow> 's cdevs \<Rightarrow> 's cdevs res" where
  "register_cdev major c sw = (if NCDEV \<le> major then Inl Fault else Inr (sw[major := Some c]))"

text \<open>\<open>cdevsw[major]\<close>; calling through a null entry is a fault.\<close>

definition cdev_of :: "'s cdevs \<Rightarrow> u32 \<Rightarrow> 's cdev res" where
  "cdev_of sw major =
     (if NCDEV \<le> unat major then Inl Fault
      else case sw ! unat major of None \<Rightarrow> Inl Fault | Some c \<Rightarrow> Inr c)"

section \<open>The file table\<close>

definition file_init :: "'a kfile_scheme \<Rightarrow> 'a kfile_scheme" where
  "file_init s = (lock_init FtableLk s)\<lparr>ftable := replicate NFILE zero_file\<rparr>"

definition alloc_file :: "'a kfile_scheme \<Rightarrow> (nat option \<times> 'a kfile_scheme) res" where
  "alloc_file s =
     bnd (acquire FtableLk s) (\<lambda>s.
       case scan (\<lambda>f. f_ref f = 0) (ftable s) of
         Some i \<Rightarrow> bnd (release FtableLk (upd_file i (\<lambda>f. f\<lparr>f_ref := 1\<rparr>) s)) (\<lambda>s. Inr (Some i, s))
       | None \<Rightarrow> bnd (release FtableLk s) (\<lambda>s. Inr (None, s)))"

definition fget :: "nat \<Rightarrow> i32 \<Rightarrow> 'a kproc_scheme \<Rightarrow> nat option" where
  "fget i fd s = (if NOFILE \<le> unat fd then None else p_ofile (procs s ! i) ! unat fd)"

definition allocfd :: "nat \<Rightarrow> 'a kproc_scheme \<Rightarrow> nat option" where
  "allocfd i s = scan (\<lambda>f. f = None) (p_ofile (procs s ! i))"

definition dup_file :: "nat \<Rightarrow> 'a kfile_scheme \<Rightarrow> 'a kfile_scheme res" where
  "dup_file f s =
     bnd (acquire FtableLk s) (\<lambda>s. release FtableLk (upd_file f (\<lambda>f. f\<lparr>f_ref := f_ref f + 1\<rparr>) s))"

definition read_file :: "'a kfile_scheme cdevs \<Rightarrow> (u64 \<Rightarrow> u64 option) \<Rightarrow> nat option \<Rightarrow> u64 \<Rightarrow> u64 \<Rightarrow>
    'a kfile_scheme \<Rightarrow> (int \<times> 'a kfile_scheme) res" where
  "read_file cdevsw mmu f buf sz s =
     (case f of None \<Rightarrow> Inr (-1, s)
      | Some i \<Rightarrow>
          if \<not> f_readable (ftable s ! i) then Inr (-1, s)
          else case f_ino (ftable s ! i) of None \<Rightarrow> Inr (-1, s)
          | Some k \<Rightarrow>
              let ft = i_mode (itable s ! k) AND S_IFMT in
              if ft = S_IFREG \<or> ft = S_IFDIR then
                bnd (read_inode (put_mem mmu buf) k (f_off (ftable s ! i)) sz s) (\<lambda>(n, _, s).
                  if n < 0 then Inr (-1, s)
                  else Inr (n, upd_file i (\<lambda>f. f\<lparr>f_off := f_off f + of_int n\<rparr>) s))
              else if ft = S_IFCHR then
                bnd (cdev_of cdevsw (i_major (itable s ! k))) (\<lambda>c. cd_read c i buf sz s)
              else Inl (Panic ''unknown ftype''))"

definition write_file :: "'a kfile_scheme cdevs \<Rightarrow> (u64 \<Rightarrow> u64 option) \<Rightarrow> nat option \<Rightarrow> u64 \<Rightarrow> u64 \<Rightarrow>
    'a kfile_scheme \<Rightarrow> (int \<times> 'a kfile_scheme) res" where
  "write_file cdevsw mmu f buf sz s =
     (case f of None \<Rightarrow> Inr (-1, s)
      | Some i \<Rightarrow>
          if \<not> f_writable (ftable s ! i) then Inr (-1, s)
          else case f_ino (ftable s ! i) of None \<Rightarrow> Inr (-1, s)
          | Some k \<Rightarrow>
              let ft = i_mode (itable s ! k) AND S_IFMT in
              if ft = S_IFREG \<or> ft = S_IFDIR then
                bnd (write_inode (src_mem mmu buf) k (f_off (ftable s ! i)) sz s) (\<lambda>(n, s).
                  if n < 0 then Inr (-1, s)
                  else Inr (n, upd_file i (\<lambda>f. f\<lparr>f_off := f_off f + of_int n\<rparr>) s))
              else if ft = S_IFCHR then
                bnd (cdev_of cdevsw (i_major (itable s ! k))) (\<lambda>c. cd_write c i buf sz s)
              else Inl (Panic ''unknown ftype''))"

section \<open>System calls on files\<close>

definition fd_read :: "'a kfile_scheme cdevs \<Rightarrow> (u64 \<Rightarrow> u64 option) \<Rightarrow> i32 \<Rightarrow> u64 \<Rightarrow> u64 \<Rightarrow>
    'a kfile_scheme \<Rightarrow> (int \<times> 'a kfile_scheme) res" where
  "fd_read cdevsw mmu fd buf sz s =
     bnd (myproc s) (\<lambda>p.
       case fget p fd s of None \<Rightarrow> Inr (-1, s) | Some f \<Rightarrow> read_file cdevsw mmu (Some f) buf sz s)"

definition fd_write :: "'a kfile_scheme cdevs \<Rightarrow> (u64 \<Rightarrow> u64 option) \<Rightarrow> i32 \<Rightarrow> u64 \<Rightarrow> u64 \<Rightarrow>
    'a kfile_scheme \<Rightarrow> (int \<times> 'a kfile_scheme) res" where
  "fd_write cdevsw mmu fd buf sz s =
     bnd (myproc s) (\<lambda>p.
       case fget p fd s of None \<Rightarrow> Inr (-1, s) | Some f \<Rightarrow> write_file cdevsw mmu (Some f) buf sz s)"

text \<open>
  \<open>struct stat\<close>; \<open>pad\<close> is what lies in its padding, bytes of the kernel stack that are never
  written, and \<open>st1\<close> is where the structure lies on that stack.
\<close>

definition stat_bytes :: "u8 list \<Rightarrow> u32 \<Rightarrow> inode \<Rightarrow> u8 list" where
  "stat_bytes pad bs i =
     le_list 4 (0 :: u32) @ le_list 4 (i_inum i) @ le_list 2 (i_mode i) @ pad @ le_list 4 (i_size i) @
     le_list 4 (ucast (i_links_count i) :: u32) @ le_list 4 bs"

definition fstat :: "(u64 \<Rightarrow> u64 option) \<Rightarrow> u64 \<Rightarrow> u8 list \<Rightarrow> i32 \<Rightarrow> u64 \<Rightarrow>
    'a kfile_scheme \<Rightarrow> (int \<times> 'a kfile_scheme) res" where
  "fstat mmu st1 pad fd st s =
     bnd (myproc s) (\<lambda>p.
       case fget p fd s of None \<Rightarrow> Inr (-1, s)
       | Some f \<Rightarrow>
           (case f_ino (ftable s ! f) of None \<Rightarrow> Inr (-1, s)
            | Some k \<Rightarrow> Inr (copyout mmu p st st1 (stat_bytes pad (bsize (sb s)) (itable s ! k)) s)))"

abbreviation O_RDONLY :: i32 where "O_RDONLY \<equiv> 0"
abbreviation O_WRONLY :: i32 where "O_WRONLY \<equiv> 1"
abbreviation O_RDWR :: i32 where "O_RDWR \<equiv> 2"
abbreviation O_ACCMODE :: i32 where "O_ACCMODE \<equiv> 3"
abbreviation O_DIRECTORY :: i32 where "O_DIRECTORY \<equiv> 0x4000"

definition set_access :: "i32 \<Rightarrow> file_t \<Rightarrow> file_t" where
  "set_access flags f =
     (let a = flags AND O_ACCMODE in
      if a = O_RDONLY then f\<lparr>f_readable := True\<rparr>
      else if a = O_WRONLY then f\<lparr>f_writable := True\<rparr>
      else if a = O_RDWR then f\<lparr>f_readable := True, f_writable := True\<rparr>
      else f)"

definition open_file :: "u8 list \<Rightarrow> i32 \<Rightarrow> 'a kfile_scheme \<Rightarrow> (int \<times> 'a kfile_scheme) res" where
  "open_file path flags s =
     bnd (path2inode path s) (\<lambda>(r, s).
       case r of None \<Rightarrow> Inr (-1, s)
       | Some k \<Rightarrow>
           bnd (alloc_file s) (\<lambda>(r, s).
             case r of None \<Rightarrow> Inr (-1, s)
             | Some f \<Rightarrow>
                 bnd (myproc s) (\<lambda>p.
                   let s = upd_file f (\<lambda>f. set_access flags (f\<lparr>f_ino := Some k, f_off := 0\<rparr>)) s in
                   if flags AND O_DIRECTORY \<noteq> 0 \<and> \<not> S_ISDIR (i_mode (itable s ! k)) then Inr (-1, s)
                   else case allocfd p s of None \<Rightarrow> Inr (-1, s)
                   | Some fd \<Rightarrow> Inr (int fd, set_ofile p fd (Some f) s))))"

definition close :: "i32 \<Rightarrow> 'a kfile_scheme \<Rightarrow> (int \<times> 'a kfile_scheme) res" where
  "close fd s =
     bnd (myproc s) (\<lambda>p.
       case fget p fd s of None \<Rightarrow> Inr (-1, s)
       | Some f \<Rightarrow>
           bnd (acquire FtableLk s) (\<lambda>s.
             if f_ref (ftable s ! f) = 0 then bnd (release FtableLk s) (\<lambda>s. Inr (-1, s))
             else
               let s = upd_file f (\<lambda>f. f\<lparr>f_ref := f_ref f - 1\<rparr>) s in
               bnd (release FtableLk s) (\<lambda>s.
                 if 0 < f_ref (ftable s ! f) then Inr (0, s)
                 else Inr (0, upd_file f (\<lambda>_. zero_file) (set_ofile p (unat fd) None s)))))"

definition mknod :: "u8 list \<Rightarrow> u16 \<Rightarrow> u32 \<Rightarrow> 'a kfs_scheme \<Rightarrow> (int \<times> 'a kfs_scheme) res" where
  "mknod path mode dv s =
     bnd (fs_mknod path mode dv s) (\<lambda>(r, s). case r of None \<Rightarrow> Inr (-1, s) | Some k \<Rightarrow> Inr (0, s))"

definition mkdir :: "u8 list \<Rightarrow> 'a kfs_scheme \<Rightarrow> (int \<times> 'a kfs_scheme) res" where
  "mkdir path s =
     bnd (fs_mkdir path s) (\<lambda>(r, s). case r of None \<Rightarrow> Inr (-1, s) | Some k \<Rightarrow> Inr (0, s))"

definition dup :: "i32 \<Rightarrow> 'a kfile_scheme \<Rightarrow> (int \<times> 'a kfile_scheme) res" where
  "dup fd s =
     bnd (myproc s) (\<lambda>p.
       case fget p fd s of None \<Rightarrow> Inr (-1, s)
       | Some f \<Rightarrow>
           (case allocfd p s of None \<Rightarrow> Inr (-1, s)
            | Some newfd \<Rightarrow> bnd (dup_file f s) (\<lambda>s. Inr (int newfd, set_ofile p newfd (Some f) s))))"

section \<open>Frame lemmas\<close>

lemma locked_kfile [simp]: "ftable (locked L s) = ftable s"
  by (simp add: locked_def set_lock_def pushcli_def Let_def)

lemma cli_mark_kfile [simp]: "ftable (cli_mark s) = ftable s"
  by (simp add: cli_mark_def)

lemma locked_upd_file: "upd_file i f (locked L s) = locked L (upd_file i f s)"
  by (simp add: upd_file_def locked_def set_lock_def pushcli_def Let_def)

lemma upd_file_simps [simp]:
  "ftable (upd_file i f s) = (ftable s)[i := f (ftable s ! i)]" "lock_free L (upd_file i f s) = lock_free L s"
  "procs (upd_file i f s) = procs s" "cur (upd_file i f s) = cur s" "itable (upd_file i f s) = itable s"
  "sb (upd_file i f s) = sb s" "mem (upd_file i f s) = mem s" "content (upd_file i f s) = content s"
  "refs (upd_file i f s) = refs s" "cache_ready me (upd_file i f s) = cache_ready me s"
  "fget p fd (upd_file i f s) = fget p fd s" "allocfd p (upd_file i f s) = allocfd p s"
  by (simp_all add: upd_file_def lock_free_def refs_def content_def buf_holds_def fun_eq_iff cache_ready_def
      cache_ok_def disk_ready_def queue_idle_def queue_ok_def caller_ok_def block_device_def fget_def allocfd_def
      cong: option.case_cong)

lemma set_ofile_simps [simp]:
  "ftable (set_ofile i fd f s) = ftable s" "cur (set_ofile i fd f s) = cur s" "itable (set_ofile i fd f s) = itable s"
  "lock_free L (set_ofile i fd f s) = lock_free L s"
  "length (procs (set_ofile i fd f s)) = length (procs s)"
  by (simp_all add: set_ofile_def upd_proc_def lock_free_def)

lemma fget_set_ofile:
  "i < length (procs s) \<Longrightarrow> length (p_ofile (procs s ! i)) = NOFILE \<Longrightarrow>
     fget i fd (set_ofile i k f s) = (if unat fd = k \<and> k < NOFILE then f else fget i fd s)"
  by (auto simp: fget_def set_ofile_def nth_list_update)

lemma fget_cong: "procs t = procs s \<Longrightarrow> fget i fd t = fget i fd s"
  by (simp add: fget_def)

lemma buf_frame_file: "buf_frame s t \<Longrightarrow> ftable t = ftable s"
  by (cases s; cases t) (simp add: buf_frame_def)

lemma file_view_cong:
  "itable t = itable s \<Longrightarrow> content t = content s \<Longrightarrow> sb t = sb s \<Longrightarrow> plain_file t k = plain_file s k"
  by (simp only: plain_file_def file_cong(2) [of t s])

section \<open>Reading and closing through a descriptor\<close>

text \<open>A descriptor open for reading on a regular file or a directory.\<close>

definition reads_file :: "'a kfile_scheme \<Rightarrow> nat \<Rightarrow> i32 \<Rightarrow> nat \<Rightarrow> nat \<Rightarrow> bool" where
  "reads_file s p fd f k \<longleftrightarrow> cur s = Some p \<and> fget p fd s = Some f \<and> f < length (ftable s) \<and>
     f_readable (ftable s ! f) \<and> f_ino (ftable s ! f) = Some k \<and>
     i_mode (itable s ! k) AND S_IFMT \<in> {S_IFREG, S_IFDIR}"

lemma fd_read_ok:
  assumes rd: "cache_ready me s" "spare 2 (refs s)" "plain_file s k" and f: "reads_file s p fd f k"
    and off: "unat (f_off (ftable s ! f)) \<le> unat (i_size (itable s ! k))" "unat (f_off (ftable s ! f)) + unat sz < 2 ^ 64"
    and n: "n = min (unat sz) (unat (i_size (itable s ! k)) - unat (f_off (ftable s ! f)))"
    and put: "put_user mmu buf (file_bytes s k (unat (f_off (ftable s ! f))) n) [0..<n] (mem s) = (True, m')"
  shows "\<exists>t. fd_read cdevsw mmu fd buf sz s = Inr (int n, t) \<and> cache_ready me t \<and> refs t = refs s \<and>
     content t = content s \<and> mem t = m' \<and> itable t = itable s \<and> sb t = sb s \<and> cur t = cur s \<and> procs t = procs s \<and>
     ftable t = (ftable s)[f := (ftable s ! f)\<lparr>f_off := f_off (ftable s ! f) + of_nat n\<rparr>]"
proof -
  let ?off = "f_off (ftable s ! f)"
  have "mem_eff mmu buf 0 (file_bytes s k (unat ?off) n) (mem s) = Some m'"
    using put by (simp add: mem_eff_def)
  from user_sink.read_inode_ok [OF rd off n this] obtain t where t:
      "ext2_read_inode (put_mem mmu buf) k ?off sz s = Inr (int n, file_bytes s k (unat ?off) n, t)"
      "cache_ready me t" "refs t = refs s" "content t = content s" "mem t = m'" "buf_frame (s\<lparr>mem := m'\<rparr>) t"
    by blast
  have fr: "itable t = itable s" "sb t = sb s" "cur t = cur s" "procs t = procs s" "ftable t = ftable s"
    using buf_frame_kfs [OF t(6)] buf_frame_file [OF t(6)] by simp_all
  let ?u = "upd_file f (\<lambda>f. f\<lparr>f_off := f_off f + of_int (int n)\<rparr>) t"
  have d: "cur s = Some p" "fget p fd s = Some f" "f_readable (ftable s ! f)" "f_ino (ftable s ! f) = Some k"
      "i_mode (itable s ! k) AND S_IFMT = S_IFREG \<or> i_mode (itable s ! k) AND S_IFMT = S_IFDIR"
    using f by (auto simp: reads_file_def)
  have "fd_read cdevsw mmu fd buf sz s = Inr (int n, ?u)"
  proof -
    have "fd_read cdevsw mmu fd buf sz s = read_file cdevsw mmu (Some f) buf sz s"
      unfolding fd_read_def myproc_def d(1) by (simp add: d(2))
    also have "\<dots> = bnd (read_inode (put_mem mmu buf) k ?off sz s) (\<lambda>(n, _, s).
        if n < 0 then Inr (-1, s) else Inr (n, upd_file f (\<lambda>f. f\<lparr>f_off := f_off f + of_int n\<rparr>) s))"
      unfolding read_file_def using d(3-5) by (simp only: option.case not_True_eq_False if_False Let_def if_True)
    also have "\<dots> = Inr (int n, ?u)" unfolding read_inode_def t(1) by simp
    finally show ?thesis .
  qed
  moreover have "ftable ?u = (ftable s)[f := (ftable s ! f)\<lparr>f_off := f_off (ftable s ! f) + of_nat n\<rparr>]"
    using fr(5) by simp
  moreover have "cache_ready me ?u" "refs ?u = refs s" "content ?u = content s" "mem ?u = m'" "itable ?u = itable s"
      "sb ?u = sb s" "cur ?u = cur s" "procs ?u = procs s"
    using t(2-5) fr by simp_all
  ultimately show ?thesis by blast
qed

lemma close_last:
  assumes "cur s = Some p" "fget p fd s = Some f" "f_ref (ftable s ! f) = 1" "f < length (ftable s)" "lock_free FtableLk s"
  shows "close fd s = Inr (0, upd_file f (\<lambda>_. zero_file) (set_ofile p (unat fd) None
           (cli_mark (upd_file f (\<lambda>f. f\<lparr>f_ref := 0\<rparr>) s))))"
  using assms by (simp add: close_def myproc_def locked_upd_file release_locked Let_def) (simp add: upd_file_def)

lemma close_shared:
  assumes "cur s = Some p" "fget p fd s = Some f" "1 < f_ref (ftable s ! f)" "f < length (ftable s)" "lock_free FtableLk s"
  shows "close fd s = Inr (0, cli_mark (upd_file f (\<lambda>f. f\<lparr>f_ref := f_ref f - 1\<rparr>) s))"
  using assms by (simp add: close_def myproc_def locked_upd_file release_locked Let_def)

text \<open>
  C27. Two reads through one descriptor deliver consecutive pieces of the file: each stores the bytes from the
  descriptor's offset on, up to the size asked for or the end of the file, returns their number and
  moves the offset behind them; the disk is unchanged.
\<close>

theorem reads_continue:
  assumes rd: "cache_ready me s" "spare 2 (refs s)" "plain_file s k" and f: "reads_file s p fd f k"
    and off: "off = unat (f_off (ftable s ! f))" "off \<le> unat (i_size (itable s ! k))"
      "off + unat sz1 < 2 ^ 64" "off + unat sz1 + unat sz2 < 2 ^ 64"
    and n1: "n1 = min (unat sz1) (unat (i_size (itable s ! k)) - off)"
    and n2: "n2 = min (unat sz2) (unat (i_size (itable s ! k)) - off - n1)"
    and m1: "put_user mmu buf1 (file_bytes s k off n1) [0..<n1] (mem s) = (True, m1)"
    and m2: "put_user mmu buf2 (file_bytes s k (off + n1) n2) [0..<n2] m1 = (True, m2)"
  shows "\<exists>t u. fd_read cdevsw mmu fd buf1 sz1 s = Inr (int n1, t) \<and> fd_read cdevsw mmu fd buf2 sz2 t = Inr (int n2, u) \<and>
     mem u = m2 \<and> unat (f_off (ftable u ! f)) = off + n1 + n2 \<and> content u = content s"
proof -
  from fd_read_ok [OF rd f _ _ n1 [unfolded off(1)]] off m1 obtain t where t:
      "fd_read cdevsw mmu fd buf1 sz1 s = Inr (int n1, t)" "cache_ready me t" "refs t = refs s" "content t = content s"
      "mem t = m1" "itable t = itable s" "sb t = sb s" "cur t = cur s" "procs t = procs s"
      "ftable t = (ftable s)[f := (ftable s ! f)\<lparr>f_off := f_off (ftable s ! f) + of_nat n1\<rparr>]"
    by blast
  have fl: "f < length (ftable s)" using f by (simp add: reads_file_def)
  have step: "unat (x + of_nat n) = unat x + n" if "unat x + n < 2 ^ 64" for x :: u64 and n
  proof -
    have "unat (of_nat n :: u64) = n" using that by (simp add: unsigned_of_nat take_bit_nat_eq_self)
    then show ?thesis using that by (subst unat_add_lem [THEN iffD1]) simp_all
  qed
  have n1le: "n1 \<le> unat sz1" "n2 \<le> unat sz2" "off + n1 \<le> unat (i_size (itable s ! k))" using n1 n2 off(2) by linarith+
  have o1: "unat (f_off (ftable t ! f)) = off + n1"
    unfolding t(10) off(1) using fl step [of "f_off (ftable s ! f)" n1] off(1,3) n1le(1) by simp
  have pf: "plain_file t k" using rd(3) file_view_cong [OF t(6,4,7)] by simp
  have rf: "reads_file t p fd f k"
    using f fl unfolding reads_file_def t(6,8,10) fget_cong [OF t(9)] by simp
  have "put_user mmu buf2 (file_bytes t k (unat (f_off (ftable t ! f))) n2) [0..<n2] (mem t) = (True, m2)"
    using m2 unfolding o1 t(5) file_cong(3) [OF t(6,4)] .
  moreover have "unat (f_off (ftable t ! f)) \<le> unat (i_size (itable t ! k))" "unat (f_off (ftable t ! f)) + unat sz2 < 2 ^ 64"
      "n2 = min (unat sz2) (unat (i_size (itable t ! k)) - unat (f_off (ftable t ! f)))"
    using n1le off(4) n2 unfolding o1 t(6) by simp_all
  ultimately obtain u where u: "fd_read cdevsw mmu fd buf2 sz2 t = Inr (int n2, u)" "content u = content t" "mem u = m2"
      "ftable u = (ftable t)[f := (ftable t ! f)\<lparr>f_off := f_off (ftable t ! f) + of_nat n2\<rparr>]"
    using fd_read_ok [OF t(2) _ pf rf] rd(2) unfolding t(3) by blast
  have "unat (f_off (ftable u ! f)) = off + n1 + n2"
    unfolding u(4) using fl step [of "f_off (ftable t ! f)" n2] o1 off(4) n1le t(10) by simp
  then show ?thesis using t(1) u(1,3) trans [OF u(2) t(4)] by blast
qed

text \<open>
  C28. Closing a descriptor whose file has another descriptor leaves it in place: closing it a second time
  succeeds too and clears the file although the other descriptor still names it. That descriptor then
  names a free entry of the file table, which the next \<open>alloc_file\<close> gives to another file.
\<close>

theorem double_close_dangles:
  assumes p: "cur s = Some p" "p < length (procs s)" "length (p_ofile (procs s ! p)) = NOFILE"
    and fd: "fget p fd s = Some f" "fget p fd2 s = Some f" "fd \<noteq> fd2"
    and f: "f < length (ftable s)" "f_ref (ftable s ! f) = 2" "\<forall>j<f. f_ref (ftable s ! j) \<noteq> 0"
    and lk: "lock_free FtableLk s"
  shows "\<exists>t u v. close fd s = Inr (0, t) \<and> close fd t = Inr (0, u) \<and>
     fget p fd2 u = Some f \<and> ftable u ! f = zero_file \<and> alloc_file u = Inr (Some f, v)"
proof -
  let ?t = "cli_mark (upd_file f (\<lambda>f. f\<lparr>f_ref := f_ref f - 1\<rparr>) s)"
  have t: "close fd s = Inr (0, ?t)" by (rule close_shared) (use p fd f lk in simp_all)
  have ft: "ftable ?t = (ftable s)[f := (ftable s ! f)\<lparr>f_ref := 1\<rparr>]" using f(2) by simp
  have pt: "procs ?t = procs s" "cur ?t = Some p" "lock_free FtableLk ?t" using p(1) lk by simp_all
  let ?u = "upd_file f (\<lambda>_. zero_file) (set_ofile p (unat fd) None (cli_mark (upd_file f (\<lambda>f. f\<lparr>f_ref := 0\<rparr>) ?t)))"
  have u: "close fd ?t = Inr (0, ?u)"
    by (rule close_last) (use pt fd f ft fget_cong [OF pt(1)] in simp_all)
  have ne: "unat fd2 \<noteq> unat fd" using fd(3) by (metis word_unat_eq_iff)
  have g: "fget p fd2 ?u = Some f"
    using ne fd(2) p(2,3) by (simp add: fget_set_ofile) (auto simp: fget_def split: if_splits)
  have z: "ftable ?u ! f = zero_file" using f(1) by simp
  have "scan (\<lambda>f. f_ref f = 0) (ftable ?u) = Some f"
    unfolding scan_Some_iff using f by (simp add: zero_file_def)
  then have "alloc_file ?u = Inr (Some f, cli_mark (upd_file f (\<lambda>f. f\<lparr>f_ref := 1\<rparr>) ?u))"
    using lk by (simp add: alloc_file_def locked_upd_file release_locked)
  then show ?thesis using t u g z by blast
qed

text \<open>The file system of Ext2_Files with one file open, twice or once.\<close>

definition demo_open :: "nat option list \<Rightarrow> int \<Rightarrow> u64 \<Rightarrow> kfile" where
  "demo_open ofs n off = kfs.extend (upd_proc 0 (\<lambda>p. p\<lparr>p_ofile := ofs\<rparr>) (demo_fs 2))
     \<lparr>ftable = [\<lparr>f_ref = n, f_ino = Some 0, f_off = off, f_readable = True, f_writable = False\<rparr>]\<rparr>"

lemma demo_open_simps [simp]:
  "itable (demo_open ofs n off) = itable (demo_fs 2)" "sb (demo_open ofs n off) = sb (demo_fs 2)"
  "content (demo_open ofs n off) = content (demo_fs 2)" "refs (demo_open ofs n off) = refs (demo_fs 2)"
  "cache_ready 0 (demo_open ofs n off)" "plain_file (demo_open ofs n off) k = plain_file (demo_fs 2) k"
  "file_bytes (demo_open ofs n off) = file_bytes (demo_fs 2)" "mem (demo_open ofs n off) = mem (demo_fs 2)"
  "ftable (demo_open ofs n off) = [\<lparr>f_ref = n, f_ino = Some 0, f_off = off, f_readable = True, f_writable = False\<rparr>]"
  "cur (demo_open ofs n off) = Some 0" "length (procs (demo_open ofs n off)) = 1"
  "p_ofile (procs (demo_open ofs n off) ! 0) = ofs" "lock_free L (demo_open ofs n off)"
proof -
  have c: "cur (demo_fs 2) = Some 0" "procs (demo_fs 2) = [runner]" "lock_free L (demo_fs 2)"
    by (simp_all add: demo_fs_def kbuf.extend_def idle_cache_def kdisk.extend_def idle_disk_def kproc.extend_def
        lock_free_def boot_kproc_def kmem.extend_def pool_state_def boot_mem_def)
  show eq: "itable (demo_open ofs n off) = itable (demo_fs 2)" "sb (demo_open ofs n off) = sb (demo_fs 2)"
    "content (demo_open ofs n off) = content (demo_fs 2)" "refs (demo_open ofs n off) = refs (demo_fs 2)"
    "mem (demo_open ofs n off) = mem (demo_fs 2)"
    by (simp_all add: demo_open_def kfs.extend_def upd_proc_def content_def refs_def buf_holds_def fun_eq_iff
        del: demo_fs_simps cong: option.case_cong)
  show "cache_ready 0 (demo_open ofs n off)"
    using demo_fs_simps(8) [of 2]
    by (simp add: demo_open_def kfs.extend_def upd_proc_def cache_ready_def cache_ok_def disk_ready_def queue_idle_def
        queue_ok_def caller_ok_def block_device_def lock_free_def buf_holds_def content_def c(2)
        del: demo_fs_simps cong: option.case_cong)
  show "plain_file (demo_open ofs n off) k = plain_file (demo_fs 2) k"
    unfolding plain_file_def mapped_blk_def file_blk_def eq ..
  show "file_bytes (demo_open ofs n off) = file_bytes (demo_fs 2)"
    unfolding file_bytes_def file_byte_def file_blk_def fun_eq_iff eq by blast
  show "cur (demo_open ofs n off) = Some 0" "length (procs (demo_open ofs n off)) = 1"
    "p_ofile (procs (demo_open ofs n off) ! 0) = ofs" "lock_free L (demo_open ofs n off)"
    using c by (simp_all add: demo_open_def kfs.extend_def upd_proc_def lock_free_def)
qed (simp add: demo_open_def kfs.extend_def)

theorem reads_continue_witness:
  "\<exists>t u. fd_read [] Some 0 64 1 (demo_open [Some 0] 1 1023) = Inr (1, t) \<and> fd_read [] Some 0 65 1 t = Inr (1, u) \<and>
     unat (f_off (ftable u ! 0)) = 1025"
proof -
  let ?s = "demo_open [Some 0] 1 1023"
  have fb: "file_bytes (demo_fs 2) 0 1023 (Suc 0) = [0]" "file_bytes (demo_fs 2) 0 1024 (Suc 0) = [0]"
    by (simp_all add: file_bytes_def file_byte_def file_blk_def upt_rec)
  obtain m1 where m1: "put_user Some 64 [0] [0..<1] (mem (demo_fs 2)) = (True, m1)" by (simp add: upt_rec)
  obtain m2 where m2: "put_user Some 65 [0] [0..<1] m1 = (True, m2)" by (simp add: upt_rec)
  have rf: "reads_file ?s 0 0 0 0" by (simp add: reads_file_def fget_def)
  have "\<exists>t u. fd_read [] Some 0 64 1 ?s = Inr (int 1, t) \<and> fd_read [] Some 0 65 1 t = Inr (int 1, u) \<and>
     mem u = m2 \<and> unat (f_off (ftable u ! 0)) = 1023 + 1 + 1 \<and> content u = content ?s"
    by (rule reads_continue [of 0, OF _ _ _ rf]) (use demo_file [of 2] fb m1 m2 in \<open>simp_all del: demo_fs_simps\<close>)
  then show ?thesis by auto
qed

theorem double_close_dangles_witness:
  "\<exists>t u v. close 0 (demo_open (replicate 16 (Some 0)) 2 0) = Inr (0, t) \<and> close 0 t = Inr (0, u) \<and>
     fget 0 1 u = Some 0 \<and> alloc_file u = Inr (Some 0, v)"
proof -
  have "\<exists>t u v. close 0 (demo_open (replicate 16 (Some 0)) 2 0) = Inr (0, t) \<and> close 0 t = Inr (0, u) \<and>
     fget 0 1 u = Some 0 \<and> ftable u ! 0 = zero_file \<and> alloc_file u = Inr (Some 0, v)"
    by (rule double_close_dangles) (simp_all add: fget_def)
  then show ?thesis by blast
qed

end
