(* ===== verification/Printk.thy ===== *)
theory Printk
  imports File
begin

text \<open>
  kernel/printk.c, the output half of kernel/console.c and the UART of kernel/driver/virt/uart.c. The UART is
  the list of bytes sent and the list of bytes received and not yet read; a full transmit queue
  drains by itself. The buffer of 8 * sizeof(num) + 1 bytes that a number is printed into appears as
  the room left in it.
\<close>

unbundle bit_operations_syntax

section \<open>The console's output\<close>

record kcons = kfile +
  tx :: "u8 list"                \<comment> \<open>sent\<close>
  rx :: "u8 list"                \<comment> \<open>received, not read\<close>
  readbuf :: u64                 \<comment> \<open>\<open>cons1.readbuf\<close>, 0 is NULL\<close>
  bufc :: u64
  bufsz :: u64

definition uart_putc :: "u8 \<Rightarrow> 'a kcons_scheme \<Rightarrow> 'a kcons_scheme" where
  "uart_putc c s = s\<lparr>tx := tx s @ [c]\<rparr>"

definition uart_getc :: "'a kcons_scheme \<Rightarrow> int \<times> 'a kcons_scheme" where
  "uart_getc s = (case rx s of [] \<Rightarrow> (-1, s) | c # cs \<Rightarrow> (uint c, s\<lparr>rx := cs\<rparr>))"

abbreviation BACKSPACE :: u8 where "BACKSPACE \<equiv> 127"

definition csputc :: "u8 \<Rightarrow> 'a kcons_scheme \<Rightarrow> 'a kcons_scheme" where
  "csputc c s = (if c = BACKSPACE then uart_putc 8 (uart_putc 32 (uart_putc 8 s)) else uart_putc c s)"

definition csputs :: "u8 list \<Rightarrow> 'a kcons_scheme \<Rightarrow> 'a kcons_scheme" where
  "csputs cs s = fold csputc cs s"

section \<open>Numbers\<close>

definition hexdigits :: "u8 list" where
  "hexdigits = [48, 49, 50, 51, 52, 53, 54, 55, 56, 57, 97, 98, 99, 100, 101, 102]"

text \<open>\<open>do *--cur = digit(unum % base) while(unum /= base)\<close> with \<open>room\<close> bytes before \<open>cur\<close>.\<close>

fun print_digits :: "'w::len word \<Rightarrow> nat \<Rightarrow> 'w word \<Rightarrow> u8 list \<Rightarrow> u8 list res" where
  "print_digits base 0 u acc = Inl Fault"
| "print_digits base (Suc room) u acc =
     (if 16 \<le> unat (u mod base) then Inl Fault
      else
        let acc = hexdigits ! unat (u mod base) # acc
        in if u div base = 0 then Inr acc else print_digits base room (u div base) acc)"

definition print_num :: "'w::len word \<Rightarrow> 'w word \<Rightarrow> bool \<Rightarrow> u8 list res" where
  "print_num num base signd =
     (let neg = signd \<and> num <s 0;
          unum = (if neg then (- (num + 1)) + 1 else num);
          room = LENGTH('w)
      in bnd (print_digits base room unum []) (\<lambda>ds.
           if neg then if room \<le> length ds then Inl Fault else Inr (45 # ds) else Inr ds))"

definition printiu32 :: "u32 \<Rightarrow> u32 \<Rightarrow> bool \<Rightarrow> u8 list res" where
  "printiu32 num base signd = print_num num base signd"

definition printiu64 :: "u64 \<Rightarrow> u64 \<Rightarrow> bool \<Rightarrow> u8 list res" where
  "printiu64 num base signd = print_num num base signd"

section \<open>Formats\<close>

text \<open>An argument: an integer or a pointer, or a string, which may be NULL.\<close>

datatype varg = VNum u64 | VStr "u8 list option"

definition null_string :: "u8 list" where
  "null_string = [40, 110, 117, 108, 108, 41]"        \<comment> \<open>\<open>(null)\<close>\<close>

text \<open>
  The characters \<open>vprintk\<close> sends. A format that ends in \<open>%\<close> makes the loop step over the NUL and read on
  behind the string; a missing argument is not there to be read.
\<close>

fun vformat :: "u8 list \<Rightarrow> varg list \<Rightarrow> u8 list res" where
  "vformat [] as = Inr []"
| "vformat [c] as = (if c = 37 then Inl Fault else Inr [c])"
| "vformat (c # d # fs) as =
     (if c \<noteq> 37 then bnd (vformat (d # fs) as) (\<lambda>r. Inr (c # r))
      else if d = 100 then
        (case as of VNum n # as \<Rightarrow> bnd (printiu32 (ucast n) 10 True) (\<lambda>ds. bnd (vformat fs as) (\<lambda>r. Inr (ds @ r))) | _ \<Rightarrow> Inl Fault)
      else if d = 117 then
        (case as of VNum n # as \<Rightarrow> bnd (printiu32 (ucast n) 10 False) (\<lambda>ds. bnd (vformat fs as) (\<lambda>r. Inr (ds @ r))) | _ \<Rightarrow> Inl Fault)
      else if d = 120 then
        (case as of VNum n # as \<Rightarrow> bnd (printiu64 n 16 False) (\<lambda>ds. bnd (vformat fs as) (\<lambda>r. Inr (ds @ r))) | _ \<Rightarrow> Inl Fault)
      else if d = 112 then
        (case as of VNum n # as \<Rightarrow> bnd (printiu64 n 16 False) (\<lambda>ds. bnd (vformat fs as) (\<lambda>r. Inr ([48, 120] @ ds @ r))) | _ \<Rightarrow> Inl Fault)
      else if d = 99 then
        (case as of VNum n # as \<Rightarrow> bnd (vformat fs as) (\<lambda>r. Inr (ucast n # r)) | _ \<Rightarrow> Inl Fault)
      else if d = 115 then
        (case as of VStr z # as \<Rightarrow> bnd (vformat fs as) (\<lambda>r. Inr ((case z of None \<Rightarrow> null_string | Some cs \<Rightarrow> cs) @ r)) | _ \<Rightarrow> Inl Fault)
      else if d = 37 then bnd (vformat fs as) (\<lambda>r. Inr (37 # r))
      else bnd (vformat fs as) (\<lambda>r. Inr (37 # d # r)))"

definition vprintk :: "u8 list \<Rightarrow> varg list \<Rightarrow> 'a kcons_scheme \<Rightarrow> 'a kcons_scheme res" where
  "vprintk fmt as s =
     bnd (acquire PrintkLk s) (\<lambda>s. bnd (vformat fmt as) (\<lambda>cs. release PrintkLk (csputs cs s)))"

definition printk :: "u8 list \<Rightarrow> varg list \<Rightarrow> 'a kcons_scheme \<Rightarrow> (int \<times> 'a kcons_scheme) res" where
  "printk fmt as s = bnd (vprintk fmt as s) (\<lambda>s. Inr (0, s))"

definition printk_init :: "'a kcons_scheme \<Rightarrow> 'a kcons_scheme" where
  "printk_init s = lock_init PrintkLk s"

section \<open>What is printed\<close>

text \<open>Reading a number back.\<close>

definition digit_val :: "u8 \<Rightarrow> nat" where
  "digit_val c = (if c < 97 then unat c - 48 else unat c - 87)"

definition digits_val :: "nat \<Rightarrow> u8 list \<Rightarrow> nat" where
  "digits_val b ds = foldl (\<lambda>v c. b * v + digit_val c) 0 ds"

lemma digit_val_hex: "d < 16 \<Longrightarrow> digit_val (hexdigits ! d) = d"
proof -
  have "\<forall>d<16. digit_val (hexdigits ! d) = d" by code_simp
  then show "d < 16 \<Longrightarrow> digit_val (hexdigits ! d) = d" by blast
qed

lemma digits_val_snoc: "digits_val b (ds @ [c]) = b * digits_val b ds + digit_val c"
  by (simp add: digits_val_def)

lemma print_digits_ok:
  assumes b: "2 \<le> unat (base :: 'w::len word)" "unat base \<le> 16" and u: "unat u < unat base ^ n" "0 < n" "n \<le> room"
  shows "\<exists>ds. print_digits base room u acc = Inr (ds @ acc) \<and> digits_val (unat base) ds = unat u \<and>
     ds \<noteq> [] \<and> length ds \<le> n \<and> set ds \<subseteq> set hexdigits"
  using u
proof (induction room arbitrary: u acc n)
  case 0
  then show ?case by simp
next
  case (Suc room)
  let ?b = "unat base" and ?h = "hexdigits ! unat (u mod base)"
  have m: "unat (u mod base) = unat u mod ?b" "unat (u div base) = unat u div ?b"
    by (simp_all add: unat_mod_distrib unat_div_distrib)
  have lt: "unat u mod ?b < 16" using b mod_less_divisor [of ?b "unat u"] by linarith
  have hv: "digit_val ?h = unat u mod ?b" unfolding m(1) by (rule digit_val_hex [OF lt])
  have hs: "?h \<in> set hexdigits" unfolding m(1) using lt by (intro nth_mem) (simp add: hexdigits_def)
  show ?case
  proof (cases "u div base = 0")
    case True
    then have "unat u div ?b = 0" using m(2) by simp
    then have "unat u mod ?b = unat u" using mult_div_mod_eq [of ?b "unat u"] by simp
    then have "digits_val ?b [?h] = unat u" using hv by (simp add: digits_val_def)
    then show ?thesis using True lt m(1) Suc.prems(2) hs by (intro exI [of _ "[?h]"]) simp
  next
    case False
    then have nz: "0 < unat u div ?b" using m(2) by (metis unat_gt_0)
    have "n \<noteq> 1"
    proof
      assume "n = 1"
      then show False using Suc.prems(1) nz by simp
    qed
    then obtain k where k: "n = Suc k" "0 < k" "k \<le> room" using Suc.prems(2,3) by (cases n) auto
    have "unat (u div base) < ?b ^ k"
      unfolding m(2) using Suc.prems(1) k(1) by (simp add: less_mult_imp_div_less mult.commute)
    from Suc.IH [OF this k(2,3), of "?h # acc"] obtain ds where ds:
        "print_digits base room (u div base) (?h # acc) = Inr (ds @ ?h # acc)"
        "digits_val ?b ds = unat (u div base)" "length ds \<le> k" "set ds \<subseteq> set hexdigits"
      by blast
    have "digits_val ?b (ds @ [?h]) = unat u"
      unfolding digits_val_snoc ds(2) m(2) hv by simp
    then show ?thesis using ds k(1) False lt m(1) hs by (intro exI [of _ "ds @ [?h]"]) simp
  qed
qed

text \<open>A number as a reader takes it.\<close>

definition read_num :: "nat \<Rightarrow> u8 list \<Rightarrow> int" where
  "read_num b ds = (if ds \<noteq> [] \<and> hd ds = 45 then - int (digits_val b (tl ds)) else int (digits_val b ds))"

lemma read_num_digits: "ds \<noteq> [] \<Longrightarrow> set ds \<subseteq> set hexdigits \<Longrightarrow> read_num b ds = int (digits_val b ds)"
  by (cases ds) (auto simp: read_num_def hexdigits_def)

lemma sint_nonneg: "0 \<le> sint w \<Longrightarrow> sint w = uint (w :: 'w::len word)"
proof -
  assume nn: "0 \<le> sint w"
  have "uint (word_of_int (sint w) :: 'w word) = sint w mod 2 ^ LENGTH('w)" by (rule uint_word_of_int)
  also have "\<dots> = sint w"
  proof (rule mod_pos_pos_trivial [OF nn])
    have "(2 :: int) ^ (LENGTH('w) - Suc 0) \<le> 2 ^ LENGTH('w)" by (intro power_increasing) simp_all
    then show "sint w < 2 ^ LENGTH('w)" by (rule order_less_le_trans [OF sint_less])
  qed
  finally show ?thesis by simp
qed

lemma print_num_ok:
  assumes b: "3 \<le> unat (base :: 'w::len word)" "unat base \<le> 16" and w: "1 < LENGTH('w)"
  shows "\<exists>ds. print_num num base sg = Inr ds \<and> read_num (unat base) ds = (if sg then sint num else uint num)"
proof -
  let ?b = "unat base"
  have two: "2 ^ k \<le> ?b ^ k" for k using b(1) by (intro power_mono) simp_all
  have lt: "unat u < ?b ^ LENGTH('w)" for u :: "'w word"
    by (rule order_less_le_trans [OF unsigned_less two])
  show ?thesis
  proof (cases "sg \<and> num <s 0")
    case False
    from print_digits_ok [OF _ b(2) lt [of num], of "LENGTH('w)" "[]"] b(1) obtain ds where ds:
        "print_digits base LENGTH('w) num [] = Inr ds" "digits_val ?b ds = unat num" "ds \<noteq> []" "set ds \<subseteq> set hexdigits"
      by auto
    have "(if sg then sint num else uint num) = int (unat num)"
      using False sint_nonneg [of num] by (auto simp: word_sless_alt not_less)
    moreover have "print_num num base sg = Inr ds"
      unfolding print_num_def Let_def if_not_P [OF False] ds(1) using False by simp
    ultimately show ?thesis using ds(2) read_num_digits [OF ds(3,4), of ?b] by simp
  next
    case True
    let ?u = "(- (num + 1)) + 1"
    have u: "?u = - num" by simp
    have neg: "sint num < 0" using True by (simp add: word_sless_alt)
    have lo: "- sint num \<le> 2 ^ (LENGTH('w) - Suc 0)" using sint_greater_eq [of num] by linarith
    have "uint (- num) = uint (word_of_int (- sint num) :: 'w word)" by simp
    also have "\<dots> = - sint num mod 2 ^ LENGTH('w)" by (rule uint_word_of_int)
    also have "\<dots> = - sint num"
    proof (rule mod_pos_pos_trivial)
      have "(2 :: int) ^ (LENGTH('w) - Suc 0) < 2 ^ LENGTH('w)" using w by (intro power_strict_increasing) simp_all
      then show "- sint num < 2 ^ LENGTH('w)" using lo by linarith
    qed (use neg in simp)
    finally have ui: "int (unat (- num)) = - sint num" by simp
    have "int (unat (- num)) \<le> int (2 ^ (LENGTH('w) - Suc 0))" using lo ui by simp
    then have "unat (- num) \<le> 2 ^ (LENGTH('w) - Suc 0)" by (simp only: of_nat_le_iff)
    also have "\<dots> < ?b ^ (LENGTH('w) - Suc 0)" using b(1) w by (intro power_strict_mono) simp_all
    finally have lt1: "unat (- num) < ?b ^ (LENGTH('w) - Suc 0)" .
    from print_digits_ok [OF _ b(2) lt1, of "LENGTH('w)" "[]"] b(1) w obtain ds where ds:
        "print_digits base LENGTH('w) (- num) [] = Inr ds" "digits_val ?b ds = unat (- num)" "length ds \<le> LENGTH('w) - Suc 0"
      by auto
    have "length ds < LENGTH('w)" using ds(3) w by linarith
    then have "print_num num base sg = Inr (45 # ds)"
      unfolding print_num_def Let_def u using True ds(1) by simp
    moreover have "read_num ?b (45 # ds) = sint num" using ds(2) ui by (simp add: read_num_def)
    ultimately show ?thesis using True by simp
  qed
qed

text \<open>
  C29. The number that \<open>printk\<close> prints in base 10 or 16 reads back as the value, signed or unsigned, the
  smallest negative one included, and it fits into the buffer.
\<close>

theorem printed_number_reads_back:
  assumes "base = 10 \<or> base = 16"
  shows "(\<exists>ds. printiu32 num (of_nat base) sg = Inr ds \<and> read_num base ds = (if sg then sint num else uint num)) \<and>
     (\<exists>ds. printiu64 num' (of_nat base) sg = Inr ds \<and> read_num base ds = (if sg then sint num' else uint num'))"
proof -
  have "unat (of_nat base :: u32) = base" "unat (of_nat base :: u64) = base" using assms by auto
  then show ?thesis
    using assms print_num_ok [of "of_nat base :: u32" num sg] print_num_ok [of "of_nat base :: u64" num' sg]
    by (auto simp: printiu32_def printiu64_def)
qed

theorem printed_number_reads_back_witness:
  "\<exists>ds. printiu32 0x80000000 (of_nat 10) True = Inr ds \<and> read_num 10 ds = - 2147483648"
proof -
  have "sint (0x80000000 :: u32) = - 2147483648" by code_simp
  then show ?thesis using printed_number_reads_back [of 10 "0x80000000" True 0] by simp
qed

end
