(* ===== verification/Ulib.thy ===== *)
theory Ulib
  imports Printk Umalloc
begin

text \<open>
  usr/ulib.c, the C library of user programs, and the command parser of usr/sh.c. Strings are in the
  program's memory; \<open>strtok\<close> keeps its place in a static pointer, \<open>tk_save\<close>. What printf sends is the list of the
  byte strings it passes to write, in order.
\<close>

unbundle bit_operations_syntax

section \<open>Memory and strings\<close>

partial_function (option) ustrlen_loop :: "mem \<Rightarrow> u64 \<Rightarrow> u64 \<Rightarrow> u64 option" where
  "ustrlen_loop m s i = (if m s = 0 then Some i else ustrlen_loop m (s + 1) (i + 1))"

definition ustrlen :: "mem \<Rightarrow> u64 \<Rightarrow> u64 option" where
  "ustrlen m s = ustrlen_loop m s 0"

partial_function (option) ustrcmp :: "mem \<Rightarrow> u64 \<Rightarrow> u64 \<Rightarrow> int option" where
  "ustrcmp m s1 s2 =
     (if m s1 \<noteq> 0 \<and> m s1 = m s2 then ustrcmp m (s1 + 1) (s2 + 1)
      else Some (if m s2 < m s1 then 1 else if m s1 = m s2 then 0 else - 1))"

fun umemset_loop :: "mem \<Rightarrow> u64 \<Rightarrow> u8 \<Rightarrow> nat \<Rightarrow> mem" where
  "umemset_loop m d c 0 = m"
| "umemset_loop m d c (Suc n) = umemset_loop (m(d := c)) (d + 1) c n"

definition umemset :: "mem \<Rightarrow> u64 \<Rightarrow> u32 \<Rightarrow> u64 \<Rightarrow> mem" where
  "umemset m dst c n = umemset_loop m dst (ucast c) (unat n)"

fun umove_up :: "mem \<Rightarrow> u64 \<Rightarrow> u64 \<Rightarrow> nat \<Rightarrow> mem" where
  "umove_up m d s 0 = m"
| "umove_up m d s (Suc n) = umove_up (m(d := m s)) (d + 1) (s + 1) n"

fun umove_down :: "mem \<Rightarrow> u64 \<Rightarrow> u64 \<Rightarrow> nat \<Rightarrow> mem" where
  "umove_down m d s 0 = m"
| "umove_down m d s (Suc n) = umove_down (m(d - 1 := m (s - 1))) (d - 1) (s - 1) n"

definition umemmove :: "mem \<Rightarrow> u64 \<Rightarrow> u64 \<Rightarrow> u64 \<Rightarrow> mem" where
  "umemmove m dst src n =
     (if dst < src then umove_up m dst src (unat n) else umove_down m (dst + n) (src + n) (unat n))"

definition umemcpy :: "mem \<Rightarrow> u64 \<Rightarrow> u64 \<Rightarrow> u64 \<Rightarrow> mem" where
  "umemcpy m dst src n = umemmove m dst src n"

partial_function (option) ustrcpy :: "mem \<Rightarrow> u64 \<Rightarrow> u64 \<Rightarrow> mem option" where
  "ustrcpy m dst src =
     (let m' = m(dst := m src) in if m src = 0 then Some m' else ustrcpy m' (dst + 1) (src + 1))"

text \<open>\<open>Some 0\<close> is NULL; \<open>None\<close> a search that never ends.\<close>

partial_function (option) strchr :: "mem \<Rightarrow> u64 \<Rightarrow> u8 \<Rightarrow> u64 option" where
  "strchr m s c = (if m s = 0 then Some 0 else if m s = c then Some s else strchr m (s + 1) c)"

partial_function (option) strtok_loop :: "mem \<Rightarrow> u64 \<Rightarrow> u64 \<Rightarrow> u64 option" where
  "strtok_loop m s2 p =
     (if m p = 0 then Some 0
      else case strchr m s2 (m p) of None \<Rightarrow> None
        | Some q \<Rightarrow> if q \<noteq> 0 then Some p else strtok_loop m s2 (p + 1))"

record utok =
  tk_mem :: mem
  tk_save :: u64

definition strtok :: "u64 \<Rightarrow> u64 \<Rightarrow> utok \<Rightarrow> (u64 \<times> utok) option" where
  "strtok s1 s2 s =
     (let s = (if s1 \<noteq> 0 then s\<lparr>tk_save := s1\<rparr> else s); p = tk_save s in
      case strtok_loop (tk_mem s) s2 p of None \<Rightarrow> None
      | Some d \<Rightarrow>
          if d = 0 then Some (0, s)
          else Some (p, s\<lparr>tk_mem := (tk_mem s)(d := 0), tk_save := d + 1\<rparr>))"

section \<open>Output\<close>

definition uprintiu32 :: "u32 \<Rightarrow> u32 \<Rightarrow> bool \<Rightarrow> u8 list res" where
  "uprintiu32 num base signd = print_num num base signd"

definition uprintiu64 :: "u64 \<Rightarrow> u64 \<Rightarrow> bool \<Rightarrow> u8 list res" where
  "uprintiu64 num base signd = print_num num base signd"

text \<open>\<open>puts\<close> and \<open>printx\<close>: the strings written.\<close>

definition puts :: "u8 list \<Rightarrow> u8 list list" where
  "puts s = [s, [10]]"

definition printx :: "u64 \<Rightarrow> u8 list list res" where
  "printx n = bnd (uprintiu64 n 16 True) (\<lambda>ds. Inr [ds])"

fun uprintf :: "u8 list \<Rightarrow> varg list \<Rightarrow> u8 list list res" where
  "uprintf [] as = Inr []"
| "uprintf [c] as = (if c = 37 then Inl Fault else Inr [[c]])"
| "uprintf (c # d # fs) as =
     (if c \<noteq> 37 then bnd (uprintf (d # fs) as) (\<lambda>r. Inr ([c] # r))
      else if d = 100 then
        (case as of VNum n # as \<Rightarrow> bnd (uprintiu32 (ucast n) 10 True) (\<lambda>ds. bnd (uprintf fs as) (\<lambda>r. Inr (ds # r))) | _ \<Rightarrow> Inl Fault)
      else if d = 117 then
        (case as of VNum n # as \<Rightarrow> bnd (uprintiu32 (ucast n) 10 False) (\<lambda>ds. bnd (uprintf fs as) (\<lambda>r. Inr (ds # r))) | _ \<Rightarrow> Inl Fault)
      else if d = 120 then
        (case as of VNum n # as \<Rightarrow> bnd (uprintiu64 n 16 False) (\<lambda>ds. bnd (uprintf fs as) (\<lambda>r. Inr (ds # r))) | _ \<Rightarrow> Inl Fault)
      else if d = 112 then
        (case as of VNum n # as \<Rightarrow> bnd (uprintiu64 n 16 False) (\<lambda>ds. bnd (uprintf fs as) (\<lambda>r. Inr ([48, 120] # ds # r))) | _ \<Rightarrow> Inl Fault)
      else if d = 99 then
        (case as of VNum n # as \<Rightarrow> bnd (uprintf fs as) (\<lambda>r. Inr ([ucast n] # r)) | _ \<Rightarrow> Inl Fault)
      else if d = 115 then
        (case as of VStr z # as \<Rightarrow> bnd (uprintf fs as) (\<lambda>r. Inr ((case z of None \<Rightarrow> null_string | Some cs \<Rightarrow> cs) # r)) | _ \<Rightarrow> Inl Fault)
      else if d = 37 then bnd (uprintf fs as) (\<lambda>r. Inr ([37] # r))
      else bnd (uprintf fs as) (\<lambda>r. Inr ([37] # [d] # r)))"

section \<open>The parser of the shell\<close>

text \<open>
  \<open>argv\<close> has eight entries; storing behind them is out of bounds. \<open>ws\<close> is the address of the string constant of the
  separators. A loop that never ends is \<open>Runaway\<close>.
\<close>

abbreviation NARG :: nat where "NARG \<equiv> 8"

definition ends :: "'a option \<Rightarrow> 'a res" where
  "ends r = (case r of None \<Rightarrow> Inl Runaway | Some x \<Rightarrow> Inr x)"

partial_function (option) skip_seps :: "mem \<Rightarrow> u64 \<Rightarrow> u64 \<Rightarrow> u64 option" where
  "skip_seps m ws cmd =
     (case strchr m ws (m cmd) of None \<Rightarrow> None
      | Some q \<Rightarrow> if q \<noteq> 0 then skip_seps m ws (cmd + 1) else Some cmd)"

text \<open>The second loop of \<open>parse\<close>: \<open>k\<close> more entries fit.\<close>

fun parse_rest :: "nat \<Rightarrow> u64 \<Rightarrow> u64 list \<Rightarrow> utok \<Rightarrow> (u64 list \<times> utok) res" where
  "parse_rest k ws argv s =
     bnd (ends (strtok 0 ws s)) (\<lambda>(tok, s).
       if tok = 0 then (if k = 0 then Inl Fault else Inr (argv, s))
       else case k of 0 \<Rightarrow> Inl Fault | Suc k \<Rightarrow> parse_rest k ws (argv @ [tok]) s)"

definition parse :: "u64 \<Rightarrow> u64 \<Rightarrow> utok \<Rightarrow> (int \<times> u64 list \<times> utok) res" where
  "parse ws cmd s =
     bnd (ends (skip_seps (tk_mem s) ws cmd)) (\<lambda>cmd.
     bnd (ends (strtok cmd ws s)) (\<lambda>(tok, s).
     bnd (parse_rest (NARG - 1) ws [tok] s) (\<lambda>(argv, s).
       Inr (if hd argv = 0 then -1 else int (length argv), argv, s))))"

section \<open>The two string libraries agree\<close>

lemma ulib_loops:
  "umemset_loop m d c n = memset_loop m d c n" "umove_up m d s n = copy_up m d s n"
  "umove_down m d s n = copy_down m d s n"
  by (induction n arbitrary: m d s) simp_all

lemma ulib_mem: "umemset = memset" "umemmove = memmove" "umemcpy = memcpy"
  by (simp_all add: fun_eq_iff umemset_def memset_def umemmove_def memmove_def umemcpy_def memcpy_def ulib_loops)

lemma ustrlen_cstr: "cstr m a xs \<Longrightarrow> ustrlen m a = Some (of_nat (length xs))"
proof -
  have "cstr m a xs \<Longrightarrow> ustrlen_loop m a i = Some (i + of_nat (length xs))" for i
  proof (induction xs arbitrary: a i)
    case Nil
    then show ?case by (simp add: ustrlen_loop.simps)
  next
    case (Cons x xs)
    then show ?case by (subst ustrlen_loop.simps) (auto simp: algebra_simps)
  qed
  then show "cstr m a xs \<Longrightarrow> ustrlen m a = Some (of_nat (length xs))" by (simp add: ustrlen_def)
qed

text \<open>The strcmp of programs returns the sign of what the kernel's returns.\<close>

lemma ustrcmp_cstr:
  "cstr m a xs \<Longrightarrow> cstr m b ys \<Longrightarrow> ustrcmp m a b = Some (sgn (str_diff xs ys))"
proof (induction xs ys arbitrary: a b rule: str_diff.induct)
  case 1
  then show ?case by (subst ustrcmp.simps) simp
next
  case (2 y ys)
  then show ?case by (subst ustrcmp.simps) (auto simp: sgn_if word_less_def word_uint_eq_iff)
next
  case (3 x xs)
  then show ?case by (subst ustrcmp.simps) (auto simp: sgn_if word_less_def word_uint_eq_iff)
next
  case (4 x xs y ys)
  then show ?case by (subst ustrcmp.simps) (auto simp: sgn_if word_less_def word_uint_eq_iff)
qed

text \<open>printf writes, piece by piece, what the printk of the kernel sends.\<close>

lemma concat_through:
  assumes "bnd m (\<lambda>r. Inr (concat r)) = n"
  shows "bnd m (\<lambda>x. Inr (g (concat x))) = bnd n (\<lambda>r. Inr (g r))"
  using assms [symmetric] by (cases m) auto

lemma uprintf_vformat: "bnd (uprintf fmt as) (\<lambda>r. Inr (concat r)) = vformat fmt as"
proof (induction fmt arbitrary: as rule: induct_list012)
  case (3 c d fs)
  note * = concat_through [OF 3(1)]
  note i = * [of _ "\<lambda>r. ds @ r" for ds] * [of _ "\<lambda>r. x # r" for x] * [of _ "\<lambda>r. x # y # r" for x y]
    * [of _ "\<lambda>r. x # y # ds @ r" for x y ds] concat_through [OF 3(2), of _ "\<lambda>r. x # r" for x]
  show ?case
    by (cases "as"; cases "hd as")
      (simp_all add: bnd_assoc uprintiu32_def uprintiu64_def printiu32_def printiu64_def i)
qed simp_all

section \<open>Strings in memory\<close>

fun tape :: "mem \<Rightarrow> u64 \<Rightarrow> u8 list \<Rightarrow> bool" where
  "tape m a [] \<longleftrightarrow> True"
| "tape m a (x # xs) \<longleftrightarrow> m a = x \<and> tape m (a + 1) xs"

lemma cstr_append: "cstr m a (xs @ ys) \<longleftrightarrow> tape m a xs \<and> 0 \<notin> set xs \<and> cstr m (a + of_nat (length xs)) ys"
  by (induction xs arbitrary: a) (auto simp: algebra_simps)

lemma cstr_cong:
  assumes "cstr m a xs" "unat a + length xs < 2 ^ 64"
    "\<And>x. unat a \<le> unat x \<Longrightarrow> unat x \<le> unat a + length xs \<Longrightarrow> m' x = m x"
  shows "cstr m' a xs"
  using assms
proof (induction xs arbitrary: a)
  case Nil
  then show ?case by simp
next
  case (Cons x xs)
  have a1: "unat (a + 1) = unat a + 1" using Cons.prems(2) unat_byte [of a 2 1] by simp
  have "cstr m' (a + 1) xs" using Cons.prems a1 by (intro Cons.IH) auto
  then show ?case using Cons.prems(1,3) by simp
qed

lemma tape_cong:
  assumes "tape m a xs" "unat a + length xs \<le> 2 ^ 64"
    "\<And>x. unat a \<le> unat x \<Longrightarrow> unat x < unat a + length xs \<Longrightarrow> m' x = m x"
  shows "tape m' a xs"
  using assms
proof (induction xs arbitrary: a)
  case Nil
  then show ?case by simp
next
  case (Cons x xs)
  have a1: "xs \<noteq> [] \<Longrightarrow> unat (a + 1) = unat a + 1" using Cons.prems(2) unat_byte [of a 2 1] by (cases xs) auto
  have "tape m' (a + 1) xs" using Cons.prems a1 by (cases "xs = []") (simp, intro Cons.IH, auto)
  then show ?case using Cons.prems(1,3) by simp
qed

section \<open>Words\<close>

definition seps :: "u8 list" where
  "seps = [32, 10, 9]"

text \<open>The separator string stands at \<open>ws\<close>.\<close>

lemma strchr_seps:
  assumes "cstr m ws seps" "unat ws + 4 \<le> 2 ^ 64" "ws \<noteq> 0"
  shows "\<exists>q. strchr m ws c = Some q \<and> (q \<noteq> 0 \<longleftrightarrow> c \<in> set seps)"
proof -
  have nz: "ws + 1 \<noteq> 0" "ws + 2 \<noteq> 0"
    using assms(2) unat_byte [of ws 4 1] unat_byte [of ws 4 2] by auto
  have m: "m ws = 32" "m (ws + 1) = 10" "m (ws + 2) = 9" "m (ws + 3) = 0"
    using assms(1) by (simp_all add: seps_def add.assoc)
  show ?thesis
    using m nz assms(3)
    by (simp add: strchr.simps [of m ws] strchr.simps [of m "ws + 1"] strchr.simps [of m "ws + 2"]
        strchr.simps [of m "ws + 3"] seps_def add.assoc)
qed

lemma strtok_loop_word:
  assumes S: "\<And>c. \<exists>q. strchr m ws c = Some q \<and> (q \<noteq> 0 \<longleftrightarrow> c \<in> set seps)"
    and w: "cstr m p (w @ d # rest)" "set w \<inter> set seps = {}" "d \<in> set seps"
  shows "strtok_loop m ws p = Some (p + of_nat (length w))"
  using w
proof (induction w arbitrary: p)
  case Nil
  obtain q where "strchr m ws d = Some q" "q \<noteq> 0" using S [of d] Nil.prems by auto
  then show ?case using Nil.prems by (simp add: strtok_loop.simps [of m ws p])
next
  case (Cons c w)
  obtain q where "strchr m ws c = Some q" "q = 0" using S [of c] Cons.prems by auto
  then have "strtok_loop m ws p = strtok_loop m ws (p + 1)"
    using Cons.prems by (simp add: strtok_loop.simps [of m ws p])
  then show ?case using Cons by (simp add: algebra_simps)
qed

lemma strtok_loop_none:
  assumes S: "\<And>c. \<exists>q. strchr m ws c = Some q \<and> (q \<noteq> 0 \<longleftrightarrow> c \<in> set seps)"
    and w: "cstr m p w" "set w \<inter> set seps = {}"
  shows "strtok_loop m ws p = Some 0"
  using w
proof (induction w arbitrary: p)
  case Nil
  then show ?case by (simp add: strtok_loop.simps [of m ws p])
next
  case (Cons c w)
  obtain q where "strchr m ws c = Some q" "q = 0" using S [of c] Cons.prems by auto
  then have "strtok_loop m ws p = strtok_loop m ws (p + 1)"
    using Cons.prems by (simp add: strtok_loop.simps [of m ws p])
  then show ?case using Cons by simp
qed

text \<open>A line: words, each with the separator behind it, and a tail that no separator ends.\<close>

type_synonym word_list = "(u8 list \<times> u8) list"

fun line :: "word_list \<Rightarrow> u8 list \<Rightarrow> u8 list" where
  "line [] end = end"
| "line ((w, d) # wds) end = w @ d # line wds end"

definition words_ok :: "word_list \<Rightarrow> u8 list \<Rightarrow> bool" where
  "words_ok wds end \<longleftrightarrow> (\<forall>(w, d)\<in>set wds. set w \<inter> set seps = {} \<and> d \<in> set seps) \<and> set end \<inter> set seps = {}"

lemma words_ok_Cons [simp]:
  "words_ok ((w, d) # wds) end \<longleftrightarrow> set w \<inter> set seps = {} \<and> d \<in> set seps \<and> words_ok wds end"
  by (auto simp: words_ok_def)

text \<open>The bytes from \<open>p\<close> on hold the string \<open>xs\<close>, within the address space, and the separators lie elsewhere.\<close>

definition text_at :: "mem \<Rightarrow> u64 \<Rightarrow> u64 \<Rightarrow> u8 list \<Rightarrow> bool" where
  "text_at m ws p xs \<longleftrightarrow> cstr m ws seps \<and> ws \<noteq> 0 \<and> unat ws + 4 \<le> 2 ^ 64 \<and> cstr m p xs \<and> p \<noteq> 0 \<and>
     unat p + length xs < 2 ^ 64 \<and> (unat ws + 4 \<le> unat p \<or> unat p + length xs < unat ws)"

lemma text_at_seps: "text_at m ws p xs \<Longrightarrow> \<exists>q. strchr m ws c = Some q \<and> (q \<noteq> 0 \<longleftrightarrow> c \<in> set seps)"
  using strchr_seps by (simp add: text_at_def)

lemma unat_forward:
  "unat p + n < 2 ^ 64 \<Longrightarrow> unat (p + of_nat n) = unat p + n" for p :: u64
  using unat_byte [of p "n + 1" n] by simp

lemma seps_zero: "0 \<notin> set seps"
  by (simp add: seps_def)

text \<open>Putting a NUL over the separator leaves the rest of the line and the separators alone.\<close>

lemma text_at_cut:
  assumes "text_at m ws p (w @ d # xs)"
  shows "text_at (m(p + of_nat (length w) := 0)) ws (p + of_nat (length w) + 1) xs"
    "cstr (m(p + of_nat (length w) := 0)) p w"
    "unat (p + of_nat (length w) + 1) = unat p + length w + 1" "p + of_nat (length w) \<noteq> 0"
proof -
  let ?q = "p + of_nat (length w)" and ?m = "m(p + of_nat (length w) := 0)"
  have t: "cstr m ws seps" "ws \<noteq> 0" "unat ws + 4 \<le> 2 ^ 64" "cstr m p (w @ d # xs)" "p \<noteq> 0"
      "unat p + length (w @ d # xs) < 2 ^ 64" "unat ws + 4 \<le> unat p \<or> unat p + length (w @ d # xs) < unat ws"
    using assms by (simp_all add: text_at_def)
  have q: "unat ?q = unat p + length w" using t(6) by (intro unat_forward) simp
  have q1: "unat (?q + 1) = unat p + length w + 1"
    using unat_forward [of p "length w + 1"] t(6) by (simp add: algebra_simps)
  then show "unat (p + of_nat (length w) + 1) = unat p + length w + 1" .
  have p0: "0 < unat p" using t(5) by (simp add: unat_gt_0)
  then show "p + of_nat (length w) \<noteq> 0" using q by auto
  have s: "cstr ?m ws seps"
    using t(3,7) q by (intro cstr_cong [OF t(1)]) (auto simp: seps_def)
  have w: "tape m p w" "0 \<notin> set w" "cstr m (?q + 1) xs"
    using t(4) by (simp_all add: cstr_append)
  have "tape ?m p w" using t(6) q by (intro tape_cong [OF w(1)]) auto
  then show "cstr ?m p w" using w(2) cstr_append [of ?m p w "[]"] by simp
  have "cstr ?m (?q + 1) xs" using t(6) q q1 by (intro cstr_cong [OF w(3)]) auto
  moreover have "?q + 1 \<noteq> 0" using q1 by auto
  ultimately show "text_at ?m ws (?q + 1) xs"
    using s t(2,3,6,7) q1 by (auto simp: text_at_def)
qed

lemma strtok_word:
  assumes t: "text_at (tk_mem s) ws p (w @ d # xs)" and w: "set w \<inter> set seps = {}" "d \<in> set seps"
    and arg: "a = p \<or> a = 0 \<and> tk_save s = p"
  shows "strtok a ws s = Some (p, s\<lparr>tk_mem := (tk_mem s)(p + of_nat (length w) := 0), tk_save := p + of_nat (length w) + 1\<rparr>)"
proof -
  have c: "cstr (tk_mem s) p (w @ d # xs)" "p \<noteq> 0" using t by (simp_all add: text_at_def)
  have "strtok_loop (tk_mem s) ws p = Some (p + of_nat (length w))"
    by (rule strtok_loop_word [OF text_at_seps [OF t] c(1) w])
  then show ?thesis using arg c(2) text_at_cut(4) [OF t] by (auto simp: strtok_def Let_def)
qed

lemma strtok_end:
  assumes t: "text_at (tk_mem s) ws p xs" and w: "set xs \<inter> set seps = {}" and arg: "a = p \<or> a = 0 \<and> tk_save s = p"
  shows "strtok a ws s = Some (0, s\<lparr>tk_save := p\<rparr>)"
proof -
  have c: "cstr (tk_mem s) p xs" "p \<noteq> 0" using t by (simp_all add: text_at_def)
  have "strtok_loop (tk_mem s) ws p = Some 0" by (rule strtok_loop_none [OF text_at_seps [OF t] c(1) w])
  then show ?thesis using arg c(2) by (auto simp: strtok_def Let_def)
qed

declare parse_rest.simps [simp del]

lemma parse_rest_over:
  assumes "text_at (tk_mem s) ws (tk_save s) (line wds end)" "words_ok wds end" "k \<le> length wds"
  shows "parse_rest k ws argv s = Inl Fault"
  using assms
proof (induction wds arbitrary: s k argv)
  case Nil
  then have "strtok 0 ws s = Some (0, s\<lparr>tk_save := tk_save s\<rparr>)"
    by (intro strtok_end [of _ _ _ "end"]) (simp_all add: words_ok_def)
  then show ?case using Nil by (subst parse_rest.simps) (simp add: ends_def)
next
  case (Cons wd wds)
  obtain w d where wd: "wd = (w, d)" by (cases wd)
  have t: "text_at (tk_mem s) ws (tk_save s) (w @ d # line wds end)" using Cons.prems(1) wd by simp
  have ok: "set w \<inter> set seps = {}" "d \<in> set seps" "words_ok wds end" using Cons.prems(2) wd by simp_all
  let ?t = "s\<lparr>tk_mem := (tk_mem s)(tk_save s + of_nat (length w) := 0), tk_save := tk_save s + of_nat (length w) + 1\<rparr>"
  have st: "strtok 0 ws s = Some (tk_save s, ?t)" by (rule strtok_word [OF t ok(1,2)]) simp
  have nz: "tk_save s \<noteq> 0" using t by (simp add: text_at_def)
  show ?case
  proof (cases k)
    case 0
    then show ?thesis using st nz by (subst parse_rest.simps) (simp add: ends_def)
  next
    case (Suc j)
    have "text_at (tk_mem ?t) ws (tk_save ?t) (line wds end)" using text_at_cut(1) [OF t] by simp
    moreover have "j \<le> length wds" using Cons.prems(3) Suc by simp
    ultimately have "parse_rest j ws (argv @ [tk_save s]) ?t = Inl Fault" using ok(3) by (intro Cons.IH)
    then show ?thesis using st nz Suc by (subst parse_rest.simps) (simp add: ends_def)
  qed
qed

lemma parse_rest_words:
  assumes "text_at (tk_mem s) ws (tk_save s) (line wds end)" "words_ok wds end" "length wds < k"
  shows "\<exists>toks t. parse_rest k ws argv s = Inr (argv @ toks, t) \<and> length toks = length wds \<and>
       (\<forall>i<length wds. cstr (tk_mem t) (toks ! i) (fst (wds ! i)) \<and> unat (toks ! i) + length (fst (wds ! i)) < 2 ^ 64) \<and>
       (\<forall>x. unat x < unat (tk_save s) \<longrightarrow> tk_mem t x = tk_mem s x) \<and> cstr (tk_mem t) ws seps"
  using assms
proof (induction wds arbitrary: s k argv)
  case Nil
  then have "strtok 0 ws s = Some (0, s\<lparr>tk_save := tk_save s\<rparr>)"
    by (intro strtok_end [of _ _ _ "end"]) (simp_all add: words_ok_def)
  moreover have "cstr (tk_mem s) ws seps" using Nil.prems(1) by (simp add: text_at_def)
  ultimately show ?case using Nil by (subst parse_rest.simps) (simp add: ends_def)
next
  case (Cons wd wds)
  obtain w d where wd: "wd = (w, d)" by (cases wd)
  have t: "text_at (tk_mem s) ws (tk_save s) (w @ d # line wds end)" using Cons.prems(1) wd by simp
  have ok: "set w \<inter> set seps = {}" "d \<in> set seps" "words_ok wds end" using Cons.prems(2) wd by simp_all
  let ?p = "tk_save s"
  let ?t = "s\<lparr>tk_mem := (tk_mem s)(?p + of_nat (length w) := 0), tk_save := ?p + of_nat (length w) + 1\<rparr>"
  have st: "strtok 0 ws s = Some (?p, ?t)" by (rule strtok_word [OF t ok(1,2)]) simp
  note C = text_at_cut [OF t]
  obtain j where j: "k = Suc j" "length wds < j" using Cons.prems(3) by (cases k) auto
  have "?p \<noteq> 0" using t by (simp add: text_at_def)
  then have run: "parse_rest k ws argv s = parse_rest j ws (argv @ [?p]) ?t"
    using st j(1) by (subst parse_rest.simps) (simp add: ends_def)
  have "text_at (tk_mem ?t) ws (tk_save ?t) (line wds end)" using C(1) by simp
  from Cons.IH [OF this ok(3) j(2), of "argv @ [?p]"] obtain toks u where
    u: "parse_rest j ws (argv @ [?p]) ?t = Inr ((argv @ [?p]) @ toks, u)" "length toks = length wds"
      "\<forall>i<length wds. cstr (tk_mem u) (toks ! i) (fst (wds ! i)) \<and> unat (toks ! i) + length (fst (wds ! i)) < 2 ^ 64"
      "\<forall>x. unat x < unat (?p + of_nat (length w) + 1) \<longrightarrow> tk_mem u x = tk_mem ?t x" "cstr (tk_mem u) ws seps"
    by auto
  have len: "unat ?p + length w < 2 ^ 64" using t by (simp add: text_at_def)
  have "cstr (tk_mem u) ?p w"
    using C(2,3) u(4) len by (intro cstr_cong [OF C(2)]) auto
  then have "\<forall>i<length (wd # wds). cstr (tk_mem u) ((?p # toks) ! i) (fst ((wd # wds) ! i)) \<and>
      unat ((?p # toks) ! i) + length (fst ((wd # wds) ! i)) < 2 ^ 64"
    using u(3) wd len by (auto simp: nth_Cons split: nat.splits)
  moreover have "tk_mem u x = tk_mem s x" if "unat x < unat ?p" for x
  proof -
    have "unat (?p + of_nat (length w)) = unat ?p + length w" using len by (intro unat_forward)
    then have "x \<noteq> ?p + of_nat (length w)" using that by auto
    then show ?thesis using u(4) C(3) that by simp
  qed
  ultimately show ?case using run u(1,2,5) by (intro exI [of _ "?p # toks"] exI [of _ u]) simp
qed

lemma skip_seps_spec:
  assumes S: "\<And>c. \<exists>q. strchr m ws c = Some q \<and> (q \<noteq> 0 \<longleftrightarrow> c \<in> set seps)"
    and "cstr m p (lead @ xs)" "set lead \<subseteq> set seps" "xs = [] \<or> hd xs \<notin> set seps"
  shows "skip_seps m ws p = Some (p + of_nat (length lead))"
  using assms(2,3)
proof (induction lead arbitrary: p)
  case Nil
  have "m p \<notin> set seps" using Nil.prems(1) assms(4) seps_zero by (cases xs) auto
  then obtain q where "strchr m ws (m p) = Some q" "q = 0" using S by blast
  then show ?case by (simp add: skip_seps.simps [of m ws p])
next
  case (Cons c lead)
  then have c: "m p = c" "c \<in> set seps" by auto
  then obtain q where "strchr m ws (m p) = Some q" "q \<noteq> 0" using S [of c] by auto
  then have "skip_seps m ws p = skip_seps m ws (p + 1)" by (simp add: skip_seps.simps [of m ws p])
  then show ?case using Cons by (simp add: algebra_simps)
qed

section \<open>Properties\<close>

text \<open>
  The buffer at \<open>cmd\<close> holds some separators, then the words of \<open>wds\<close>, each with the separator that ends it, then \<open>end\<close>,
  which no separator ends.
\<close>

definition command_line :: "mem \<Rightarrow> u64 \<Rightarrow> u64 \<Rightarrow> u8 list \<Rightarrow> word_list \<Rightarrow> u8 list \<Rightarrow> bool" where
  "command_line m ws cmd lead wds end \<longleftrightarrow> text_at m ws cmd (lead @ line wds end) \<and> set lead \<subseteq> set seps \<and>
     words_ok wds end \<and> (wds \<noteq> [] \<longrightarrow> fst (hd wds) \<noteq> [])"

lemma command_line_start:
  assumes "command_line m ws cmd lead wds end"
  shows "skip_seps m ws cmd = Some (cmd + of_nat (length lead))"
    "text_at m ws (cmd + of_nat (length lead)) (line wds end)"
proof -
  let ?p = "cmd + of_nat (length lead)"
  have t: "text_at m ws cmd (lead @ line wds end)" "set lead \<subseteq> set seps" "words_ok wds end"
      "wds \<noteq> [] \<longrightarrow> fst (hd wds) \<noteq> []"
    using assms by (simp_all add: command_line_def)
  have "line wds end = [] \<or> hd (line wds end) \<notin> set seps"
  proof (cases wds)
    case Nil
    then show ?thesis using t(3) by (cases "end") (auto simp: words_ok_def)
  next
    case (Cons wd ws')
    obtain w d where "wd = (w, d)" by (cases wd)
    then show ?thesis using t(3,4) Cons by (cases w) auto
  qed
  moreover have "cstr m cmd (lead @ line wds end)" using t(1) by (simp add: text_at_def)
  ultimately show "skip_seps m ws cmd = Some ?p"
    using skip_seps_spec [OF text_at_seps [OF t(1)] _ t(2)] by blast
  have u: "unat ?p = unat cmd + length lead" using t(1) by (intro unat_forward) (simp add: text_at_def)
  then have "?p \<noteq> 0" using t(1) by (auto simp: text_at_def unat_eq_0 [symmetric])
  then show "text_at m ws ?p (line wds end)" using t(1) u by (auto simp: text_at_def cstr_append)
qed

lemma parse_words:
  assumes l: "command_line (tk_mem s) ws cmd lead wds end" and n: "length wds < NARG"
  shows "\<exists>argv t. parse ws cmd s = Inr (if wds = [] then -1 else int (length wds), argv, t) \<and>
     (wds \<noteq> [] \<longrightarrow> length argv = length wds) \<and>
     (\<forall>i<length wds. cstr (tk_mem t) (argv ! i) (fst (wds ! i)) \<and> unat (argv ! i) + length (fst (wds ! i)) < 2 ^ 64) \<and>
     cstr (tk_mem t) ws seps"
proof -
  let ?p = "cmd + of_nat (length lead)"
  note S = command_line_start [OF l]
  have ok: "words_ok wds end" using l by (simp add: command_line_def)
  show ?thesis
  proof (cases wds)
    case Nil
    have t: "text_at (tk_mem s) ws ?p end" "set end \<inter> set seps = {}" using S(2) ok Nil by (simp_all add: words_ok_def)
    have "strtok ?p ws s = Some (0, s\<lparr>tk_save := ?p\<rparr>)" by (rule strtok_end [OF t]) simp
    moreover have "strtok 0 ws (s\<lparr>tk_save := ?p\<rparr>) = Some (0, s\<lparr>tk_save := ?p\<rparr>)"
      using strtok_end [of "s\<lparr>tk_save := ?p\<rparr>" ws ?p "end" 0] t by simp
    moreover have "cstr (tk_mem s) ws seps" using l by (simp add: command_line_def text_at_def)
    ultimately show ?thesis using S(1) Nil by (simp add: parse_def ends_def parse_rest.simps)
  next
    case (Cons wd wds')
    obtain w d where wd: "wd = (w, d)" by (cases wd)
    have t: "text_at (tk_mem s) ws ?p (w @ d # line wds' end)" using S(2) Cons wd by simp
    have o: "set w \<inter> set seps = {}" "d \<in> set seps" "words_ok wds' end" using ok Cons wd by simp_all
    let ?t = "s\<lparr>tk_mem := (tk_mem s)(?p + of_nat (length w) := 0), tk_save := ?p + of_nat (length w) + 1\<rparr>"
    have st: "strtok ?p ws s = Some (?p, ?t)" by (rule strtok_word [OF t o(1,2)]) simp
    note C = text_at_cut [OF t]
    have "text_at (tk_mem ?t) ws (tk_save ?t) (line wds' end)" using C(1) by simp
    moreover have "length wds' < NARG - 1" using n Cons by simp
    ultimately obtain toks u where u: "parse_rest (NARG - 1) ws [?p] ?t = Inr ([?p] @ toks, u)" "length toks = length wds'"
        "\<forall>i<length wds'. cstr (tk_mem u) (toks ! i) (fst (wds' ! i)) \<and> unat (toks ! i) + length (fst (wds' ! i)) < 2 ^ 64"
        "\<forall>x. unat x < unat (?p + of_nat (length w) + 1) \<longrightarrow> tk_mem u x = tk_mem ?t x" "cstr (tk_mem u) ws seps"
      using parse_rest_words [OF _ o(3), of ?t ws "NARG - 1" "[?p]"] by auto
    have len: "unat ?p + length w < 2 ^ 64" using t by (simp add: text_at_def)
    have "cstr (tk_mem u) ?p w" using C(2,3) u(4) len by (intro cstr_cong [OF C(2)]) auto
    then have "\<forall>i<length wds. cstr (tk_mem u) ((?p # toks) ! i) (fst (wds ! i)) \<and> unat ((?p # toks) ! i) + length (fst (wds ! i)) < 2 ^ 64"
      using u(3) wd Cons len by (auto simp: nth_Cons split: nat.splits)
    moreover have "?p \<noteq> 0" using t by (simp add: text_at_def)
    then have "parse ws cmd s = Inr (int (length wds), ?p # toks, u)"
      using S(1) st u(1,2) Cons by (simp add: parse_def ends_def)
    ultimately show ?thesis using Cons u(2,5) by (intro exI [of _ "?p # toks"] exI [of _ u]) simp
  qed
qed

text \<open>
  C36. The shell splits a line at its separators: with at most seven of them behind words, \<open>parse\<close> returns the number of words and
  the entries of argv are the words in order, each a string of its own; a word that no separator ends is
  dropped (the whole line, with the result -1, when there is no other).
\<close>

theorem parse_splits_line:
  assumes l: "command_line (tk_mem s) ws cmd lead wds end" and n: "length wds < NARG"
  shows "\<exists>argv t. parse ws cmd s = Inr (if wds = [] then -1 else int (length wds), argv, t) \<and>
     (wds \<noteq> [] \<longrightarrow> length argv = length wds) \<and>
     (\<forall>i<length wds. cstr (tk_mem t) (argv ! i) (fst (wds ! i)))"
  using parse_words [OF l n] by blast

text \<open>
  C38. The array argv of the shell has room for seven words and the NULL behind them: a line with eight makes \<open>parse\<close>
  store behind it.
\<close>

theorem parse_overruns_argv:
  assumes l: "command_line (tk_mem s) ws cmd lead wds end" and n: "NARG \<le> length wds"
  shows "parse ws cmd s = Inl Fault"
proof -
  let ?p = "cmd + of_nat (length lead)"
  note S = command_line_start [OF l]
  obtain w d wds' where wd: "wds = (w, d) # wds'" using n by (cases wds) auto
  have t: "text_at (tk_mem s) ws ?p (w @ d # line wds' end)" using S(2) wd by simp
  have o: "set w \<inter> set seps = {}" "d \<in> set seps" "words_ok wds' end"
    using l wd by (simp_all add: command_line_def)
  let ?t = "s\<lparr>tk_mem := (tk_mem s)(?p + of_nat (length w) := 0), tk_save := ?p + of_nat (length w) + 1\<rparr>"
  have st: "strtok ?p ws s = Some (?p, ?t)" by (rule strtok_word [OF t o(1,2)]) simp
  have "parse_rest (NARG - 1) ws [?p] ?t = Inl Fault"
    using text_at_cut(1) [OF t] o(3) n wd by (intro parse_rest_over) simp_all
  then show ?thesis using S(1) st by (simp add: parse_def ends_def)
qed

section \<open>Witnesses\<close>

text \<open>\<open>ls a\<close> and a newline at 0x5000, the separators at 0x9000.\<close>

definition demo_line :: utok where
  "demo_line = \<lparr>tk_mem = (\<lambda>_. 0)(0x9000 := 32, 0x9001 := 10, 0x9002 := 9,
     0x5000 := 108, 0x5001 := 115, 0x5002 := 32, 0x5003 := 97, 0x5004 := 10), tk_save = 0\<rparr>"

lemma demo_line_ok: "command_line (tk_mem demo_line) 0x9000 0x5000 [] [([108, 115], 32), ([97], 10)] []"
  by (simp add: command_line_def text_at_def demo_line_def seps_def words_ok_def)

theorem parse_splits_line_witness:
  "\<exists>argv t. parse 0x9000 0x5000 demo_line = Inr (2, argv, t) \<and> cstr (tk_mem t) (argv ! 0) [108, 115] \<and>
     cstr (tk_mem t) (argv ! 1) [97]"
proof -
  let ?wds = "[([108, 115], 32), ([97], 10)] :: word_list"
  obtain argv t where *: "parse 0x9000 0x5000 demo_line = Inr (if ?wds = [] then -1 else int (length ?wds), argv, t)"
      "\<forall>i<length ?wds. cstr (tk_mem t) (argv ! i) (fst (?wds ! i))"
    using parse_splits_line [OF demo_line_ok] by fastforce
  have "cstr (tk_mem t) (argv ! 0) (fst (?wds ! 0))" "cstr (tk_mem t) (argv ! 1) (fst (?wds ! 1))"
    by (rule *(2) [rule_format], simp)+
  then have "cstr (tk_mem t) (argv ! 0) [108, 115]" "cstr (tk_mem t) (argv ! 1) [97]"
    by (simp_all del: cstr.simps)
  moreover have "parse 0x9000 0x5000 demo_line = Inr (2, argv, t)" using *(1) by simp
  ultimately show ?thesis by blast
qed

text \<open>\<open>a\<close> and a blank, eight times.\<close>

definition demo_long :: utok where
  "demo_long = \<lparr>tk_mem = (\<lambda>_. 0)(0x9000 := 32, 0x9001 := 10, 0x9002 := 9,
     0x5000 := 97, 0x5001 := 32, 0x5002 := 97, 0x5003 := 32, 0x5004 := 97, 0x5005 := 32, 0x5006 := 97,
     0x5007 := 32, 0x5008 := 97, 0x5009 := 32, 0x500a := 97, 0x500b := 32, 0x500c := 97, 0x500d := 32, 0x500e := 97, 0x500f := 32), tk_save = 0\<rparr>"

theorem parse_overruns_argv_witness: "parse 0x9000 0x5000 demo_long = Inl Fault"
proof (rule parse_overruns_argv)
  show "command_line (tk_mem demo_long) 0x9000 0x5000 []
      [([97], 32), ([97], 32), ([97], 32), ([97], 32), ([97], 32), ([97], 32), ([97], 32), ([97], 32)] []"
    by (simp add: command_line_def text_at_def demo_long_def seps_def words_ok_def)
qed simp

end
