(* ===== verification/Procsys.thy ===== *)
theory Procsys
  imports Printk
begin

text \<open>
  The operations of kernel/proc.c that tie processes, memory and files together: fork, clone, exit, exec,
  chdir; the ELF headers of include/elf.h and kernel/elf.c, the loader \<open>load_prg\<close> of kernel/mm.c, and uname.
\<close>

unbundle bit_operations_syntax

section \<open>fork and clone\<close>

text \<open>\<open>*new->tf = *p->tf\<close>\<close>

definition tf_copy :: "u64 \<Rightarrow> u64 \<Rightarrow> 'a kmem_scheme \<Rightarrow> 'a kmem_scheme" where
  "tf_copy dst src s = s\<lparr>mem := memcpy (mem s) dst src TF_SIZE\<rparr>"

text \<open>The loop over the descriptors \<open>fds\<close> that shares the open files of process \<open>p\<close> with \<open>new\<close>.\<close>

fun dup_fds :: "nat \<Rightarrow> nat \<Rightarrow> nat list \<Rightarrow> 'a kfile_scheme \<Rightarrow> 'a kfile_scheme res" where
  "dup_fds p new [] s = Inr s"
| "dup_fds p new (fd # fds) s =
     (case p_ofile (procs s ! p) ! fd of
        None \<Rightarrow> dup_fds p new fds s
      | Some f \<Rightarrow> bnd (dup_file f s) (\<lambda>s. dup_fds p new fds (set_ofile new fd (Some f) s)))"

text \<open>\<open>strcpy\<close> of a name of 16 bytes to another.\<close>

definition name_copy :: "u8 list \<Rightarrow> u8 list \<Rightarrow> u8 list res" where
  "name_copy src dst =
     (case scan (\<lambda>c. c = 0) src of None \<Rightarrow> Inl Fault | Some n \<Rightarrow> Inr (take (n + 1) src @ drop (n + 1) dst))"

text \<open>The end that fork and clone share: working directory, files, name, and the entry in the table.\<close>

definition adopt :: "nat \<Rightarrow> nat \<Rightarrow> bool \<Rightarrow> 'a kfile_scheme \<Rightarrow> (int \<times> 'a kfile_scheme) res" where
  "adopt p new th s =
     bnd (dup_fds p new [0..<NOFILE] (upd_proc new (\<lambda>q. q\<lparr>p_cwd := p_cwd (procs s ! p)\<rparr>) s)) (\<lambda>s.
     bnd (name_copy (p_name (procs s ! p)) (p_name (procs s ! new))) (\<lambda>nm.
     bnd (acquire ProctableLk (upd_proc new (\<lambda>q. q\<lparr>p_name := nm\<rparr>) s)) (\<lambda>s.
     bnd (release ProctableLk (upd_proc new (\<lambda>q. q\<lparr>p_state := RUNNABLE, p_parent := Some p, p_th := th \<or> p_th q\<rparr>) s)) (\<lambda>s.
       Inr (p_pid (procs s ! new), s)))))"

definition fork :: "'a kfile_scheme \<Rightarrow> (int \<times> 'a kfile_scheme) res" where
  "fork s =
     bnd (myproc s) (\<lambda>p.
     bnd (newproc s) (\<lambda>(r, s).
       case r of None \<Rightarrow> Inr (-1, s)
       | Some new \<Rightarrow>
           bnd (cp_userspace (p_pgt (procs s ! new)) (p_pgt (procs s ! p)) 0x1000 (p_size (procs s ! p)) s) (\<lambda>(r, s).
             if r < 0 then
               bnd (acquire ProctableLk s) (\<lambda>s. bnd (freeproc new s) (\<lambda>s.
               bnd (release ProctableLk s) (\<lambda>s. Inr (-1, s))))
             else
               let s = upd_proc new (\<lambda>q. q\<lparr>p_size := p_size (procs s ! p)\<rparr>) s;
                   s = tf_copy (p_tf (procs s ! new)) (p_tf (procs s ! p)) s;
                   s = tf_set (p_tf (procs s ! new)) 0 0 s
               in adopt p new False s)))"

definition clone :: "u64 \<Rightarrow> u64 \<Rightarrow> 'a kfile_scheme \<Rightarrow> (int \<times> 'a kfile_scheme) res" where
  "clone fn stack s =
     bnd (myproc s) (\<lambda>p.
     bnd (newproc s) (\<lambda>(r, s).
       case r of None \<Rightarrow> Inr (-1, s)
       | Some new \<Rightarrow>
           let s = upd_proc new (\<lambda>q. q\<lparr>p_pgt := p_pgt (procs s ! p), p_size := p_size (procs s ! p)\<rparr>) s;
               s = tf_copy (p_tf (procs s ! new)) (p_tf (procs s ! p)) s;
               s = tf_set (p_tf (procs s ! new)) TF_ELR fn s;
               s = tf_set (p_tf (procs s ! new)) TF_SP (stack + PAGESIZE) s
           in adopt p new True s))"

section \<open>exit and chdir\<close>

fun close_all :: "nat list \<Rightarrow> 'a kfile_scheme \<Rightarrow> 'a kfile_scheme res" where
  "close_all [] s = Inr s"
| "close_all (fd # fds) s = bnd (close (of_nat fd) s) (\<lambda>(_, s). close_all fds s)"

text \<open>\<open>exitproc\<close> up to its last \<open>cswitch\<close>, from which it does not come back.\<close>

definition exitproc :: "nat \<Rightarrow> int \<Rightarrow> 'a kfile_scheme \<Rightarrow> 'a kfile_scheme res" where
  "exitproc p ret s =
     (if p_pid (procs s ! p) = 0 then Inl (Panic ''init exit'')
      else
        bnd (if \<not> p_th (procs s ! p) then free_userspace (p_pgt (procs s ! p)) (p_size (procs s ! p)) s else Inr s) (\<lambda>s.
        bnd (close_all [0..<NOFILE] s) (exit_table p ret)))"

definition exit_self :: "int \<Rightarrow> 'a kfile_scheme \<Rightarrow> 'a kfile_scheme res" where
  "exit_self ret s = bnd (myproc s) (\<lambda>p. exitproc p ret s)"

definition chdir :: "u8 list \<Rightarrow> 'a kfile_scheme \<Rightarrow> (int \<times> 'a kfile_scheme) res" where
  "chdir path s =
     bnd (myproc s) (\<lambda>p.
     bnd (path2inode path s) (\<lambda>(r, s).
       case r of None \<Rightarrow> Inr (-1, s)
       | Some k \<Rightarrow>
           if \<not> S_ISDIR (i_mode (itable s ! k)) then Inr (-1, s)
           else Inr (0, upd_proc p (\<lambda>q. q\<lparr>p_cwd := Some k\<rparr>) s)))"

section \<open>ELF files\<close>

definition get64 :: "u8 list \<Rightarrow> nat \<Rightarrow> u64" where
  "get64 d p = get_le 8 (\<lambda>i. d ! (p + i))"

record ehdr =
  e_ident :: "u8 list"
  e_type :: u16
  e_machine :: u16
  e_version :: u32
  e_entry :: u64
  e_phoff :: u64
  e_shoff :: u64
  e_flags :: u32
  e_ehsize :: u16
  e_phentsize :: u16
  e_phnum :: u16
  e_shentsize :: u16
  e_shnum :: u16
  e_shstrndx :: u16

definition load_ehdr :: "u8 list \<Rightarrow> ehdr" where
  "load_ehdr d =
     \<lparr>e_ident = take 16 d, e_type = get16 d 16, e_machine = get16 d 18, e_version = get32 d 20, e_entry = get64 d 24,
      e_phoff = get64 d 32, e_shoff = get64 d 40, e_flags = get32 d 48, e_ehsize = get16 d 52, e_phentsize = get16 d 54,
      e_phnum = get16 d 56, e_shentsize = get16 d 58, e_shnum = get16 d 60, e_shstrndx = get16 d 62\<rparr>"

record phdr =
  p_type :: u32
  p_flags :: u32
  p_offset :: u64
  p_vaddr :: u64
  p_paddr :: u64
  p_filesz :: u64
  p_memsz :: u64
  p_align :: u64

definition load_phdr :: "u8 list \<Rightarrow> phdr" where
  "load_phdr d =
     \<lparr>p_type = get32 d 0, p_flags = get32 d 4, p_offset = get64 d 8, p_vaddr = get64 d 16, p_paddr = get64 d 24,
      p_filesz = get64 d 32, p_memsz = get64 d 40, p_align = get64 d 48\<rparr>"

definition is_elf :: "ehdr \<Rightarrow> bool" where
  "is_elf e \<longleftrightarrow> take 4 (e_ident e) = [0x7f, 69, 76, 70]"

text \<open>\<open>load_prg\<close>: \<open>n\<close> rounds from offset \<open>p\<close> on; the bytes go to the kernel address of the user page.\<close>

fun load_pages :: "nat \<Rightarrow> u64 \<Rightarrow> u64 \<Rightarrow> nat \<Rightarrow> u64 \<Rightarrow> u64 \<Rightarrow> u64 \<Rightarrow> 'a kfs_scheme \<Rightarrow> (int \<times> 'a kfs_scheme) res" where
  "load_pages 0 pgt va ino srcoff filesz p s = Inr (0, s)"
| "load_pages (Suc n) pgt va ino srcoff filesz p s =
     bnd (uva2ka pgt (va + p) s) (\<lambda>(ka, s).
       if ka = 0 then Inr (-1, s)
       else
         let cpsz = (if filesz - p < PAGESIZE then filesz - p else PAGESIZE) in
         bnd (read_inode (put_mem Some ka) ino (srcoff + p) cpsz s) (\<lambda>(r, _, s).
           if r \<noteq> uint cpsz then Inr (-1, s)
           else load_pages n pgt va ino srcoff filesz (p + PAGESIZE) s))"

definition load_prg :: "u64 \<Rightarrow> u64 \<Rightarrow> nat \<Rightarrow> u64 \<Rightarrow> u64 \<Rightarrow> 'a kfs_scheme \<Rightarrow> (int \<times> 'a kfs_scheme) res" where
  "load_prg pgt va ino srcoff filesz s =
     (if va mod PAGESIZE \<noteq> 0 then Inr (-1, s) else load_pages (npages filesz) pgt va ino srcoff filesz 0 s)"

section \<open>exec\<close>

text \<open>A string of the user, without its NUL. The kernel reads it through the MMU.\<close>

lemma u64_Suc_less: "a + 1 \<noteq> 0 \<Longrightarrow> 2 ^ 64 - unat (a + 1) < 2 ^ 64 - unat (a :: u64)"
proof -
  assume "a + 1 \<noteq> 0"
  then have "unat (a + 1) = Suc (unat a)" using unatSuc [of a] by (simp add: add.commute)
  moreover have "unat (a + 1) < 2 ^ 64" using u64_bound [of "a + 1"] by simp
  ultimately show ?thesis by linarith
qed

function fetch_str :: "(u64 \<Rightarrow> u64 option) \<Rightarrow> u64 \<Rightarrow> mem \<Rightarrow> u8 list res" where
  "fetch_str mmu a m =
     (case mmu a of
        None \<Rightarrow> Inl (Panic ''data abort EL1'')
      | Some p \<Rightarrow>
          if m p = 0 then Inr []
          else if a + 1 = 0 then Inl (Panic ''data abort EL1'')
          else bnd (fetch_str mmu (a + 1) m) (\<lambda>cs. Inr (m p # cs)))"
  by auto
termination
  by (relation "measure (\<lambda>(mmu, a, m). 2 ^ 64 - unat a)") (use u64_Suc_less in auto)

declare fetch_str.simps [simp del]

text \<open>The pointer at a user address.\<close>

definition fetch_ptr :: "(u64 \<Rightarrow> u64 option) \<Rightarrow> u64 \<Rightarrow> mem \<Rightarrow> u64 res" where
  "fetch_ptr mmu a m =
     (case fetch mmu a 8 m of None \<Rightarrow> Inl (Panic ''data abort EL1'') | Some bs \<Rightarrow> Inr (get64 bs 0))"

text \<open>
  The segments: \<open>i\<close> headers from \<open>off\<close> on. The result is \<open>memsize\<close>, or nothing where the code jumps to \<open>fail\<close>.
\<close>

fun exec_load :: "u64 \<Rightarrow> nat \<Rightarrow> nat \<Rightarrow> u64 \<Rightarrow> u64 \<Rightarrow> 'a kfs_scheme \<Rightarrow> (u64 option \<times> 'a kfs_scheme) res" where
  "exec_load pgt ino 0 off memsize s = Inr (Some memsize, s)"
| "exec_load pgt ino (Suc i) off memsize s =
     bnd (read_inode put_local ino off 56 s) (\<lambda>(r, d, s).
       if r \<noteq> 56 then Inr (None, s)
       else let ph = load_phdr d in
         if p_type ph \<noteq> 1 then exec_load pgt ino i (off + 56) memsize s
         else
           bnd (alloc_userspace pgt (p_vaddr ph) (p_memsz ph) s) (\<lambda>(sz, s).
             if sz < 0 then Inr (None, s)
             else bnd (load_prg pgt (p_vaddr ph) ino (p_offset ph) (p_filesz ph) s) (\<lambda>(r, s).
               if r < 0 then Inr (None, s)
               else exec_load pgt ino i (off + 56) (memsize + of_int sz) s)))"

text \<open>
  The arguments, pushed on the new stack page at \<open>stackbase\<close>: nine rounds at most, since the round with
  \<open>argc = 8\<close> fails when there is an argument.
\<close>

definition align16 :: "u64 \<Rightarrow> u64" where
  "align16 a = a AND NOT 15"

fun push_args :: "(u64 \<Rightarrow> u64 option) \<Rightarrow> u64 \<Rightarrow> u64 \<Rightarrow> nat \<Rightarrow> nat \<Rightarrow> u64 \<Rightarrow> u64 list \<Rightarrow> 'a kmem_scheme \<Rightarrow>
    ((nat \<times> u64 \<times> u64 list) option \<times> 'a kmem_scheme) res" where
  "push_args mmu argv stackbase 0 argc sp us s = Inr (None, s)"
| "push_args mmu argv stackbase (Suc n) argc sp us s =
     (if argv = 0 then Inr (Some (argc, sp, us), s)
      else
        bnd (fetch_ptr mmu (argv + 8 * of_nat argc) (mem s)) (\<lambda>a.
          if a = 0 then Inr (Some (argc, sp, us), s)
          else
            bnd (fetch_str mmu a (mem s)) (\<lambda>cs.
              let sp = align16 (sp - (of_nat (length cs) + 1)) in
              if 8 \<le> argc \<or> sp < stackbase then Inr (None, s)
              else bnd (put_mem Some sp 0 cs s) (\<lambda>s.
                push_args mmu argv stackbase n (argc + 1) sp
                  (us @ [USTACKTOP - (stackbase + PAGESIZE - sp)]) s))))"

definition exec_fail :: "u64 \<Rightarrow> 'a kfile_scheme \<Rightarrow> (int \<times> 'a kfile_scheme) res" where
  "exec_fail pgt s = bnd (if pgt \<noteq> 0 then kfree pgt s else Inr s) (\<lambda>s. Inr (-1, s))"

text \<open>What follows once the arguments are on the stack: their vector, and the switch to the new image.\<close>

definition exec_enter :: "u64 \<Rightarrow> u64 \<Rightarrow> u64 \<Rightarrow> u64 \<Rightarrow> nat \<Rightarrow> u64 \<Rightarrow> u64 list \<Rightarrow> 'a kfile_scheme \<Rightarrow> (int \<times> 'a kfile_scheme) res" where
  "exec_enter pgt memsize entry stackbase argc sp us s =
     (let sp = align16 (sp - 8 * (of_nat argc + 1)) in
      if sp < stackbase then exec_fail pgt s
      else
        bnd (put_mem Some sp 0 (concat (map (le_list 8) (us @ [0]))) s) (\<lambda>s.
        bnd (myproc s) (\<lambda>p.
        bnd (free_userspace (p_pgt (procs s ! p)) (p_size (procs s ! p)) s) (\<lambda>s.
        let s = upd_proc p (\<lambda>q. q\<lparr>p_size := memsize, p_pgt := pgt\<rparr>) s;
            tf = p_tf (procs s ! p);
            usp = USTACKTOP - (stackbase + PAGESIZE - sp);
            s = tf_set tf TF_SP usp (tf_set tf TF_SPSR 0 (tf_set tf TF_ELR entry (tf_set tf 1 usp s)))
        in bnd (load_userspace pgt s) (\<lambda>s. Inr (int argc, s))))))"

definition exec :: "(u64 \<Rightarrow> u64 option) \<Rightarrow> u8 list \<Rightarrow> u64 \<Rightarrow> 'a kfile_scheme \<Rightarrow> (int \<times> 'a kfile_scheme) res" where
  "exec mmu path argv s =
     bnd (path2inode path s) (\<lambda>(r, s).
       case r of None \<Rightarrow> exec_fail 0 s
       | Some ino \<Rightarrow>
           bnd (read_inode put_local ino 0 64 s) (\<lambda>(r, d, s).
             let eh = load_ehdr d in
             if r \<noteq> 64 then exec_fail 0 s
             else if \<not> is_elf eh \<or> e_type eh \<noteq> 2 then exec_fail 0 s
             else
               bnd (kalloc s) (\<lambda>(pgt, s).
                 if pgt = 0 then exec_fail 0 s
                 else
                   bnd (exec_load pgt ino (unat (e_phnum eh)) (e_phoff eh) 0 s) (\<lambda>(r, s).
                     case r of None \<Rightarrow> exec_fail pgt s
                     | Some memsize \<Rightarrow>
                         bnd (map_ustack pgt s) (\<lambda>(stackbase, s).
                         if stackbase = 0 then Inl Fault
                         else bnd (push_args mmu argv stackbase 9 0 (stackbase + PAGESIZE) [] s) (\<lambda>(r, s).
                           case r of None \<Rightarrow> exec_fail pgt s
                           | Some (argc, sp, us) \<Rightarrow>
                               exec_enter pgt memsize (e_entry eh) stackbase argc sp us s))))))"

section \<open>The first run of a process, and uname\<close>

text \<open>\<open>first\<close> is the static variable \<open>firstcall\<close>; the path is the root directory.\<close>

definition schedule_tail :: "nat \<Rightarrow> bool \<Rightarrow> 'a kfile_scheme \<Rightarrow> (bool \<times> 'a kfile_scheme) res" where
  "schedule_tail p first s =
     bnd (release ProctableLk s) (\<lambda>s.
     bnd (if first then fs_init s else Inr s) (\<lambda>s.
     bnd (if p_cwd (procs s ! p) = None
          then bnd (path2inode [SLASH] s) (\<lambda>(r, s).
                 if r = None then Inl (Panic ''no filesystem'') else Inr (upd_proc p (\<lambda>q. q\<lparr>p_cwd := r\<rparr>) s))
          else Inr s) (\<lambda>s. Inr (False, s))))"

text \<open>\<open>uts\<close> is the constant structure of 320 bytes at address \<open>src\<close>.\<close>

definition uname :: "(u64 \<Rightarrow> u64 option) \<Rightarrow> u64 \<Rightarrow> u8 list \<Rightarrow> u64 \<Rightarrow> 'a kproc_scheme \<Rightarrow> (int \<times> 'a kproc_scheme) res" where
  "uname mmu src uts u s =
     (if u = 0 then Inr (-1, s)
      else bnd (myproc s) (\<lambda>p. case copyout mmu p u src uts s of (r, s) \<Rightarrow> Inr (if r < 0 then -1 else 0, s)))"

end
