(* ===== verification/Console.thy ===== *)
theory Console
  imports Printk
begin

text \<open>
  kernel/console.c and the interrupt of kernel/driver/virt/uart.c: a process that reads the console sleeps until
  the interrupts have filled its buffer, which they reach through its kernel address. What
  runs while it sleeps (interrupts, other processes, the scheduler) is the argument \<open>world\<close>.
\<close>

unbundle bit_operations_syntax

section \<open>Reading and writing\<close>

definition cswrite :: "u8 list \<Rightarrow> 'a kcons_scheme \<Rightarrow> int \<times> 'a kcons_scheme" where
  "cswrite cs s = (int (length cs), fold uart_putc cs s)"

definition chan_of :: "u64 \<Rightarrow> chan option" where
  "chan_of a = (if a = 0 then None else Some (ChanMem a))"

text \<open>\<open>csread\<close> up to the \<open>cswitch\<close> in \<open>sleep\<close>, and from its return on.\<close>

definition csread_enter :: "u64 \<Rightarrow> u64 \<Rightarrow> 'a kcons_scheme \<Rightarrow> 'a kcons_scheme res" where
  "csread_enter buf n s =
     bnd (acquire ConsLk s) (\<lambda>s.
     bnd (myproc s) (\<lambda>me.
     bnd (uva2ka (p_pgt (procs s ! me)) buf s) (\<lambda>(ka, s).
     sleep_enter (chan_of ka) ConsLk (s\<lparr>readbuf := ka, bufc := 0, bufsz := n\<rparr>))))"

definition csread_exit :: "nat \<Rightarrow> 'a kcons_scheme \<Rightarrow> (int \<times> 'a kcons_scheme) res" where
  "csread_exit me s =
     bnd (sleep_exit me ConsLk s) (\<lambda>(killed, s).
       if killed then Inl Exits
       else
         let sz = bufc s in
         bnd (release ConsLk (s\<lparr>readbuf := 0, bufc := 0, bufsz := 0\<rparr>)) (\<lambda>s.
           Inr (sint (ucast sz :: u32), s)))"

definition csread :: "('a kcons_scheme \<Rightarrow> 'a kcons_scheme res) \<Rightarrow> u64 \<Rightarrow> u64 \<Rightarrow> 'a kcons_scheme \<Rightarrow> (int \<times> 'a kcons_scheme) res" where
  "csread world buf n s =
     bnd (myproc s) (\<lambda>me. bnd (csread_enter buf n s) (\<lambda>s. bnd (world s) (csread_exit me)))"

section \<open>The process list\<close>

definition pstatemap :: "procstate \<Rightarrow> u8 list option" where
  "pstatemap st = (case st of
     UNUSED \<Rightarrow> None
   | CREATED \<Rightarrow> Some [99, 114, 101, 97, 116, 101, 100]
   | RUNNING \<Rightarrow> Some [114, 117, 110, 110, 105, 110, 103]
   | RUNNABLE \<Rightarrow> Some [114, 117, 110, 110, 97, 98, 108, 101]
   | SLEEPING \<Rightarrow> Some [115, 108, 101, 101, 112, 105, 110, 103]
   | ZOMBIE \<Rightarrow> Some [122, 111, 109, 98, 105, 101])"

text \<open>\<open>addr\<close> is the address a sleep channel stands for.\<close>

fun dump_procs :: "(chan option \<Rightarrow> u64) \<Rightarrow> proc list \<Rightarrow> 'a kcons_scheme \<Rightarrow> 'a kcons_scheme res" where
  "dump_procs addr [] s = Inr s"
| "dump_procs addr (p # ps) s =
     bnd (if p_state p \<noteq> UNUSED
          then vprintk [37, 115, 32, 37, 100, 32, 37, 115, 10]
                 [VStr (pstatemap (p_state p)), VNum (word_of_int (p_pid p)), VStr (Some (takeWhile (\<lambda>c. c \<noteq> 0) (p_name p)))] s
          else Inr s) (\<lambda>s.
     bnd (if p_state p = SLEEPING then vprintk [99, 104, 97, 110, 32, 37, 112, 10] [VNum (addr (p_chan p))] s else Inr s)
       (\<lambda>s. dump_procs addr ps s))"

text \<open>\<open>others\<close> are the processes that are current on the CPUs.\<close>

fun dump_cpus :: "nat \<Rightarrow> nat option list \<Rightarrow> 'a kcons_scheme \<Rightarrow> 'a kcons_scheme res" where
  "dump_cpus i [] s = Inr s"
| "dump_cpus i (c # cs) s =
     bnd (case c of
            None \<Rightarrow> vprintk [99, 112, 117, 37, 100, 32, 110, 111, 32, 112, 114, 111, 99, 10] [VNum (of_nat i)] s
          | Some k \<Rightarrow>
              let p = procs s ! k in
              vprintk [99, 112, 117, 37, 100, 32, 37, 115, 32, 37, 100, 32, 37, 115, 10]
                [VNum (of_nat i), VStr (pstatemap (p_state p)), VNum (word_of_int (p_pid p)),
                 VStr (Some (takeWhile (\<lambda>c. c \<noteq> 0) (p_name p)))] s)
       (\<lambda>s. dump_cpus (i + 1) cs s)"

definition dumpps :: "(chan option \<Rightarrow> u64) \<Rightarrow> nat option list \<Rightarrow> 'a kcons_scheme \<Rightarrow> 'a kcons_scheme res" where
  "dumpps addr curs s =
     bnd (acquire ProctableLk s) (\<lambda>s.
     bnd (dump_procs addr (procs s) s) (\<lambda>s.
     bnd (dump_cpus 0 curs s) (release ProctableLk)))"

section \<open>Typing\<close>

text \<open>
  The part of \<open>consoleintr\<close> behind its first \<open>switch\<close>, for a process that waits: edit the line, echo, and
  wake the reader when the line is complete or the buffer is full.
\<close>

definition console_key :: "int \<Rightarrow> 'a kcons_scheme \<Rightarrow> 'a kcons_scheme res" where
  "console_key c s =
     (let c = (if c = 13 then 10 else c); b = (word_of_int c :: u8);
          s = (if c = 127 then (if 0 < bufc s then csputc b (s\<lparr>bufc := bufc s - 1\<rparr>) else s)
               else if c = 4 then s
               else csputc b (s\<lparr>mem := (mem s)(readbuf s + bufc s := b), bufc := bufc s + 1\<rparr>))
      in if c = 10 \<or> c = 4 \<or> bufc s = bufsz s then wakeup (chan_of (readbuf s)) s else Inr s)"

definition consoleintr :: "(chan option \<Rightarrow> u64) \<Rightarrow> nat option list \<Rightarrow> int \<Rightarrow> 'a kcons_scheme \<Rightarrow> 'a kcons_scheme res" where
  "consoleintr addr curs c s =
     bnd (acquire ConsLk s) (\<lambda>s.
     bnd (if c = 0 then Inr s
          else if c = 16 then
            bnd (dumpps addr curs s) (\<lambda>s.
            bnd (freed_mem_kb s) (\<lambda>(kb, s).
            vprintk [37, 100, 32, 75, 66, 32, 102, 114, 101, 101, 10] [VNum (word_of_int kb)] s))
          else if readbuf s = 0 then Inr s
          else console_key c s)
       (release ConsLk))"

text \<open>The interrupt takes all characters received.\<close>

fun uart_drain :: "(chan option \<Rightarrow> u64) \<Rightarrow> nat option list \<Rightarrow> u8 list \<Rightarrow> 'a kcons_scheme \<Rightarrow> 'a kcons_scheme res" where
  "uart_drain addr curs [] s = Inr s"
| "uart_drain addr curs (c # cs) s =
     (case uart_getc s of (k, s) \<Rightarrow> bnd (consoleintr addr curs k s) (uart_drain addr curs cs))"

definition uartintr :: "(chan option \<Rightarrow> u64) \<Rightarrow> nat option list \<Rightarrow> 'a kcons_scheme \<Rightarrow> 'a kcons_scheme res" where
  "uartintr addr curs s = uart_drain addr curs (rx s) s"

section \<open>The device\<close>

text \<open>\<open>console_write\<close> reads the bytes through the user's address, one by one as it sends them.\<close>

definition console_write :: "(u64 \<Rightarrow> u64 option) \<Rightarrow> nat \<Rightarrow> u64 \<Rightarrow> u64 \<Rightarrow> 'a kcons_scheme \<Rightarrow> (int \<times> 'a kcons_scheme) res" where
  "console_write mmu f buf n s = bnd (src_mem mmu buf 0 (unat n) s) (\<lambda>cs. Inr (cswrite cs s))"

definition console_read :: "('a kcons_scheme \<Rightarrow> 'a kcons_scheme res) \<Rightarrow> nat \<Rightarrow> u64 \<Rightarrow> u64 \<Rightarrow>
    'a kcons_scheme \<Rightarrow> (int \<times> 'a kcons_scheme) res" where
  "console_read world f buf n s = csread world buf n s"

definition cons_devsw :: "(u64 \<Rightarrow> u64 option) \<Rightarrow> ('a kcons_scheme \<Rightarrow> 'a kcons_scheme res) \<Rightarrow> 'a kcons_scheme cdev" where
  "cons_devsw mmu world = \<lparr>cd_read = console_read world, cd_write = console_write mmu\<rparr>"

abbreviation CDEV_CONSOLE :: nat where "CDEV_CONSOLE \<equiv> 0"

definition console_init :: "(u64 \<Rightarrow> u64 option) \<Rightarrow> ('a kcons_scheme \<Rightarrow> 'a kcons_scheme res) \<Rightarrow>
    'a kcons_scheme cdevs \<Rightarrow> 'a kcons_scheme \<Rightarrow> ('a kcons_scheme cdevs \<times> 'a kcons_scheme) res" where
  "console_init mmu world sw s =
     bnd (register_cdev CDEV_CONSOLE (cons_devsw mmu world) sw) (\<lambda>sw. Inr (sw, lock_init ConsLk s))"

section \<open>Frame lemmas\<close>

lemma locked_kcons [simp]:
  "tx (locked L s) = tx s" "rx (locked L s) = rx s" "readbuf (locked L s) = readbuf s"
  "bufc (locked L s) = bufc s" "bufsz (locked L s) = bufsz s"
  by (simp_all add: locked_def set_lock_def pushcli_def Let_def)

lemma cli_mark_kcons [simp]:
  "tx (cli_mark s) = tx s" "rx (cli_mark s) = rx s" "readbuf (cli_mark s) = readbuf s"
  "bufc (cli_mark s) = bufc s" "bufsz (cli_mark s) = bufsz s"
  by (simp_all add: cli_mark_def)

lemma locked_kcons_upd:
  "(locked L s)\<lparr>tx := a\<rparr> = locked L (s\<lparr>tx := a\<rparr>)" "(locked L s)\<lparr>bufc := n\<rparr> = locked L (s\<lparr>bufc := n\<rparr>)"
  "(locked L s)\<lparr>mem := m\<rparr> = locked L (s\<lparr>mem := m\<rparr>)" "csputc c (locked L s) = locked L (csputc c s)"
  by (simp_all add: locked_def set_lock_def pushcli_def csputc_def uart_putc_def Let_def)

lemma csputc_simps [simp]:
  "mem (csputc c s) = mem s" "bufc (csputc c s) = bufc s" "bufsz (csputc c s) = bufsz s" "readbuf (csputc c s) = readbuf s"
  "rx (csputc c s) = rx s" "procs (csputc c s) = procs s" "lock_free L (csputc c s) = lock_free L s"
  by (simp_all add: csputc_def uart_putc_def lock_free_def)

lemma lock_free_kcons [simp]:
  "lock_free L (s\<lparr>rx := r\<rparr>) = lock_free L s" "lock_free L (s\<lparr>bufc := n\<rparr>) = lock_free L s"
  by (simp_all add: lock_free_def)

lemma wakeup_acquired_kcons [simp]:
  "mem (wakeup_acquired ch s) = mem s" "bufc (wakeup_acquired ch s) = bufc s" "bufsz (wakeup_acquired ch s) = bufsz s"
  "readbuf (wakeup_acquired ch s) = readbuf s" "rx (wakeup_acquired ch s) = rx s"
  by (simp_all add: wakeup_acquired_def)

section \<open>One key\<close>

definition key_upd :: "u8 \<Rightarrow> 'a kcons_scheme \<Rightarrow> 'a kcons_scheme" where
  "key_upd b s = (if b = BACKSPACE then (if 0 < bufc s then csputc b (s\<lparr>bufc := bufc s - 1\<rparr>) else s)
     else csputc b (s\<lparr>mem := (mem s)(readbuf s + bufc s := b), bufc := bufc s + 1\<rparr>))"

lemma key_codes: "uint (b :: u8) = 0 \<longleftrightarrow> b = 0" "uint b = 4 \<longleftrightarrow> b = 4" "uint b = 10 \<longleftrightarrow> b = 10" "uint b = 13 \<longleftrightarrow> b = 13"
  "uint b = 16 \<longleftrightarrow> b = 16" "uint b = 127 \<longleftrightarrow> b = BACKSPACE"
  by (simp_all add: word_uint_eq_iff)

lemma key_upd_locked: "key_upd b (locked L s) = locked L (key_upd b s)"
  by (simp add: key_upd_def locked_kcons_upd)

lemma key_upd_simps [simp]:
  "bufsz (key_upd b s) = bufsz s" "readbuf (key_upd b s) = readbuf s" "rx (key_upd b s) = rx s"
  "procs (key_upd b s) = procs s" "lock_free L (key_upd b s) = lock_free L s"
  by (simp_all add: key_upd_def)

text \<open>What a key does that is no control character; the carriage return counts as a newline.\<close>

lemma consoleintr_key:
  assumes "lock_free ConsLk s" "lock_free ProctableLk s" "readbuf s \<noteq> 0" "b \<notin> {0, 4, 13, 16}"
  shows "consoleintr addr curs (uint b) s =
     Inr (cli_mark (if b = 10 \<or> bufc (key_upd b s) = bufsz s
                    then wakeup_acquired (chan_of (readbuf s)) (key_upd b s) else key_upd b s))"
proof -
  let ?s = "locked ConsLk s"
  have "console_key (uint b) ?s =
      (if b = 10 \<or> bufc (key_upd b ?s) = bufsz s then wakeup (chan_of (readbuf s)) (key_upd b ?s) else Inr (key_upd b ?s))"
    using assms(4) by (auto simp: console_key_def key_upd_def key_codes Let_def)
  also have "\<dots> = Inr (locked ConsLk (if b = 10 \<or> bufc (key_upd b s) = bufsz s
                    then wakeup_acquired (chan_of (readbuf s)) (key_upd b s) else key_upd b s))"
    using assms(2) by (simp add: key_upd_locked wakeup_locked)
  finally show ?thesis
    using assms by (simp add: consoleintr_def key_codes release_locked)
qed

lemma console_key_cr: "console_key 13 = console_key 10"
  by (rule ext) (simp add: console_key_def)

lemma consoleintr_cr: "consoleintr addr curs 13 s = consoleintr addr curs 10 s"
  unfolding consoleintr_def console_key_cr by simp

section \<open>A line\<close>

text \<open>The line editor, on lists: every key is appended, backspace takes the last one away.\<close>

fun edit :: "u8 list \<Rightarrow> u8 list \<Rightarrow> u8 list" where
  "edit acc [] = acc"
| "edit acc (c # cs) = edit (if c = BACKSPACE then butlast acc else acc @ [c]) cs"

definition line_in :: "'a kcons_scheme \<Rightarrow> u8 list \<Rightarrow> bool" where
  "line_in s acc \<longleftrightarrow> bufc s = of_nat (length acc) \<and> (\<forall>i<length acc. mem s (readbuf s + of_nat i) = acc ! i)"

text \<open>What the keys of a line leave as it was.\<close>

definition key_frame :: "'a kcons_scheme \<Rightarrow> 'a kcons_scheme \<Rightarrow> bool" where
  "key_frame s t \<longleftrightarrow> procs t = procs s \<and> readbuf t = readbuf s \<and> bufsz t = bufsz s \<and>
     (\<forall>L. lock_free L t = lock_free L s) \<and>
     (\<forall>x. unat (bufsz s) \<le> unat (x - readbuf s) \<longrightarrow> mem t x = mem s x)"

lemma key_frame_trans: "key_frame s t \<Longrightarrow> key_frame t u \<Longrightarrow> key_frame s u"
  by (simp add: key_frame_def)

lemma of_nat_inj64: "i < 2 ^ 64 \<Longrightarrow> j < 2 ^ 64 \<Longrightarrow> (of_nat i :: u64) = of_nat j \<longleftrightarrow> i = j"
  by (metis unat_of_nat_small)

lemma key_upd_line:
  assumes l: "line_in s acc" and room: "length acc + 1 \<le> unat (bufsz s)"
  shows "line_in (key_upd b s) (if b = BACKSPACE then butlast acc else acc @ [b])" "key_frame s (key_upd b s)"
proof -
  have len: "length acc + 1 < 2 ^ 64" using room u64_bound [of "bufsz s"] by simp
  have bc: "bufc s = of_nat (length acc)" "\<And>i. i < length acc \<Longrightarrow> mem s (readbuf s + of_nat i) = acc ! i"
    using l by (auto simp: line_in_def)
  have "line_in (key_upd b s) (if b = BACKSPACE then butlast acc else acc @ [b]) \<and> key_frame s (key_upd b s)"
  proof (cases "b = BACKSPACE")
    case False
    have ne: "readbuf s + of_nat i \<noteq> readbuf s + (of_nat (length acc) :: u64)" if "i < length acc" for i
      using that len of_nat_inj64 [of i "length acc"] by simp
    have out: "x \<noteq> readbuf s + of_nat (length acc)" if "unat (bufsz s) \<le> unat (x - readbuf s)" for x
      using that room unat_of_nat_small [of "length acc"] len by auto
    show ?thesis
      using False bc ne out by (auto simp: key_upd_def line_in_def key_frame_def nth_append less_Suc_eq)
  next
    case True
    show ?thesis
    proof (cases acc rule: rev_cases)
      case Nil
      then show ?thesis using True bc by (simp add: key_upd_def line_in_def key_frame_def)
    next
      case (snoc ys y)
      then have "bufc s \<noteq> 0" using bc(1) len of_nat_inj64 [of "length acc" 0] by simp
      then have "0 < bufc s" by (simp add: word_gt_0)
      moreover have "bufc s - 1 = of_nat (length ys)" using bc(1) snoc by simp
      ultimately show ?thesis
        using True bc(2) snoc by (auto simp: key_upd_def line_in_def key_frame_def nth_append)
    qed
  qed
  then show "line_in (key_upd b s) (if b = BACKSPACE then butlast acc else acc @ [b])" "key_frame s (key_upd b s)" by auto
qed

lemma drain_line:
  assumes "lock_free ConsLk s" "lock_free ProctableLk s" "readbuf s \<noteq> 0" "line_in s acc"
    and "length acc + length cs < unat (bufsz s)" "set cs \<inter> {0, 4, 10, 13, 16} = {}" "rx s = cs @ zs"
  shows "\<exists>t. uart_drain addr curs (cs @ ws) s = uart_drain addr curs ws t \<and> rx t = zs \<and>
     line_in t (edit acc cs) \<and> key_frame s t"
  using assms
proof (induction cs arbitrary: s acc)
  case Nil
  then show ?case by (auto simp: key_frame_def)
next
  case (Cons c cs)
  let ?s = "s\<lparr>rx := cs @ zs\<rparr>" and ?acc = "if c = BACKSPACE then butlast acc else acc @ [c]"
  let ?t = "cli_mark (key_upd c ?s)"
  have l: "line_in ?s acc" using Cons.prems(4) by (simp add: line_in_def)
  note k = key_upd_line [OF l, of c]
  have room: "length acc + 1 \<le> unat (bufsz ?s)" using Cons.prems(5) by simp
  have la: "length ?acc \<le> length acc + 1" "length ?acc + length cs < unat (bufsz s)" using Cons.prems(5) by auto
  have "bufc (key_upd c ?s) = of_nat (length ?acc)" using k(1) [OF room] by (simp add: line_in_def)
  then have "bufc (key_upd c ?s) \<noteq> bufsz ?s"
    using la(2) unat_of_nat_small [of "length ?acc"] u64_bound [of "bufsz s"] by auto
  moreover have "c \<notin> {0, 4, 13, 16}" "c \<noteq> 10" using Cons.prems(6) by auto
  ultimately have "consoleintr addr curs (uint c) ?s = Inr ?t"
    using consoleintr_key [of ?s c addr curs] Cons.prems(1-3) by simp
  then have step: "uart_drain addr curs ((c # cs) @ ws) s = uart_drain addr curs (cs @ ws) ?t"
    using Cons.prems(7) by (simp add: uart_getc_def)
  have "line_in ?t ?acc" using k(1) [OF room] by (simp add: line_in_def)
  moreover have "set cs \<inter> {0, 4, 10, 13, 16} = {}" using Cons.prems(6) by auto
  ultimately obtain t where t: "uart_drain addr curs (cs @ ws) ?t = uart_drain addr curs ws t" "rx t = zs"
      "line_in t (edit ?acc cs)" "key_frame ?t t"
    using Cons.IH [of ?t ?acc] Cons.prems(1-3) la(2) by auto
  have "key_frame s ?t" using k(2) [OF room] by (simp add: key_frame_def)
  then have "key_frame s t" using t(4) key_frame_trans by blast
  then show ?case using step t(1-3) by auto
qed

lemma length_edit: "length (edit acc cs) \<le> length acc + length cs"
proof (induction acc cs rule: edit.induct)
  case (2 acc c cs)
  have "length (if c = BACKSPACE then butlast acc else acc @ [c]) \<le> length acc + 1" by auto
  then show ?case using 2 by simp
qed simp

text \<open>
  C30. A process waits for input in a buffer of \<open>bufsz\<close> bytes. When keys and then Return come in, at most as many keys as
  the buffer has room for, the buffer holds the line as the line editor on lists gives it, ended by a newline, \<open>bufc\<close>
  is its length, the process is woken, and memory outside the buffer is unchanged.
\<close>

theorem typed_line_delivered:
  assumes "lock_free ConsLk s" "lock_free ProctableLk s" "readbuf s \<noteq> 0" "bufc s = 0"
    and cs: "length cs < unat (bufsz s)" "set cs \<inter> {0, 4, 10, 13, 16} = {}" "rx s = cs @ [13]"
  shows "\<exists>t. uartintr addr curs s = Inr t \<and> rx t = [] \<and> line_in t (edit [] cs @ [10]) \<and> readbuf t = readbuf s \<and>
     procs t = procs (wakeup_acquired (chan_of (readbuf s)) s) \<and>
     (\<forall>x. unat (bufsz s) \<le> unat (x - readbuf s) \<longrightarrow> mem t x = mem s x)"
proof -
  have "line_in s []" using assms(4) by (simp add: line_in_def)
  from drain_line [OF assms(1-3) this _ cs(2,3), of addr curs "[13]"] cs(1) obtain t where t:
      "uart_drain addr curs (cs @ [13]) s = uart_drain addr curs [13] t" "rx t = [13]" "line_in t (edit [] cs)" "key_frame s t"
    by auto
  note fr = t(4) [unfolded key_frame_def]
  let ?t = "t\<lparr>rx := []\<rparr>"
  let ?u = "cli_mark (wakeup_acquired (chan_of (readbuf ?t)) (key_upd 10 ?t))"
  have "consoleintr addr curs (uint (10 :: u8)) ?t = Inr ?u"
    using consoleintr_key [of ?t 10 addr curs] fr assms(1-3) by simp
  then have "consoleintr addr curs 13 ?t = Inr ?u" unfolding consoleintr_cr by simp
  then have u: "uartintr addr curs s = Inr ?u"
    using t(1,2) cs(3) by (simp add: uartintr_def uart_getc_def)
  have l: "line_in ?t (edit [] cs)" using t(3) by (simp add: line_in_def)
  have "length (edit [] cs) + 1 \<le> unat (bufsz ?t)" using length_edit [of "[]" cs] cs(1) fr by simp
  from key_upd_line [OF l this, of 10] have k: "line_in (key_upd 10 ?t) (edit [] cs @ [10])" "key_frame ?t (key_upd 10 ?t)"
    by simp_all
  have "line_in ?u (edit [] cs @ [10])" using k(1) by (simp add: line_in_def)
  moreover have "procs ?u = procs (wakeup_acquired (chan_of (readbuf s)) s)" using fr by (simp add: wakeup_acquired_def)
  moreover have "\<forall>x. unat (bufsz s) \<le> unat (x - readbuf s) \<longrightarrow> mem ?u x = mem s x"
    using k(2) fr by (simp add: key_frame_def)
  moreover have "readbuf ?u = readbuf s" "rx ?u = []" using fr by simp_all
  ultimately show ?thesis using u by blast
qed

text \<open>
  C31. A key that comes in when the buffer is full, before the process that was woken for that has run, is
  stored behind the buffer: only the equality of \<open>bufc\<close> and \<open>bufsz\<close> is tested, after the store.
\<close>

theorem full_buffer_overrun:
  assumes "lock_free ConsLk s" "lock_free ProctableLk s" "readbuf s \<noteq> 0" "bufc s = bufsz s"
    and "b \<notin> {0, 4, 13, 16, BACKSPACE}"
  shows "\<exists>t. consoleintr addr curs (uint b) s = Inr t \<and> mem t (readbuf s + bufsz s) = b \<and> bufc t = bufsz t + 1"
proof -
  have "mem (key_upd b s) (readbuf s + bufsz s) = b" "bufc (key_upd b s) = bufsz s + 1"
    using assms(4,5) by (simp_all add: key_upd_def)
  then show ?thesis using consoleintr_key [OF assms(1-3), of b addr curs] assms(5) by (cases "b = 10") simp_all
qed

definition demo_cons :: "u64 \<Rightarrow> u8 list \<Rightarrow> kcons" where
  "demo_cons n keys = kfile.extend (demo_open [Some 0] 1 0)
     \<lparr>tx = [], rx = keys, readbuf = 0x5000, bufc = n, bufsz = 4\<rparr>"

lemma demo_cons_simps [simp]:
  "rx (demo_cons n keys) = keys" "readbuf (demo_cons n keys) = 0x5000" "bufc (demo_cons n keys) = n"
  "bufsz (demo_cons n keys) = 4" "lock_free L (demo_cons n keys)"
proof -
  have "lock_free L (demo_open [Some 0] 1 0)" by simp
  then show "lock_free L (demo_cons n keys)" by (simp add: demo_cons_def kfile.extend_def lock_free_def)
qed (simp_all add: demo_cons_def kfile.extend_def)

theorem typed_line_delivered_witness:
  "\<exists>t. uartintr (\<lambda>_. 0) [] (demo_cons 0 [97, BACKSPACE, 98, 13]) = Inr t \<and> bufc t = 2 \<and>
     mem t 0x5000 = 98 \<and> mem t 0x5001 = 10"
  using typed_line_delivered [of "demo_cons 0 [97, BACKSPACE, 98, 13]" "[97, BACKSPACE, 98]" "\<lambda>_. 0" "[]"]
  by (auto simp: line_in_def less_Suc_eq)

theorem full_buffer_overrun_witness:
  "\<exists>t. consoleintr (\<lambda>_. 0) [] (uint (97 :: u8)) (demo_cons 4 []) = Inr t \<and> mem t 0x5004 = 97"
  using full_buffer_overrun [of "demo_cons 4 []" 97 "\<lambda>_. 0" "[]"] by auto

end
