(* ===== verification/Uprog.thy ===== *)
theory Uprog
  imports Ulib Procsys Console
begin

text \<open>
  The user programs: usr/sh.c, usr/init.c, usr/cat.c, usr/echo.c, usr/ls.c, usr/kill.c, usr/mkdir.c, usr/uname.c, usr/loop.c,
  usr/writetest.c. A program is a tree of the system calls it makes, with a branch for every reply; the kernel is not part of it. A call
  carries the strings and bytes its pointers point to, a reply the result and the bytes that the kernel stored in the
  caller's buffer. Programs that never end are infinite trees.
\<close>

unbundle bit_operations_syntax

section \<open>Calls\<close>

text \<open>The stubs of usr/usys.h.\<close>

datatype call =
    SYS_write int "u8 list"
  | SYS_read int nat
  | SYS_fork
  | SYS_wait
  | SYS_exec "u8 list" "u8 list list"
  | SYS_open "u8 list" int
  | SYS_close int
  | SYS_fstat int
  | SYS_uname
  | SYS_chdir "u8 list"
  | SYS_mkdir "u8 list"
  | SYS_mknod "u8 list" u16 int
  | SYS_dup int
  | SYS_kill int

type_synonym reply = "int \<times> u8 list"

text \<open>\<open>Exit\<close> is the call \<open>exit\<close>, which has no reply; \<open>Crash\<close> an access out of bounds or a loop that never ends.\<close>

datatype 'a ending = Value 'a | Exited int | Crashed stop

codatatype 'a prog =
    Done "'a ending"
  | Tau "'a prog"
  | Call call "reply \<Rightarrow> 'a prog"

abbreviation Ret :: "'a \<Rightarrow> 'a prog" where "Ret x \<equiv> Done (Value x)"
abbreviation Exit :: "int \<Rightarrow> 'a prog" where "Exit n \<equiv> Done (Exited n)"
abbreviation Crash :: "stop \<Rightarrow> 'a prog" where "Crash e \<equiv> Done (Crashed e)"

fun after :: "('a \<Rightarrow> 'b prog) \<Rightarrow> 'a ending \<Rightarrow> 'b prog" where
  "after f (Value x) = f x"
| "after f (Exited n) = Exit n"
| "after f (Crashed e) = Crash e"

primcorec bindp :: "'a prog \<Rightarrow> ('a \<Rightarrow> 'b prog) \<Rightarrow> 'b prog" where
  "bindp p f = (case p of
      Done e \<Rightarrow> after f e
    | Tau q \<Rightarrow> Tau (bindp q f)
    | Call c k \<Rightarrow> Call c (\<lambda>r. bindp (k r) f))"

text \<open>A loop: the body ends a round with \<open>Inl\<close>, to go on, or with \<open>Inr\<close>.\<close>

fun goes_on :: "('s + 'a) ending \<Rightarrow> bool" where
  "goes_on (Value x) = isl x"
| "goes_on _ = False"

fun state_of :: "('s + 'a) ending \<Rightarrow> 's" where
  "state_of (Value x) = projl x"

fun finish :: "('s + 'a) ending \<Rightarrow> 'a ending" where
  "finish (Value x) = Value (projr x)"
| "finish (Exited n) = Exited n"
| "finish (Crashed e) = Crashed e"

primcorec rounds :: "('s \<Rightarrow> ('s + 'a) prog) \<Rightarrow> ('s + 'a) prog \<Rightarrow> 'a prog" where
  "rounds b p = (case p of
      Done e \<Rightarrow> (if goes_on e then Tau (rounds b (b (state_of e))) else Done (finish e))
    | Tau q \<Rightarrow> Tau (rounds b q)
    | Call c k \<Rightarrow> Call c (\<lambda>r. rounds b (k r)))"

definition loop :: "('s \<Rightarrow> ('s + 'a) prog) \<Rightarrow> 's \<Rightarrow> 'a prog" where
  "loop b s = rounds b (b s)"

definition pure :: "'a res \<Rightarrow> ('a \<Rightarrow> 'b prog) \<Rightarrow> 'b prog" where
  "pure r f = (case r of Inl e \<Rightarrow> Crash e | Inr x \<Rightarrow> f x)"

text \<open>Output: the results of these calls are not looked at.\<close>

fun outs :: "u8 list list \<Rightarrow> 'a prog \<Rightarrow> 'a prog" where
  "outs [] p = p"
| "outs (s # ss) p = Call (SYS_write 1 s) (\<lambda>_. outs ss p)"

definition uputs :: "u8 list \<Rightarrow> 'a prog \<Rightarrow> 'a prog" where
  "uputs s p = outs (puts s) p"

definition printf :: "u8 list \<Rightarrow> varg list \<Rightarrow> 'a prog \<Rightarrow> 'a prog" where
  "printf fmt as p = pure (uprintf fmt as) (\<lambda>ss. outs ss p)"

text \<open>String constants.\<close>

definition str :: "string \<Rightarrow> u8 list" where
  "str cs = map of_char cs"

text \<open>A buffer after a call stored \<open>bs\<close> at its start.\<close>

definition overwrite :: "u8 list \<Rightarrow> u8 list \<Rightarrow> u8 list" where
  "overwrite buf bs = take (length buf) bs @ drop (length bs) buf"

section \<open>cat, echo, mkdir, uname\<close>

text \<open>\<open>buf\<close> is the static buffer of 512 bytes.\<close>

definition cat_round :: "int \<Rightarrow> u8 list \<Rightarrow> (u8 list + u8 list) prog" where
  "cat_round fd buf =
     Call (SYS_read fd (length buf)) (\<lambda>(n, bs).
       let buf = overwrite buf bs in
       if 0 < n then Call (SYS_write 1 (take (nat n) buf)) (\<lambda>(m, _). if m \<noteq> n then Exit 1 else Ret (Inl buf))
       else Ret (Inr buf))"

definition cat :: "int \<Rightarrow> u8 list \<Rightarrow> u8 list prog" where
  "cat fd buf = loop (cat_round fd) buf"

fun cat_files :: "u8 list list \<Rightarrow> u8 list \<Rightarrow> unit prog" where
  "cat_files [] buf = Exit 0"
| "cat_files (p # ps) buf =
     Call (SYS_open p 0) (\<lambda>(fd, _).
       if fd < 0 then printf (str ''%s: not found'' @ [10]) [VStr (Some p)] (Exit 1)
       else bindp (cat fd buf) (\<lambda>buf. Call (SYS_close fd) (\<lambda>_. cat_files ps buf)))"

definition cat_main :: "u8 list list \<Rightarrow> unit prog" where
  "cat_main argv =
     (let buf = replicate 512 0 in
      if length argv = 1 then bindp (cat 0 buf) (\<lambda>_. Exit 0) else cat_files (drop 1 argv) buf)"

fun echo_args :: "u8 list list \<Rightarrow> unit prog" where
  "echo_args [] = Exit 0"
| "echo_args (a # as) =
     printf (str ''%s%c'') [VStr (Some a), VNum (if as \<noteq> [] then 32 else 10)] (echo_args as)"

definition echo_main :: "u8 list list \<Rightarrow> unit prog" where
  "echo_main argv = echo_args (drop 1 argv)"

definition mkdir_main :: "u8 list list \<Rightarrow> unit prog" where
  "mkdir_main argv =
     (if length argv \<noteq> 2 then uputs (str ''mkdir [dirname]'') (Exit 1)
      else Call (SYS_mkdir (argv ! 1)) (\<lambda>(r, _). if r < 0 then uputs (str ''mkdir: failed'') (Exit 1) else Exit 0))"

text \<open>The string in a buffer; without a NUL it goes on behind the buffer.\<close>

definition buf_string :: "u8 list \<Rightarrow> u8 list res" where
  "buf_string buf = (if 0 \<in> set buf then Inr (takeWhile (\<lambda>c. c \<noteq> 0) buf) else Inl Fault)"

text \<open>\<open>u\<close>: what is in the structure on the stack before the call.\<close>

definition uname_main :: "u8 list \<Rightarrow> unit prog" where
  "uname_main u = Call SYS_uname (\<lambda>(_, bs). pure (buf_string (overwrite u bs)) (\<lambda>s. uputs s (Exit 0)))"

section \<open>kill, loop, writetest\<close>

fun atou :: "i32 \<Rightarrow> u8 list \<Rightarrow> i32" where
  "atou a [] = a"
| "atou a (c # cs) = (if 48 \<le> c \<and> c \<le> 57 then atou (a * 10 + (ucast c - 48)) cs else -1)"

text \<open>The number of a process may wrap around to that of another: 2 ^ 32 + 1 is taken for init's.\<close>

lemma atou_wraps: "atou 0 (str ''4294967297'') = 1"
  by (simp add: str_def)

definition kill_main :: "u8 list list \<Rightarrow> unit prog" where
  "kill_main argv =
     (if length argv < 2 then printf (str ''kill [pid]'' @ [10]) [] (Exit 1)
      else
        let pid = atou 0 (argv ! 1) in
        if pid <s 0 then Exit 1
        else printf (str ''kill %d...'' @ [10]) [VNum (scast pid)]
               (Call (SYS_kill (sint pid)) (\<lambda>(r, _). if r < 0 then Exit 1 else Exit 0)))"

definition put64 :: "int \<Rightarrow> u64 \<Rightarrow> 'a prog \<Rightarrow> 'a prog" where
  "put64 fd num p = pure (print_num num 16 False) (\<lambda>s. Call (SYS_write fd s) (\<lambda>_. p))"

definition loop_main :: "unit prog" where
  "loop_main = loop (\<lambda>i. put64 1 i (Ret (Inl (i + 1)))) 0"

definition writetest_main :: "unit prog" where
  "writetest_main =
     Call (SYS_open (str ''README.md'') 2) (\<lambda>(fd, _).
       if fd < 0 then Exit 1
       else Call (SYS_write fd (replicate 600 97)) (\<lambda>(n, _).
              printf (str ''wtest %d'' @ [10]) [VNum (word_of_int n)] (Exit 0)))"

section \<open>ls\<close>

definition S_ISREG :: "u16 \<Rightarrow> bool" where
  "S_ISREG m \<longleftrightarrow> m AND S_IFMT = S_IFREG"

text \<open>One directory entry of the block in \<open>buf\<close>.\<close>

definition ls_entry :: "u8 list \<Rightarrow> u32 \<Rightarrow> nat \<Rightarrow> (nat + unit) prog" where
  "ls_entry buf blksize bpos =
     (if unat blksize \<le> bpos then Ret (Inr ())
      else if length buf < bpos + 6 then Crash Fault
      else
        let rec_len = get16 buf (bpos + 4) in
        if rec_len = 0 then Ret (Inr ())
        else if length buf < bpos + 8 then Crash Fault
        else
          let name_len = unat (buf ! (bpos + 6)) in
          if length buf < bpos + 8 + name_len then Crash Fault
          else pure (buf_string (overwrite (replicate 255 0) (take name_len (drop (bpos + 8) buf)))) (\<lambda>name.
                 printf (str ''%s'' @ [9] @ str ''%d'' @ [10]) [VStr (Some name), VNum (ucast (get32 buf bpos))]
                   (Ret (Inl (bpos + unat rec_len)))))"

definition ls_block :: "int \<Rightarrow> u32 \<Rightarrow> u8 list \<Rightarrow> (u8 list + u8 list) prog" where
  "ls_block fd blksize buf =
     Call (SYS_read fd (length buf)) (\<lambda>(n, bs).
       let buf = overwrite buf bs in
       if n = int (length buf) then bindp (loop (ls_entry buf blksize) 0) (\<lambda>_. Ret (Inl buf))
       else Ret (Inr buf))"

text \<open>\<open>st\<close>: what is on the stack where \<open>struct stat\<close> goes, 24 bytes.\<close>

definition ls :: "u8 list \<Rightarrow> u8 list \<Rightarrow> u8 list \<Rightarrow> (int \<times> u8 list) prog" where
  "ls st buf path =
     Call (SYS_open path 0) (\<lambda>(fd, _).
       if fd < 0 then uputs (str ''No such file or directory'') (Ret (-1, buf))
       else Call (SYS_fstat fd) (\<lambda>(_, bs).
         let st = overwrite st bs; mode = get16 st 8; blksize = get32 st 20 in
         bindp (if S_ISREG mode \<or> S_ISCHR mode then uputs path (Ret buf)
                else if S_ISDIR mode then loop (ls_block fd blksize) buf
                else Ret buf) (\<lambda>buf.
         Call (SYS_close fd) (\<lambda>_. Ret (0, buf)))))"

fun ls_args :: "u8 list \<Rightarrow> u8 list \<Rightarrow> int \<Rightarrow> u8 list list \<Rightarrow> unit prog" where
  "ls_args st buf err [] = Exit err"
| "ls_args st buf err (a # as) = bindp (ls st buf a) (\<lambda>(r, buf). ls_args st buf (if r < 0 then 1 else err) as)"

definition ls_main :: "u8 list \<Rightarrow> u8 list list \<Rightarrow> unit prog" where
  "ls_main st argv =
     (let buf = replicate 1024 0 in
      if length argv = 1 then bindp (ls st buf (str ''.'')) (\<lambda>_. Exit 0) else ls_args st buf 0 (drop 1 argv))"

section \<open>init\<close>

definition init_wait :: "int \<Rightarrow> unit prog" where
  "init_wait pid = loop (\<lambda>u. Call SYS_wait (\<lambda>(wpid, _). Ret (if wpid = pid then Inr u else Inl u))) ()"

definition init_round :: "unit \<Rightarrow> (unit + unit) prog" where
  "init_round u =
     Call SYS_fork (\<lambda>(pid, _).
       if pid = 0 then Call (SYS_exec (str ''sh'') [str ''sh'']) (\<lambda>_. Ret (Inl u))
       else bindp (init_wait pid) (\<lambda>_. Ret (Inl u)))"

definition init_loop :: "unit prog" where
  "init_loop = loop init_round ()"

definition init_console :: "int \<Rightarrow> unit prog" where
  "init_console fd =
     Call (SYS_dup fd) (\<lambda>_. Call (SYS_dup fd) (\<lambda>_.
       uputs (str ''init'') (uputs (str ''starting sh'') init_loop)))"

definition init_main :: "unit prog" where
  "init_main =
     Call (SYS_open (str ''tty0'') 2) (\<lambda>(fd, _).
       if fd < 0 then
         Call (SYS_mknod (str ''tty0'') S_IFCHR (int CDEV_CONSOLE)) (\<lambda>(r, _).
           if r < 0 then Exit 1 else Call (SYS_open (str ''tty0'') 2) (\<lambda>(fd, _). init_console fd))
       else init_console fd)"

section \<open>sh\<close>

fun put_bytes :: "mem \<Rightarrow> u64 \<Rightarrow> u8 list \<Rightarrow> mem" where
  "put_bytes m a [] = m"
| "put_bytes m a (b # bs) = put_bytes (m(a := b)) (a + 1) bs"

definition read_cmd :: "u64 \<Rightarrow> utok \<Rightarrow> utok prog" where
  "read_cmd buf s =
     (let s = s\<lparr>tk_mem := umemset (tk_mem s) buf 0 128\<rparr> in
      printf (str ''$ '') []
        (Call (SYS_read 0 128) (\<lambda>(_, bs). Ret (s\<lparr>tk_mem := put_bytes (tk_mem s) buf (take 128 bs)\<rparr>))))"

text \<open>The strings that the pointers of an argument vector point to.\<close>

fun strings :: "mem \<Rightarrow> u64 list \<Rightarrow> u8 list list res" where
  "strings m [] = Inr []"
| "strings m (p # ps) = bnd (fetch_str Some p m) (\<lambda>cs. bnd (strings m ps) (\<lambda>css. Inr (cs # css)))"

definition builtincmd :: "u8 list list \<Rightarrow> int prog" where
  "builtincmd argv =
     (if argv ! 0 = str ''cd'' then
        (if length argv < 2 then Call (SYS_chdir (str ''/'')) (\<lambda>(r, _). Ret (if r < 0 then -1 else 1))
         else if length argv = 2 then
           Call (SYS_chdir (argv ! 1)) (\<lambda>(r, _). if r < 0 then uputs (str ''cd: failed'') (Ret (-1)) else Ret 1)
         else uputs (str ''too many args'') (Ret (-1)))
      else if argv ! 0 = str ''exit'' then Exit 0
      else Ret 0)"

definition sh_command :: "u8 list list \<Rightarrow> utok \<Rightarrow> (utok + unit) prog" where
  "sh_command argv s =
     bindp (builtincmd argv) (\<lambda>b.
       if b \<noteq> 0 then Ret (Inl s)
       else Call SYS_fork (\<lambda>(pid, _).
         if pid = 0 then
           Call (SYS_exec (argv ! 0) argv) (\<lambda>_. printf (str ''%s failed'' @ [10]) [VStr (Some (argv ! 0))] (Exit 1))
         else Call SYS_wait (\<lambda>_. Ret (Inl s))))"

text \<open>\<open>ws\<close> is the address of the separators, \<open>buf\<close> that of the line.\<close>

definition sh_round :: "u64 \<Rightarrow> u64 \<Rightarrow> utok \<Rightarrow> (utok + unit) prog" where
  "sh_round ws buf s =
     bindp (read_cmd buf s) (\<lambda>s.
     pure (parse ws buf s) (\<lambda>(argc, ptrs, s).
       if argc < 0 then Ret (Inl s)
       else pure (strings (tk_mem s) ptrs) (\<lambda>argv. sh_command argv s)))"

definition sh_main :: "u64 \<Rightarrow> u64 \<Rightarrow> utok \<Rightarrow> unit prog" where
  "sh_main ws buf s = loop (sh_round ws buf) s"

section \<open>Running\<close>

text \<open>\<open>does p es q\<close>: with these calls and replies \<open>p\<close> comes to \<open>q\<close>.\<close>

inductive does :: "'a prog \<Rightarrow> (call \<times> reply) list \<Rightarrow> 'a prog \<Rightarrow> bool" where
  does_nil [intro]: "does p [] p"
| does_tau [intro]: "does p es q \<Longrightarrow> does (Tau p) es q"
| does_call [intro]: "does (k r) es q \<Longrightarrow> does (Call c k) ((c, r) # es) q"

inductive_simps does_Call [simp]: "does (Call c k) (e # es) q"
inductive_simps does_Done [simp]: "does (Done e) es q"

text \<open>The run with a kernel that is a function on its state; \<open>None\<close> when it never ends.\<close>

partial_function (option) run :: "(call \<Rightarrow> 'w \<Rightarrow> reply \<times> 'w) \<Rightarrow> 'a prog \<Rightarrow> 'w \<Rightarrow> ('a ending \<times> 'w) option" where
  "run kern p w = (case p of
      Done e \<Rightarrow> Some (e, w)
    | Tau q \<Rightarrow> run kern q w
    | Call c k \<Rightarrow> (case kern c w of (r, w) \<Rightarrow> run kern (k r) w))"

section \<open>Laws\<close>

lemma bindp_simps [simp]:
  "bindp (Done e) f = after f e" "bindp (Tau p) f = Tau (bindp p f)"
  "bindp (Call c k) f = Call c (\<lambda>r. bindp (k r) f)"
  by (subst bindp.code, simp)+

lemma rounds_simps [simp]:
  "rounds b (Ret (Inl s)) = Tau (loop b s)" "rounds b (Ret (Inr a)) = Ret a" "rounds b (Exit n) = Exit n"
  "rounds b (Crash e) = Crash e" "rounds b (Tau p) = Tau (rounds b p)" "rounds b (Call c k) = Call c (\<lambda>r. rounds b (k r))"
  by (subst rounds.code, simp add: loop_def)+

lemma run_simps [simp]:
  "run kern (Done e) w = Some (e, w)" "run kern (Tau q) w = run kern q w"
  "run kern (Call c k) w = (case kern c w of (r, w) \<Rightarrow> run kern (k r) w)"
  by (subst run.simps, simp)+

lemma pure_simps [simp]: "pure (Inl e) f = Crash e" "pure (Inr x) f = f x"
  by (simp_all add: pure_def)

lemma does_trans: "does p es q \<Longrightarrow> does q fs r \<Longrightarrow> does p (es @ fs) r"
  by (induction rule: does.induct) auto

lemma outs_through [simp]: "bindp (outs ss p) f = outs ss (bindp p f)" "rounds b (outs ss q) = outs ss (rounds b q)"
  by (induction ss) simp_all

lemma does_outs: "does p es q \<Longrightarrow> does (outs ss p) (map (\<lambda>s. (SYS_write 1 s, r)) ss @ es) q"
  by (induction ss) auto

lemma run_bindp:
  fixes p :: "'a prog" and w :: 'w
  assumes "run kern p w = Some (e, w')"
  shows "run kern (bindp p f) w = run kern (after f e) w'"
proof -
  have "run kern (bindp p f) w = run kern (after f (fst (e, w'))) (snd (e, w'))"
  proof (rule run.raw_induct [of "\<lambda>kern p w r. run kern (bindp p f) w = run kern (after f (fst r)) (snd r)", OF _ assms])
    fix R kern and p :: "'a prog" and w :: 'w and r
    assume IH: "\<And>kern p w r. R kern p w = Some r \<Longrightarrow> run kern (bindp p f) w = run kern (after f (fst r)) (snd r)"
      and step: "(case p of Done e \<Rightarrow> Some (e, w) | Tau q \<Rightarrow> R kern q w
        | Call c k \<Rightarrow> (case kern c w of (r, w) \<Rightarrow> R kern (k r) w)) = Some r"
    show "run kern (bindp p f) w = run kern (after f (fst r)) (snd r)"
      using step IH by (cases p) (auto split: prod.splits)
  qed
  then show ?thesis by simp
qed

section \<open>cat\<close>

text \<open>
  What a program expects of the kernel: \<open>rest fd w\<close> is what is still to be read from a descriptor, \<open>out w\<close> what has been written to
  the standard output, \<open>files\<close> what opening a path gives. A read may deliver less than asked for, but nothing only at the end.
\<close>

definition file_kernel :: "(call \<Rightarrow> 'w \<Rightarrow> reply \<times> 'w) \<Rightarrow> (int \<Rightarrow> 'w \<Rightarrow> u8 list) \<Rightarrow> ('w \<Rightarrow> u8 list) \<Rightarrow> (u8 list \<Rightarrow> u8 list option) \<Rightarrow> bool" where
  "file_kernel kern rest out files \<longleftrightarrow>
     (\<forall>fd n w. 0 < n \<longrightarrow> (\<exists>k w'. kern (SYS_read fd n) w = ((int k, take k (rest fd w)), w') \<and> k \<le> n \<and> k \<le> length (rest fd w) \<and>
        (k = 0 \<longleftrightarrow> rest fd w = []) \<and> rest fd w' = drop k (rest fd w) \<and> out w' = out w)) \<and>
     (\<forall>bs w. \<exists>w'. kern (SYS_write 1 bs) w = ((int (length bs), []), w') \<and> (\<forall>fd. rest fd w' = rest fd w) \<and> out w' = out w @ bs) \<and>
     (\<forall>p w. \<exists>fd w'. kern (SYS_open p 0) w = ((fd, []), w') \<and> out w' = out w \<and>
        (case files p of None \<Rightarrow> fd < 0 | Some c \<Rightarrow> 0 \<le> fd \<and> rest fd w' = c)) \<and>
     (\<forall>fd w. \<exists>r w'. kern (SYS_close fd) w = (r, w') \<and> out w' = out w)"

lemma file_kernelD:
  assumes "file_kernel kern rest out files"
  shows "0 < n \<Longrightarrow> \<exists>k w'. kern (SYS_read fd n) w = ((int k, take k (rest fd w)), w') \<and> k \<le> n \<and> k \<le> length (rest fd w) \<and>
      (k = 0 \<longleftrightarrow> rest fd w = []) \<and> rest fd w' = drop k (rest fd w) \<and> out w' = out w"
    "\<exists>w'. kern (SYS_write 1 bs) w = ((int (length bs), []), w') \<and> (\<forall>fd. rest fd w' = rest fd w) \<and> out w' = out w @ bs"
    "\<exists>fd w'. kern (SYS_open p 0) w = ((fd, []), w') \<and> out w' = out w \<and>
      (case files p of None \<Rightarrow> fd < 0 | Some c \<Rightarrow> 0 \<le> fd \<and> rest fd w' = c)"
    "\<exists>r w'. kern (SYS_close fd) w = (r, w') \<and> out w' = out w"
  using assms unfolding file_kernel_def by blast+

lemma run_outs:
  assumes "file_kernel kern rest out files"
  shows "\<exists>w'. run kern (outs ss p) w = run kern p w' \<and> out w' = out w @ concat ss"
proof (induction ss arbitrary: w)
  case (Cons s ss)
  obtain v where v: "kern (SYS_write 1 s) w = ((int (length s), []), v)" "out v = out w @ s"
    using file_kernelD(2) [OF assms] by blast
  obtain w' where "run kern (outs ss p) v = run kern p w'" "out w' = out v @ concat ss" using Cons by blast
  then show ?case using v by auto
qed auto

lemma cat_copies:
  assumes K: "file_kernel kern rest out files" and b: "buf \<noteq> []"
  shows "\<exists>buf' w'. run kern (cat fd buf) w = Some (Value buf', w') \<and> buf' \<noteq> [] \<and> out w' = out w @ rest fd w"
  using b
proof (induction "length (rest fd w)" arbitrary: w buf rule: less_induct)
  case less
  obtain k v where v: "kern (SYS_read fd (length buf)) w = ((int k, take k (rest fd w)), v)" "k \<le> length buf"
      "k \<le> length (rest fd w)" "k = 0 \<longleftrightarrow> rest fd w = []" "rest fd v = drop k (rest fd w)" "out v = out w"
    using file_kernelD(1) [OF K, of "length buf"] less.prems by blast
  let ?buf = "overwrite buf (take k (rest fd w))"
  have buf: "take k ?buf = take k (rest fd w)" "?buf \<noteq> []" using v(2,3) less.prems by (auto simp: overwrite_def)
  show ?case
  proof (cases "k = 0")
    case True
    then have "run kern (cat fd buf) w = Some (Value ?buf, v)" using v(1) by (simp add: cat_def loop_def cat_round_def Let_def)
    then show ?thesis using buf(2) v(4,6) True by simp
  next
    case False
    obtain u where u: "kern (SYS_write 1 (take k (rest fd w))) v = ((int (length (take k (rest fd w))), []), u)"
        "rest fd u = rest fd v" "out u = out v @ take k (rest fd w)"
      using file_kernelD(2) [OF K] by blast
    have step: "run kern (cat fd buf) w = run kern (cat fd ?buf) u"
      using v(1,3) u(1) buf(1) False by (simp add: cat_def loop_def cat_round_def Let_def)
    have "length (rest fd u) < length (rest fd w)" using u(2) v(3,5) False by simp
    from less.hyps [OF this buf(2)] obtain buf' w' where
      "run kern (cat fd ?buf) u = Some (Value buf', w')" "buf' \<noteq> []" "out w' = out u @ rest fd u" by blast
    then show ?thesis using step u(2,3) v(5,6) by simp
  qed
qed

lemma not_found_msg: "uprintf (str ''%s: not found'' @ [10]) [VStr (Some p)] = Inr (p # map (\<lambda>c. [c]) (str '': not found'' @ [10]))"
  by (simp add: str_def)

lemma cat_files_copy:
  assumes K: "file_kernel kern rest out files" and qs: "\<forall>p\<in>set qs. files p \<noteq> None" and rs: "rs = [] \<or> files (hd rs) = None"
    and b: "buf \<noteq> []"
  shows "\<exists>w'. run kern (cat_files (qs @ rs) buf) w = Some (Exited (if rs = [] then 0 else 1), w') \<and>
     out w' = out w @ concat (map (\<lambda>p. the (files p)) qs) @ (if rs = [] then [] else hd rs @ str '': not found'' @ [10])"
  using qs b
proof (induction qs arbitrary: w buf)
  case Nil
  show ?case
  proof (cases rs)
    case (Cons p ps)
    obtain fd v where v: "kern (SYS_open p 0) w = ((fd, []), v)" "out v = out w" "fd < 0"
      using file_kernelD(3) [OF K, of p w] rs Cons by auto
    let ?ss = "p # map (\<lambda>c. [c]) (str '': not found'' @ [10])"
    obtain w' where "run kern (outs ?ss (Exit 1 :: unit prog)) v = run kern (Exit 1 :: unit prog) w'" "out w' = out v @ concat ?ss"
      using run_outs [OF K] by blast
    then show ?thesis using v Cons by (auto simp: printf_def not_found_msg simp del: outs.simps)
  qed simp
next
  case (Cons p qs)
  then obtain c where c: "files p = Some c" by auto
  obtain fd v where v: "kern (SYS_open p 0) w = ((fd, []), v)" "out v = out w" "0 \<le> fd" "rest fd v = c"
    using file_kernelD(3) [OF K, of p w] c by auto
  obtain buf' u where u: "run kern (cat fd buf) v = Some (Value buf', u)" "buf' \<noteq> []" "out u = out v @ c"
    using cat_copies [OF K Cons.prems(2), of fd v] v(4) by blast
  obtain r x where x: "kern (SYS_close fd) u = (r, x)" "out x = out u" using file_kernelD(4) [OF K] by blast
  have "run kern (cat_files ((p # qs) @ rs) buf) w = run kern (cat_files (qs @ rs) buf') x"
    using v(1,3) x(1) by (simp add: run_bindp [OF u(1)])
  moreover have "\<forall>p\<in>set qs. files p \<noteq> None" using Cons.prems(1) by simp
  then obtain w' where "run kern (cat_files (qs @ rs) buf') x = Some (Exited (if rs = [] then 0 else 1), w')"
      "out w' = out x @ concat (map (\<lambda>p. the (files p)) qs) @ (if rs = [] then [] else hd rs @ str '': not found'' @ [10])"
    using Cons.IH u(2) by blast
  ultimately show ?case using x(2) u(3) v(2) c by simp
qed

section \<open>init\<close>

lemma does_bindp: "does p es q \<Longrightarrow> does (bindp p f) es (bindp q f)"
  by (induction rule: does.induct) auto

lemma does_rounds: "does p es q \<Longrightarrow> does (rounds b p) es (rounds b q)"
  by (induction rule: does.induct) auto

lemma does_loop: "does (b s) es (Ret (Inl t)) \<Longrightarrow> does (loop b s) es (loop b t)"
  using does_rounds [of "b s" es "Ret (Inl t)" b] does_trans [of _ es _ "[]"] unfolding loop_def [of b s] by fastforce

lemma init_waits:
  assumes "\<forall>x\<in>set xs. fst x \<noteq> pid"
  shows "does (init_wait pid) (map (Pair SYS_wait) xs @ [(SYS_wait, (pid, c))]) (Ret ())"
  using assms
proof (induction xs)
  case Nil
  show ?case by (simp add: init_wait_def loop_def)
next
  case (Cons x xs)
  obtain n bs where x: "x = (n, bs)" by fastforce
  have "does (init_wait pid) (map (Pair SYS_wait) xs @ [(SYS_wait, (pid, c))]) (Ret ())" using Cons by simp
  then have "does (Tau (init_wait pid)) (map (Pair SYS_wait) xs @ [(SYS_wait, (pid, c))]) (Ret ())" by blast
  then show ?case using Cons.prems x
    unfolding init_wait_def by (subst loop_def) simp
qed

lemma init_restarts:
  assumes "\<forall>x\<in>set xs. fst x \<noteq> pid" "pid \<noteq> 0"
  shows "does init_loop ((SYS_fork, (pid, b)) # map (Pair SYS_wait) xs @ [(SYS_wait, (pid, c))]) init_loop"
  unfolding init_loop_def
proof (rule does_loop)
  have "does (bindp (init_wait pid) (\<lambda>_. Ret (Inl ()))) (map (Pair SYS_wait) xs @ [(SYS_wait, (pid, c))])
      (bindp (Ret ()) (\<lambda>_. Ret (Inl ()) :: (unit + unit) prog))"
    by (rule does_bindp [OF init_waits [OF assms(1)]])
  then show "does (init_round ()) ((SYS_fork, (pid, b)) # map (Pair SYS_wait) xs @ [(SYS_wait, (pid, c))]) (Ret (Inl ()))"
    using assms(2) by (simp add: init_round_def)
qed

lemma init_child_forks: "does init_loop [(SYS_fork, (0, b)), (SYS_exec (str ''sh'') [str ''sh''], r)] init_loop"
  unfolding init_loop_def by (rule does_loop) (simp add: init_round_def)

section \<open>sh\<close>

text \<open>
  The stack and the constants of the shell do not touch: separators at \<open>ws\<close>, the line of 128 bytes at \<open>buf\<close>.
\<close>

definition sh_ready :: "u64 \<Rightarrow> u64 \<Rightarrow> utok \<Rightarrow> bool" where
  "sh_ready ws buf s \<longleftrightarrow> cstr (tk_mem s) ws seps \<and> ws \<noteq> 0 \<and> unat ws + 4 \<le> 2 ^ 64 \<and> buf \<noteq> 0 \<and> unat buf + 128 < 2 ^ 64 \<and>
     (unat ws + 4 \<le> unat buf \<or> unat buf + 128 \<le> unat ws)"

lemma put_bytes_apply:
  "unat a + length bs \<le> 2 ^ 64 \<Longrightarrow>
     put_bytes m a bs x = (if unat a \<le> unat x \<and> unat x < unat a + length bs then bs ! (unat x - unat a) else m x)"
proof (induction bs arbitrary: m a)
  case (Cons b bs)
  show ?case
  proof (cases "bs = []")
    case True
    then show ?thesis by (auto simp: word_unat_eq_iff)
  next
    case False
    then have a1: "unat (a + 1) = unat a + 1" using Cons.prems unat_byte [of a 2 1] by (cases bs) auto
    then have "unat (a + 1) + length bs \<le> 2 ^ 64" using Cons.prems by simp
    note IH = Cons.IH [OF this, of "m(a := b)"]
    show ?thesis
      unfolding put_bytes.simps IH a1 by (auto simp: nth_Cons' word_unat_eq_iff)
  qed
qed auto

lemma cstr_of_tape: "tape m a xs \<Longrightarrow> 0 \<notin> set xs \<Longrightarrow> m (a + of_nat (length xs)) = 0 \<Longrightarrow> cstr m a xs"
  using cstr_append [of m a xs "[]"] by simp

lemma tape_nth: "(\<forall>i<length bs. m (a + of_nat i) = bs ! i) \<Longrightarrow> tape m a bs"
proof (induction bs arbitrary: a)
  case (Cons b bs)
  have "m (a + 1 + of_nat i) = bs ! i" if "i < length bs" for i
    using Cons.prems [rule_format, of "Suc i"] that by (simp add: algebra_simps)
  then show ?case using Cons.IH [of "a + 1"] Cons.prems [rule_format, of 0] by simp
qed simp

text \<open>What \<open>read_cmd\<close> leaves in memory.\<close>

definition line_read :: "u64 \<Rightarrow> u8 list \<Rightarrow> utok \<Rightarrow> utok" where
  "line_read buf l s = s\<lparr>tk_mem := put_bytes (umemset (tk_mem s) buf 0 128) buf l\<rparr>"

lemma unat_diff_less:
  fixes x d :: u64
  assumes "unat d + n \<le> 2 ^ 64"
  shows "unat (x - d) < n \<longleftrightarrow> unat d \<le> unat x \<and> unat x < unat d + n"
proof (cases "d \<le> x")
  case True
  then have "unat d \<le> unat x" by (simp add: word_le_nat_alt)
  moreover have "unat (x - d) = unat x - unat d" using True by (rule unat_sub)
  ultimately show ?thesis by linarith
next
  case False
  then have "unat (x - d) = unat x + 2 ^ 64 - unat d" "unat x < unat d"
    using unat_sub_if' [of x d] by (simp_all add: word_le_nat_alt not_le)
  then show ?thesis using assms by linarith
qed

lemma line_read_ok:
  assumes "sh_ready ws buf s" "length l < 128" "0 \<notin> set l"
  shows "text_at (tk_mem (line_read buf l s)) ws buf l"
proof -
  have b: "unat buf + 128 < 2 ^ 64" "unat buf + length l \<le> 2 ^ 64" using assms(1,2) by (auto simp: sh_ready_def)
  let ?z = "umemset (tk_mem s) buf 0 128" and ?m = "tk_mem (line_read buf l s)"
  have m: "?m x = (if unat buf \<le> unat x \<and> unat x < unat buf + length l then l ! (unat x - unat buf) else ?z x)" for x
    by (simp add: line_read_def put_bytes_apply [OF b(2)])
  have z: "?z x = (if unat buf \<le> unat x \<and> unat x < unat buf + 128 then 0 else tk_mem s x)" for x
    using unat_diff_less [of buf 128 x] b(1) by (simp add: ulib_mem memset_filled filled_def)
  have "tape ?m buf l"
  proof (rule tape_nth, intro allI impI)
    fix i assume i: "i < length l"
    then have "unat (buf + of_nat i) = unat buf + i" using b assms(2) by (intro unat_forward) simp
    then show "?m (buf + of_nat i) = l ! i" using i by (simp add: m)
  qed
  moreover have "?m (buf + of_nat (length l)) = 0"
  proof -
    have "unat (buf + of_nat (length l)) = unat buf + length l" using b assms(2) by (intro unat_forward) simp
    then show ?thesis using assms(2) by (simp add: m z)
  qed
  ultimately have "cstr ?m buf l" using assms(3) by (intro cstr_of_tape)
  moreover have "cstr ?m ws seps"
  proof (rule cstr_cong)
    have w: "cstr (tk_mem s) ws seps" "unat ws + 4 \<le> 2 ^ 64" "unat ws + 4 \<le> unat buf \<or> unat buf + 128 \<le> unat ws"
      using assms(1) unfolding sh_ready_def by blast+
    show "cstr (tk_mem s) ws seps" by (fact w)
    show "unat ws + length seps < 2 ^ 64" using w(2) by (simp add: seps_def)
    fix x :: u64 assume "unat ws \<le> unat x" "unat x \<le> unat ws + length seps"
    then have "\<not> (unat buf \<le> unat x \<and> unat x < unat buf + 128)" using w(3) by (simp add: seps_def) linarith
    moreover from this have "\<not> (unat buf \<le> unat x \<and> unat x < unat buf + length l)" using assms(2) by linarith
    ultimately show "?m x = tk_mem s x" by (simp only: m z if_False)
  qed
  moreover have "ws \<noteq> 0" "unat ws + 4 \<le> 2 ^ 64" "buf \<noteq> 0" "unat ws + 4 \<le> unat buf \<or> unat buf + length l < unat ws"
    "unat buf + length l < 2 ^ 64"
    using assms(1,2) unfolding sh_ready_def by linarith+
  ultimately show ?thesis unfolding text_at_def by blast
qed

lemma fetch_str_cstr: "cstr m a xs \<Longrightarrow> unat a + length xs < 2 ^ 64 \<Longrightarrow> fetch_str Some a m = Inr xs"
proof (induction xs arbitrary: a)
  case Nil
  then show ?case by (simp add: fetch_str.simps)
next
  case (Cons x xs)
  then have a1: "unat (a + 1) = unat a + 1" using unat_byte [of a 2 1] by simp
  then have "fetch_str Some (a + 1) m = Inr xs" using Cons by simp
  moreover have "a + 1 \<noteq> 0" using a1 by (metis add_is_0 one_neq_zero unat_0)
  ultimately show ?case using Cons.prems by (subst fetch_str.simps) simp
qed

lemma strings_cstr:
  "length ps = length css \<Longrightarrow> \<forall>i<length css. cstr m (ps ! i) (css ! i) \<and> unat (ps ! i) + length (css ! i) < 2 ^ 64 \<Longrightarrow>
     strings m ps = Inr css"
proof (induction ps css rule: list_induct2)
  case (Cons p ps cs css)
  have "fetch_str Some p m = Inr cs" using Cons.prems [rule_format, of 0] by (simp add: fetch_str_cstr)
  moreover have "strings m ps = Inr css"
    using Cons.prems [rule_format, of "Suc i" for i] by (intro Cons.IH) simp
  ultimately show ?case by simp
qed simp

lemma does_prompt:
  assumes "does (pure (parse ws buf (line_read buf l s)) (\<lambda>(argc, ptrs, s).
     if argc < 0 then Ret (Inl s) else pure (strings (tk_mem s) ptrs) (\<lambda>argv. sh_command argv s))) es q" "length l \<le> 128"
  shows "does (sh_round ws buf s) ((SYS_write 1 [36], r) # (SYS_write 1 [32], r') # (SYS_read 0 128, (n, l)) # es) q"
  using assms by (simp add: sh_round_def read_cmd_def Let_def printf_def str_def line_read_def)

text \<open>What the shell takes for the command: the words of the line, the last of them the one that a separator ends.\<close>

definition typed_line :: "u8 list \<Rightarrow> u8 list list \<Rightarrow> bool" where
  "typed_line l argv \<longleftrightarrow> length l < 128 \<and> 0 \<notin> set l \<and> argv \<noteq> [] \<and> length argv < NARG \<and>
     (\<exists>lead wds end. l = lead @ line wds end \<and> set lead \<subseteq> set seps \<and> words_ok wds end \<and> fst (hd wds) \<noteq> [] \<and> argv = map fst wds)"

lemma sh_parses:
  assumes s: "sh_ready ws buf s" and l: "typed_line l argv"
  shows "\<exists>ptrs t. parse ws buf (line_read buf l s) = Inr (int (length argv), ptrs, t) \<and> strings (tk_mem t) ptrs = Inr argv \<and> sh_ready ws buf t"
proof -
  obtain lead wds "end" where w: "l = lead @ line wds end" "set lead \<subseteq> set seps" "words_ok wds end" "fst (hd wds) \<noteq> []"
      "argv = map fst wds"
    using l unfolding typed_line_def by blast
  have n: "wds \<noteq> []" "length wds < NARG" "length l < 128" "0 \<notin> set l" using l w(5) by (auto simp: typed_line_def)
  have "text_at (tk_mem (line_read buf l s)) ws buf l" using line_read_ok [OF s n(3,4)] .
  then have "command_line (tk_mem (line_read buf l s)) ws buf lead wds end" using w by (simp add: command_line_def)
  from parse_words [OF this n(2)] obtain ptrs t where p:
      "parse ws buf (line_read buf l s) = Inr (int (length wds), ptrs, t)" "length ptrs = length wds"
      "\<forall>i<length wds. cstr (tk_mem t) (ptrs ! i) (fst (wds ! i)) \<and> unat (ptrs ! i) + length (fst (wds ! i)) < 2 ^ 64"
      "cstr (tk_mem t) ws seps"
    using n(1) by auto
  have "strings (tk_mem t) ptrs = Inr argv" using p(2,3) w(5) by (intro strings_cstr) simp_all
  moreover have "sh_ready ws buf t" using s p(4) by (simp add: sh_ready_def)
  ultimately show ?thesis using p(1) w(5) by simp
qed

lemma failed_msg: "uprintf (str ''%s failed'' @ [10]) [VStr (Some p)] = Inr (p # map (\<lambda>c. [c]) (str '' failed'' @ [10]))"
  by (simp add: str_def)

text \<open>
  C33. The shell runs what it is told. When a line is typed whose first word is not one of its own commands, it forks;
  the child executes the program of that name with the words of the line as arguments, and if that fails says so and ends with
  status 1; the parent waits and comes back to its prompt, in a state of the same kind.
\<close>

theorem sh_runs_command:
  assumes "sh_ready ws buf s" "typed_line l argv" "hd argv \<noteq> str ''cd''" "hd argv \<noteq> str ''exit''"
  shows "\<exists>t. sh_ready ws buf t \<and>
     (\<forall>r r' n pid u v. pid \<noteq> 0 \<longrightarrow>
        does (sh_main ws buf s) [(SYS_write 1 [36], r), (SYS_write 1 [32], r'), (SYS_read 0 128, (n, l)),
          (SYS_fork, (pid, u)), (SYS_wait, v)] (sh_main ws buf t)) \<and>
     (\<forall>r r' n u v x.
        does (sh_main ws buf s) ([(SYS_write 1 [36], r), (SYS_write 1 [32], r'), (SYS_read 0 128, (n, l)),
          (SYS_fork, (0, u)), (SYS_exec (hd argv) argv, v)] @
          map (\<lambda>m. (SYS_write 1 m, x)) (hd argv # map (\<lambda>c. [c]) (str '' failed'' @ [10]))) (Exit 1))"
proof -
  obtain ptrs t where p: "parse ws buf (line_read buf l s) = Inr (int (length argv), ptrs, t)"
      "strings (tk_mem t) ptrs = Inr argv" "sh_ready ws buf t"
    using sh_parses [OF assms(1,2)] by blast
  have a: "length l \<le> 128" "argv ! 0 = hd argv" using assms(2) by (auto simp: typed_line_def hd_conv_nth)
  have "builtincmd argv = Ret 0" using assms(3,4) a(2) by (simp add: builtincmd_def)
  then have c: "sh_command argv t = Call SYS_fork (\<lambda>(pid, _). if pid = 0
      then Call (SYS_exec (hd argv) argv) (\<lambda>_. printf (str ''%s failed'' @ [10]) [VStr (Some (hd argv))] (Exit 1))
      else Call SYS_wait (\<lambda>_. Ret (Inl t)))"
    unfolding sh_command_def a(2) by simp
  have round: "does (sh_round ws buf s) ((SYS_write 1 [36], r) # (SYS_write 1 [32], r') # (SYS_read 0 128, (n, l)) # es) q"
    if "does (sh_command argv t) es q" for r r' n es q
    using that p(1,2) by (intro does_prompt a(1)) simp
  have parent: "does (sh_main ws buf s) [(SYS_write 1 [36], r), (SYS_write 1 [32], r'), (SYS_read 0 128, (n, l)),
      (SYS_fork, (pid, u)), (SYS_wait, v)] (sh_main ws buf t)" if "pid \<noteq> 0" for r r' n pid u v
    unfolding sh_main_def using that by (intro does_loop round) (simp add: c)
  have child: "does (sh_main ws buf s) ([(SYS_write 1 [36], r), (SYS_write 1 [32], r'), (SYS_read 0 128, (n, l)),
      (SYS_fork, (0, u)), (SYS_exec (hd argv) argv, v)] @
      map (\<lambda>m. (SYS_write 1 m, x)) (hd argv # map (\<lambda>c. [c]) (str '' failed'' @ [10]))) (Exit 1)" for r r' n u v x
  proof -
    have "does (outs (hd argv # map (\<lambda>c. [c]) (str '' failed'' @ [10])) (Exit 1))
        (map (\<lambda>m. (SYS_write 1 m, x)) (hd argv # map (\<lambda>c. [c]) (str '' failed'' @ [10]))) (Exit 1 :: (utok + unit) prog)"
      using does_outs [where p = "Exit 1" and es = "[]" and q = "Exit 1", OF does_nil] by (simp only: append_Nil2)
    then have "does (sh_command argv t) ((SYS_fork, (0, u)) # (SYS_exec (hd argv) argv, v) #
        map (\<lambda>m. (SYS_write 1 m, x)) (hd argv # map (\<lambda>c. [c]) (str '' failed'' @ [10]))) (Exit 1)"
      by (simp add: c printf_def failed_msg del: outs.simps list.map)
    from does_rounds [OF round [OF this], of "sh_round ws buf"] show ?thesis by (simp add: sh_main_def loop_def)
  qed
  show ?thesis using p(3) parent child by blast
qed

text \<open>\<open>ls a\<close> and a newline, with the separators at 0x9000 and the buffer at 0x5000.\<close>

definition demo_shell :: utok where
  "demo_shell = \<lparr>tk_mem = (\<lambda>_. 0)(0x9000 := 32, 0x9001 := 10, 0x9002 := 9), tk_save = 0\<rparr>"

theorem sh_runs_command_witness:
  "\<exists>t. does (sh_main 0x9000 0x5000 demo_shell) [(SYS_write 1 [36], (1, [])), (SYS_write 1 [32], (1, [])),
     (SYS_read 0 128, (5, [108, 115, 32, 97, 10])), (SYS_fork, (7, [])), (SYS_wait, (7, []))] (sh_main 0x9000 0x5000 t)"
proof -
  have "sh_ready 0x9000 0x5000 demo_shell" by (simp add: sh_ready_def demo_shell_def seps_def)
  moreover have "typed_line [108, 115, 32, 97, 10] [[108, 115], [97]]"
    unfolding typed_line_def
    by (intro conjI exI [of _ "[]"] exI [of _ "[([108, 115], 32), ([97], 10)]"] exI [of _ "[]"]) (simp_all add: words_ok_def seps_def)
  ultimately obtain t where
    "\<forall>r r' n pid u v. pid \<noteq> 0 \<longrightarrow> does (sh_main 0x9000 0x5000 demo_shell) [(SYS_write 1 [36], r), (SYS_write 1 [32], r'),
       (SYS_read 0 128, (n, [108, 115, 32, 97, 10])), (SYS_fork, (pid, u)), (SYS_wait, v)] (sh_main 0x9000 0x5000 t)"
    using sh_runs_command [of "0x9000" "0x5000" demo_shell "[108, 115, 32, 97, 10]" "[[108, 115], [97]]"] by (auto simp: str_def)
  then show ?thesis by (intro exI [of _ t]) simp
qed

text \<open>
  C34. cat concatenates. The files named are copied to the standard output in their order, whatever their sizes and however the kernel
  splits the reads, and cat exits with 0; at the first name that does not open it says so and exits with 1.
\<close>

theorem cat_concatenates:
  assumes "file_kernel kern rest out files" "\<forall>p\<in>set qs. files p \<noteq> None" "rs = [] \<or> files (hd rs) = None" "qs @ rs \<noteq> []"
  shows "\<exists>w'. run kern (cat_main (name # qs @ rs)) w = Some (Exited (if rs = [] then 0 else 1), w') \<and>
     out w' = out w @ concat (map (\<lambda>p. the (files p)) qs) @ (if rs = [] then [] else hd rs @ str '': not found'' @ [10])"
proof -
  have "cat_main (name # qs @ rs) = cat_files (qs @ rs) (replicate 512 0)" using assms(4) by (auto simp: cat_main_def Let_def)
  then show ?thesis using cat_files_copy [OF assms(1-3), of "replicate 512 0" w] by simp
qed

text \<open>A kernel with one file, \<open>a\<close>, of two bytes; its state is what is still to be read and what has been written.\<close>

fun demo_kern :: "call \<Rightarrow> u8 list \<times> u8 list \<Rightarrow> reply \<times> (u8 list \<times> u8 list)" where
  "demo_kern (SYS_read fd n) (c, ws) = ((int (min n (length c)), take n c), (drop n c, ws))"
| "demo_kern (SYS_write fd bs) (c, ws) = ((int (length bs), []), (c, ws @ bs))"
| "demo_kern (SYS_open p fl) (c, ws) = (if p = [97] then ((3, []), ([104, 105], ws)) else ((-1, []), (c, ws)))"
| "demo_kern _ w = ((0, []), w)"

lemma demo_kern_ok: "file_kernel demo_kern (\<lambda>_. fst) snd [[97] \<mapsto> [104, 105]]"
proof -
  have "demo_kern (SYS_read fd n) w = ((int (min n (length (fst w))), take (min n (length (fst w))) (fst w)),
      (drop (min n (length (fst w))) (fst w), snd w))" for fd n w
    by (cases w) (simp add: min_def)
  then have "\<exists>k w'. demo_kern (SYS_read fd n) w = ((int k, take k (fst w)), w') \<and> k \<le> n \<and> k \<le> length (fst w) \<and>
      (k = 0 \<longleftrightarrow> fst w = []) \<and> fst w' = drop k (fst w) \<and> snd w' = snd w" if "0 < n" for fd n w
    using that by (intro exI [of _ "min n (length (fst w))"]) (auto simp: min_def split: if_splits)
  then show ?thesis by (auto simp: file_kernel_def)
qed

theorem cat_concatenates_witness:
  "\<exists>w'. run demo_kern (cat_main [[99], [97], [97]]) ([], []) = Some (Exited 0, w') \<and> snd w' = [104, 105, 104, 105]"
  using cat_concatenates [OF demo_kern_ok, of "[[97], [97]]" "[]" "[99]" "([], [])"] by simp

text \<open>
  C35. init keeps a shell running and never ends: each round it starts one, takes the exits of any other children, and starts over when
  the shell's comes. But the child does not exit when \<open>exec\<close> fails: it goes on in the same loop, as a second init that forks again, for
  any number of rounds.
\<close>

theorem init_keeps_a_shell:
  "(\<forall>pid xs b c. pid \<noteq> 0 \<longrightarrow> (\<forall>x\<in>set xs. fst x \<noteq> pid) \<longrightarrow>
      does init_loop ((SYS_fork, (pid, b)) # map (Pair SYS_wait) xs @ [(SYS_wait, (pid, c))]) init_loop) \<and>
   (\<forall>n b r. does init_loop (concat (replicate n [(SYS_fork, (0, b)), (SYS_exec (str ''sh'') [str ''sh''], r)])) init_loop)"
proof (intro conjI allI impI)
  show "does init_loop ((SYS_fork, (pid, b)) # map (Pair SYS_wait) xs @ [(SYS_wait, (pid, c))]) init_loop"
    if "pid \<noteq> 0" "\<forall>x\<in>set xs. fst x \<noteq> pid" for pid xs b c
    using that by (intro init_restarts)
  show "does init_loop (concat (replicate n [(SYS_fork, (0, b)), (SYS_exec (str ''sh'') [str ''sh''], r)])) init_loop" for n b r
  proof (induction n)
    case (Suc n)
    show ?case using does_trans [OF init_child_forks [of b r] Suc] by simp
  qed auto
qed

theorem init_keeps_a_shell_witness:
  "does init_loop [(SYS_fork, (2, [])), (SYS_wait, (5, [])), (SYS_wait, (2, []))] init_loop \<and>
   does init_loop [(SYS_fork, (0, [])), (SYS_exec (str ''sh'') [str ''sh''], (-1, []))] init_loop"
proof -
  have "does init_loop ((SYS_fork, (2, [])) # map (Pair SYS_wait) [(5, [])] @ [(SYS_wait, (2, []))]) init_loop"
    by (rule init_keeps_a_shell [THEN conjunct1, rule_format]) simp_all
  moreover have "does init_loop (concat (replicate 1 [(SYS_fork, (0, [])), (SYS_exec (str ''sh'') [str ''sh''], (-1, []))])) init_loop"
    using init_keeps_a_shell [THEN conjunct2] by blast
  ultimately show ?thesis by simp
qed

end
