(* ===== verification/Fork.thy ===== *)
theory Fork
  imports Procsys
begin

text \<open>
  What fork (kernel/proc.c) promises: the child is a copy of its parent in memory of its own. The pieces are the
  new process (\<open>newproc_spec\<close>), the copy of the address space (\<open>cp_userspace_spec\<close>), the copy of the
  trap frame and the sharing of the open files, for which this theory has the lemmas.
\<close>

unbundle bit_operations_syntax

section \<open>Sharing the open files\<close>

text \<open>\<open>still s t\<close>: memory, pool, locks, the current process and the pid counter are the same.\<close>

definition still :: "'a kproc_scheme \<Rightarrow> 'a kproc_scheme \<Rightarrow> bool" where
  "still s t \<longleftrightarrow> mem t = mem s \<and> freelist t = freelist s \<and> cur t = cur s \<and> next_pid t = next_pid s \<and>
     (\<forall>L. lock_free L t = lock_free L s)"

lemma still_refl [simp]: "still s s"
  by (simp add: still_def)

lemma still_trans: "still s t \<Longrightarrow> still t u \<Longrightarrow> still s u"
  by (simp add: still_def)

lemma still_free_pages: "still s t \<Longrightarrow> free_pages t ps = free_pages s ps"
  by (simp add: still_def free_pages_def)

lemma still_upd [simp]:
  "still s (upd_proc i f t) = still s t" "still s (set_ofile i fd r t) = still s t" "still s (cli_mark t) = still s t"
  by (simp_all add: still_def set_ofile_def)

lemma still_upd_file [simp]: "still s (upd_file i g t) = still s t"
  by (simp add: still_def upd_file_def lock_free_def)

lemma dup_file_spec:
  assumes "lock_free FtableLk s"
  shows "\<exists>t. dup_file f s = Inr t \<and> still s t \<and> procs t = procs s \<and>
     ftable t = (ftable s)[f := (ftable s ! f)\<lparr>f_ref := f_ref (ftable s ! f) + 1\<rparr>]"
proof -
  let ?t = "cli_mark (upd_file f (\<lambda>f. f\<lparr>f_ref := f_ref f + 1\<rparr>) s)"
  have "dup_file f s = Inr ?t"
    using assms by (simp add: dup_file_def locked_upd_file release_locked)
  moreover have "still s ?t" "procs ?t = procs s" by (simp_all add: cli_mark_kfile)
  moreover have "ftable ?t = (ftable s)[f := (ftable s ! f)\<lparr>f_ref := f_ref (ftable s ! f) + 1\<rparr>]" by simp
  ultimately show ?thesis by blast
qed

text \<open>How many of the descriptors \<open>fds\<close> of \<open>fs\<close> name the file \<open>f\<close>.\<close>

definition uses :: "nat option list \<Rightarrow> nat \<Rightarrow> nat list \<Rightarrow> nat" where
  "uses fs f fds = length (filter (\<lambda>fd. fs ! fd = Some f) fds)"

definition shared_ofile :: "nat option list \<Rightarrow> nat list \<Rightarrow> nat option list \<Rightarrow> nat option list" where
  "shared_ofile fs fds old = map (\<lambda>j. if j \<in> set fds \<and> fs ! j \<noteq> None then fs ! j else old ! j) [0..<length old]"

definition more_refs :: "nat option list \<Rightarrow> nat list \<Rightarrow> file_t list \<Rightarrow> file_t list" where
  "more_refs fs fds ft = map (\<lambda>f. (ft ! f)\<lparr>f_ref := f_ref (ft ! f) + int (uses fs f fds)\<rparr>) [0..<length ft]"

lemma shared_ofile_Nil [simp]: "shared_ofile fs [] old = old"
  by (simp add: shared_ofile_def map_nth)

lemma more_refs_Nil [simp]: "more_refs fs [] ft = ft"
  by (simp add: more_refs_def uses_def map_nth)

lemma shared_ofile_Cons:
  "fs ! fd = None \<Longrightarrow> shared_ofile fs (fd # fds) old = shared_ofile fs fds old"
  "fd < length old \<Longrightarrow> fs ! fd = Some f \<Longrightarrow> shared_ofile fs (fd # fds) old = shared_ofile fs fds (old[fd := Some f])"
  by (auto simp: shared_ofile_def nth_list_update)

lemma more_refs_Cons:
  "fs ! fd = None \<Longrightarrow> more_refs fs (fd # fds) ft = more_refs fs fds ft"
  "fs ! fd = Some f \<Longrightarrow>
     more_refs fs (fd # fds) ft = more_refs fs fds (ft[f := (ft ! f)\<lparr>f_ref := f_ref (ft ! f) + 1\<rparr>])"
  by (auto simp: more_refs_def uses_def nth_list_update)

lemma shared_ofile_all: "length fs = n \<Longrightarrow> shared_ofile fs [0..<n] (replicate n None) = fs"
  by (auto simp: shared_ofile_def intro!: nth_equalityI)

lemma dup_fds_spec:
  assumes "lock_free FtableLk s" "new < length (procs s)" "p \<noteq> new"
    "\<forall>fd\<in>set fds. fd < length (p_ofile (procs s ! new))"
  shows "\<exists>t. dup_fds p new fds s = Inr t \<and> still s t \<and>
     procs t = (procs s)[new := (procs s ! new)\<lparr>p_ofile :=
       shared_ofile (p_ofile (procs s ! p)) fds (p_ofile (procs s ! new))\<rparr>] \<and>
     ftable t = more_refs (p_ofile (procs s ! p)) fds (ftable s)"
  using assms
proof (induction fds arbitrary: s)
  case Nil
  then show ?case by simp
next
  case (Cons fd fds)
  let ?fs = "p_ofile (procs s ! p)"
  show ?case
  proof (cases "?fs ! fd")
    case None
    with Cons.IH [OF Cons.prems(1-3)] Cons.prems(4) show ?thesis
      by (simp add: shared_ofile_Cons more_refs_Cons)
  next
    case (Some f)
    obtain t where t: "dup_file f s = Inr t" "still s t" "procs t = procs s"
        "ftable t = (ftable s)[f := (ftable s ! f)\<lparr>f_ref := f_ref (ftable s ! f) + 1\<rparr>]"
      using dup_file_spec [OF Cons.prems(1)] by blast
    let ?u = "set_ofile new fd (Some f) t"
    have pu: "procs ?u = (procs s)[new := (procs s ! new)\<lparr>p_ofile := (p_ofile (procs s ! new))[fd := Some f]\<rparr>]"
      by (simp add: set_ofile_def t(3))
    have nu: "procs ?u ! new = (procs s ! new)\<lparr>p_ofile := (p_ofile (procs s ! new))[fd := Some f]\<rparr>"
        "procs ?u ! p = procs s ! p" "length (procs ?u) = length (procs s)"
      using Cons.prems(2,3) by (simp_all add: pu)
    have "lock_free FtableLk ?u" using t(2) Cons.prems(1) by (simp add: still_def)
    moreover have "new < length (procs ?u)" using nu(3) Cons.prems(2) by simp
    moreover have "\<forall>fd\<in>set fds. fd < length (p_ofile (procs ?u ! new))" using Cons.prems(4) nu(1) by simp
    ultimately obtain w where w: "dup_fds p new fds ?u = Inr w" "still ?u w"
        "procs w = (procs ?u)[new := (procs ?u ! new)\<lparr>p_ofile :=
           shared_ofile (p_ofile (procs ?u ! p)) fds (p_ofile (procs ?u ! new))\<rparr>]"
        "ftable w = more_refs (p_ofile (procs ?u ! p)) fds (ftable ?u)"
      using Cons.IH [of ?u] Cons.prems(3) by blast
    have "procs w = (procs s)[new := (procs s ! new)\<lparr>p_ofile :=
        shared_ofile ?fs (fd # fds) (p_ofile (procs s ! new))\<rparr>]"
      using w(3) Cons.prems(4) Some unfolding nu by (simp add: pu shared_ofile_Cons)
    moreover have "ftable w = more_refs ?fs (fd # fds) (ftable s)"
      using w(4) Some unfolding nu by (simp add: t(4) more_refs_Cons)
    moreover have "still s w" using still_trans [OF _ w(2)] t(2) by simp
    moreover have "dup_fds p new (fd # fds) s = Inr w" using Some t(1) w(1) by simp
    ultimately show ?thesis by blast
  qed
qed

lemma adopt_spec:
  assumes lk: "lock_free FtableLk s" "lock_free ProctableLk s" and new: "new < length (procs s)" "p \<noteq> new"
    and of: "p_ofile (procs s ! new) = replicate NOFILE None" "length (p_ofile (procs s ! p)) = NOFILE"
    and nm: "scan (\<lambda>c. c = 0) (p_name (procs s ! p)) = Some n"
  shows "\<exists>t. adopt p new th s = Inr (p_pid (procs s ! new), t) \<and> still s t \<and>
     procs t = (procs s)[new := (procs s ! new)\<lparr>p_cwd := p_cwd (procs s ! p), p_ofile := p_ofile (procs s ! p),
       p_name := take (n + 1) (p_name (procs s ! p)) @ drop (n + 1) (p_name (procs s ! new)),
       p_state := RUNNABLE, p_parent := Some p, p_th := th \<or> p_th (procs s ! new)\<rparr>] \<and>
     ftable t = more_refs (p_ofile (procs s ! p)) [0..<NOFILE] (ftable s)"
proof -
  let ?s = "upd_proc new (\<lambda>q. q\<lparr>p_cwd := p_cwd (procs s ! p)\<rparr>) s"
  have s: "procs ?s ! p = procs s ! p" "procs ?s ! new = (procs s ! new)\<lparr>p_cwd := p_cwd (procs s ! p)\<rparr>"
      "new < length (procs ?s)" "ftable ?s = ftable s"
    using new by (simp_all add: upd_proc_def)
  have "\<forall>fd\<in>set [0..<NOFILE]. fd < length (p_ofile (procs ?s ! new))" using of(1) by (simp add: s(2) del: upd_proc_simps)
  moreover have "lock_free FtableLk ?s" using lk(1) by simp
  ultimately obtain t where t: "dup_fds p new [0..<NOFILE] ?s = Inr t" "still ?s t"
      "procs t = (procs ?s)[new := (procs ?s ! new)\<lparr>p_ofile :=
         shared_ofile (p_ofile (procs ?s ! p)) [0..<NOFILE] (p_ofile (procs ?s ! new))\<rparr>]"
      "ftable t = more_refs (p_ofile (procs ?s ! p)) [0..<NOFILE] (ftable ?s)"
    using dup_fds_spec [OF _ s(3) new(2)] by blast
  have of': "shared_ofile (p_ofile (procs s ! p)) [0..<NOFILE] (p_ofile (procs s ! new)) = p_ofile (procs s ! p)"
    unfolding of(1) by (rule shared_ofile_all [OF of(2)])
  have pt: "procs t = (procs s)[new := (procs s ! new)\<lparr>p_cwd := p_cwd (procs s ! p), p_ofile := p_ofile (procs s ! p)\<rparr>]"
    unfolding t(3) s(1,2) by (simp add: of')
  have q: "procs t ! p = procs s ! p" "length (procs t) = length (procs s)"
      "procs t ! new = (procs s ! new)\<lparr>p_cwd := p_cwd (procs s ! p), p_ofile := p_ofile (procs s ! p)\<rparr>"
    using new by (simp_all add: pt)
  have lt: "lock_free ProctableLk t" using t(2) lk(2) by (simp add: still_def)
  define nn where "nn = take (n + 1) (p_name (procs s ! p)) @ drop (n + 1) (p_name (procs s ! new))"
  have nc: "name_copy (p_name (procs t ! p)) (p_name (procs t ! new)) = Inr nn"
    by (simp add: q name_copy_def nm nn_def)
  let ?u = "upd_proc new (\<lambda>q. q\<lparr>p_state := RUNNABLE, p_parent := Some p, p_th := th \<or> p_th q\<rparr>)
      (upd_proc new (\<lambda>q. q\<lparr>p_name := nn\<rparr>) t)"
  have lf: "lock_free ProctableLk ?u" using lt by simp
  have ad: "adopt p new th s = Inr (p_pid (procs (cli_mark ?u) ! new), cli_mark ?u)"
    using lt by (simp add: adopt_def t(1) nc locked_kproc_upd release_locked [OF lf] del: cli_mark_simps upd_proc_simps)
  have pid: "p_pid (procs (cli_mark ?u) ! new) = p_pid (procs s ! new)" using new by (simp add: q)
  have "still s (cli_mark ?u)" using t(2) by (simp add: still_def)
  moreover have "procs (cli_mark ?u) = (procs s)[new := (procs s ! new)\<lparr>p_cwd := p_cwd (procs s ! p), p_ofile := p_ofile (procs s ! p),
       p_name := nn, p_state := RUNNABLE, p_parent := Some p, p_th := th \<or> p_th (procs s ! new)\<rparr>]"
    using new by (simp add: pt)
  moreover have "ftable (cli_mark ?u) = more_refs (p_ofile (procs s ! p)) [0..<NOFILE] (ftable s)"
  proof -
    have "ftable (cli_mark ?u) = ftable t" unfolding cli_mark_kfile by (simp add: upd_proc_def)
    then show ?thesis unfolding t(4) s(1,4) .
  qed
  ultimately show ?thesis unfolding nn_def using ad [unfolded pid, unfolded nn_def] by blast
qed

section \<open>The trap frame\<close>

lemma tf_room: "page_aligned k \<Longrightarrow> unat (k + 3824) + 272 \<le> 2 ^ 64"
proof -
  assume "page_aligned k"
  then have "unat k + 4096 \<le> 2 ^ 64" by (rule unat_page_le)
  then have "unat (k + 3824) = unat k + 3824" using unat_add_lem [of k 3824] by simp
  with \<open>unat k + 4096 \<le> 2 ^ 64\<close> show ?thesis by simp
qed

lemma in_page_tf: "unat (x - (k + 3824)) < 272 \<Longrightarrow> in_page k x" for x k :: u64
proof -
  let ?j = "x - (k + 3824)"
  assume j: "unat ?j < 272"
  have "x - k = 3824 + ?j" by simp
  moreover have "unat (3824 + ?j) = 3824 + unat ?j" using j unat_add_lem [of 3824 ?j] by simp
  ultimately have "unat (x - k) < 4096" using j by simp
  then show ?thesis by (simp add: in_page_def)
qed

lemma tf_copy_copied:
  "page_aligned k \<Longrightarrow> page_aligned kp \<Longrightarrow>
   mem (tf_copy (k + 3824) (kp + 3824) s) = copied (mem s) (k + 3824) (kp + 3824) 272"
  using memmove_copied [of "k + 3824" TF_SIZE "kp + 3824" "mem s"] tf_room [of k] tf_room [of kp]
  by (simp add: tf_copy_def memcpy_def)

lemma tf_copy_get:
  assumes "page_aligned k" "page_aligned kp" "f < 34"
  shows "tf_get (k + 3824) (of_nat f) (tf_copy (k + 3824) (kp + 3824) s) = tf_get (kp + 3824) (of_nat f) s"
proof -
  have "copied (mem s) (k + 3824) (kp + 3824) 272 (k + 3824 + 8 * of_nat f + of_nat i) =
      mem s (kp + 3824 + 8 * of_nat f + of_nat i)" if "i < 8" for i
  proof -
    have e: "(k + 3824 + 8 * of_nat f + of_nat i) - (k + 3824) = (of_nat (8 * f + i) :: u64)" by simp
    have "8 * f + i < 272" using assms(3) that by simp
    then have "unat (of_nat (8 * f + i) :: u64) < 272" by (simp add: unat_of_nat_small del: of_nat_add of_nat_mult)
    then show ?thesis unfolding copied_def e by (simp add: algebra_simps)
  qed
  then show ?thesis
    unfolding tf_get_def ld64_def tf_copy_copied [OF assms(1,2)] by (intro get_le_cong) simp
qed

lemma tf_copy_out: "page_aligned k \<Longrightarrow> page_aligned kp \<Longrightarrow> \<not> in_page k x \<Longrightarrow>
   mem (tf_copy (k + 3824) (kp + 3824) s) x = mem s x"
  using in_page_tf [of x k] by (auto simp: tf_copy_copied copied_def)

lemma tf_slot: "f < 34 \<Longrightarrow> k + 3824 + 8 * of_nat f = k + 8 * of_nat (478 + f)" for k :: u64
  by simp

lemma tf_set_get:
  assumes "page_aligned k" "f < 34" "g < 34"
  shows "tf_get (k + 3824) (of_nat f) (tf_set (k + 3824) (of_nat g) w s) =
    (if f = g then w else tf_get (k + 3824) (of_nat f) s)"
proof -
  have a: "aligned8 (k + 8 * of_nat (478 + f))" "aligned8 (k + 8 * of_nat (478 + g))"
    using assms by (simp_all only: slot_aligned8)
  have "k + 8 * of_nat (478 + f) = k + 8 * of_nat (478 + g) \<longleftrightarrow> f = g"
    using slot_eq_iff [of k k "478 + f" "478 + g"] assms by (simp only: ) simp
  then have "ld64 (st64 (mem s) (k + 8 * of_nat (478 + g)) w) (k + 8 * of_nat (478 + f)) =
      (if f = g then w else ld64 (mem s) (k + 8 * of_nat (478 + f)))"
    using ld64_st64 [OF a(2,1), of "mem s" w] by metis
  then show ?thesis
    unfolding tf_get_def tf_set_def tf_slot [OF assms(2)] tf_slot [OF assms(3)] by simp
qed

lemma tf_set_out:
  assumes "page_aligned k" "g < 34" "\<not> in_page k x"
  shows "mem (tf_set (k + 3824) (of_nat g) w s) x = mem s x"
proof -
  have "aligned8 (k + 8 * of_nat (478 + g))" "in_page k (k + 8 * of_nat (478 + g))"
    using assms slot_aligned8 [of k "478 + g"] slot_in_page [of "478 + g" k] by simp_all
  then show ?thesis
    unfolding tf_set_def tf_slot [OF assms(2)] using st64_out_page [OF assms(1), of "k + 8 * of_nat (478 + g)" x] assms(3)
    by simp
qed

section \<open>The address space of the child\<close>

text \<open>
  After \<open>newproc\<close> took the pages \<open>k\<close> and \<open>g\<close>, the page \<open>g\<close> is an empty space and the space of the
  parent is as it was, beside what is left of the pool.
\<close>

lemma spaces_after_newproc:
  assumes old: "uspace s old (k # g # ps)" and fp: "free_pages t ps"
    and out: "\<forall>x. \<not> in_page k x \<longrightarrow> \<not> in_page g x \<longrightarrow> mem t x = mem s x"
    and z: "\<forall>x. in_page g x \<longrightarrow> mem t x = 0"
  shows "uspace t g ps" "mapped (mem t) g = {}" "tables 1 (mem t) g = {g}" "uspace t old ps"
    "mapped (mem t) old = mapped (mem s) old" "foot (mem t) old = foot (mem s) old"
    "foot (mem t) old \<inter> owned t g ps = {}"
    "\<And>q x. q \<in> foot (mem s) old \<Longrightarrow> in_page q x \<Longrightarrow> mem t x = mem s x"
    "\<And>ix. ix \<in> mapped (mem s) old \<Longrightarrow> frame (mem t) old ix = frame (mem s) old ix"
proof -
  have a: "free_pages s (k # g # ps)" "\<forall>q\<in>set (k # g # ps). kern_page q" "foot (mem s) old \<inter> set (k # g # ps) = {}"
    using old by (auto simp: uspace_def aspace_def foot_def owned_def)
  have al: "page_aligned q" if "q \<in> foot (mem s) old \<union> set (k # g # ps)" for q
    using that old a(2)
    by (auto simp: uspace_def aspace_def foot_def frames_def dest: tables_kern kern_page_aligned)
  show ag: "mem t x = mem s x" if "q \<in> foot (mem s) old" "in_page q x" for q x
  proof -
    have "q \<noteq> k" "q \<noteq> g" using a(3) that(1) by auto
    then have "\<not> in_page k x" "\<not> in_page g x" using in_page_disjoint [of q] al that by auto
    then show ?thesis using out by blast
  qed
  then have agt: "\<And>q x. q \<in> tables 1 (mem s) old \<Longrightarrow> in_page q x \<Longrightarrow> mem t x = mem s x"
    by (auto simp: foot_def)
  have sub: "set ps \<subseteq> set (k # g # ps)" by auto
  show "uspace t old ps" "mapped (mem t) old = mapped (mem s) old" and f: "foot (mem t) old = foot (mem s) old"
    by (rule uspace_agree [OF old _ fp sub], erule (1) agt)+
  show "frame (mem t) old ix = frame (mem s) old ix" if "ix \<in> mapped (mem s) old" for ix
  proof -
    have "path_ok 3 ix" "length ix = 3" using that by (simp_all add: mapped_def)
    then have "leaf (mem t) old ix = leaf (mem s) old ix"
      by (rule uspace_agree(4) [OF old _ fp sub, rotated]) (erule (1) agt)
    then show ?thesis by (simp add: frame_def)
  qed
  have g: "\<forall>q\<in>set ps. kern_page q" "kern_page g" "g \<notin> set ps" using a(2) free_pages_ok [OF a(1)] by auto
  show "uspace t g ps" "mapped (mem t) g = {}" and T: "tables 1 (mem t) g = {g}"
    by (rule uspace_root [OF fp g], use z in blast)+
  show "foot (mem t) old \<inter> owned t g ps = {}" using a(3) f T by (auto simp: owned_def)
qed

text \<open>A page outside both spaces and the pool may be written.\<close>

lemma uspace_write_other:
  assumes u: "uspace s pgt ps" and k: "page_aligned k" "k \<notin> foot (mem s) pgt"
    and fp: "free_pages t ps" and out: "\<forall>x. \<not> in_page k x \<longrightarrow> mem t x = mem s x"
  shows "uspace t pgt ps" "mapped (mem t) pgt = mapped (mem s) pgt" "foot (mem t) pgt = foot (mem s) pgt"
    "\<And>q x. q \<in> foot (mem s) pgt \<Longrightarrow> in_page q x \<Longrightarrow> mem t x = mem s x"
    "\<And>ix. ix \<in> mapped (mem s) pgt \<Longrightarrow> frame (mem t) pgt ix = frame (mem s) pgt ix"
proof -
  have al: "page_aligned q" if "q \<in> foot (mem s) pgt" for q
    using that u by (auto simp: uspace_def aspace_def foot_def frames_def dest: tables_kern kern_page_aligned)
  show ag: "mem t x = mem s x" if "q \<in> foot (mem s) pgt" "in_page q x" for q x
    using out in_page_disjoint [OF al [OF that(1)] k(1)] that k(2) by blast
  then have agt: "\<And>q x. q \<in> tables 1 (mem s) pgt \<Longrightarrow> in_page q x \<Longrightarrow> mem t x = mem s x"
    by (auto simp: foot_def)
  show "uspace t pgt ps" "mapped (mem t) pgt = mapped (mem s) pgt" "foot (mem t) pgt = foot (mem s) pgt"
    by (rule uspace_agree [OF u _ fp subset_refl], erule (1) agt)+
  show "frame (mem t) pgt ix = frame (mem s) pgt ix" if "ix \<in> mapped (mem s) pgt" for ix
  proof -
    have "path_ok 3 ix" "length ix = 3" using that by (simp_all add: mapped_def)
    then have "leaf (mem t) pgt ix = leaf (mem s) pgt ix"
      by (rule uspace_agree(4) [OF u _ fp subset_refl, rotated]) (erule (1) agt)
    then show ?thesis by (simp add: frame_def)
  qed
qed

section \<open>fork\<close>

text \<open>
  \<open>space_copied s old t new\<close>: \<open>new\<close> maps in \<open>t\<close> what \<open>old\<close> mapped in \<open>s\<close>, with the same bytes; \<open>old\<close>
  and its bytes are as they were, and the two have no page in common.
\<close>

definition space_copied :: "'a kmem_scheme \<Rightarrow> u64 \<Rightarrow> 'b kmem_scheme \<Rightarrow> u64 \<Rightarrow> bool" where
  "space_copied s old t new \<longleftrightarrow>
     mapped (mem t) new = mapped (mem s) old \<and> mapped (mem t) old = mapped (mem s) old \<and>
     foot (mem t) old = foot (mem s) old \<and> foot (mem t) new \<inter> foot (mem t) old = {} \<and>
     (\<forall>ix\<in>mapped (mem s) old. same_bytes (mem t) (frame (mem t) new ix) (mem s) (frame (mem s) old ix) \<and>
        frame (mem t) old ix = frame (mem s) old ix) \<and>
     (\<forall>q\<in>foot (mem s) old. \<forall>x. in_page q x \<longrightarrow> mem t x = mem s x)"

lemma frames_foot: "ix \<in> mapped m pgt \<Longrightarrow> frame m pgt ix \<in> foot m pgt"
  by (simp add: foot_def frames_def)

lemma space_copied_write:
  assumes c: "space_copied s old t new" and u: "uspace t new qs" "uspace t old qs" and fp: "free_pages v qs"
    and k: "page_aligned k" "k \<notin> foot (mem t) new \<union> foot (mem t) old"
    and out: "\<forall>x. \<not> in_page k x \<longrightarrow> mem v x = mem t x"
  shows "space_copied s old v new" "uspace v new qs" "uspace v old qs"
proof -
  have kn: "k \<notin> foot (mem t) new" "k \<notin> foot (mem t) old" using k(2) by simp_all
  note N = uspace_write_other [OF u(1) k(1) kn(1) fp out] and O = uspace_write_other [OF u(2) k(1) kn(2) fp out]
  show "uspace v new qs" "uspace v old qs" by (fact N(1), fact O(1))
  have fo: "foot (mem t) old = foot (mem s) old" using c by (simp add: space_copied_def)
  have "same_bytes (mem v) (frame (mem v) new ix) (mem s) (frame (mem s) old ix)" "frame (mem v) old ix = frame (mem s) old ix"
    if ix: "ix \<in> mapped (mem s) old" for ix
  proof -
    have m: "ix \<in> mapped (mem t) new" "ix \<in> mapped (mem t) old" using c ix by (auto simp: space_copied_def)
    have "mem v (frame (mem t) new ix + off) = mem t (frame (mem t) new ix + off)" if "unat off < 4096" for off
      using N(4) [OF frames_foot [OF m(1)]] that by (simp add: in_page_def)
    moreover have "same_bytes (mem t) (frame (mem t) new ix) (mem s) (frame (mem s) old ix)"
      using c ix by (simp add: space_copied_def)
    ultimately show "same_bytes (mem v) (frame (mem v) new ix) (mem s) (frame (mem s) old ix)"
      using N(5) [OF m(1)] by (simp add: same_bytes_def)
    show "frame (mem v) old ix = frame (mem s) old ix"
      using O(5) [OF m(2)] c ix by (simp add: space_copied_def)
  qed
  moreover have "mem v x = mem s x" if "q \<in> foot (mem s) old" "in_page q x" for q x
    using O(4) [OF _ that(2)] that fo c by (simp add: space_copied_def)
  ultimately show "space_copied s old v new"
    using c N(2,3) O(2,3) by (auto simp: space_copied_def)
qed

lemma child_space:
  assumes old: "uspace s old (k # g # ps)" and fp: "free_pages t ps"
    and out: "\<forall>x. \<not> in_page k x \<longrightarrow> \<not> in_page g x \<longrightarrow> mem t x = mem s x"
    and z: "\<forall>x. in_page g x \<longrightarrow> mem t x = 0"
    and maps: "mapped (mem s) old = insert (vpath USTACKBOTTOM) (vrange 0x1000 (npages sz))"
      "0x1000 + 4096 * npages sz \<le> unat USTACKBOTTOM"
    and pool: "3 * npages sz + 3 \<le> length ps"
  shows "\<exists>u qs. cp_userspace g old 0x1000 sz t = Inr (0, u) \<and> uspace u g qs \<and> uspace u old qs \<and>
     space_copied s old u g \<and> foot (mem u) g \<subseteq> insert g (set ps) \<and> kmem_frame t u \<and>
     set qs \<subseteq> set ps \<and> (\<forall>x. outside (insert g (set ps)) x \<longrightarrow> mem u x = mem t x)"
proof -
  note S = spaces_after_newproc [OF old fp out z]
  have al: "page_aligned 0x1000" by (simp add: page_aligned_def)
  have m: "mapped (mem t) old = insert (vpath USTACKBOTTOM) (vrange 0x1000 (npages sz))" using S(5) maps(1) by simp
  have b: "unat (0x1000 :: u64) + 4096 * npages sz \<le> unat USTACKBOTTOM" using maps(2) by simp
  obtain u qs where u: "cp_userspace g old 0x1000 sz t = Inr (0, u)" "uspace u g qs" "uspace u old qs"
      "mapped (mem u) g = mapped (mem t) old" "foot (mem u) g \<inter> foot (mem u) old = {}"
      "\<forall>ix\<in>mapped (mem t) old. same_bytes (mem u) (frame (mem u) g ix) (mem t) (frame (mem t) old ix)"
      "\<forall>ix\<in>mapped (mem t) old. leaf (mem u) old ix = leaf (mem t) old ix"
      "\<forall>p\<in>foot (mem t) old. \<forall>x. in_page p x \<longrightarrow> mem u x = mem t x"
      "ugrows g (mapped (mem t) old) t ps u qs"
    using cp_userspace_spec [OF S(1,2,4,7) m al b pool] by blast
  have o: "owned t g ps = insert g (set ps)" using S(3) by (simp add: owned_def)
  note A = apart_ugrows [OF u(9) S(4,7,1)]
  have fg: "foot (mem u) g \<subseteq> insert g (set ps)"
    using u(9) S(2) unfolding ugrows_def o [symmetric] foot_def frames_def owned_def by auto
  have "space_copied s old u g"
    unfolding space_copied_def
  proof (intro conjI ballI allI impI)
    show "mapped (mem u) g = mapped (mem s) old" "mapped (mem u) old = mapped (mem s) old"
        "foot (mem u) old = foot (mem s) old" using u(4) S(5,6) A(2,4) by simp_all
    show "foot (mem u) g \<inter> foot (mem u) old = {}" by (rule u(5))
    show "mem u x = mem s x" if "q \<in> foot (mem s) old" "in_page q x" for q x
      using u(8) S(6,8) that by simp
    fix ix assume ix: "ix \<in> mapped (mem s) old"
    have fr: "frame (mem t) old ix = frame (mem s) old ix" using S(9) [OF ix] .
    have "mem t (frame (mem s) old ix + off) = mem s (frame (mem s) old ix + off)" if "unat off < 4096" for off
      using S(8) [OF frames_foot [OF ix]] that by (simp add: in_page_def)
    then show "same_bytes (mem u) (frame (mem u) g ix) (mem s) (frame (mem s) old ix)"
      using u(6) ix fr S(5) by (simp add: same_bytes_def)
    show "frame (mem u) old ix = frame (mem s) old ix" using u(7) ix S(5) fr by (simp add: frame_def)
  qed
  moreover have "kmem_frame t u" "\<forall>x. outside (insert g (set ps)) x \<longrightarrow> mem u x = mem t x"
      "set qs \<subseteq> set ps"
    using u(9) by (simp_all add: ugrows_def o set_mono_suffix)
  ultimately show ?thesis using u(1-3) fg by blast
qed

lemma kproc_more_ftable: "kproc.more t = kproc.more s \<Longrightarrow> ftable t = ftable s"
  by (cases s; cases t) simp

lemma tf_unchanged:
  assumes "page_aligned k" "f < 34" "\<And>x. in_page k x \<Longrightarrow> mem t x = mem s x"
  shows "tf_get (k + 3824) (of_nat f) t = tf_get (k + 3824) (of_nat f) s"
  unfolding tf_get_def tf_slot [OF assms(2)]
  using assms slot_aligned8 [of k "478 + f"] slot_in_page [of "478 + f" k] by (intro ld64_page_cong [of k]) auto

text \<open>What \<open>fork\<close> does to the registers: those of the parent, with 0 in x0.\<close>

lemma fork_frame:
  assumes al: "page_aligned k" "page_aligned kp" "k \<noteq> kp"
    and t: "t = tf_set (k + 3824) 0 0 (tf_copy (k + 3824) (kp + 3824) s)"
  shows "tf_get (k + 3824) 0 t = 0"
    "\<And>f. 0 < f \<Longrightarrow> f < 34 \<Longrightarrow> tf_get (k + 3824) (of_nat f) t = tf_get (kp + 3824) (of_nat f) s"
    "\<And>f. f < 34 \<Longrightarrow> tf_get (kp + 3824) (of_nat f) t = tf_get (kp + 3824) (of_nat f) s"
    "\<And>x. \<not> in_page k x \<Longrightarrow> mem t x = mem s x"
proof -
  show "tf_get (k + 3824) 0 t = 0"
    unfolding t using tf_set_get [OF al(1), of 0 0 0 "tf_copy (k + 3824) (kp + 3824) s"] by simp
  show "tf_get (k + 3824) (of_nat f) t = tf_get (kp + 3824) (of_nat f) s" if "0 < f" "f < 34" for f
    unfolding t using tf_set_get [OF al(1) that(2), of 0 0 "tf_copy (k + 3824) (kp + 3824) s"]
      tf_copy_get [OF al(1,2) that(2), of s] that(1) by simp
  show out: "mem t x = mem s x" if "\<not> in_page k x" for x
    unfolding t using tf_set_out [OF al(1) _ that, of 0 0 "tf_copy (k + 3824) (kp + 3824) s"]
      tf_copy_out [OF al(1,2) that, of s] by simp
  show "tf_get (kp + 3824) (of_nat f) t = tf_get (kp + 3824) (of_nat f) s" if "f < 34" for f
    using in_page_disjoint [OF al(1,2)] al(3) by (intro tf_unchanged [OF al(2) that] out) blast
qed

text \<open>
  C3. With a free slot and enough free pages, \<open>fork\<close> returns the pid of a child that is a copy of the caller: its
  space maps the same pages with the same bytes in frames of its own, its registers are the parent's
  except that x0 is 0, it has the parent's size, directory, name and open files, whose reference counts grow
  by its descriptors, and it is RUNNABLE with the caller as its parent. The caller's space and registers and
  all other processes are unchanged.
\<close>

theorem fork_clones_process:
  fixes s :: "'a kfile_scheme" and p :: nat
  defines "P \<equiv> procs s ! p"
  assumes p: "cur s = Some p" "p < length (procs s)" "p_state P \<noteq> UNUSED"
    and slot: "scan (\<lambda>q. p_state q = UNUSED) (procs s) = Some i" "procs s ! i = zero_proc"
    and space: "uspace s (p_pgt P) (k # g # ps)"
      "mapped (mem s) (p_pgt P) = insert (vpath USTACKBOTTOM) (vrange 0x1000 (npages (p_size P)))"
      "0x1000 + 4096 * npages (p_size P) \<le> unat USTACKBOTTOM"
    and pool: "3 * npages (p_size P) + 3 \<le> length ps"
    and tf: "p_tf P = kp + 3824" "page_aligned kp" "kp \<notin> set (k # g # ps)"
    and files: "length (p_ofile P) = NOFILE" and name: "scan (\<lambda>c. c = 0) (p_name P) = Some n"
    and lk: "lock_free ProctableLk s" "lock_free PidallocLk s" "lock_free FtableLk s"
  shows "\<exists>t qs. fork s = Inr (next_pid s, t) \<and> cur t = cur s \<and>
     procs t = (procs s)[i := zero_proc\<lparr>p_state := RUNNABLE, p_pid := next_pid s, p_size := p_size P,
       p_ctx := \<lparr>ctx_sp = k + 3824, ctx_x0 = Some i, ctx_lr = Forkret\<rparr>, p_tf := k + 3824,
       p_parent := Some p, p_kstack := k, p_pgt := g, p_cwd := p_cwd P, p_ofile := p_ofile P,
       p_name := take (n + 1) (p_name P) @ drop (n + 1) (replicate 16 0)\<rparr>] \<and>
     ftable t = more_refs (p_ofile P) [0..<NOFILE] (ftable s) \<and>
     uspace t g qs \<and> uspace t (p_pgt P) qs \<and> space_copied s (p_pgt P) t g \<and>
     tf_get (k + 3824) 0 t = 0 \<and>
     (\<forall>f\<in>{1..<34}. tf_get (k + 3824) (of_nat f) t = tf_get (p_tf P) (of_nat f) s) \<and>
     (\<forall>f<34. tf_get (p_tf P) (of_nat f) t = tf_get (p_tf P) (of_nat f) s)"
proof -
  let ?old = "p_pgt P"
  have fp: "free_pages s (k # g # ps)" and kern: "\<forall>q\<in>set (k # g # ps). kern_page q"
    and apart: "foot (mem s) ?old \<inter> set (k # g # ps) = {}"
    using space(1) by (auto simp: uspace_def aspace_def foot_def owned_def)
  have al: "page_aligned k" "page_aligned g" using kern by (auto dest: kern_page_aligned)
  have dist: "k \<noteq> g" "k \<notin> set ps" "k \<noteq> kp" "g \<noteq> kp" using free_pages_ok [OF fp] tf(3) by auto
  have il: "i < length (procs s)" using scan_SomeD(1) [OF slot(1)] .
  have ip: "p \<noteq> i" using p(3) slot(2) by (auto simp: P_def zero_proc_def)
  obtain t where t: "newproc s = Inr (Some i, t)" "free_pages t ps" "next_pid t = next_pid s + 1"
      "procs t = (procs s)[i := (procs s ! i)\<lparr>p_state := CREATED, p_pid := next_pid s,
         p_kstack := k, p_tf := k + 3824, p_pgt := g,
         p_ctx := \<lparr>ctx_sp = k + 3824, ctx_x0 = Some i, ctx_lr = Forkret\<rparr>\<rparr>]"
      "\<forall>x. in_page g x \<longrightarrow> mem t x = 0" "\<forall>L. lock_free L t = lock_free L s" "cur t = cur s"
      "\<forall>x. \<not> in_page k x \<longrightarrow> \<not> in_page g x \<longrightarrow> mem t x = mem s x" "kproc.more t = kproc.more s"
    using newproc_spec [OF fp lk(1,2) slot(1)] by blast
  have pt: "procs t ! p = P" "p_pgt (procs t ! i) = g" "length (procs t) = length (procs s)"
    using ip il by (simp_all add: t(4) P_def)
  obtain u qs where u: "cp_userspace g ?old 0x1000 (p_size P) t = Inr (0, u)" "uspace u g qs" "uspace u ?old qs"
      "space_copied s ?old u g" "foot (mem u) g \<subseteq> insert g (set ps)" "kmem_frame t u"
      "set qs \<subseteq> set ps" "\<forall>x. outside (insert g (set ps)) x \<longrightarrow> mem u x = mem t x"
    using child_space [OF space(1) t(2,8,5) space(2,3) pool] by blast
  note fu = kmem_frame_kproc [OF u(6)]
  let ?w = "upd_proc i (\<lambda>q. q\<lparr>p_size := p_size (procs u ! p)\<rparr>) u"
  let ?v = "tf_set (k + 3824) 0 0 (tf_copy (k + 3824) (kp + 3824) ?w)"
  note F = fork_frame [OF al(1) tf(2) dist(3), of ?v ?w, OF refl]
  let ?child = "zero_proc\<lparr>p_state := CREATED, p_pid := next_pid s, p_kstack := k,
      p_tf := k + 3824, p_pgt := g, p_ctx := \<lparr>ctx_sp = k + 3824, ctx_x0 = Some i, ctx_lr = Forkret\<rparr>, p_size := p_size P\<rparr>"
  have pu: "procs u ! p = P" "p_pgt (procs u ! i) = g" using fu pt by simp_all
  have pw: "procs ?w = (procs s)[i := ?child]" using fu il pu(1) by (simp add: t(4) slot(2))
  have pv: "procs ?v = (procs s)[i := ?child]" "procs ?v ! p = P" "procs ?v ! i = ?child" "length (procs ?v) = length (procs s)"
    using pw ip il by (simp_all add: tf_set_def tf_copy_def P_def del: upd_proc_simps)
  have lv: "lock_free L ?v = lock_free L s" for L
    using fu t(6) by (simp add: tf_set_def tf_copy_def lock_free_def upd_proc_def)
  have new: "i < length (procs ?v)" "p \<noteq> i" using il ip pv(4) by simp_all
  have of: "p_ofile (procs ?v ! i) = replicate NOFILE None" "length (p_ofile (procs ?v ! p)) = NOFILE"
      "scan (\<lambda>c. c = 0) (p_name (procs ?v ! p)) = Some n"
    using files name unfolding pv(2,3) by (simp_all add: zero_proc_def)
  obtain x where x: "adopt p i False ?v = Inr (p_pid (procs ?v ! i), x)" "still ?v x"
      "procs x = (procs ?v)[i := (procs ?v ! i)\<lparr>p_cwd := p_cwd (procs ?v ! p), p_ofile := p_ofile (procs ?v ! p),
       p_name := take (n + 1) (p_name (procs ?v ! p)) @ drop (n + 1) (p_name (procs ?v ! i)),
       p_state := RUNNABLE, p_parent := Some p, p_th := False \<or> p_th (procs ?v ! i)\<rparr>]"
      "ftable x = more_refs (p_ofile (procs ?v ! p)) [0..<NOFILE] (ftable ?v)"
    using adopt_spec [OF _ _ new of, unfolded lv, OF lk(3,1)] by blast
  have "fork s = adopt p i False ?v"
  proof -
    have "p_tf (procs ?w ! i) = k + 3824" "p_tf (procs ?w ! p) = kp + 3824" "p_tf (procs (tf_copy a b ?w) ! i) = k + 3824" for a b
      using pw ip il tf(1) by (simp_all add: tf_copy_def P_def del: upd_proc_simps)
    then show ?thesis
      unfolding fork_def myproc_def p(1) by (simp add: t(1) pt u(1) Let_def del: upd_proc_simps)
  qed
  also have "\<dots> = Inr (next_pid s, x)" unfolding x(1) pv(3) by simp
  finally have 1: "fork s = Inr (next_pid s, x)" .
  have mx: "mem x = mem ?v" "cur x = cur s"
    using x(2) fu t(7) by (simp_all add: still_def tf_set_def tf_copy_def)
  have child: "procs x = (procs s)[i := zero_proc\<lparr>p_state := RUNNABLE, p_pid := next_pid s, p_size := p_size P,
       p_ctx := \<lparr>ctx_sp = k + 3824, ctx_x0 = Some i, ctx_lr = Forkret\<rparr>, p_tf := k + 3824,
       p_parent := Some p, p_kstack := k, p_pgt := g, p_cwd := p_cwd P, p_ofile := p_ofile P,
       p_name := take (n + 1) (p_name P) @ drop (n + 1) (replicate 16 0)\<rparr>]"
    unfolding x(3) [unfolded pv(2,3), unfolded pv(1)] by (simp add: zero_proc_def)
  have ft: "ftable x = more_refs (p_ofile P) [0..<NOFILE] (ftable s)"
  proof -
    have "ftable ?v = ftable u" by (simp add: tf_set_def tf_copy_def upd_proc_def)
    also have "\<dots> = ftable s"
      using kmem_frame_more [OF u(6)] t(9) by (intro kproc_more_ftable) simp
    finally show ?thesis unfolding x(4) pv(2) by simp
  qed
  have out: "\<forall>y. \<not> in_page k y \<longrightarrow> mem x y = mem u y"
    using F(4) by (simp add: mx(1))
  have fx: "free_pages x qs"
  proof -
    have "free_pages u qs" "k \<notin> set qs" using u(2,7) dist(2) by (auto simp: uspace_def aspace_def)
    then have "free_pages (u\<lparr>mem := mem ?v\<rparr>) qs"
      using F(4) by (intro free_pages_write [OF _ al(1)]) simp_all
    then have "free_pages ?v qs"
      by (simp add: free_pages_def lock_free_def tf_set_def tf_copy_def upd_proc_def)
    then show ?thesis using still_free_pages [OF x(2)] by simp
  qed
  have kf: "k \<notin> foot (mem u) g \<union> foot (mem u) ?old"
    using u(4,5) dist(1,2) apart by (auto simp: space_copied_def)
  note C = space_copied_write [OF u(4,2,3) fx al(1) kf out]
  have parent: "tf_get (kp + 3824) (of_nat f) u = tf_get (kp + 3824) (of_nat f) s" if "f < 34" for f
  proof (rule tf_unchanged [OF tf(2) that])
    fix y assume y: "in_page kp y"
    have "\<not> in_page q y" if "q \<in> insert g (set ps) \<union> {k}" for q
      using in_page_disjoint [OF tf(2), of q] that tf(3) kern y kern_page_aligned by auto
    then show "mem u y = mem s y" using u(8) t(8) by (simp add: outside_def)
  qed
  have tx: "tf_get a f x = tf_get a f ?v" and tw: "tf_get a f ?w = tf_get a f u" for a f
    by (simp_all add: tf_get_def mx(1))
  have T: "tf_get (k + 3824) 0 x = 0"
      "\<forall>f\<in>{1..<34}. tf_get (k + 3824) (of_nat f) x = tf_get (kp + 3824) (of_nat f) s"
      "\<forall>f<34. tf_get (kp + 3824) (of_nat f) x = tf_get (kp + 3824) (of_nat f) s"
    unfolding tx using F(1-3) parent by (simp_all add: tw)
  show ?thesis unfolding tf(1) using 1 mx(2) child ft C T by blast
qed

section \<open>Witness\<close>

text \<open>A process with one page of memory and one open file, which runs on the memory \<open>k\<close>.\<close>

definition forker :: "u64 \<Rightarrow> kmem \<Rightarrow> kfile" where
  "forker pgt k = (demo_open (replicate 16 None) 1 0)\<lparr>mem := mem k, freelist := freelist k, cur := Some 0,
     procs := [zero_proc\<lparr>p_state := RUNNING, p_pid := 1, p_size := 4096, p_pgt := pgt, p_tf := 0xffffff8040200ef0,
       p_ofile := Some 0 # replicate 15 None\<rparr>, zero_proc]\<rparr>"

lemma forker_simps [simp]:
  "mem (forker pgt k) = mem k" "freelist (forker pgt k) = freelist k" "cur (forker pgt k) = Some 0"
  "procs (forker pgt k) = [zero_proc\<lparr>p_state := RUNNING, p_pid := 1, p_size := 4096, p_pgt := pgt,
     p_tf := 0xffffff8040200ef0, p_ofile := Some 0 # replicate 15 None\<rparr>, zero_proc]"
  "lock_free L (forker pgt k)"
  using demo_open_simps(13) [of L "replicate 16 None" 1 0] by (simp_all add: forker_def lock_free_def)

theorem fork_clones_process_witness:
  "\<exists>(s :: kfile) t g pid. fork s = Inr (pid, t) \<and> space_copied s (p_pgt (procs s ! 0)) t g \<and>
     vpath 0x1000 \<in> mapped (mem s) (p_pgt (procs s ! 0)) \<and> p_state (procs t ! 1) = RUNNABLE"
proof -
  obtain r ps and s :: kmem where s: "uspace s r ps" "mapped (mem s) r = insert (vpath USTACKBOTTOM) (vrange 0x1000 1)"
      "13 \<le> length ps" "foot (mem s) r \<subseteq> set pages20" "set ps \<subseteq> set pages20"
    by (rule image20)
  obtain k g qs where ps: "ps = k # g # qs" using two_elems [of ps] s(3) by auto
  let ?s = "forker r s"
  have fp: "free_pages ?s ps" using s(1) by (simp add: uspace_def aspace_def free_pages_def)
  have us: "uspace ?s (p_pgt (procs ?s ! 0)) (k # g # qs)"
    using uspace_agree(1) [OF s(1) _ fp subset_refl] by (simp add: ps)
  have n: "npages 4096 = 1" "scan (\<lambda>c. c = 0) (replicate 16 0 :: u8 list) = Some 0"
    by (simp_all add: npages_def scan_Some_iff)
  have kp: "page_aligned 0xffffff8040200000" "0xffffff8040200000 \<notin> set (k # g # qs)"
    using s(5) set_pages_from [of "0xffffff8040100000" 20]
    by (auto simp: ps pages20_def page_aligned_def)
  have "\<exists>t qs. fork ?s = Inr (next_pid ?s, t) \<and> cur t = cur ?s \<and>
     procs t = (procs ?s)[1 := zero_proc\<lparr>p_state := RUNNABLE, p_pid := next_pid ?s, p_size := p_size (procs ?s ! 0),
       p_ctx := \<lparr>ctx_sp = k + 3824, ctx_x0 = Some 1, ctx_lr = Forkret\<rparr>, p_tf := k + 3824,
       p_parent := Some 0, p_kstack := k, p_pgt := g, p_cwd := p_cwd (procs ?s ! 0), p_ofile := p_ofile (procs ?s ! 0),
       p_name := take (0 + 1) (p_name (procs ?s ! 0)) @ drop (0 + 1) (replicate 16 0)\<rparr>] \<and>
     ftable t = more_refs (p_ofile (procs ?s ! 0)) [0..<NOFILE] (ftable ?s) \<and>
     uspace t g qs \<and> uspace t (p_pgt (procs ?s ! 0)) qs \<and> space_copied ?s (p_pgt (procs ?s ! 0)) t g \<and>
     tf_get (k + 3824) 0 t = 0 \<and>
     (\<forall>f\<in>{1..<34}. tf_get (k + 3824) (of_nat f) t = tf_get (p_tf (procs ?s ! 0)) (of_nat f) ?s) \<and>
     (\<forall>f<34. tf_get (p_tf (procs ?s ! 0)) (of_nat f) t = tf_get (p_tf (procs ?s ! 0)) (of_nat f) ?s)"
    by (rule fork_clones_process [OF _ _ _ _ _ us _ _ _ _ kp])
      (use s(2,3) ps in \<open>simp_all add: n zero_proc_def\<close>)
  then obtain t where "fork ?s = Inr (next_pid ?s, t)" "space_copied ?s (p_pgt (procs ?s ! 0)) t g"
      "p_state (procs t ! 1) = RUNNABLE" by (auto simp: zero_proc_def)
  moreover have "vpath 0x1000 \<in> mapped (mem ?s) (p_pgt (procs ?s ! 0))"
    using s(2) by (simp add: vrange_def lessThan_Suc)
  ultimately show ?thesis by blast
qed

end
