(* ===== verification/Userproc.thy ===== *)
theory Userproc
  imports Fork
begin

text \<open>
  The first process: what \<open>userproc_init\<close> (kernel/proc.c) builds with \<open>init_userspace\<close> and \<open>map_ustack\<close>
  (kernel/mm.c) out of the program that is linked into the kernel image.
\<close>

unbundle bit_operations_syntax

lemma kmem_frame_trunc: "kmem_frame s t \<Longrightarrow> lock_free L t = lock_free L s"
  by (cases s, cases t) (auto simp: kmem_frame_def lock_free_def)

text \<open>
  A program of at most one page: \<open>init_userspace\<close> maps one page that holds it, filled up with zeros. The code must not lie
  in a free page.
\<close>

lemma init_userspace_spec:
  assumes u: "uspace s pgt ps" and ps: "3 \<le> length ps" and va: "page_aligned va" "vpath va \<notin> mapped (mem s) pgt"
    and sz: "0 < unat sz" "unat sz \<le> 4096" "unat code + unat sz \<le> 2 ^ 64"
    and code: "\<And>i p. i < unat sz \<Longrightarrow> p \<in> set ps \<Longrightarrow> \<not> in_page p (code + of_nat i)"
  shows "\<exists>t qs. init_userspace pgt va code sz s = Inr t \<and> ugrows pgt {vpath va} s ps t qs \<and>
      leaf (mem t) pgt (vpath va) = leaf_entry (V2P (frame (mem t) pgt (vpath va))) PTE_USER \<and>
      (\<forall>i<4096. mem t (frame (mem t) pgt (vpath va) + of_nat i) = (if i < unat sz then mem s (code + of_nat i) else 0)) \<and>
      length ps \<le> 3 + length qs"
proof -
  obtain p ps1 where psc: "ps = p # ps1" using ps by (cases ps) auto
  have al: "page_aligned p" using u psc by (auto simp: uspace_def aspace_def dest: kern_page_aligned)
  let ?m = "memcpy (zero_page (mem s) p) p code sz"
  have room: "unat p + unat sz \<le> 2 ^ 64" using unat_page_le [OF al] sz(2) by linarith
  have m: "?m = copied (zero_page (mem s) p) p code (unat sz)"
    using memmove_copied [OF room sz(3)] by (simp add: memcpy_def)
  have m_out: "?m x = mem s x" if "\<not> in_page p x" for x
    using that sz(2) by (simp add: m copied_def in_page_def zero_page_apply)
  have m_in: "?m (p + of_nat i) = (if i < unat sz then mem s (code + of_nat i) else 0)" if i: "i < 4096" for i
  proof -
    have "unat (of_nat i :: u64) = i" using i by (simp add: unat_of_nat_small)
    then show ?thesis using i code [of i p] psc by (simp add: m copied_def zero_page_apply in_page_def)
  qed
  have "2 \<le> length ps1" using ps psc by simp
  then obtain s1 t qs where t: "kalloc s = Inr (p, s1)" "p \<noteq> 0" "mem s1 = zero_page (mem s) p"
      "pagemap pgt va (V2P p) PAGESIZE PTE_USER (s1\<lparr>mem := ?m\<rparr>) = Inr t"
      "ugrows pgt {vpath va} s ps t qs" "frame (mem t) pgt (vpath va) = p"
      "leaf (mem t) pgt (vpath va) = leaf_entry (V2P p) PTE_USER"
      "\<forall>x. in_page p x \<longrightarrow> mem t x = ?m x" "length ps1 \<le> 2 + length qs"
    using user_page [OF u [unfolded psc] _ va PTE_PA_attr(1) m_out] psc by blast
  have n: "npages sz = 1" using sz by (simp add: npages_def)
  have "init_userspace pgt va code sz s = Inr t"
    using t(1-4) by (simp add: init_userspace_def n)
  moreover have "mem t (p + of_nat i) = (if i < unat sz then mem s (code + of_nat i) else 0)" if "i < 4096" for i
    using t(8) m_in [OF that] that by (simp add: in_page_def unat_of_nat_small)
  moreover have "length ps \<le> 3 + length qs" using t(9) psc by simp
  ultimately show ?thesis using t(5-7) by auto
qed

lemma map_ustack_spec:
  assumes u: "uspace s pgt ps" and ps: "3 \<le> length ps" and new: "vpath USTACKBOTTOM \<notin> mapped (mem s) pgt"
  shows "\<exists>a t qs. map_ustack pgt s = Inr (a, t) \<and> a \<noteq> 0 \<and> ugrows pgt {vpath USTACKBOTTOM} s ps t qs \<and>
      leaf (mem t) pgt (vpath USTACKBOTTOM) = leaf_entry (V2P a) PTE_UDATA \<and> frame (mem t) pgt (vpath USTACKBOTTOM) = a \<and>
      (\<forall>x. in_page a x \<longrightarrow> mem t x = 0) \<and> length ps \<le> 3 + length qs"
proof -
  obtain p ps1 where psc: "ps = p # ps1" using ps by (cases ps) auto
  have z: "\<not> in_page p x \<Longrightarrow> zero_page (mem s) p x = mem s x" for x by (simp add: zero_page_apply)
  have "2 \<le> length ps1" "page_aligned USTACKBOTTOM" using ps psc by (simp_all add: page_aligned_def)
  then obtain s1 t qs where t: "kalloc s = Inr (p, s1)" "p \<noteq> 0" "mem s1 = zero_page (mem s) p"
      "pagemap pgt USTACKBOTTOM (V2P p) PAGESIZE PTE_UDATA (s1\<lparr>mem := zero_page (mem s) p\<rparr>) = Inr t"
      "ugrows pgt {vpath USTACKBOTTOM} s ps t qs" "frame (mem t) pgt (vpath USTACKBOTTOM) = p"
      "leaf (mem t) pgt (vpath USTACKBOTTOM) = leaf_entry (V2P p) PTE_UDATA"
      "\<forall>x. in_page p x \<longrightarrow> mem t x = zero_page (mem s) p x" "length ps1 \<le> 2 + length qs"
    using user_page [OF u [unfolded psc] _ _ new PTE_PA_attr(2) z] psc by blast
  have s1: "s1\<lparr>mem := zero_page (mem s) p\<rparr> = s1" using t(3) by (metis kmem.surjective kmem.update_convs(1))
  have "map_ustack pgt s = Inr (p, t)" using t(1,2,4) s1 by (simp add: map_ustack_def)
  moreover have "\<forall>x. in_page p x \<longrightarrow> mem t x = 0" using t(8) by (simp add: zero_page_apply)
  moreover have "length ps \<le> 3 + length qs" using t(9) psc by simp
  ultimately show ?thesis using t(2,5-7) by blast
qed

section \<open>userproc\_init\<close>

lemma uspace_same_mem:
  assumes "uspace s pgt ps" "mem t = mem s" "free_pages t ps"
  shows "uspace t pgt ps"
  using assms(1) by (rule uspace_agree(1)) (simp_all add: assms)

lemma frames_owned_foot:
  assumes "ugrows pgt V s ps t qs" "mapped (mem s) pgt = {}"
  shows "foot (mem t) pgt \<subseteq> owned s pgt ps"
  using assms by (auto simp: ugrows_def foot_def frames_def owned_def)

lemma tf_get_cong: "mem t = mem s \<Longrightarrow> tf_get tf f t = tf_get tf f s"
  by (simp add: tf_get_def)

text \<open>The space of a program of one page, out of an empty root table: code and stack.\<close>

lemma first_space:
  fixes s :: "'a kproc_scheme"
  assumes u: "uspace s g ps" "mapped (mem s) g = {}" "tables 1 (mem s) g = {g}" and ps: "6 \<le> length ps"
    and sz: "0 < unat sz" "unat sz \<le> 4096" "unat code + unat sz \<le> 2 ^ 64"
    and cd: "\<And>i p. i < unat sz \<Longrightarrow> p \<in> set ps \<Longrightarrow> \<not> in_page p (code + of_nat i)"
  shows "\<exists>v a w qs. init_userspace g 0x1000 code sz s = Inr v \<and> map_ustack g (upd_proc j f v) = Inr (a, w) \<and>
     kmem_frame s v \<and> kmem_frame (upd_proc j f v) w \<and> uspace w g qs \<and> suffix qs ps \<and>
     mapped (mem w) g = {vpath 0x1000, vpath USTACKBOTTOM} \<and> foot (mem w) g \<subseteq> insert g (set ps) \<and>
     leaf (mem w) g (vpath 0x1000) = leaf_entry (V2P (frame (mem w) g (vpath 0x1000))) PTE_USER \<and>
     leaf (mem w) g (vpath USTACKBOTTOM) = leaf_entry (V2P (frame (mem w) g (vpath USTACKBOTTOM))) PTE_UDATA \<and>
     (\<forall>i<4096. mem w (frame (mem w) g (vpath 0x1000) + of_nat i) = (if i < unat sz then mem s (code + of_nat i) else 0)) \<and>
     (\<forall>x. in_page (frame (mem w) g (vpath USTACKBOTTOM)) x \<longrightarrow> mem w x = 0) \<and>
     (\<forall>x. outside (insert g (set ps)) x \<longrightarrow> mem w x = mem s x) \<and> length ps \<le> 6 + length qs"
proof -
  have own: "owned s g ps = insert g (set ps)" using u(3) by (simp add: owned_def)
  have 0: "page_aligned 0x1000" "vpath 0x1000 \<notin> mapped (mem s) g" "3 \<le> length ps"
    using u(2) ps by (simp_all add: page_aligned_def)
  obtain v rs where v: "init_userspace g 0x1000 code sz s = Inr v" "ugrows g {vpath 0x1000} s ps v rs"
      "leaf (mem v) g (vpath 0x1000) = leaf_entry (V2P (frame (mem v) g (vpath 0x1000))) PTE_USER"
      "\<forall>i<4096. mem v (frame (mem v) g (vpath 0x1000) + of_nat i) = (if i < unat sz then mem s (code + of_nat i) else 0)"
      "length ps \<le> 3 + length rs"
    using init_userspace_spec [OF u(1) 0(3,1,2) sz cd] by blast
  let ?v = "upd_proc j f v"
  have uv: "uspace v g rs" using ugrows_uspace [OF v(2)] .
  then have uv': "uspace ?v g rs" by (rule uspace_same_mem) (use uv in \<open>auto simp: uspace_def aspace_def\<close>)
  have mv: "mapped (mem ?v) g = {vpath 0x1000}" using v(2) u(2) by (simp add: ugrows_def)
  have ne: "vpath 0x1000 \<noteq> vpath USTACKBOTTOM" by (simp add: vpath_def PIDX_def)
  then have "vpath USTACKBOTTOM \<notin> mapped (mem ?v) g" "3 \<le> length rs" using mv v(5) ps by auto
  then obtain a w qs where w: "map_ustack g ?v = Inr (a, w)" "ugrows g {vpath USTACKBOTTOM} ?v rs w qs"
      "leaf (mem w) g (vpath USTACKBOTTOM) = leaf_entry (V2P a) PTE_UDATA" "frame (mem w) g (vpath USTACKBOTTOM) = a"
      "\<forall>x. in_page a x \<longrightarrow> mem w x = 0" "length rs \<le> 3 + length qs"
    using map_ustack_spec [OF uv'] by blast
  have in1: "vpath 0x1000 \<in> mapped (mem ?v) g" using mv by simp
  note F = ugrows_frame [OF uv' w(2) in1]
  have f1: "frame (mem w) g (vpath 0x1000) = frame (mem v) g (vpath 0x1000)" using F(2) [OF in_page_self] by simp
  have l1: "leaf (mem w) g (vpath 0x1000) = leaf (mem v) g (vpath 0x1000)" using w(2) in1 by (simp add: ugrows_def)
  have code: "mem w (frame (mem w) g (vpath 0x1000) + of_nat i) = (if i < unat sz then mem s (code + of_nat i) else 0)"
    if i: "i < 4096" for i
  proof -
    have "in_page (frame (mem ?v) g (vpath 0x1000)) (frame (mem v) g (vpath 0x1000) + of_nat i)"
      using i by (simp add: in_page_def unat_of_nat_small)
    then show ?thesis using F(1) v(4) i f1 by simp
  qed
  have ow: "owned ?v g rs = owned v g rs" by (simp add: owned_def)
  have o1: "owned v g rs \<union> frame (mem v) g ` {vpath 0x1000} \<subseteq> insert g (set ps)"
    using v(2) unfolding ugrows_def own by blast
  have o2: "owned w g qs \<union> frame (mem w) g ` {vpath USTACKBOTTOM} \<subseteq> owned v g rs"
    using w(2) unfolding ugrows_def ow by blast
  have mw: "mapped (mem w) g = {vpath 0x1000, vpath USTACKBOTTOM}" using w(2) mv by (auto simp: ugrows_def)
  have ft: "foot (mem w) g \<subseteq> insert g (set ps)"
    using o1 o2 f1 unfolding foot_def frames_def mw owned_def by auto
  have out: "mem w x = mem s x" if x: "outside (insert g (set ps)) x" for x
  proof -
    have "outside (owned ?v g rs) x" using x o1 unfolding ow outside_def by blast
    then have "mem w x = mem v x" using w(2) by (simp add: ugrows_def)
    also have "\<dots> = mem s x" using x v(2) unfolding ugrows_def own by blast
    finally show ?thesis .
  qed
  have l: "leaf (mem w) g (vpath 0x1000) = leaf_entry (V2P (frame (mem w) g (vpath 0x1000))) PTE_USER"
      "leaf (mem w) g (vpath USTACKBOTTOM) = leaf_entry (V2P (frame (mem w) g (vpath USTACKBOTTOM))) PTE_UDATA"
    using v(3) l1 f1 w(3,4) by simp_all
  have st: "\<forall>x. in_page (frame (mem w) g (vpath USTACKBOTTOM)) x \<longrightarrow> mem w x = 0" using w(4,5) by simp
  have sfx: "suffix qs ps" using v(2) w(2) by (auto simp: ugrows_def intro: suffix_order.trans)
  have fr: "kmem_frame s v" "kmem_frame ?v w" using v(2) w(2) by (simp_all add: ugrows_def)
  have ln: "length ps \<le> 6 + length qs" using v(5) w(6) by simp
  show ?thesis
    by (intro exI [of _ v] exI [of _ a] exI [of _ w] exI [of _ qs] conjI)
      (fact v(1) w(1) fr ugrows_uspace [OF w(2)] sfx mw ft l st ln | use code out in blast)+
qed

text \<open>The three registers that \<open>userproc_init\<close> sets, by their numbers.\<close>

lemma tf_out_regs:
  fixes s :: "'a kproc_scheme"
  assumes "page_aligned k" "\<not> in_page k x"
  shows "mem (tf_set (k + 3824) TF_ELR w s) x = mem s x" "mem (tf_set (k + 3824) TF_SPSR w s) x = mem s x"
    "mem (tf_set (k + 3824) TF_SP w s) x = mem s x"
  using tf_set_out [OF assms(1) _ assms(2), of 31 w s] tf_set_out [OF assms(1) _ assms(2), of 32 w s]
    tf_set_out [OF assms(1) _ assms(2), of 33 w s] by simp_all

lemma tf_get_regs:
  fixes s :: "'a kproc_scheme"
  assumes "page_aligned k" "f < 34"
  shows "tf_get (k + 3824) (of_nat f) (tf_set (k + 3824) TF_ELR w s) = (if f = 31 then w else tf_get (k + 3824) (of_nat f) s)"
    "tf_get (k + 3824) (of_nat f) (tf_set (k + 3824) TF_SPSR w s) = (if f = 32 then w else tf_get (k + 3824) (of_nat f) s)"
    "tf_get (k + 3824) (of_nat f) (tf_set (k + 3824) TF_SP w s) = (if f = 33 then w else tf_get (k + 3824) (of_nat f) s)"
  using tf_set_get [OF assms, of 31 w s] tf_set_get [OF assms, of 32 w s] tf_set_get [OF assms, of 33 w s] by simp_all

definition first_proc :: "int \<Rightarrow> u64 \<Rightarrow> u64 \<Rightarrow> u64 \<Rightarrow> proc" where
  "first_proc pid k g sz = zero_proc\<lparr>p_state := RUNNABLE, p_pid := pid, p_kstack := k, p_tf := k + 3824, p_pgt := g,
     p_ctx := \<lparr>ctx_sp = k + 3824, ctx_x0 = Some 0, ctx_lr = Forkret\<rparr>, p_size := sz,
     p_name := [112, 114, 111, 99, 48, 0] @ replicate 10 0\<rparr>"

text \<open>
  With a fresh process table, eight free pages and a program of at most a page, \<open>userproc_init\<close> returns with the first slot
  runnable: its space maps the program at 0x1000 and a stack, the trap frame starts the program on that stack.
\<close>

lemma userproc_init_spec:
  fixes s :: "'a kproc_scheme"
  assumes pool: "free_pages s (k # g # ps)" "\<forall>p\<in>set (k # g # ps). kern_page p" "6 \<le> length ps"
    and lk: "lock_free ProctableLk s" "lock_free PidallocLk s" and procs: "procs s = replicate NPROC zero_proc"
    and sz: "0 < unat sz" "unat sz \<le> 4096" "unat code + unat sz \<le> 2 ^ 64"
    and cd: "\<forall>i<unat sz. \<forall>p\<in>set (k # g # ps). \<not> in_page p (code + of_nat i)"
  shows "\<exists>t qs. userproc_init code sz s = Inr t \<and> procs t = (procs s)[0 := first_proc (next_pid s) k g sz] \<and>
     initproc t = Some 0 \<and> next_pid t = next_pid s + 1 \<and> (\<forall>L. lock_free L t = lock_free L s) \<and> 
     uspace t g qs \<and> mapped (mem t) g = {vpath 0x1000, vpath USTACKBOTTOM} \<and>
     leaf (mem t) g (vpath 0x1000) = leaf_entry (V2P (frame (mem t) g (vpath 0x1000))) PTE_USER \<and>
     leaf (mem t) g (vpath USTACKBOTTOM) = leaf_entry (V2P (frame (mem t) g (vpath USTACKBOTTOM))) PTE_UDATA \<and>
     (\<forall>i<4096. mem t (frame (mem t) g (vpath 0x1000) + of_nat i) = (if i < unat sz then mem s (code + of_nat i) else 0)) \<and>
     (\<forall>x. in_page (frame (mem t) g (vpath USTACKBOTTOM)) x \<longrightarrow> mem t x = 0) \<and>
     (\<forall>f<34. tf_get (k + 3824) (of_nat f) t = (if f = 31 then 0x1000 else if f = 33 then USTACKTOP else 0)) \<and>
     (\<forall>x. outside (set (k # g # ps)) x \<longrightarrow> mem t x = mem s x) \<and> suffix qs ps \<and> kproc.more t = kproc.more s \<and> cur t = cur s"
proof -
  have i: "scan (\<lambda>p. p_state p = UNUSED) (procs s) = Some 0" using scan_fresh [of 255] by (simp add: procs)
  obtain a where a: "newproc s = Inr (Some 0, a)" "free_pages a ps" "next_pid a = next_pid s + 1"
      "procs a = (procs s)[0 := (procs s ! 0)\<lparr>p_state := CREATED, p_pid := next_pid s,
       p_kstack := k, p_tf := k + 3824, p_pgt := g,
       p_ctx := \<lparr>ctx_sp = k + 3824, ctx_x0 = Some 0, ctx_lr = Forkret\<rparr>\<rparr>]"
      "\<forall>x. in_page g x \<longrightarrow> mem a x = 0" "\<forall>f<34. tf_get (k + 3824) (of_nat f) a = 0"
      "\<forall>L. lock_free L a = lock_free L s" "\<forall>x. \<not> in_page k x \<longrightarrow> \<not> in_page g x \<longrightarrow> mem a x = mem s x"
      "kproc.more a = kproc.more s" "cur a = cur s"
    using newproc_spec [OF pool(1) lk i] by blast
  have ok: "page_aligned k" "page_aligned g" "kern_page g" "k \<notin> insert g (set ps)" "g \<notin> set ps" "\<forall>p\<in>set ps. kern_page p"
    using pool(2) free_pages_ok [OF pool(1)] by (auto dest: kern_page_aligned)
  let ?b = "a\<lparr>initproc := Some 0\<rparr>"
  have fb: "free_pages ?b ps" using a(2) by (simp add: free_pages_def lock_free_def)
  have R: "uspace ?b g ps" "mapped (mem ?b) g = {}" "tables 1 (mem ?b) g = {g}"
    by (rule uspace_root [OF fb ok(6,3,5)], use a(5) in simp)+
  have cdb: "\<not> in_page p (code + of_nat i)" if "i < unat sz" "p \<in> set ps" for i p using cd that by simp
  let ?f = "\<lambda>p. p\<lparr>p_size := sz\<rparr>"
  obtain v c w qs where w: "init_userspace g 0x1000 code sz ?b = Inr v" "map_ustack g (upd_proc 0 ?f v) = Inr (c, w)"
     "kmem_frame ?b v" "kmem_frame (upd_proc 0 ?f v) w" "uspace w g qs" "suffix qs ps"
     "mapped (mem w) g = {vpath 0x1000, vpath USTACKBOTTOM}" "foot (mem w) g \<subseteq> insert g (set ps)"
     "leaf (mem w) g (vpath 0x1000) = leaf_entry (V2P (frame (mem w) g (vpath 0x1000))) PTE_USER"
     "leaf (mem w) g (vpath USTACKBOTTOM) = leaf_entry (V2P (frame (mem w) g (vpath USTACKBOTTOM))) PTE_UDATA"
     "\<forall>i<4096. mem w (frame (mem w) g (vpath 0x1000) + of_nat i) = (if i < unat sz then mem ?b (code + of_nat i) else 0)"
     "\<forall>x. in_page (frame (mem w) g (vpath USTACKBOTTOM)) x \<longrightarrow> mem w x = 0"
     "\<forall>x. outside (insert g (set ps)) x \<longrightarrow> mem w x = mem ?b x" "length ps \<le> 6 + length qs"
    using first_space [OF R pool(3) sz cdb, of 0 ?f] by blast
  have kf: "k \<notin> foot (mem w) g" using w(8) ok(4) by blast
  define nm where "nm = (\<lambda>p :: proc. p\<lparr>p_name := [112, 114, 111, 99, 48, 0] @ drop 6 (p_name p)\<rparr>)"
  define x1 where "x1 = upd_proc 0 nm w"
  define x2 where "x2 = tf_set (k + 3824) 31 0x1000 x1"
  define x3 where "x3 = tf_set (k + 3824) 32 0 x2"
  define x4 where "x4 = tf_set (k + 3824) 33 USTACKTOP x3"
  define t where "t = cli_mark (upd_proc 0 (\<lambda>p. p\<lparr>p_state := RUNNABLE\<rparr>) x4)"
  have mt: "mem t = mem x4" by (simp add: t_def)
  have mx: "mem t x = mem w x" if "\<not> in_page k x" for x
    unfolding mt x4_def x3_def x2_def by (simp only: tf_out_regs [OF ok(1) that]) (simp add: x1_def)
  have fw: "procs w = (procs a)[0 := ?f (procs a ! 0)]" "next_pid w = next_pid s + 1" "initproc w = Some 0"
      "\<forall>L. lock_free L w = lock_free L s"
    using kmem_frame_kproc [OF w(3)] kmem_frame_kproc [OF w(4)] a(3,7) by (simp_all add: lock_free_def)
  have p4: "procs x4 = (procs w)[0 := nm (procs w ! 0)]" "next_pid x4 = next_pid w" "initproc x4 = initproc w"
      "\<forall>L. lock_free L x4 = lock_free L w"
    by (simp_all add: x4_def x3_def x2_def x1_def tf_set_def lock_free_def)
  have tf: "p_tf (procs w ! 0) = k + 3824" "p_pgt (procs v ! 0) = g" "p_pgt (procs a ! 0) = g" 
    using fw(1) a(4) kmem_frame_kproc [OF w(3)] by (simp_all add: procs)
  have lf: "lock_free ProctableLk x4" "lock_free ProctableLk (upd_proc 0 (\<lambda>p. p\<lparr>p_state := RUNNABLE\<rparr>) x4)"
    using p4(4) fw(4) lk(1) by simp_all
  have pv: "p_pgt (procs (upd_proc 0 ?f v) ! 0) = g"
    using tf(2) kmem_frame_kproc [OF w(3)] a(4) by (simp add: procs)
  have x1: "p_tf (procs x1 ! 0) = k + 3824"
    using tf(1) fw(1) a(4) by (simp add: x1_def nm_def procs)
  have ret: "userproc_init code sz s = Inr t"
  proof -
    have "userproc_init code sz s = bnd (acquire ProctableLk x4)
        (\<lambda>s. release ProctableLk (upd_proc 0 (\<lambda>p. p\<lparr>p_state := RUNNABLE\<rparr>) s))"
      using a(1) w(1,2) tf(3) pv x1 unfolding x1_def nm_def x4_def x3_def x2_def
      by (simp add: userproc_init_def Let_def del: upd_proc_simps)
    also have "\<dots> = release ProctableLk (locked ProctableLk (upd_proc 0 (\<lambda>p. p\<lparr>p_state := RUNNABLE\<rparr>) x4))"
      by (simp add: lf(1) locked_kproc_upd)
    also have "\<dots> = Inr t" unfolding t_def by (rule release_locked [OF lf(2)])
    finally show ?thesis .
  qed
  have more: "kproc.more t = kproc.more s"
    using kmem_frame_more [OF w(3)] kmem_frame_more [OF w(4)] a(9)
    by (simp add: t_def x4_def x3_def x2_def x1_def tf_set_def)
  have cur: "cur t = cur s"
    using kmem_frame_kproc [OF w(3)] kmem_frame_kproc [OF w(4)] a(10)
    by (simp add: t_def x4_def x3_def x2_def x1_def tf_set_def)
  have sub: "set qs \<subseteq> set ps" using w(6) by (rule set_mono_suffix)
  have fp: "free_pages t qs"
  proof -
    have "free_pages w qs" using w(5) by (simp add: uspace_def aspace_def)
    moreover have "k \<notin> set qs" using sub ok(4) by blast
    ultimately have "free_pages (w\<lparr>mem := mem t\<rparr>) qs" using ok(1) mx by (intro free_pages_write)
    moreover have "freelist t = freelist w" "lock_free KallocLk t = lock_free KallocLk w"
      by (simp_all add: t_def x4_def x3_def x2_def x1_def tf_set_def lock_free_def)
    ultimately show ?thesis by (simp add: free_pages_def lock_free_def)
  qed
  have mxa: "\<forall>x. \<not> in_page k x \<longrightarrow> mem t x = mem w x" using mx by blast
  note W = uspace_write_other [OF w(5) ok(1) kf fp mxa]
  have p1: "procs t = (procs s)[0 := first_proc (next_pid s) k g sz]"
  proof -
    have "procs t = (procs x4)[0 := (procs x4 ! 0)\<lparr>p_state := RUNNABLE\<rparr>]" by (simp add: t_def)
    then show ?thesis unfolding p4(1) fw(1) a(4) procs
      by (simp add: nm_def first_proc_def zero_proc_def)
  qed
  have p2: "initproc t = Some 0" "next_pid t = next_pid s + 1" "\<forall>L. lock_free L t = lock_free L s"
    using p4(2-4) fw(2-4) by (simp_all add: t_def)
  have in2: "vpath 0x1000 \<in> mapped (mem w) g" "vpath USTACKBOTTOM \<in> mapped (mem w) g" using w(7) by simp_all
  have leaf: "leaf (mem t) g ix = leaf (mem w) g ix" if "ix \<in> mapped (mem w) g" for ix
  proof (rule uspace_agree(4) [OF w(5) _ fp subset_refl])
    show "mem t x = mem w x" if "p \<in> tables 1 (mem w) g" "in_page p x" for p x
      using W(4) [of p x] that by (simp add: foot_def)
  qed (use that in \<open>simp_all add: mapped_def\<close>)
  have l: "leaf (mem t) g (vpath 0x1000) = leaf_entry (V2P (frame (mem t) g (vpath 0x1000))) PTE_USER"
      "leaf (mem t) g (vpath USTACKBOTTOM) = leaf_entry (V2P (frame (mem t) g (vpath USTACKBOTTOM))) PTE_UDATA"
    unfolding leaf [OF in2(1)] leaf [OF in2(2)] W(5) [OF in2(1)] W(5) [OF in2(2)] by (rule w(9), rule w(10))
  have fr: "mem t x = mem w x" if "ix \<in> mapped (mem w) g" "in_page (frame (mem w) g ix) x" for ix x
    using W(4) [OF frames_foot] that by blast
  have cds: "mem ?b (code + of_nat i) = mem s (code + of_nat i)" if "i < unat sz" for i
    using a(8) cd that by simp
  have bytes: "mem t (frame (mem t) g (vpath 0x1000) + of_nat i) = (if i < unat sz then mem s (code + of_nat i) else 0)"
    if i: "i < 4096" for i
  proof -
    have "in_page (frame (mem w) g (vpath 0x1000)) (frame (mem w) g (vpath 0x1000) + of_nat i)"
      using i by (simp add: in_page_def unat_of_nat_small)
    then show ?thesis unfolding W(5) [OF in2(1)] using fr [OF in2(1)] w(11) i cds by simp
  qed
  have stack: "mem t x = 0" if "in_page (frame (mem t) g (vpath USTACKBOTTOM)) x" for x
    using that fr [OF in2(2)] w(12) unfolding W(5) [OF in2(2)] by simp
  have kw: "outside (insert g (set ps)) x" if "in_page k x" for x
  proof -
    have "\<not> in_page p x" if p: "p \<in> insert g (set ps)" for p
    proof
      assume "in_page p x"
      moreover have "page_aligned p" using p ok(2,6) kern_page_aligned by blast
      ultimately have "k = p" using in_page_disjoint [OF ok(1)] \<open>in_page k x\<close> by blast
      then show False using p ok(4) by blast
    qed
    then show ?thesis unfolding outside_def by blast
  qed
  have zk: "tf_get (k + 3824) (of_nat f) w = 0" if f: "f < 34" for f
  proof -
    have "mem w x = mem a x" if "in_page k x" for x using w(13) kw [OF that] by simp
    then have "ld64 (mem w) (k + 8 * of_nat (478 + f)) = ld64 (mem a) (k + 8 * of_nat (478 + f))"
      using f ok(1) by (intro ld64_page_cong [of k] slot_aligned8 slot_in_page) auto
    then have "tf_get (k + 3824) (of_nat f) w = tf_get (k + 3824) (of_nat f) a"
      unfolding tf_get_def tf_slot [OF f] .
    then show ?thesis using a(6) f by simp
  qed
  have regs: "tf_get (k + 3824) (of_nat f) t = (if f = 31 then 0x1000 else if f = 33 then USTACKTOP else 0)" if f: "f < 34" for f
  proof -
    have "tf_get (k + 3824) (of_nat f) t = tf_get (k + 3824) (of_nat f) x4" by (rule tf_get_cong [OF mt])
    moreover have "tf_get (k + 3824) (of_nat f) x1 = tf_get (k + 3824) (of_nat f) w" by (rule tf_get_cong) (simp add: x1_def)
    ultimately show ?thesis
      unfolding x4_def x3_def x2_def by (simp only: tf_get_regs [OF ok(1) f] zk [OF f]) simp
  qed
  have out: "mem t x = mem s x" if x: "outside (set (k # g # ps)) x" for x
  proof -
    have "\<not> in_page k x" "\<not> in_page g x" "outside (insert g (set ps)) x" using x by (auto simp: outside_def)
    then show ?thesis using mx w(13) a(8) by simp
  qed
  have mp: "mapped (mem t) g = {vpath 0x1000, vpath USTACKBOTTOM}" unfolding W(2) by (rule w(7))
  show ?thesis
  proof (intro exI [of _ t] exI [of _ qs] conjI)
    show "\<forall>i<4096. mem t (frame (mem t) g (vpath 0x1000) + of_nat i) = (if i < unat sz then mem s (code + of_nat i) else 0)"
      by (intro allI impI) (rule bytes)
    show "\<forall>x. in_page (frame (mem t) g (vpath USTACKBOTTOM)) x \<longrightarrow> mem t x = 0" by (intro allI impI) (rule stack)
    show "\<forall>f<34. tf_get (k + 3824) (of_nat f) t = (if f = 31 then 0x1000 else if f = 33 then USTACKTOP else 0)"
      by (intro allI impI) (rule regs)
    show "\<forall>x. outside (set (k # g # ps)) x \<longrightarrow> mem t x = mem s x" by (intro allI impI) (rule out)
  qed (fact ret p1 p2 W(1) mp l w(6) more cur)+
qed

end
