(* ===== verification/Mmio.thy ===== *)
theory Mmio
  imports Prelude
begin

text \<open>
  Device registers. Memory-mapped registers and the system registers of the interrupt controller are reached
  through a \<open>bus\<close>, which says what a read answers and what reads and writes do to the devices; the devices
  are not part of the repository. \<open>io_log\<close> is the history of the writes, which no code looks at.
\<close>

datatype sysreg = ICC_IGRPEN1 | ICC_PMR | ICC_IAR1 | ICC_EOIR1 | ICC_SRE

datatype ioaddr = Mem u64 | Sys sysreg

record 'd bus =
  bus_rd :: "ioaddr \<Rightarrow> 'd \<Rightarrow> u32 \<times> 'd"
  bus_wr :: "ioaddr \<Rightarrow> u32 \<Rightarrow> 'd \<Rightarrow> 'd"

record 'd io =
  io_dev :: 'd
  io_log :: "(ioaddr \<times> u32) list"

definition io_rd :: "'d bus \<Rightarrow> ioaddr \<Rightarrow> ('d, 'a) io_scheme \<Rightarrow> u32 \<times> ('d, 'a) io_scheme" where
  "io_rd B a s = (let (x, d) = bus_rd B a (io_dev s) in (x, s\<lparr>io_dev := d\<rparr>))"

definition io_wr :: "'d bus \<Rightarrow> ioaddr \<Rightarrow> u32 \<Rightarrow> ('d, 'a) io_scheme \<Rightarrow> ('d, 'a) io_scheme" where
  "io_wr B a x s = s\<lparr>io_dev := bus_wr B a x (io_dev s), io_log := io_log s @ [(a, x)]\<rparr>"

lemma io_rd_simps [simp]:
  "fst (io_rd B a s) = fst (bus_rd B a (io_dev s))"
  "io_dev (snd (io_rd B a s)) = snd (bus_rd B a (io_dev s))"
  "io_log (snd (io_rd B a s)) = io_log s"
  "io.more (snd (io_rd B a s)) = io.more s"
  by (simp_all add: io_rd_def split_beta)

lemma io_wr_simps [simp]:
  "io_dev (io_wr B a x s) = bus_wr B a x (io_dev s)"
  "io_log (io_wr B a x s) = io_log s @ [(a, x)]"
  "io.more (io_wr B a x s) = io.more s"
  by (simp_all add: io_wr_def)

end
