(* ===== verification/Trap.thy ===== *)
theory Trap
  imports Console Procsys
begin

text \<open>
  kernel/syscall.c, kernel/trap.c, kernel/driver/timer.c: the system call table, the exception and interrupt
  handlers, and the timer interrupt. What the hardware and the rest of the machine supply is the
  record \<open>hw\<close>: the translation of user addresses in force, the device table, what runs while the
  process is off the CPU, and the kernel addresses and constants the calls copy from. A handler answers whether
  the process is gone (it left through \<open>exitproc\<close> and the state is that of its last \<open>cswitch\<close>).

  A string argument is fetched whole before the call; the code reads it as it goes, so that a
  string that runs into an unmapped page may end a path walk with -1 before the fault.
\<close>

unbundle bit_operations_syntax

section \<open>System calls\<close>

record 's hw =
  hw_mmu :: "u64 \<Rightarrow> u64 option"
  hw_cdevs :: "'s cdevs"
  hw_world :: "'s \<Rightarrow> 's res"
  hw_waddr :: "nat \<Rightarrow> u64"               \<comment> \<open>\<open>&proctable.procs[i].ret\<close>\<close>
  hw_stat :: u64                          \<comment> \<open>where \<open>st1\<close> of \<open>fstat\<close> lies\<close>
  hw_pad :: "u8 list"                     \<comment> \<open>what is in its padding\<close>
  hw_utsaddr :: u64
  hw_uts :: "u8 list"                     \<comment> \<open>\<open>aarch64_os\<close>\<close>

definition sysarg :: "u64 \<Rightarrow> nat \<Rightarrow> 'a kmem_scheme \<Rightarrow> u64 res" where
  "sysarg tf n s = (if n < 4 then Inr (tf_get tf (of_nat n) s) else Inl (Panic ''invalid sysarg''))"

text \<open>An \<open>int\<close> result becomes the \<open>u64\<close> that x0 gets; the conversion sign-extends.\<close>

definition int_result :: "(int \<times> 's) res \<Rightarrow> (u64 option \<times> 's) res" where
  "int_result r = bnd r (\<lambda>(n, s). Inr (Some (word_of_int n), s))"

text \<open>The endless loop of wait and waitpid around its rounds; \<open>None\<close> when it never comes to an end.\<close>

partial_function (option) wait_loop :: "('a kproc_scheme \<Rightarrow> (int option \<times> 'a kproc_scheme) res) \<Rightarrow>
    ('a kproc_scheme \<Rightarrow> 'a kproc_scheme res) \<Rightarrow> nat \<Rightarrow> 'a kproc_scheme \<Rightarrow> (int \<times> 'a kproc_scheme) res option" where
  "wait_loop round world me s =
     (case round s of
        Inl e \<Rightarrow> Some (Inl e)
      | Inr (Some r, s) \<Rightarrow> Some (Inr (r, s))
      | Inr (None, s) \<Rightarrow>
          (case bnd (world s) (sleep_exit me ProctableLk) of
             Inl e \<Rightarrow> Some (Inl e)
           | Inr (killed, s) \<Rightarrow> if killed then Some (Inl Exits) else wait_loop round world me s))"

definition wait_for :: "('a kproc_scheme \<Rightarrow> (int option \<times> 'a kproc_scheme) res) \<Rightarrow>
    ('a kproc_scheme \<Rightarrow> 'a kproc_scheme res) \<Rightarrow> 'a kproc_scheme \<Rightarrow> (int \<times> 'a kproc_scheme) res" where
  "wait_for round world s =
     bnd (myproc s) (\<lambda>me. case wait_loop round world me s of None \<Rightarrow> Inl Runaway | Some r \<Rightarrow> r)"

definition path_arg :: "(u64 \<Rightarrow> u64 option) \<Rightarrow> u64 \<Rightarrow> nat \<Rightarrow> 'a kmem_scheme \<Rightarrow> u8 list res" where
  "path_arg mmu tf n s = bnd (sysarg tf n s) (\<lambda>a. fetch_str mmu a (mem s))"

definition sys_getpid :: "u64 \<Rightarrow> 'a kproc_scheme \<Rightarrow> (u64 option \<times> 'a kproc_scheme) res" where
  "sys_getpid tf s = int_result (bnd (getpid s) (\<lambda>pid. Inr (pid, s)))"

definition sys_write :: "'a kfile_scheme hw \<Rightarrow> u64 \<Rightarrow> 'a kfile_scheme \<Rightarrow> (u64 option \<times> 'a kfile_scheme) res" where
  "sys_write h tf s =
     bnd (sysarg tf 0 s) (\<lambda>fd. bnd (sysarg tf 1 s) (\<lambda>buf. bnd (sysarg tf 2 s) (\<lambda>n.
       int_result (fd_write (hw_cdevs h) (hw_mmu h) (ucast fd) buf n s))))"

definition sys_read :: "'a kfile_scheme hw \<Rightarrow> u64 \<Rightarrow> 'a kfile_scheme \<Rightarrow> (u64 option \<times> 'a kfile_scheme) res" where
  "sys_read h tf s =
     bnd (sysarg tf 0 s) (\<lambda>fd. bnd (sysarg tf 1 s) (\<lambda>buf. bnd (sysarg tf 2 s) (\<lambda>n.
       int_result (fd_read (hw_cdevs h) (hw_mmu h) (ucast fd) buf n s))))"

definition sys_exit :: "u64 \<Rightarrow> 'a kfile_scheme \<Rightarrow> (u64 option \<times> 'a kfile_scheme) res" where
  "sys_exit tf s =
     bnd (sysarg tf 0 s) (\<lambda>r. bnd (exit_self (sint (ucast r :: i32)) s) (\<lambda>s. Inr (None, s)))"

definition sys_fork :: "u64 \<Rightarrow> 'a kfile_scheme \<Rightarrow> (u64 option \<times> 'a kfile_scheme) res" where
  "sys_fork tf s = int_result (fork s)"

definition sys_clone :: "u64 \<Rightarrow> 'a kfile_scheme \<Rightarrow> (u64 option \<times> 'a kfile_scheme) res" where
  "sys_clone tf s =
     bnd (sysarg tf 0 s) (\<lambda>fn. bnd (sysarg tf 1 s) (\<lambda>stack. int_result (clone fn stack s)))"

definition sys_wait :: "'a kproc_scheme hw \<Rightarrow> u64 \<Rightarrow> 'a kproc_scheme \<Rightarrow> (u64 option \<times> 'a kproc_scheme) res" where
  "sys_wait h tf s =
     bnd (sysarg tf 0 s) (\<lambda>addr.
       int_result (wait_for (wait_child (hw_mmu h) (hw_waddr h) addr) (hw_world h) s))"

definition sys_exec :: "'a kfile_scheme hw \<Rightarrow> u64 \<Rightarrow> 'a kfile_scheme \<Rightarrow> (u64 option \<times> 'a kfile_scheme) res" where
  "sys_exec h tf s =
     bnd (path_arg (hw_mmu h) tf 0 s) (\<lambda>path. bnd (sysarg tf 1 s) (\<lambda>argv.
       int_result (exec (hw_mmu h) path argv s)))"

definition sys_open :: "'a kfile_scheme hw \<Rightarrow> u64 \<Rightarrow> 'a kfile_scheme \<Rightarrow> (u64 option \<times> 'a kfile_scheme) res" where
  "sys_open h tf s =
     bnd (path_arg (hw_mmu h) tf 0 s) (\<lambda>path. bnd (sysarg tf 1 s) (\<lambda>flags.
       int_result (open_file path (ucast flags) s)))"

definition sys_close :: "u64 \<Rightarrow> 'a kfile_scheme \<Rightarrow> (u64 option \<times> 'a kfile_scheme) res" where
  "sys_close tf s = bnd (sysarg tf 0 s) (\<lambda>fd. int_result (close (ucast fd) s))"

definition sys_fstat :: "'a kfile_scheme hw \<Rightarrow> u64 \<Rightarrow> 'a kfile_scheme \<Rightarrow> (u64 option \<times> 'a kfile_scheme) res" where
  "sys_fstat h tf s =
     bnd (sysarg tf 0 s) (\<lambda>fd. bnd (sysarg tf 1 s) (\<lambda>addr.
       int_result (fstat (hw_mmu h) (hw_stat h) (hw_pad h) (ucast fd) addr s)))"

definition sys_uname :: "'a kproc_scheme hw \<Rightarrow> u64 \<Rightarrow> 'a kproc_scheme \<Rightarrow> (u64 option \<times> 'a kproc_scheme) res" where
  "sys_uname h tf s =
     bnd (sysarg tf 0 s) (\<lambda>addr. int_result (uname (hw_mmu h) (hw_utsaddr h) (hw_uts h) addr s))"

definition sys_chdir :: "'a kfile_scheme hw \<Rightarrow> u64 \<Rightarrow> 'a kfile_scheme \<Rightarrow> (u64 option \<times> 'a kfile_scheme) res" where
  "sys_chdir h tf s = bnd (path_arg (hw_mmu h) tf 0 s) (\<lambda>path. int_result (chdir path s))"

definition sys_mkdir :: "'a kfs_scheme hw \<Rightarrow> u64 \<Rightarrow> 'a kfs_scheme \<Rightarrow> (u64 option \<times> 'a kfs_scheme) res" where
  "sys_mkdir h tf s = bnd (path_arg (hw_mmu h) tf 0 s) (\<lambda>path. int_result (mkdir path s))"

definition sys_mknod :: "'a kfs_scheme hw \<Rightarrow> u64 \<Rightarrow> 'a kfs_scheme \<Rightarrow> (u64 option \<times> 'a kfs_scheme) res" where
  "sys_mknod h tf s =
     bnd (path_arg (hw_mmu h) tf 0 s) (\<lambda>path. bnd (sysarg tf 1 s) (\<lambda>mode. bnd (sysarg tf 2 s) (\<lambda>dv.
       int_result (mknod path (ucast mode) (ucast dv) s))))"

definition sys_dup :: "u64 \<Rightarrow> 'a kfile_scheme \<Rightarrow> (u64 option \<times> 'a kfile_scheme) res" where
  "sys_dup tf s = bnd (sysarg tf 0 s) (\<lambda>fd. int_result (dup (ucast fd) s))"

definition sys_waitpid :: "'a kproc_scheme hw \<Rightarrow> u64 \<Rightarrow> 'a kproc_scheme \<Rightarrow> (u64 option \<times> 'a kproc_scheme) res" where
  "sys_waitpid h tf s =
     bnd (sysarg tf 0 s) (\<lambda>pid. bnd (sysarg tf 1 s) (\<lambda>status.
       int_result (wait_for (wait_pid (hw_mmu h) (hw_waddr h) (sint (ucast pid :: i32)) status) (hw_world h) s)))"

definition sys_sbrk :: "u64 \<Rightarrow> 'a kproc_scheme \<Rightarrow> (u64 option \<times> 'a kproc_scheme) res" where
  "sys_sbrk tf s = bnd (sysarg tf 0 s) (\<lambda>incr. bnd (sbrk (ucast incr) s) (\<lambda>(h, s). Inr (Some h, s)))"

definition sys_kill :: "u64 \<Rightarrow> 'a kproc_scheme \<Rightarrow> (u64 option \<times> 'a kproc_scheme) res" where
  "sys_kill tf s = bnd (sysarg tf 0 s) (\<lambda>pid. int_result (kill (sint (ucast pid :: i32)) 1 s))"

abbreviation NSYSCALL :: nat where "NSYSCALL \<equiv> 19"

definition syscall_table :: "'a kcons_scheme hw \<Rightarrow> (u64 \<Rightarrow> 'a kcons_scheme \<Rightarrow> (u64 option \<times> 'a kcons_scheme) res) list" where
  "syscall_table h =
     [sys_getpid, sys_write h, sys_read h, sys_exit, sys_fork, sys_wait h, sys_exec h, sys_open h, sys_close,
      sys_fstat h, sys_uname h, sys_chdir h, sys_mkdir h, sys_mknod h, sys_dup, sys_clone, sys_waitpid h,
      sys_sbrk, sys_kill]"

definition unknown_syscall :: "u8 list" where
  "unknown_syscall = [117, 110, 107, 110, 111, 119, 110, 32, 115, 121, 115, 99, 97, 108, 108, 10]"

definition syscall :: "'a kcons_scheme hw \<Rightarrow> u64 \<Rightarrow> 'a kcons_scheme \<Rightarrow> (bool \<times> 'a kcons_scheme) res" where
  "syscall h tf s =
     (let n = unat (tf_get tf 6 s) in
      if n < NSYSCALL then
        bnd ((syscall_table h ! n) tf s) (\<lambda>(r, s).
          case r of None \<Rightarrow> Inr (True, s) | Some v \<Rightarrow> Inr (False, tf_set tf 0 v s))
      else bnd (vprintk unknown_syscall [] s) (\<lambda>s. Inr (False, tf_set tf 0 (-1) s)))"

section \<open>Exceptions\<close>

text \<open>\<open>elr\<close>, \<open>far\<close> and \<open>esr\<close> are the registers of the exception; \<open>cf\<close> is the address of \<open>copyio_fault\<close>,
  \<open>paddr\<close> that of the process.\<close>

record fault =
  ft_elr :: u64
  ft_far :: u64
  ft_esr :: u64
  ft_copyio :: u64
  ft_paddr :: "nat \<Rightarrow> u64"

definition abort_msg :: "u8 list" where
  "abort_msg = [101, 108, 114, 32, 37, 112, 32, 102, 97, 114, 32, 37, 112, 10]"

definition fault_die :: "nat option \<Rightarrow> u8 list \<Rightarrow> 'a kcons_scheme \<Rightarrow> 'a kcons_scheme res" where
  "fault_die p why s =
     bnd (vprintk [37, 115, 10] [VStr (Some why)] s) (\<lambda>s. bnd (killproc p 1 s) (\<lambda>(_, s). Inr s))"

definition data_abort_EL0 :: "u8 list" where
  "data_abort_EL0 = [100, 97, 116, 97, 32, 97, 98, 111, 114, 116, 32, 69, 76, 48]"

definition handle_data_abort :: "fault \<Rightarrow> u64 \<Rightarrow> bool \<Rightarrow> 'a kcons_scheme \<Rightarrow> 'a kcons_scheme res" where
  "handle_data_abort f tf user s =
     (case cur s of
        Some p \<Rightarrow>
          if p_fault (procs s ! p) then Inr (tf_set tf 0 (ft_paddr f p) (tf_set tf TF_ELR (ft_copyio f) s))
          else bnd (vprintk abort_msg [VNum (ft_elr f), VNum (ft_far f)] s) (\<lambda>s.
                 if user then fault_die (cur s) data_abort_EL0 s else Inl (Panic ''data abort EL1''))
      | None \<Rightarrow> bnd (vprintk abort_msg [VNum (ft_elr f), VNum (ft_far f)] s) (\<lambda>s.
                 if user then fault_die None data_abort_EL0 s else Inl (Panic ''data abort EL1'')))"

definition handle_inst_abort :: "'a kcons_scheme \<Rightarrow> 'a kcons_scheme res" where
  "handle_inst_abort s = Inl (Panic ''instruction abort'')"

definition esr_ec :: "u64 \<Rightarrow> u64" where
  "esr_ec esr = drop_bit 26 esr AND 0x3f"

definition ksync_handler :: "fault \<Rightarrow> u64 \<Rightarrow> 'a kcons_scheme \<Rightarrow> 'a kcons_scheme res" where
  "ksync_handler f tf s =
     (let ec = esr_ec (ft_esr f) in
      if ec = 0x25 then handle_data_abort f tf False s
      else if ec = 7 then Inr s
      else if ec = 0x26 then Inl (Panic ''sp alignment fault'')
      else if ec = 0x21 then handle_inst_abort s
      else Inl (Panic ''unknown ec: %d''))"

text \<open>\<open>sigcheck\<close> with the end it may lead to.\<close>

definition sigcheck_exit :: "nat \<Rightarrow> 'a kfile_scheme \<Rightarrow> (bool \<times> 'a kfile_scheme) res" where
  "sigcheck_exit p s =
     (case sigcheck p s of (killed, s) \<Rightarrow>
        if killed then bnd (exitproc p 1 s) (\<lambda>s. Inr (True, s)) else Inr (False, s))"

definition usync_handler :: "'a kcons_scheme hw \<Rightarrow> fault \<Rightarrow> u64 \<Rightarrow> 'a kcons_scheme \<Rightarrow> (bool \<times> 'a kcons_scheme) res" where
  "usync_handler h f tf s =
     (let ec = esr_ec (ft_esr f) in
      bnd (if ec = 0x15 then syscall h tf s
           else if ec = 7 then Inr (False, s)
           else if ec = 0x26 then Inl (Panic ''sp alignment fault'')
           else if ec = 0x24 then bnd (handle_data_abort f tf True s) (\<lambda>s. Inr (False, s))
           else if ec = 0x20 then bnd (handle_inst_abort s) (\<lambda>s. Inr (False, s))
           else Inl (Panic ''unknown ec: %d'')) (\<lambda>(gone, s).
        if gone then Inr (True, s) else bnd (myproc s) (\<lambda>p. sigcheck_exit p s)))"

section \<open>Interrupts\<close>

abbreviation NIRQ :: nat where "NIRQ \<equiv> 1024"
abbreviation TIMER_IRQ :: u32 where "TIMER_IRQ \<equiv> 27"

type_synonym 's irqs = "('s \<Rightarrow> 's res) list"

definition default_handler :: "'s \<Rightarrow> 's res" where
  "default_handler s = Inl (Panic ''unknown irq'')"

definition trap_init :: "'s irqs" where
  "trap_init = replicate NIRQ default_handler"

definition new_irq :: "nat \<Rightarrow> ('s \<Rightarrow> 's res) \<Rightarrow> 's irqs \<Rightarrow> 's irqs" where
  "new_irq intid handler t = (if intid < NIRQ then t[intid := handler] else t)"

text \<open>\<open>iar\<close> is what the interrupt controller answers to \<open>gic_iar\<close>, \<open>eoi\<close> what \<open>gic_eoi\<close> does to it.\<close>

definition run_irq :: "'s irqs \<Rightarrow> u32 \<Rightarrow> (u32 \<Rightarrow> 's \<Rightarrow> 's) \<Rightarrow> 's \<Rightarrow> 's res" where
  "run_irq t iar eoi s = bnd ((t ! unat (iar AND 0x3ff)) s) (\<lambda>s. Inr (eoi iar s))"

definition spurious_msg :: "u8 list" where
  "spurious_msg = [119, 97, 114, 110, 58, 32, 115, 112, 117, 114, 105, 111, 117, 115, 32, 105, 110, 116, 101, 114, 114, 117, 112, 116, 10]"

definition kirq_handler :: "'a kcons_scheme irqs \<Rightarrow> u32 \<Rightarrow> (u32 \<Rightarrow> 'a kcons_scheme \<Rightarrow> 'a kcons_scheme) \<Rightarrow>
    'a kcons_scheme \<Rightarrow> 'a kcons_scheme res" where
  "kirq_handler t iar eoi s =
     (if iar AND 0x3ff = 1023 then vprintk spurious_msg [] s else run_irq t iar eoi s)"

definition yield :: "('a kproc_scheme \<Rightarrow> 'a kproc_scheme res) \<Rightarrow> 'a kproc_scheme \<Rightarrow> 'a kproc_scheme res" where
  "yield world s = bnd (yield_enter s) (\<lambda>s. bnd (world s) yield_exit)"

definition uirq_handler :: "('a kcons_scheme \<Rightarrow> 'a kcons_scheme res) \<Rightarrow> 'a kcons_scheme irqs \<Rightarrow> u32 \<Rightarrow>
    (u32 \<Rightarrow> 'a kcons_scheme \<Rightarrow> 'a kcons_scheme) \<Rightarrow> 'a kcons_scheme \<Rightarrow> (bool \<times> 'a kcons_scheme) res" where
  "uirq_handler world t iar eoi s =
     (case cur s of
        None \<Rightarrow> Inl (Panic ''?'')
      | Some p \<Rightarrow>
          if iar AND 0x3ff = 1023 then bnd (vprintk spurious_msg [] s) (\<lambda>s. Inr (False, s))
          else
            bnd (run_irq t iar eoi s) (\<lambda>s.
            bnd (if p_sig (procs s ! p) = 0 \<and> iar AND 0x3ff = TIMER_IRQ then yield world s else Inr s) (\<lambda>s.
              sigcheck_exit p s)))"

section \<open>The timer\<close>

text \<open>The registers of the generic timer, and \<open>ticks\<close>.\<close>

record timer =
  cntv_ctl :: u64
  cntv_tval :: u64
  interval_ms :: u64
  ticks :: u64

definition enable_timer :: "timer \<Rightarrow> timer" where
  "enable_timer t = t\<lparr>cntv_ctl := (cntv_ctl t OR 1) AND NOT 2\<rparr>"

definition disable_timer :: "timer \<Rightarrow> timer" where
  "disable_timer t = t\<lparr>cntv_ctl := (cntv_ctl t AND NOT 1) OR 2\<rparr>"

definition timer_enabled :: "timer \<Rightarrow> bool" where
  "timer_enabled t \<longleftrightarrow> cntv_ctl t AND 1 \<noteq> 0"

text \<open>\<open>frq\<close> is \<open>cntfrq_el0\<close>.\<close>

definition reload_timer :: "u64 \<Rightarrow> u64 \<Rightarrow> timer \<Rightarrow> timer" where
  "reload_timer frq ms t = t\<lparr>cntv_tval := (ms * 1000) * (frq div 1000000)\<rparr>"

definition timerintr :: "u64 \<Rightarrow> int \<Rightarrow> timer \<Rightarrow> timer" where
  "timerintr frq cpu t =
     (let t = disable_timer t;
          t = (if cpu = 0 then t\<lparr>ticks := ticks t + 1\<rparr> else t)
      in enable_timer (reload_timer frq (interval_ms t) t))"

definition timer_init :: "u64 \<Rightarrow> timer \<Rightarrow> timer" where
  "timer_init ms t = t\<lparr>interval_ms := ms, ticks := 0\<rparr>"

definition timer_init_percpu :: "u64 \<Rightarrow> timer \<Rightarrow> timer" where
  "timer_init_percpu frq t = enable_timer (reload_timer frq (interval_ms t) (disable_timer t))"

section \<open>What faults lead to\<close>

lemma printiu64_16: "\<exists>ds. printiu64 n 16 False = Inr ds"
  using print_num_ok [of "16 :: u64" n False] by (auto simp: printiu64_def)

lemma abort_msg_ok: "\<exists>cs. vformat abort_msg [VNum a, VNum b] = Inr cs"
proof -
  obtain ds es where "printiu64 a 16 False = Inr ds" "printiu64 b 16 False = Inr es" using printiu64_16 by blast
  then show ?thesis by (simp add: abort_msg_def)
qed

text \<open>What printing may change.\<close>

definition tty_frame :: "'a kcons_scheme \<Rightarrow> 'a kcons_scheme \<Rightarrow> bool" where
  "tty_frame s t \<longleftrightarrow> t = s\<lparr>intr_enabled := intr_enabled t, tx := tx t\<rparr>"

lemma tty_frameD:
  assumes "tty_frame s t"
  shows "procs t = procs s" "cur t = cur s" "mem t = mem s" "lock_free L t = lock_free L s"
  by (subst assms [unfolded tty_frame_def], simp add: lock_free_def)+

lemma csputs_tx: "\<exists>cs'. csputs cs s = s\<lparr>tx := cs'\<rparr>"
proof (induction cs arbitrary: s)
  case Nil
  show ?case by (rule exI [of _ "tx s"]) (simp add: csputs_def)
next
  case (Cons c cs)
  have "csputc c s = s\<lparr>tx := tx (csputc c s)\<rparr>" by (simp add: csputc_def uart_putc_def)
  then obtain y where "csputc c s = s\<lparr>tx := y\<rparr>" by blast
  then show ?case using Cons.IH [of "s\<lparr>tx := y\<rparr>"] by (auto simp: csputs_def)
qed

lemma vprintk_ok:
  assumes "lock_free PrintkLk s" "vformat fmt as = Inr cs"
  shows "\<exists>t. vprintk fmt as s = Inr t \<and> tty_frame s t"
proof -
  obtain y where y: "csputs cs (locked PrintkLk s) = (locked PrintkLk s)\<lparr>tx := y\<rparr>" using csputs_tx by blast
  have lf: "lock_free PrintkLk (s\<lparr>tx := y\<rparr>)" using assms(1) by (simp add: lock_free_def)
  have "vprintk fmt as s = Inr (cli_mark (s\<lparr>tx := y\<rparr>))"
    using assms y by (simp add: vprintk_def locked_kcons_upd release_locked [OF lf])
  moreover have "tty_frame s (cli_mark (s\<lparr>tx := y\<rparr>))" by (cases s) (simp add: tty_frame_def cli_mark_def)
  ultimately show ?thesis by blast
qed



text \<open>The console state of Console with a trap frame at address 0x6000.\<close>

definition demo_hw :: "kcons hw" where
  "demo_hw = \<lparr>hw_mmu = (\<lambda>_. None), hw_cdevs = [], hw_world = Inr, hw_waddr = (\<lambda>_. 0), hw_stat = 0, hw_pad = [0, 0],
     hw_utsaddr = 0, hw_uts = []\<rparr>"


lemma demo_cons_proc: "cur (demo_cons n keys) = Some 0" "procs (demo_cons n keys) = [runner\<lparr>p_ofile := [Some 0]\<rparr>]"
proof -
  show "cur (demo_cons n keys) = Some 0" using demo_open_simps(10) [of "[Some 0]" 1 0]
    by (simp add: demo_cons_def kfile.extend_def)
  show "procs (demo_cons n keys) = [runner\<lparr>p_ofile := [Some 0]\<rparr>]"
    by (simp add: demo_cons_def kfile.extend_def demo_open_def kfs.extend_def demo_fs_def kbuf.extend_def idle_cache_def
        kdisk.extend_def idle_disk_def kproc.extend_def upd_proc_def)
qed


end
