(* ===== verification/Gic.thy ===== *)
theory Gic
  imports Mmio Trap
begin

text \<open>
  kernel/driver/gicv3.c: the interrupt controller. The registers are reached through the bus of Mmio; what the
  controller does with them is documented by its architecture, and the theorems state what they use of it.
\<close>

unbundle bit_operations_syntax

section \<open>Registers\<close>

abbreviation NCPU :: nat where "NCPU \<equiv> 16"
abbreviation UART_IRQ :: u32 where "UART_IRQ \<equiv> 33"
abbreviation VIRTIO_BLK_IRQ :: u32 where "VIRTIO_BLK_IRQ \<equiv> 48"

definition GICBASE :: u64 where "GICBASE = P2V 0x08000000"

text \<open>
  The offsets are computed in 64 bits and cut to 32 when they are passed on, which is what 32-bit arithmetic gives.
\<close>

definition GICD_CTLR :: u32 where "GICD_CTLR = 0"
definition GICD_IGROUPR :: "u32 \<Rightarrow> u32" where "GICD_IGROUPR n = 0x80 + n * 4"
definition GICD_ISENABLER :: "u32 \<Rightarrow> u32" where "GICD_ISENABLER n = 0x100 + n * 4"
definition GICD_ICPENDR :: "u32 \<Rightarrow> u32" where "GICD_ICPENDR n = 0x280 + n * 4"
definition GICD_IPRIORITYR :: "u32 \<Rightarrow> u32" where "GICD_IPRIORITYR n = 0x400 + n * 4"
definition GICD_ITARGETSR :: "u32 \<Rightarrow> u32" where "GICD_ITARGETSR n = 0x800 + n * 4"

definition GICR_CTLR :: u32 where "GICR_CTLR = 0"
definition GICR_WAKER :: u32 where "GICR_WAKER = 0x14"
definition GICR_IGROUPR0 :: u32 where "GICR_IGROUPR0 = 0x10080"
definition GICR_ISENABLER0 :: u32 where "GICR_ISENABLER0 = 0x10100"
definition GICR_ICPENDR0 :: u32 where "GICR_ICPENDR0 = 0x10280"
definition GICR_IPRIORITYR :: "u32 \<Rightarrow> u32" where "GICR_IPRIORITYR n = 0x10400 + n * 4"
definition GICR_ICFGR1 :: u32 where "GICR_ICFGR1 = 0x10c04"
definition GICR_IGRPMODR0 :: u32 where "GICR_IGRPMODR0 = 0x10d00"

text \<open>The static \<open>gicv3\<close>: where the distributor and the redistributor of every CPU lie.\<close>

record 'd gicv3 = "'d io" +
  gicd :: u64
  rdist_addrs :: "u64 list"

definition wd32 :: "'d bus \<Rightarrow> u32 \<Rightarrow> u32 \<Rightarrow> 'd gicv3 \<Rightarrow> 'd gicv3" where
  "wd32 B off val s = io_wr B (Mem (gicd s + ucast off)) val s"

definition rd32 :: "'d bus \<Rightarrow> u32 \<Rightarrow> 'd gicv3 \<Rightarrow> u32 \<times> 'd gicv3" where
  "rd32 B off s = io_rd B (Mem (gicd s + ucast off)) s"

definition rdist_reg :: "u32 \<Rightarrow> u32 \<Rightarrow> 'd gicv3 \<Rightarrow> ioaddr res" where
  "rdist_reg cpu off s =
     (if unat cpu < length (rdist_addrs s) then Inr (Mem (rdist_addrs s ! unat cpu + ucast off)) else Inl Fault)"

definition wr32 :: "'d bus \<Rightarrow> u32 \<Rightarrow> u32 \<Rightarrow> u32 \<Rightarrow> 'd gicv3 \<Rightarrow> 'd gicv3 res" where
  "wr32 B cpu off val s = bnd (rdist_reg cpu off s) (\<lambda>a. Inr (io_wr B a val s))"

definition rr32 :: "'d bus \<Rightarrow> u32 \<Rightarrow> u32 \<Rightarrow> 'd gicv3 \<Rightarrow> (u32 \<times> 'd gicv3) res" where
  "rr32 B cpu off s = bnd (rdist_reg cpu off s) (\<lambda>a. Inr (io_rd B a s))"

definition is_sgi_ppi :: "u32 \<Rightarrow> bool" where
  "is_sgi_ppi i \<longleftrightarrow> i < 32"

section \<open>Setting up one interrupt\<close>

definition int_bit :: "u32 \<Rightarrow> u32" where
  "int_bit intid = push_bit (unat (intid mod 32)) 1"

definition prio_mask :: "u32 \<Rightarrow> u32" where
  "prio_mask intid = NOT (push_bit (unat (intid mod 4 * 8)) 0xff)"

definition gic_enable_int :: "'d bus \<Rightarrow> u32 \<Rightarrow> 'd gicv3 \<Rightarrow> 'd gicv3" where
  "gic_enable_int B intid s =
     (let (is, s) = rd32 B (GICD_ISENABLER (intid div 32)) s
      in wd32 B (GICD_ISENABLER (intid div 32)) (is OR int_bit intid) s)"

definition gicr_enable_int :: "'d bus \<Rightarrow> u32 \<Rightarrow> u32 \<Rightarrow> 'd gicv3 \<Rightarrow> 'd gicv3 res" where
  "gicr_enable_int B cpu intid s =
     (if \<not> is_sgi_ppi intid then Inl (Panic ''gicr_enable_int'')
      else bnd (rr32 B cpu GICR_ISENABLER0 s) (\<lambda>(is, s). wr32 B cpu GICR_ISENABLER0 (is OR int_bit intid) s))"

definition gic_clear_pending :: "'d bus \<Rightarrow> u32 \<Rightarrow> 'd gicv3 \<Rightarrow> 'd gicv3" where
  "gic_clear_pending B intid s =
     (let (ic, s) = rd32 B (GICD_ICPENDR (intid div 32)) s
      in wd32 B (GICD_ICPENDR (intid div 32)) (ic OR int_bit intid) s)"

definition gicr_clear_pending :: "'d bus \<Rightarrow> u32 \<Rightarrow> u32 \<Rightarrow> 'd gicv3 \<Rightarrow> 'd gicv3 res" where
  "gicr_clear_pending B cpu intid s =
     (if \<not> is_sgi_ppi intid then Inl (Panic ''gicr_clear_pending'')
      else bnd (rr32 B cpu GICR_ICPENDR0 s) (\<lambda>(ic, s). wr32 B cpu GICR_ICPENDR0 (ic OR int_bit intid) s))"

text \<open>The argument \<open>prio\<close> is not used by the code.\<close>

definition gic_set_prio :: "'d bus \<Rightarrow> u32 \<Rightarrow> u32 \<Rightarrow> 'd gicv3 \<Rightarrow> 'd gicv3" where
  "gic_set_prio B intid prio s =
     (let (p, s) = rd32 B (GICD_IPRIORITYR (intid div 4)) s
      in wd32 B (GICD_IPRIORITYR (intid div 4)) (p AND prio_mask intid) s)"

definition gicr_set_prio :: "'d bus \<Rightarrow> u32 \<Rightarrow> u32 \<Rightarrow> u32 \<Rightarrow> 'd gicv3 \<Rightarrow> 'd gicv3 res" where
  "gicr_set_prio B cpu intid prio s =
     (if \<not> is_sgi_ppi intid then Inl (Panic ''gicr_set_prio'')
      else bnd (rr32 B cpu (GICR_IPRIORITYR (intid div 4)) s) (\<lambda>(p, s).
             wr32 B cpu (GICR_IPRIORITYR (intid div 4)) (p AND prio_mask intid) s))"

definition gic_set_target :: "'d bus \<Rightarrow> u32 \<Rightarrow> u32 \<Rightarrow> 'd gicv3 \<Rightarrow> 'd gicv3" where
  "gic_set_target B intid cpu s =
     (let (t, s) = rd32 B (GICD_ITARGETSR (intid div 4)) s
      in wd32 B (GICD_ITARGETSR (intid div 4))
           ((t AND prio_mask intid) OR push_bit (unat (intid mod 4 * 8)) (push_bit (unat cpu) 1)) s)"

text \<open>The register is read once, before the loop, so the loop ends at once or never.\<close>

definition gicr_wait_rwp :: "'d bus \<Rightarrow> u32 \<Rightarrow> 'd gicv3 \<Rightarrow> 'd gicv3 res" where
  "gicr_wait_rwp B cpu s =
     bnd (rr32 B cpu GICR_CTLR s) (\<lambda>(ctlr, s). if bit ctlr 3 then Inl Runaway else Inr s)"

definition gic_setup_ppi :: "'d bus \<Rightarrow> u32 \<Rightarrow> u32 \<Rightarrow> u32 \<Rightarrow> 'd gicv3 \<Rightarrow> 'd gicv3 res" where
  "gic_setup_ppi B cpu intid prio s =
     bnd (gicr_set_prio B cpu intid prio s) (\<lambda>s.
     bnd (gicr_clear_pending B cpu intid s) (gicr_enable_int B cpu intid))"

definition gic_setup_spi :: "'d bus \<Rightarrow> u32 \<Rightarrow> u32 \<Rightarrow> 'd gicv3 \<Rightarrow> 'd gicv3" where
  "gic_setup_spi B intid prio s =
     gic_enable_int B intid (gic_clear_pending B intid (gic_set_target B intid 0 (gic_set_prio B intid prio s)))"

section \<open>Bringing the controller up\<close>

definition gic_cpu_init :: "'d bus \<Rightarrow> 'd gicv3 \<Rightarrow> 'd gicv3" where
  "gic_cpu_init B s = io_wr B (Sys ICC_PMR) 0xff (io_wr B (Sys ICC_IGRPEN1) 0 s)"

definition gic_dist_init :: "'d bus \<Rightarrow> 'd gicv3 \<Rightarrow> 'd gicv3" where
  "gic_dist_init B s =
     fold (\<lambda>i. wd32 B (GICD_IGROUPR (of_nat i)) (NOT 0)) [0..<32] (wd32 B GICD_CTLR 0 s)"

text \<open>\<open>while(rr32(cpuid, GICR_WAKER) & (1<<2));\<close> where \<open>None\<close> is a loop that never ends.\<close>

partial_function (option) wait_awake :: "'d bus \<Rightarrow> u32 \<Rightarrow> 'd gicv3 \<Rightarrow> 'd gicv3 res option" where
  "wait_awake B cpu s =
     (case rr32 B cpu GICR_WAKER s of
        Inl e \<Rightarrow> Some (Inl e)
      | Inr (w, s) \<Rightarrow> if bit w 2 then wait_awake B cpu s else Some (Inr s))"

definition gic_redist_init :: "'d bus \<Rightarrow> u32 \<Rightarrow> 'd gicv3 \<Rightarrow> 'd gicv3 res" where
  "gic_redist_init B cpu s =
     bnd (wr32 B cpu GICR_CTLR 0 s) (\<lambda>s.
     let (sre, s) = io_rd B (Sys ICC_SRE) s;
         s = io_wr B (Sys ICC_SRE) (sre OR 1) s in
     bnd (wr32 B cpu GICR_IGROUPR0 (NOT 0) s) (\<lambda>s.
     bnd (wr32 B cpu GICR_IGRPMODR0 0 s) (\<lambda>s.
     bnd (wr32 B cpu GICR_ICFGR1 0 s) (\<lambda>s.
     bnd (rr32 B cpu GICR_WAKER s) (\<lambda>(waker, s).
     bnd (wr32 B cpu GICR_WAKER (waker AND NOT 2) s) (\<lambda>s.
       case wait_awake B cpu s of None \<Rightarrow> Inl Runaway | Some r \<Rightarrow> r))))))"

definition gic_enable :: "'d bus \<Rightarrow> 'd gicv3 \<Rightarrow> 'd gicv3" where
  "gic_enable B s = io_wr B (Sys ICC_IGRPEN1) 1 (wd32 B GICD_CTLR 3 s)"

definition gicv3_init_percpu :: "'d bus \<Rightarrow> u32 \<Rightarrow> 'd gicv3 \<Rightarrow> 'd gicv3 res" where
  "gicv3_init_percpu B cpu s =
     bnd (gic_redist_init B cpu (gic_dist_init B (gic_cpu_init B s))) (\<lambda>s.
     bnd (gic_setup_ppi B cpu TIMER_IRQ 0 s) (\<lambda>s. Inr (gic_enable B s)))"

definition gicv3_init :: "'d bus \<Rightarrow> 'd gicv3 \<Rightarrow> 'd gicv3" where
  "gicv3_init B s =
     (let s = s\<lparr>gicd := GICBASE, rdist_addrs := map (\<lambda>i. GICBASE + 0xa0000 + of_nat i * 0x20000) [0..<NCPU]\<rparr>
      in gic_setup_spi B VIRTIO_BLK_IRQ 0 (gic_setup_spi B UART_IRQ 0 s))"

definition gic_enabled :: "'d bus \<Rightarrow> 'd gicv3 \<Rightarrow> bool \<times> 'd gicv3" where
  "gic_enabled B s =
     (let (g, s) = io_rd B (Sys ICC_IGRPEN1) s in
      if g AND 1 = 0 then (False, s)
      else let (c, s) = rd32 B GICD_CTLR s in (c AND 1 \<noteq> 0, s))"

definition gic_iar :: "'d bus \<Rightarrow> 'd gicv3 \<Rightarrow> u32 \<times> 'd gicv3" where
  "gic_iar B s = io_rd B (Sys ICC_IAR1) s"

definition gic_eoi :: "'d bus \<Rightarrow> u32 \<Rightarrow> 'd gicv3 \<Rightarrow> 'd gicv3" where
  "gic_eoi B iar s = io_wr B (Sys ICC_EOIR1) iar s"

section \<open>What the set-up of a shared interrupt does\<close>

text \<open>
  The part of the distributor's state the driver is about: which interrupts are enabled and pending, and their
  priorities. \<open>gicd_doc\<close> is what the architecture documents of the registers that hold it, for a distributor at \<open>G\<close>: a
  read has no effect and shows the state; writing a one enables, or drops the pending state, and writing a zero does nothing;
  priorities are stored as written. Of the target registers it only says that they are about none of this.
\<close>

record gicd_regs =
  en :: "nat \<Rightarrow> bool"
  pend :: "nat \<Rightarrow> bool"
  prio :: "nat \<Rightarrow> u8"

definition reg :: "u64 \<Rightarrow> nat \<Rightarrow> ioaddr" where
  "reg a n = Mem (a + of_nat (4 * n))"

definition bits_doc :: "'d bus \<Rightarrow> u64 \<Rightarrow> ('d \<Rightarrow> gicd_regs) \<Rightarrow> (gicd_regs \<Rightarrow> nat \<Rightarrow> bool) \<Rightarrow>
    ((nat \<Rightarrow> bool) \<Rightarrow> gicd_regs \<Rightarrow> gicd_regs) \<Rightarrow> bool" where
  "bits_doc B a V get hit \<longleftrightarrow>
     (\<forall>n<32. \<forall>d.
        snd (bus_rd B (reg a n) d) = d \<and>
        (\<forall>k<32. bit (fst (bus_rd B (reg a n) d)) k \<longleftrightarrow> get (V d) (32 * n + k)) \<and>
        (\<forall>x. V (bus_wr B (reg a n) x d) = hit (\<lambda>i. i div 32 = n \<and> bit x (i mod 32)) (V d)))"

definition set_en :: "(nat \<Rightarrow> bool) \<Rightarrow> gicd_regs \<Rightarrow> gicd_regs" where
  "set_en P r = r\<lparr>en := \<lambda>i. en r i \<or> P i\<rparr>"

definition clear_pend :: "(nat \<Rightarrow> bool) \<Rightarrow> gicd_regs \<Rightarrow> gicd_regs" where
  "clear_pend P r = r\<lparr>pend := \<lambda>i. pend r i \<and> \<not> P i\<rparr>"

definition prio_doc :: "'d bus \<Rightarrow> u64 \<Rightarrow> ('d \<Rightarrow> gicd_regs) \<Rightarrow> bool" where
  "prio_doc B a V \<longleftrightarrow>
     (\<forall>n<255. \<forall>d.
        snd (bus_rd B (reg a n) d) = d \<and>
        (\<forall>k<4. byte_of (fst (bus_rd B (reg a n) d)) k = prio (V d) (4 * n + k)) \<and>
        (\<forall>x. V (bus_wr B (reg a n) x d) =
           (V d)\<lparr>prio := \<lambda>i. if i div 4 = n then byte_of x (i mod 4) else prio (V d) i\<rparr>))"

definition targ_doc :: "'d bus \<Rightarrow> u64 \<Rightarrow> ('d \<Rightarrow> gicd_regs) \<Rightarrow> bool" where
  "targ_doc B a V \<longleftrightarrow>
     (\<forall>n<255. \<forall>d. V (snd (bus_rd B (reg a n) d)) = V d \<and>
        (\<forall>x. V (bus_wr B (reg a n) x d) = V d))"

definition gicd_doc :: "'d bus \<Rightarrow> u64 \<Rightarrow> ('d \<Rightarrow> gicd_regs) \<Rightarrow> bool" where
  "gicd_doc B G V \<longleftrightarrow>
     bits_doc B (G + 0x100) V en set_en \<and> bits_doc B (G + 0x280) V pend clear_pend \<and>
     prio_doc B (G + 0x400) V \<and> targ_doc B (G + 0x800) V"

lemma bit_int_bit: "k < 32 \<Longrightarrow> bit (int_bit i) k \<longleftrightarrow> k = unat i mod 32"
  by (auto simp: int_bit_def bit_simps unat_mod)

lemma byte_of_prio_mask:
  assumes "k < 4"
  shows "byte_of (p AND prio_mask i) k = (if k = unat i mod 4 then 0 else byte_of p k)"
proof (rule bit_word_eqI)
  fix j assume j: "j < LENGTH(8)"
  have u: "unat (i mod 4 * 8) = 8 * (unat i mod 4)"
    by (simp add: unat_word_ariths unat_mod)
  have m8: "(0xff :: int) = mask 8" by (simp add: mask_eq_exp_minus_1)
  have ff: "bit (0xff :: int) m \<longleftrightarrow> m < 8" for m
    unfolding m8 by (auto simp: bit_mask_iff)
  show "bit (byte_of (p AND prio_mask i) k) j \<longleftrightarrow> bit (if k = unat i mod 4 then 0 else byte_of p k) j"
    using j assms by (auto simp: bit_byte_of prio_mask_def u bit_simps ff)
qed

lemma reg_addr:
  assumes "unat i < 1020" "m = 4 \<or> m = 32" "c = 0x100 \<or> c = 0x280 \<or> c = 0x400 \<or> c = 0x800"
  shows "Mem ((G :: u64) + ucast (c + i div of_nat m * 4 :: u32)) = reg (G + ucast c) (unat i div m)"
proof -
  have d: "unat (i div of_nat m) = unat i div m" using assms(2) by (auto simp: unat_div)
  have lt: "unat i div m < 255" using assms(1,2) by auto
  have "unat (c + i div of_nat m * 4) = unat c + 4 * (unat i div m)"
    using lt assms(3) d by (auto simp: unat_word_ariths)
  then have "unat (ucast (c + i div of_nat m * 4 :: u32) :: u64) = unat (ucast c + of_nat (4 * (unat i div m)) :: u64)"
    using lt assms(3) by (auto simp: unsigned_ucast_eq unat_word_ariths unat_of_nat_small)
  then have "(ucast (c + i div of_nat m * 4 :: u32) :: u64) = ucast c + of_nat (4 * (unat i div m))"
    by (simp only: word_unat_eq_iff)
  then show ?thesis by (simp only: add.assoc reg_def)
qed

lemma rd_wr_dev:
  "io_dev (snd (rd32 B off s)) = snd (bus_rd B (Mem (gicd s + ucast off)) (io_dev s))"
  "fst (rd32 B off s) = fst (bus_rd B (Mem (gicd s + ucast off)) (io_dev s))"
  "gicd (snd (rd32 B off s)) = gicd s" "gicd (wd32 B off x s) = gicd s"
  "io_dev (wd32 B off x s) = bus_wr B (Mem (gicd s + ucast off)) x (io_dev s)"
  by (simp_all add: rd32_def wd32_def io_rd_def io_wr_def split_beta)

lemma same_group: "j = u \<longleftrightarrow> j div m = u div m \<and> j mod m = u mod m" for j u m :: nat
  by (metis div_mult_mod_eq)

text \<open>Reading a word of bits, setting the bit of interrupt \<open>i\<close> and writing the word back.\<close>

lemma bits_rmw:
  assumes "bits_doc B a V get hit" "unat i < 1020"
  shows "snd (bus_rd B (reg a (unat i div 32)) d) = d \<and>
    V (bus_wr B (reg a (unat i div 32)) (fst (bus_rd B (reg a (unat i div 32)) d) OR int_bit i) d) =
      hit (\<lambda>j. j div 32 = unat i div 32 \<and> (get (V d) j \<or> j = unat i)) (V d)"
proof -
  let ?n = "unat i div 32"
  let ?x = "fst (bus_rd B (reg a ?n) d) OR int_bit i"
  have n: "?n < 32" using assms(2) by auto
  with assms(1) have doc: "snd (bus_rd B (reg a ?n) d) = d"
    "\<And>k. k < 32 \<Longrightarrow> bit (fst (bus_rd B (reg a ?n) d)) k \<longleftrightarrow> get (V d) (32 * ?n + k)"
    "\<And>x. V (bus_wr B (reg a ?n) x d) = hit (\<lambda>j. j div 32 = ?n \<and> bit x (j mod 32)) (V d)"
    unfolding bits_doc_def by blast+
  have "j div 32 = ?n \<and> bit ?x (j mod 32) \<longleftrightarrow> j div 32 = ?n \<and> (get (V d) j \<or> j = unat i)" for j
  proof (cases "j div 32 = ?n")
    case True
    then have "32 * ?n + j mod 32 = j" by (metis div_mult_mod_eq mult.commute)
    then show ?thesis
      using True doc(2) [of "j mod 32"] bit_int_bit [of "j mod 32" i] same_group [of j "unat i" 32]
      by (simp add: bit_or_iff)
  qed simp
  then show ?thesis using doc(1,3) by simp
qed

lemma enable_effect:
  assumes "bits_doc B (gicd s + 0x100) V en set_en" "unat i < 1020"
  shows "V (io_dev (gic_enable_int B i s)) = set_en (\<lambda>j. j = unat i) (V (io_dev s)) \<and> gicd (gic_enable_int B i s) = gicd s"
proof -
  have a: "Mem (gicd s + ucast (GICD_ISENABLER (i div 32))) = reg (gicd s + 0x100) (unat i div 32)"
    using reg_addr [OF assms(2), of 32 "0x100" "gicd s"] by (simp add: GICD_ISENABLER_def)
  have "set_en (\<lambda>j. j div 32 = unat i div 32 \<and> (en r j \<or> j = unat i)) r = set_en (\<lambda>j. j = unat i) r" for r
    by (cases r) (auto simp: set_en_def fun_eq_iff)
  then show ?thesis using bits_rmw [OF assms, of "io_dev s"]
    by (simp add: gic_enable_int_def split_beta rd_wr_dev a)
qed

lemma clear_effect:
  assumes "bits_doc B (gicd s + 0x280) V pend clear_pend" "unat i < 1020"
  shows "V (io_dev (gic_clear_pending B i s)) = clear_pend (\<lambda>j. j div 32 = unat i div 32) (V (io_dev s)) \<and>
    gicd (gic_clear_pending B i s) = gicd s"
proof -
  have a: "Mem (gicd s + ucast (GICD_ICPENDR (i div 32))) = reg (gicd s + 0x280) (unat i div 32)"
    using reg_addr [OF assms(2), of 32 "0x280" "gicd s"] by (simp add: GICD_ICPENDR_def)
  have "clear_pend (\<lambda>j. j div 32 = unat i div 32 \<and> (pend r j \<or> j = unat i)) r = clear_pend (\<lambda>j. j div 32 = unat i div 32) r" for r
    by (cases r) (auto simp: clear_pend_def fun_eq_iff)
  then show ?thesis using bits_rmw [OF assms, of "io_dev s"]
    by (simp add: gic_clear_pending_def split_beta rd_wr_dev a)
qed

lemma prio_effect:
  assumes "prio_doc B (gicd s + 0x400) V" "unat i < 1020"
  shows "V (io_dev (gic_set_prio B i p s)) = (V (io_dev s))\<lparr>prio := (prio (V (io_dev s)))(unat i := 0)\<rparr> \<and>
    gicd (gic_set_prio B i p s) = gicd s"
proof -
  let ?n = "unat i div 4" and ?d = "io_dev s"
  let ?a = "reg (gicd s + 0x400) ?n"
  let ?x = "fst (bus_rd B ?a ?d) AND prio_mask i"
  have a: "Mem (gicd s + ucast (GICD_IPRIORITYR (i div 4))) = ?a"
    using reg_addr [OF assms(2), of 4 "0x400" "gicd s"] by (simp add: GICD_IPRIORITYR_def)
  have n: "?n < 255" using assms(2) by auto
  with assms(1) have doc: "snd (bus_rd B ?a ?d) = ?d"
    "\<And>k. k < 4 \<Longrightarrow> byte_of (fst (bus_rd B ?a ?d)) k = prio (V ?d) (4 * ?n + k)"
    "\<And>x. V (bus_wr B ?a x ?d) = (V ?d)\<lparr>prio := \<lambda>j. if j div 4 = ?n then byte_of x (j mod 4) else prio (V ?d) j\<rparr>"
    unfolding prio_doc_def by blast+
  have "(if j div 4 = ?n then byte_of ?x (j mod 4) else prio (V ?d) j) = ((prio (V ?d))(unat i := 0)) j" for j
  proof (cases "j div 4 = ?n")
    case True
    then have "4 * ?n + j mod 4 = j" by (metis div_mult_mod_eq mult.commute)
    then show ?thesis
      using True doc(2) [of "j mod 4"] byte_of_prio_mask [of "j mod 4" "fst (bus_rd B ?a ?d)" i] same_group [of j "unat i" 4]
      by auto
  qed auto
  then have "(\<lambda>j. if j div 4 = ?n then byte_of ?x (j mod 4) else prio (V ?d) j) = (prio (V ?d))(unat i := 0)" by blast
  then have "V (bus_wr B ?a ?x ?d) = (V ?d)\<lparr>prio := (prio (V ?d))(unat i := 0)\<rparr>" using doc(3) by simp
  then show ?thesis by (simp add: gic_set_prio_def split_beta rd_wr_dev a doc(1))
qed

lemma target_effect:
  assumes "targ_doc B (gicd s + 0x800) V" "unat i < 1020"
  shows "V (io_dev (gic_set_target B i c s)) = V (io_dev s) \<and> gicd (gic_set_target B i c s) = gicd s"
proof -
  have a: "Mem (gicd s + ucast (GICD_ITARGETSR (i div 4))) = reg (gicd s + 0x800) (unat i div 4)"
    using reg_addr [OF assms(2), of 4 "0x800" "gicd s"] by (simp add: GICD_ITARGETSR_def)
  have n: "unat i div 4 < 255" using assms(2) by auto
  with assms(1) show ?thesis
    by (simp add: gic_set_target_def split_beta rd_wr_dev a targ_doc_def)
qed

text \<open>
  C13. Setting up a shared interrupt enables it and gives it the highest priority, 0, whatever priority the caller asks
  for; no other interrupt is enabled and no other priority changes. It drops the pending state not of this
  interrupt alone but of all 32 that share its register, because the code writes back the pending bits it has read.
\<close>

theorem gic_setup_spi_effect:
  assumes "gicd_doc B (gicd s) V" "unat intid < 1020"
  shows "V (io_dev (gic_setup_spi B intid p s)) =
    \<lparr>en = \<lambda>j. en (V (io_dev s)) j \<or> j = unat intid,
     pend = \<lambda>j. pend (V (io_dev s)) j \<and> j div 32 \<noteq> unat intid div 32,
     prio = (prio (V (io_dev s)))(unat intid := 0)\<rparr>"
proof -
  define s1 where "s1 = gic_set_prio B intid p s"
  define s2 where "s2 = gic_set_target B intid 0 s1"
  define s3 where "s3 = gic_clear_pending B intid s2"
  have d: "bits_doc B (gicd s + 0x100) V en set_en" "bits_doc B (gicd s + 0x280) V pend clear_pend"
    "prio_doc B (gicd s + 0x400) V" "targ_doc B (gicd s + 0x800) V"
    using assms(1) by (simp_all add: gicd_doc_def)
  have 1: "V (io_dev s1) = (V (io_dev s))\<lparr>prio := (prio (V (io_dev s)))(unat intid := 0)\<rparr>" "gicd s1 = gicd s"
    using prio_effect [OF d(3) assms(2)] by (simp_all add: s1_def)
  have 2: "V (io_dev s2) = V (io_dev s1)" "gicd s2 = gicd s"
    using target_effect [of B s1 V intid 0] d(4) assms(2) 1(2) by (simp_all add: s2_def)
  have 3: "V (io_dev s3) = clear_pend (\<lambda>j. j div 32 = unat intid div 32) (V (io_dev s2))" "gicd s3 = gicd s"
    using clear_effect [of B s2 V intid] d(2) assms(2) 2(2) by (simp_all add: s3_def)
  have "V (io_dev (gic_enable_int B intid s3)) = set_en (\<lambda>j. j = unat intid) (V (io_dev s3))"
    using enable_effect [of B s3 V intid] d(1) assms(2) 3(2) by simp
  then show ?thesis using 1 2 3
    by (simp add: gic_setup_spi_def s1_def s2_def s3_def set_en_def clear_pend_def)
qed

section \<open>Bringing one CPU's interface up\<close>

definition rreg :: "'d gicv3 \<Rightarrow> u32 \<Rightarrow> u32 \<Rightarrow> ioaddr" where
  "rreg s cpu off = Mem (rdist_addrs s ! unat cpu + ucast off)"

lemma gic_fields [simp]:
  "gicd (io_wr B a x s) = gicd s" "rdist_addrs (io_wr B a x s) = rdist_addrs s"
  "gicd (snd (io_rd B a s)) = gicd s" "rdist_addrs (snd (io_rd B a s)) = rdist_addrs s"
  "gicd (wd32 B off x s) = gicd s" "rdist_addrs (wd32 B off x s) = rdist_addrs s"
  "rreg (io_wr B a x s) = rreg s" "rreg (snd (io_rd B a s)) = rreg s"
  by (simp_all add: io_wr_def io_rd_def split_beta wd32_def rreg_def fun_eq_iff)

lemma rdist_ok:
  assumes "unat cpu < length (rdist_addrs s)"
  shows "wr32 B cpu off x s = Inr (io_wr B (rreg s cpu off) x s)"
    "rr32 B cpu off s = Inr (io_rd B (rreg s cpu off) s)"
  using assms by (simp_all add: wr32_def rr32_def rdist_reg_def rreg_def)

text \<open>The device after \<open>k\<close> reads of a register.\<close>

primrec after_reads :: "'d bus \<Rightarrow> ioaddr \<Rightarrow> nat \<Rightarrow> 'd \<Rightarrow> 'd" where
  "after_reads B a 0 d = d"
| "after_reads B a (Suc k) d = after_reads B a k (snd (bus_rd B a d))"

text \<open>
  What is documented of \<open>GICR_WAKER\<close>: once ProcessorSleep (bit 1) has been written zero, ChildrenAsleep (bit 2)
  reads zero after some time.
\<close>

definition wakes :: "'d bus \<Rightarrow> ioaddr \<Rightarrow> bool" where
  "wakes B a \<longleftrightarrow> (\<forall>x d. \<not> bit x 1 \<longrightarrow> (\<exists>k. \<not> bit (fst (bus_rd B a (after_reads B a k (bus_wr B a x d)))) 2))"

lemma wait_awake_ends:
  assumes "unat cpu < length (rdist_addrs s)"
    "\<not> bit (fst (bus_rd B (rreg s cpu GICR_WAKER) (after_reads B (rreg s cpu GICR_WAKER) k (io_dev s)))) 2"
  shows "\<exists>t. wait_awake B cpu s = Some (Inr t) \<and> io_log t = io_log s \<and> gicd t = gicd s \<and> rdist_addrs t = rdist_addrs s"
  using assms
proof (induction k arbitrary: s)
  case 0
  then show ?case
    by (subst wait_awake.simps) (simp add: rdist_ok split_beta)
next
  case (Suc k)
  let ?t = "snd (io_rd B (rreg s cpu GICR_WAKER) s)"
  show ?case
  proof (cases "bit (fst (bus_rd B (rreg s cpu GICR_WAKER) (io_dev s))) 2")
    case True
    then have "wait_awake B cpu s = wait_awake B cpu ?t"
      using Suc.prems(1) by (subst wait_awake.simps) (simp add: rdist_ok split_beta)
    then show ?thesis using Suc.IH [of ?t] Suc.prems by simp
  next
    case False
    then show ?thesis
      using Suc.prems(1) by (subst wait_awake.simps) (simp add: rdist_ok split_beta)
  qed
qed

text \<open>\<open>wrote W s t\<close>: from \<open>s\<close> to \<open>t\<close> the registers \<open>W\<close> were written, in this order, and the addresses kept.\<close>

definition wrote :: "(ioaddr \<times> u32) list \<Rightarrow> 'd gicv3 \<Rightarrow> 'd gicv3 \<Rightarrow> bool" where
  "wrote W s t \<longleftrightarrow> io_log t = io_log s @ W \<and> gicd t = gicd s \<and> rdist_addrs t = rdist_addrs s"

lemma wrote_trans: "wrote V s t \<Longrightarrow> wrote W t u \<Longrightarrow> wrote (V @ W) s u"
  by (simp add: wrote_def)

lemma wrote_rreg: "wrote W s t \<Longrightarrow> rreg t = rreg s"
  by (simp add: wrote_def rreg_def fun_eq_iff)

lemma redist_wrote:
  assumes "unat cpu < length (rdist_addrs s)" "wakes B (rreg s cpu GICR_WAKER)"
  shows "\<exists>t x w. gic_redist_init B cpu s = Inr t \<and>
    wrote [(rreg s cpu GICR_CTLR, 0), (Sys ICC_SRE, x), (rreg s cpu GICR_IGROUPR0, NOT 0), (rreg s cpu GICR_IGRPMODR0, 0),
      (rreg s cpu GICR_ICFGR1, 0), (rreg s cpu GICR_WAKER, w AND NOT 2)] s t"
proof -
  define s1 where "s1 = snd (io_rd B (Sys ICC_SRE) (io_wr B (rreg s cpu GICR_CTLR) 0 s))"
  define x where "x = fst (io_rd B (Sys ICC_SRE) (io_wr B (rreg s cpu GICR_CTLR) 0 s)) OR 1"
  define s2 where "s2 = io_wr B (rreg s cpu GICR_ICFGR1) 0 (io_wr B (rreg s cpu GICR_IGRPMODR0) 0
    (io_wr B (rreg s cpu GICR_IGROUPR0) (NOT 0) (io_wr B (Sys ICC_SRE) x s1)))"
  define w where "w = fst (io_rd B (rreg s cpu GICR_WAKER) s2)"
  define s3 where "s3 = snd (io_rd B (rreg s cpu GICR_WAKER) s2)"
  define s4 where "s4 = io_wr B (rreg s cpu GICR_WAKER) (w AND NOT 2) s3"
  have r: "rdist_addrs s4 = rdist_addrs s" "rreg s4 = rreg s" "gicd s4 = gicd s"
    by (simp_all add: s4_def s3_def s2_def s1_def)
  have l: "io_log s4 = io_log s @ [(rreg s cpu GICR_CTLR, 0), (Sys ICC_SRE, x), (rreg s cpu GICR_IGROUPR0, NOT 0),
      (rreg s cpu GICR_IGRPMODR0, 0), (rreg s cpu GICR_ICFGR1, 0), (rreg s cpu GICR_WAKER, w AND NOT 2)]"
    by (simp add: s4_def s3_def s2_def s1_def)
  have "\<not> bit (w AND NOT 2) 1" by (simp add: bit_simps)
  then obtain k where "\<not> bit (fst (bus_rd B (rreg s cpu GICR_WAKER) (after_reads B (rreg s cpu GICR_WAKER) k (io_dev s4)))) 2"
    using assms(2) unfolding wakes_def s4_def io_wr_simps by blast
  then obtain t where t: "wait_awake B cpu s4 = Some (Inr t)" "io_log t = io_log s4" "gicd t = gicd s4" "rdist_addrs t = rdist_addrs s4"
    using wait_awake_ends [of cpu s4 B k] assms(1) r by auto
  have "gic_redist_init B cpu s = (case wait_awake B cpu s4 of None \<Rightarrow> Inl Runaway | Some r \<Rightarrow> r)"
    using assms(1) by (simp add: gic_redist_init_def rdist_ok split_beta s4_def s3_def w_def s2_def x_def s1_def)
  then show ?thesis using t l r by (auto simp: wrote_def)
qed

lemma setup_ppi_wrote:
  assumes "unat cpu < length (rdist_addrs s)" "is_sgi_ppi i"
  shows "\<exists>t p c e. gic_setup_ppi B cpu i pr s = Inr t \<and>
    wrote [(rreg s cpu (GICR_IPRIORITYR (i div 4)), p), (rreg s cpu GICR_ICPENDR0, c),
      (rreg s cpu GICR_ISENABLER0, e OR int_bit i)] s t"
  using assms
  by (simp add: gic_setup_ppi_def gicr_set_prio_def gicr_clear_pending_def gicr_enable_int_def rdist_ok split_beta wrote_def) blast

lemma dist_init_wrote:
  "wrote ((Mem (gicd s), 0) # map (\<lambda>i. (Mem (gicd s + ucast (GICD_IGROUPR (of_nat i))), NOT 0)) [0..<32]) s (gic_dist_init B s)"
proof -
  have "wrote (map (\<lambda>i. (Mem (gicd s + ucast (GICD_IGROUPR (of_nat i))), NOT 0)) xs) s
      (fold (\<lambda>i. wd32 B (GICD_IGROUPR (of_nat i)) (NOT 0)) xs s)" for xs and s :: "'a gicv3"
    by (induction xs rule: rev_induct) (auto simp: wrote_def wd32_def)
  from wrote_trans [OF _ this, of "[(Mem (gicd s), 0)]" s "wd32 B GICD_CTLR 0 s" "[0..<32]"]
  show ?thesis by (simp add: gic_dist_init_def wrote_def wd32_def GICD_CTLR_def)
qed

lemma gicv3_percpu_writes:
  assumes "unat cpu < length (rdist_addrs s)" "wakes B (rreg s cpu GICR_WAKER)"
  shows "\<exists>t W. gicv3_init_percpu B cpu s = Inr t \<and>
    io_log t = io_log s @ (Sys ICC_IGRPEN1, 0) # W @ [(Sys ICC_IGRPEN1, 1)] \<and> Sys ICC_IGRPEN1 \<notin> fst ` set W \<and>
    (\<exists>V x y. W = V @ [(rreg s cpu GICR_ISENABLER0, x), (Mem (gicd s), 3)] \<and> bit x (unat TIMER_IRQ) \<and>
      (rreg s cpu GICR_WAKER, y) \<in> set V \<and> \<not> bit y 1)"
proof -
  define s1 where "s1 = gic_cpu_init B s"
  define s2 where "s2 = gic_dist_init B s1"
  have 1: "wrote [(Sys ICC_IGRPEN1, 0), (Sys ICC_PMR, 0xff)] s s1"
    by (simp add: s1_def gic_cpu_init_def wrote_def)
  define D where "D = (Mem (gicd s1), 0 :: u32) # map (\<lambda>i. (Mem (gicd s1 + ucast (GICD_IGROUPR (of_nat i))), NOT 0)) [0..<32]"
  have 2: "wrote D s1 s2" unfolding D_def s2_def by (rule dist_init_wrote)
  have a2: "unat cpu < length (rdist_addrs s2)" "rreg s2 = rreg s" "gicd s2 = gicd s"
    using wrote_trans [OF 1 2] assms(1) by (auto simp: wrote_def rreg_def fun_eq_iff)
  obtain s3 x w where 3: "gic_redist_init B cpu s2 = Inr s3"
    "wrote [(rreg s cpu GICR_CTLR, 0), (Sys ICC_SRE, x), (rreg s cpu GICR_IGROUPR0, NOT 0), (rreg s cpu GICR_IGRPMODR0, 0),
      (rreg s cpu GICR_ICFGR1, 0), (rreg s cpu GICR_WAKER, w AND NOT 2)] s2 s3"
    using redist_wrote [OF a2(1), of B] assms(2) a2(2) by auto
  have a3: "unat cpu < length (rdist_addrs s3)" "rreg s3 = rreg s" "gicd s3 = gicd s"
    using 3(2) a2 by (auto simp: wrote_def rreg_def fun_eq_iff)
  obtain s4 p c e where 4: "gic_setup_ppi B cpu TIMER_IRQ 0 s3 = Inr s4"
    "wrote [(rreg s cpu (GICR_IPRIORITYR (TIMER_IRQ div 4)), p), (rreg s cpu GICR_ICPENDR0, c),
      (rreg s cpu GICR_ISENABLER0, e OR int_bit TIMER_IRQ)] s3 s4"
    using setup_ppi_wrote [OF a3(1), of TIMER_IRQ B 0] a3(2) by (auto simp: is_sgi_ppi_def)
  have g4: "gicd s4 = gicd s" using 4(2) a3(3) by (simp add: wrote_def)
  let ?t = "gic_enable B s4"
  let ?V = "(Sys ICC_PMR, 0xff) # D @ [(rreg s cpu GICR_CTLR, 0), (Sys ICC_SRE, x), (rreg s cpu GICR_IGROUPR0, NOT 0),
      (rreg s cpu GICR_IGRPMODR0, 0), (rreg s cpu GICR_ICFGR1, 0), (rreg s cpu GICR_WAKER, w AND NOT 2),
      (rreg s cpu (GICR_IPRIORITYR (TIMER_IRQ div 4)), p), (rreg s cpu GICR_ICPENDR0, c)]"
  let ?W = "?V @ [(rreg s cpu GICR_ISENABLER0, e OR int_bit TIMER_IRQ), (Mem (gicd s), 3)]"
  have "gicv3_init_percpu B cpu s = Inr ?t"
    using 3(1) 4(1) by (simp add: gicv3_init_percpu_def s1_def s2_def)
  moreover have "io_log ?t = io_log s @ (Sys ICC_IGRPEN1, 0) # ?W @ [(Sys ICC_IGRPEN1, 1)]"
    using 1 2 3(2) 4(2) g4 by (simp add: wrote_def gic_enable_def wd32_def GICD_CTLR_def)
  moreover have "Sys ICC_IGRPEN1 \<notin> fst ` set ?W"
    by (auto simp: D_def rreg_def)
  moreover have "bit (e OR int_bit TIMER_IRQ) (unat TIMER_IRQ)" "\<not> bit (w AND NOT 2) 1"
    by (simp_all add: bit_simps bit_int_bit)
  moreover have "(rreg s cpu GICR_WAKER, w AND NOT 2) \<in> set ?V" by simp
  ultimately show ?thesis by blast
qed

text \<open>
  C12. On a CPU that has a redistributor the initialisation comes to an end, since the redistributor wakes up; the CPU's interrupts are switched
  off first and on last, after the redistributor has been woken, the timer interrupt enabled and the distributor switched on.
\<close>

theorem gicv3_init_percpu_terminates:
  assumes "unat cpu < length (rdist_addrs s)" "wakes B (rreg s cpu GICR_WAKER)"
  shows "\<exists>t W. gicv3_init_percpu B cpu s = Inr t \<and>
    io_log t = io_log s @ (Sys ICC_IGRPEN1, 0) # W @ [(Sys ICC_IGRPEN1, 1)] \<and> Sys ICC_IGRPEN1 \<notin> fst ` set W \<and>
    (\<exists>V x y. W = V @ [(rreg s cpu GICR_ISENABLER0, x), (Mem (gicd s), 3)] \<and> bit x (unat TIMER_IRQ) \<and>
      (rreg s cpu GICR_WAKER, y) \<in> set V \<and> \<not> bit y 1)"
  by (rule gicv3_percpu_writes [OF assms])

section \<open>A controller that does what is documented\<close>

definition demo_word :: "(nat \<Rightarrow> bool) \<Rightarrow> nat \<Rightarrow> u32" where
  "demo_word f n = horner_sum of_bool 2 (map (\<lambda>k. f (32 * n + k)) [0..<32])"

definition demo_gicd :: "gicd_regs bus" where
  "demo_gicd = \<lparr>
     bus_rd = \<lambda>a d. case a of Sys _ \<Rightarrow> (0, d) | Mem p \<Rightarrow>
       let off = unat (p - GICBASE) in
       (if 0x100 \<le> off \<and> off < 0x180 then demo_word (en d) ((off - 0x100) div 4)
        else if 0x280 \<le> off \<and> off < 0x300 then demo_word (pend d) ((off - 0x280) div 4)
        else if 0x400 \<le> off \<and> off < 0x800 then get_le 4 (\<lambda>k. prio d (off - 0x400 + k)) else 0, d),
     bus_wr = \<lambda>a x d. case a of Sys _ \<Rightarrow> d | Mem p \<Rightarrow>
       let off = unat (p - GICBASE) in
       if 0x100 \<le> off \<and> off < 0x180 then set_en (\<lambda>i. i div 32 = (off - 0x100) div 4 \<and> bit x (i mod 32)) d
       else if 0x280 \<le> off \<and> off < 0x300 then clear_pend (\<lambda>i. i div 32 = (off - 0x280) div 4 \<and> bit x (i mod 32)) d
       else if 0x400 \<le> off \<and> off < 0x800
       then d\<lparr>prio := \<lambda>i. if i div 4 = (off - 0x400) div 4 then byte_of x (i mod 4) else prio d i\<rparr> else d\<rparr>"

lemma bit_demo_word: "k < 32 \<Longrightarrow> bit (demo_word f n) k \<longleftrightarrow> f (32 * n + k)"
  by (simp add: demo_word_def bit_horner_sum_bit_iff)

lemma byte_of_get_le: "k < 4 \<Longrightarrow> byte_of (get_le 4 f :: u32) k = f k"
  by (rule bit_word_eqI) (auto simp: bit_byte_of bit_get_le)

lemma demo_off:
  assumes "n < 256" "unat c \<le> 0x800"
  shows "unat ((GICBASE + c + of_nat (4 * n) :: u64) - GICBASE) = unat c + 4 * n"
proof -
  have u: "unat (of_nat (4 * n) :: u64) = 4 * n"
    using assms(1) by (intro unat_of_nat_small) simp
  have "unat c + 4 * n < 2 ^ LENGTH(64)" using assms by simp
  then have "unat c + unat (of_nat (4 * n) :: u64) < 2 ^ LENGTH(64)" by (simp only: u)
  moreover have "GICBASE + c + of_nat (4 * n) - GICBASE = c + (of_nat (4 * n) :: u64)" by simp
  ultimately show ?thesis using unat_add_lem [of c "of_nat (4 * n)"] by (simp only: u)
qed

lemma demo_doc: "gicd_doc demo_gicd GICBASE id"
proof -
  have r: "bus_rd demo_gicd (reg (GICBASE + c) n) d =
      (if 0x100 \<le> unat c + 4 * n \<and> unat c + 4 * n < 0x180 then demo_word (en d) ((unat c + 4 * n - 0x100) div 4)
       else if 0x280 \<le> unat c + 4 * n \<and> unat c + 4 * n < 0x300 then demo_word (pend d) ((unat c + 4 * n - 0x280) div 4)
       else if 0x400 \<le> unat c + 4 * n \<and> unat c + 4 * n < 0x800 then get_le 4 (\<lambda>k. prio d (unat c + 4 * n - 0x400 + k)) else 0, d)"
    if "n < 256" "unat c \<le> 0x800" for c n d
    using demo_off [OF that] by (simp add: demo_gicd_def reg_def Let_def)
  have w: "bus_wr demo_gicd (reg (GICBASE + c) n) x d =
      (if 0x100 \<le> unat c + 4 * n \<and> unat c + 4 * n < 0x180
       then set_en (\<lambda>i. i div 32 = (unat c + 4 * n - 0x100) div 4 \<and> bit x (i mod 32)) d
       else if 0x280 \<le> unat c + 4 * n \<and> unat c + 4 * n < 0x300
       then clear_pend (\<lambda>i. i div 32 = (unat c + 4 * n - 0x280) div 4 \<and> bit x (i mod 32)) d
       else if 0x400 \<le> unat c + 4 * n \<and> unat c + 4 * n < 0x800
       then d\<lparr>prio := \<lambda>i. if i div 4 = (unat c + 4 * n - 0x400) div 4 then byte_of x (i mod 4) else prio d i\<rparr> else d)"
    if "n < 256" "unat c \<le> 0x800" for c n x d
    using demo_off [OF that] by (simp add: demo_gicd_def reg_def Let_def)
  have "bits_doc demo_gicd (GICBASE + 0x100) id en set_en"
    unfolding bits_doc_def by (simp add: r w bit_demo_word)
  moreover have "bits_doc demo_gicd (GICBASE + 0x280) id pend clear_pend"
    unfolding bits_doc_def by (simp add: r w bit_demo_word)
  moreover have "prio_doc demo_gicd (GICBASE + 0x400) id"
    unfolding prio_doc_def id_apply by (simp add: r w byte_of_get_le)
  moreover have "targ_doc demo_gicd (GICBASE + 0x800) id"
    unfolding targ_doc_def by (simp add: r w)
  ultimately show ?thesis by (simp add: gicd_doc_def)
qed

theorem gic_setup_spi_effect_witness:
  "\<exists>s. pend (io_dev s) 33 \<and> \<not> pend (io_dev (gic_setup_spi demo_gicd VIRTIO_BLK_IRQ 7 s)) 33 \<and>
     en (io_dev (gic_setup_spi demo_gicd VIRTIO_BLK_IRQ 7 s)) 48 \<and>
     prio (io_dev (gic_setup_spi demo_gicd VIRTIO_BLK_IRQ 7 s)) 48 = 0"
proof -
  define s where "s = \<lparr>io_dev = \<lparr>en = \<lambda>_. False, pend = \<lambda>i. i = 33, prio = \<lambda>_. 0xff\<rparr>, io_log = [],
    gicd = GICBASE, rdist_addrs = []\<rparr>"
  have "gicd_doc demo_gicd (gicd s) id" using demo_doc by (simp add: s_def)
  from gic_setup_spi_effect [OF this, of VIRTIO_BLK_IRQ 7]
  have e: "io_dev (gic_setup_spi demo_gicd VIRTIO_BLK_IRQ 7 s) =
    \<lparr>en = \<lambda>j. en (io_dev s) j \<or> j = 48, pend = \<lambda>j. pend (io_dev s) j \<and> j div 32 \<noteq> 1,
     prio = (prio (io_dev s))(48 := 0)\<rparr>" by simp
  have "pend (io_dev s) 33" by (simp add: s_def)
  then show ?thesis using e by (intro exI [of _ s]) simp
qed

text \<open>A redistributor that is still asleep for the first three reads.\<close>

definition sleepy :: "nat bus" where
  "sleepy = \<lparr>bus_rd = \<lambda>a d. if a = Mem (GICBASE + 0xa0000 + 0x14) \<and> 0 < d then (4, d - 1) else (0, d),
     bus_wr = \<lambda>_ _ d. d\<rparr>"

lemma sleepy_awake: "after_reads sleepy (Mem (GICBASE + 0xa0000 + 0x14)) n n = 0"
  by (induction n) (simp_all add: sleepy_def)

theorem gicv3_init_percpu_terminates_witness:
  "\<exists>t. gicv3_init_percpu sleepy 0 \<lparr>io_dev = 3, io_log = [], gicd = GICBASE, rdist_addrs = [GICBASE + 0xa0000]\<rparr> = Inr t \<and>
     last (io_log t) = (Sys ICC_IGRPEN1, 1)"
proof -
  let ?s = "\<lparr>io_dev = 3, io_log = [], gicd = GICBASE, rdist_addrs = [GICBASE + 0xa0000]\<rparr> :: nat gicv3"
  let ?a = "Mem (GICBASE + 0xa0000 + 0x14)"
  have a: "rreg ?s 0 GICR_WAKER = ?a" by (simp add: rreg_def GICR_WAKER_def)
  have "\<not> bit (fst (bus_rd sleepy ?a (after_reads sleepy ?a d (bus_wr sleepy ?a x d)))) 2" for x d
    using sleepy_awake [of d] by (simp add: sleepy_def)
  then have "wakes sleepy (rreg ?s 0 GICR_WAKER)" unfolding a wakes_def by blast
  from gicv3_init_percpu_terminates [OF _ this] show ?thesis by auto
qed

end
