(* ===== verification/Devinit.thy ===== *)
theory Devinit
  imports Gic
begin

text \<open>
  How the disk, the UART and the other CPUs are started: \<open>virtio_init\<close> of kernel/driver/virtio.c, \<open>uart_init\<close> of
  kernel/driver/virt/uart.c and kernel/driver/psci-if.c. \<open>vproto\<close> is the order of initialisation that the virtio
  standard prescribes to a driver, independently of the code, and the theorem is that the code keeps to it.
\<close>

unbundle bit_operations_syntax

section \<open>The disk\<close>

definition VIRTIO0 :: u64 where "VIRTIO0 = P2V 0x0a000000"

definition vreg :: "u64 \<Rightarrow> ioaddr" where
  "vreg off = Mem (VIRTIO0 + off)"

abbreviation REG_MAGICVALUE :: ioaddr where "REG_MAGICVALUE \<equiv> vreg 0x00"
abbreviation REG_VERSION :: ioaddr where "REG_VERSION \<equiv> vreg 0x04"
abbreviation REG_DEVICE_ID :: ioaddr where "REG_DEVICE_ID \<equiv> vreg 0x08"
abbreviation REG_DEVICE_FEATURES :: ioaddr where "REG_DEVICE_FEATURES \<equiv> vreg 0x10"
abbreviation REG_DEVICE_FEATURES_SEL :: ioaddr where "REG_DEVICE_FEATURES_SEL \<equiv> vreg 0x14"
abbreviation REG_DRIVER_FEATURES :: ioaddr where "REG_DRIVER_FEATURES \<equiv> vreg 0x20"
abbreviation REG_DRIVER_FEATURES_SEL :: ioaddr where "REG_DRIVER_FEATURES_SEL \<equiv> vreg 0x24"
abbreviation REG_QUEUE_SEL :: ioaddr where "REG_QUEUE_SEL \<equiv> vreg 0x30"
abbreviation REG_QUEUE_NUM_MAX :: ioaddr where "REG_QUEUE_NUM_MAX \<equiv> vreg 0x34"
abbreviation REG_QUEUE_NUM :: ioaddr where "REG_QUEUE_NUM \<equiv> vreg 0x38"
abbreviation REG_QUEUE_READY :: ioaddr where "REG_QUEUE_READY \<equiv> vreg 0x44"
abbreviation REG_STATUS :: ioaddr where "REG_STATUS \<equiv> vreg 0x70"
abbreviation REG_QUEUE_DESC_LOW :: ioaddr where "REG_QUEUE_DESC_LOW \<equiv> vreg 0x80"
abbreviation REG_QUEUE_DESC_HIGH :: ioaddr where "REG_QUEUE_DESC_HIGH \<equiv> vreg 0x84"
abbreviation REG_QUEUE_DRIVER_LOW :: ioaddr where "REG_QUEUE_DRIVER_LOW \<equiv> vreg 0x90"
abbreviation REG_QUEUE_DRIVER_HIGH :: ioaddr where "REG_QUEUE_DRIVER_HIGH \<equiv> vreg 0x94"
abbreviation REG_QUEUE_DEVICE_LOW :: ioaddr where "REG_QUEUE_DEVICE_LOW \<equiv> vreg 0xa0"
abbreviation REG_QUEUE_DEVICE_HIGH :: ioaddr where "REG_QUEUE_DEVICE_HIGH \<equiv> vreg 0xa4"

abbreviation ACKNOWLEDGE :: u32 where "ACKNOWLEDGE \<equiv> 1"
abbreviation DRIVER :: u32 where "DRIVER \<equiv> 2"
abbreviation DRIVER_OK :: u32 where "DRIVER_OK \<equiv> 4"
abbreviation FEATURES_OK :: u32 where "FEATURES_OK \<equiv> 8"

definition LO :: "u64 \<Rightarrow> u32" where "LO a = ucast (a AND 0xffffffff)"
definition HI :: "u64 \<Rightarrow> u32" where "HI a = ucast (drop_bit 32 a AND 0xffffffff)"

text \<open>
  The feature bits the driver turns down: SEG_MAX, GEOMETRY, RO, BLK_SIZE, FLUSH, TOPOLOGY, CONFIG_WCE, ANY_LAYOUT,
  INDIRECT_DESC, EVENT_IDX.
\<close>

definition refused_bits :: "nat list" where
  "refused_bits = [2, 4, 5, 6, 9, 10, 11, 27, 28, 29]"

definition turn_down :: "nat \<Rightarrow> u32 \<Rightarrow> u32" where
  "turn_down b f = f AND NOT (push_bit b 1)"

definition driver_features :: "u32 \<Rightarrow> u32" where
  "driver_features f = fold turn_down refused_bits f"

definition set_queue_addr :: "'d bus \<Rightarrow> ioaddr \<Rightarrow> ioaddr \<Rightarrow> u64 \<Rightarrow> ('d, 'b) io_scheme \<Rightarrow> ('d, 'b) io_scheme" where
  "set_queue_addr B lo hi va io = io_wr B hi (HI (V2P va)) (io_wr B lo (LO (V2P va)) io)"

definition virtio_init :: "'d bus \<Rightarrow> ('d, 'b) io_scheme \<Rightarrow> 'a kdisk_scheme irqs \<Rightarrow> 'a kdisk_scheme \<Rightarrow>
    (('d, 'b) io_scheme \<times> 'a kdisk_scheme irqs \<times> 'a kdisk_scheme) res" where
  "virtio_init B io irqs s =
     (let (m, io) = io_rd B REG_MAGICVALUE io in
      if m \<noteq> 0x74726976 then Inl (Panic ''no block device'') else
      let (v, io) = io_rd B REG_VERSION io in
      if v \<noteq> 2 then Inl (Panic ''no block device'') else
      let (i, io) = io_rd B REG_DEVICE_ID io in
      if i \<noteq> 2 then Inl (Panic ''no block device'') else
      let io = io_wr B REG_STATUS 0 io;
          status = 0 OR ACKNOWLEDGE;
          io = io_wr B REG_STATUS status io;
          status = status OR DRIVER;
          io = io_wr B REG_STATUS status io;
          io = io_wr B REG_DRIVER_FEATURES_SEL 0 (io_wr B REG_DEVICE_FEATURES_SEL 0 io);
          (features, io) = io_rd B REG_DEVICE_FEATURES io;
          io = io_wr B REG_DRIVER_FEATURES (driver_features features) io;
          status = status OR FEATURES_OK;
          io = io_wr B REG_STATUS status io;
          (status, io) = io_rd B REG_STATUS io in
      if status AND FEATURES_OK = 0 then Inl (Panic ''virtio-blk err'')
      else bnd (virtq_init s) (\<lambda>((desc, avail, used), s).
        let (qmax, io) = io_rd B REG_QUEUE_NUM_MAX io in
        if sint qmax < 8 then Inl (Panic ''virtqueue'')
        else
          let io = io_wr B REG_QUEUE_NUM 8 (io_wr B REG_QUEUE_SEL 0 io);
              io = set_queue_addr B REG_QUEUE_DESC_LOW REG_QUEUE_DESC_HIGH desc io;
              io = set_queue_addr B REG_QUEUE_DRIVER_LOW REG_QUEUE_DRIVER_HIGH avail io;
              io = set_queue_addr B REG_QUEUE_DEVICE_LOW REG_QUEUE_DEVICE_HIGH used io;
              io = io_wr B REG_QUEUE_READY 1 io;
              io = io_wr B REG_STATUS (status OR DRIVER_OK) io
          in Inr (io, new_irq (unat VIRTIO_BLK_IRQ) virtio_blk_intr irqs, lock_init DiskLk s)))"

section \<open>The UART and the other CPUs\<close>

definition UARTBASE :: u64 where "UARTBASE = P2V 0x09000000"

abbreviation UART_LCRH :: ioaddr where "UART_LCRH \<equiv> Mem (UARTBASE + 0x2c)"
abbreviation UART_CR :: ioaddr where "UART_CR \<equiv> Mem (UARTBASE + 0x30)"
abbreviation UART_IMSC :: ioaddr where "UART_IMSC \<equiv> Mem (UARTBASE + 0x38)"

definition disable_uart :: "'d bus \<Rightarrow> ('d, 'b) io_scheme \<Rightarrow> ('d, 'b) io_scheme" where
  "disable_uart B io = io_wr B UART_CR 0 io"

definition enable_uartintr :: "'d bus \<Rightarrow> ('d, 'b) io_scheme \<Rightarrow> ('d, 'b) io_scheme" where
  "enable_uartintr B io = io_wr B UART_IMSC (push_bit 4 1 OR push_bit 5 1) (io_wr B UART_IMSC 0 io)"

definition uart_init :: "'d bus \<Rightarrow> ('s \<Rightarrow> 's res) \<Rightarrow> ('d, 'b) io_scheme \<Rightarrow> 's irqs \<Rightarrow> ('d, 'b) io_scheme \<times> 's irqs" where
  "uart_init B intr io irqs =
     (let io = disable_uart B io;
          irqs = new_irq (unat UART_IRQ) intr irqs;
          io = io_wr B UART_LCRH (push_bit 4 1 OR push_bit 5 3) io;
          io = io_wr B UART_CR 0x301 io
      in (enable_uartintr B io, irqs))"

text \<open>\<open>psci_fn\<close> is a call of the hypervisor.\<close>

definition psci_cpu_on :: "(u64 \<Rightarrow> u64 \<Rightarrow> u64 \<Rightarrow> u64 \<Rightarrow> 'm \<Rightarrow> int \<times> 'm) \<Rightarrow> u64 \<Rightarrow> u64 \<Rightarrow> 'm \<Rightarrow> int \<times> 'm" where
  "psci_cpu_on psci_fn cpu ep m = psci_fn 0xc4000003 cpu ep 0 m"

section \<open>The order the standard prescribes\<close>

text \<open>
  What a virtio block device on this bus has been told so far, and which write it allows next: the status bits are set
  one after the other, features are chosen between DRIVER and FEATURES_OK, the queue is described after
  FEATURES_OK and before it is made ready, completely and once, and DRIVER_OK comes last. A zero in the status register resets the
  device at any time.
\<close>

record vdev =
  vs_status :: u32
  vs_feat :: "u32 option"
  vs_num :: u32
  vs_addr :: "u64 \<Rightarrow> u32 option"
  vs_ready :: bool

definition vreset :: vdev where
  "vreset = \<lparr>vs_status = 0, vs_feat = None, vs_num = 0, vs_addr = \<lambda>_. None, vs_ready = False\<rparr>"

definition queue_addr_regs :: "u64 list" where
  "queue_addr_regs = [0x80, 0x84, 0x90, 0x94, 0xa0, 0xa4]"

definition status_allowed :: "u32 \<Rightarrow> vdev \<Rightarrow> bool" where
  "status_allowed x v \<longleftrightarrow>
     vs_status v = 0 \<and> x = 1 \<or>
     vs_status v = 1 \<and> x = 3 \<or>
     vs_status v = 3 \<and> x = 11 \<and> vs_feat v \<noteq> None \<or>
     vs_status v = 11 \<and> x = 15 \<and> vs_ready v"

definition vproto :: "u64 \<Rightarrow> u32 \<Rightarrow> vdev \<Rightarrow> vdev option" where
  "vproto off x v =
     (if off = 0x70 then
        if x = 0 then Some vreset else if status_allowed x v then Some (v\<lparr>vs_status := x\<rparr>) else None
      else if off = 0x14 \<or> off = 0x24 then (if x = 0 \<and> vs_status v = 3 then Some v else None)
      else if off = 0x20 then (if vs_status v = 3 then Some (v\<lparr>vs_feat := Some x\<rparr>) else None)
      else if vs_status v \<noteq> 11 \<or> vs_ready v then None
      else if off = 0x30 then (if x = 0 then Some v else None)
      else if off = 0x38 then Some (v\<lparr>vs_num := x\<rparr>)
      else if off \<in> set queue_addr_regs then Some (v\<lparr>vs_addr := (vs_addr v)(off \<mapsto> x)\<rparr>)
      else if off = 0x44 \<and> x = 1 \<and> vs_num v \<noteq> 0 \<and> (\<forall>r\<in>set queue_addr_regs. vs_addr v r \<noteq> None)
      then Some (v\<lparr>vs_ready := True\<rparr>) else None)"

fun vrun :: "(ioaddr \<times> u32) list \<Rightarrow> vdev \<Rightarrow> vdev option" where
  "vrun [] v = Some v"
| "vrun ((Mem a, x) # W) v = (case vproto (a - VIRTIO0) x v of None \<Rightarrow> None | Some v \<Rightarrow> vrun W v)"
| "vrun ((Sys r, x) # W) v = None"

text \<open>The 64-bit address in a pair of registers.\<close>

definition queue_addr :: "vdev \<Rightarrow> u64 \<Rightarrow> u64" where
  "queue_addr v r = ucast (the (vs_addr v r)) OR push_bit 32 (ucast (the (vs_addr v (r + 4))))"

lemma vrun_vreg [simp]: "vrun ((vreg off, x) # W) v = (case vproto off x v of None \<Rightarrow> None | Some v \<Rightarrow> vrun W v)"
  by (simp add: vreg_def)

lemma lo_hi: "ucast (LO a) OR push_bit 32 (ucast (HI a)) = a"
proof (rule bit_word_eqI)
  fix k assume k: "k < LENGTH(64)"
  have m: "(0xffffffff :: u64) = mask 32" by (simp add: mask_eq_exp_minus_1)
  show "bit (ucast (LO a) OR push_bit 32 (ucast (HI a)) :: u64) k \<longleftrightarrow> bit a k"
    using k unfolding LO_def HI_def m by (cases "k < 32") (auto simp: bit_simps)
qed

lemma bit_turn_down: "bit (turn_down b f) k \<longleftrightarrow> bit f k \<and> k \<noteq> b"
  using bit_imp_le_length [of f k] by (auto simp: turn_down_def bit_simps bit_exp_iff)

lemma bit_driver_features: "bit (driver_features f) k \<longleftrightarrow> bit f k \<and> k \<notin> set refused_bits"
proof -
  have "bit (fold turn_down bs f) k \<longleftrightarrow> bit f k \<and> k \<notin> set bs" for bs
    by (induction bs arbitrary: f) (auto simp: bit_turn_down)
  then show ?thesis by (simp add: driver_features_def)
qed

text \<open>What a block device on this bus answers: its identity, the features it offers in the selected word, the status as written.\<close>

definition blk_doc :: "'d bus \<Rightarrow> u32 \<Rightarrow> bool" where
  "blk_doc B offered \<longleftrightarrow>
     (\<forall>d. fst (bus_rd B REG_MAGICVALUE d) = 0x74726976 \<and> fst (bus_rd B REG_VERSION d) = 2 \<and>
        fst (bus_rd B REG_DEVICE_ID d) = 2 \<and> 8 \<le> sint (fst (bus_rd B REG_QUEUE_NUM_MAX d)) \<and>
        fst (bus_rd B REG_DEVICE_FEATURES (bus_wr B REG_DRIVER_FEATURES_SEL 0 (bus_wr B REG_DEVICE_FEATURES_SEL 0 d))) = offered \<and>
        (\<forall>x. fst (bus_rd B REG_STATUS (bus_wr B REG_STATUS x d)) = x))"

lemma virtq_init_ok:
  assumes "free_pages s (a # b # c # ps)"
  shows "\<exists>t. virtq_init s = Inr ((a, b, c), t) \<and> free_pages t ps \<and> queue_ok [] [0..<NQUEUE] t"
proof -
  obtain s1 where s1: "kalloc s = Inr (a, s1)" "free_pages s1 (b # c # ps)"
    using kpages.alloc_next [OF assms] by blast
  obtain s2 where s2: "kalloc s1 = Inr (b, s2)" "free_pages s2 (c # ps)"
    using kpages.alloc_next [OF s1(2)] by blast
  obtain s3 where s3: "kalloc s2 = Inr (c, s3)" "free_pages s3 ps"
    using kpages.alloc_next [OF s2(2)] by blast
  have nz: "a \<noteq> 0" "b \<noteq> 0" "c \<noteq> 0" using kpages.pool_ok [OF assms] by auto
  show ?thesis
    unfolding virtq_init_def s1(1) s2(1) s3(1) bnd.simps prod.case
    using nz s3(2)
    by (auto simp: free_pages_def queue_ok_def desc_init_def has_next_def nth_append upt_conv_Cons)
qed

text \<open>The writes of the handshake are accepted one after the other.\<close>

definition handshake :: "u32 \<Rightarrow> u64 \<Rightarrow> u64 \<Rightarrow> u64 \<Rightarrow> (ioaddr \<times> u32) list" where
  "handshake f a b c =
     [(REG_STATUS, 0), (REG_STATUS, 1), (REG_STATUS, 3), (REG_DEVICE_FEATURES_SEL, 0), (REG_DRIVER_FEATURES_SEL, 0),
      (REG_DRIVER_FEATURES, f), (REG_STATUS, 11), (REG_QUEUE_SEL, 0), (REG_QUEUE_NUM, 8),
      (REG_QUEUE_DESC_LOW, LO (V2P a)), (REG_QUEUE_DESC_HIGH, HI (V2P a)), (REG_QUEUE_DRIVER_LOW, LO (V2P b)),
      (REG_QUEUE_DRIVER_HIGH, HI (V2P b)), (REG_QUEUE_DEVICE_LOW, LO (V2P c)), (REG_QUEUE_DEVICE_HIGH, HI (V2P c)),
      (REG_QUEUE_READY, 1), (REG_STATUS, 15)]"

lemma handshake_accepted:
  "\<exists>v. vrun (handshake f a b c) v0 = Some v \<and> vs_status v = 15 \<and> vs_ready v \<and> vs_num v = 8 \<and> vs_feat v = Some f \<and>
     queue_addr v 0x80 = V2P a \<and> queue_addr v 0x90 = V2P b \<and> queue_addr v 0xa0 = V2P c"
  by (simp add: handshake_def vproto_def vreset_def status_allowed_def queue_addr_regs_def queue_addr_def lo_hi)

lemma virtio_init_writes:
  assumes "blk_doc B offered" "virtq_init s = Inr ((a, b, c), t)"
  shows "\<exists>io'. virtio_init B io irqs s = Inr (io', new_irq (unat VIRTIO_BLK_IRQ) virtio_blk_intr irqs, lock_init DiskLk t) \<and>
    io_log io' = io_log io @ handshake (driver_features offered) a b c"
proof -
  have d: "fst (bus_rd B REG_MAGICVALUE d) = 0x74726976" "fst (bus_rd B REG_VERSION d) = 2"
    "fst (bus_rd B REG_DEVICE_ID d) = 2" "\<not> sint (fst (bus_rd B REG_QUEUE_NUM_MAX d)) < 8"
    "fst (bus_rd B REG_DEVICE_FEATURES (bus_wr B REG_DRIVER_FEATURES_SEL 0 (bus_wr B REG_DEVICE_FEATURES_SEL 0 d))) = offered"
    "fst (bus_rd B REG_STATUS (bus_wr B REG_STATUS x d)) = x" for d x
    using assms(1) unfolding blk_doc_def by (blast, blast, blast, simp add: not_less, blast, blast)
  show ?thesis
    by (simp add: virtio_init_def split_beta d assms(2) handshake_def set_queue_addr_def)
qed

text \<open>
  C11. Where a block device answers and three pages are free, \<open>virtio_init\<close> brings the device up: its writes follow the order
  of the standard from any state of the device to DRIVER_OK, the features it accepts are offered ones and none of those it
  cannot deal with (above all indirect descriptors and event indices), and the queue of eight it describes lies in three pages
  of its own, whose addresses the device gets in full; the driver's own queue starts with all eight descriptors free.
\<close>

theorem virtio_init_follows_protocol:
  assumes "blk_doc B offered" "free_pages s (a # b # c # ps)" "length irqs = NIRQ"
  shows "\<exists>io' irqs' s' v f. virtio_init B io irqs s = Inr (io', irqs', s') \<and>
    vrun (drop (length (io_log io)) (io_log io')) v0 = Some v \<and>
    vs_status v = ACKNOWLEDGE OR DRIVER OR FEATURES_OK OR DRIVER_OK \<and> vs_ready v \<and> vs_num v = of_nat NQUEUE \<and>
    vs_feat v = Some f \<and> (\<forall>k. bit f k \<longrightarrow> bit offered k \<and> k \<noteq> 28 \<and> k \<noteq> 29) \<and>
    queue_addr v 0x80 = V2P a \<and> queue_addr v 0x90 = V2P b \<and> queue_addr v 0xa0 = V2P c \<and> distinct [a, b, c] \<and>
    free_pages s' ps \<and> queue_ok [] [0..<NQUEUE] s' \<and> irqs' ! unat VIRTIO_BLK_IRQ = virtio_blk_intr"
proof -
  obtain t where t: "virtq_init s = Inr ((a, b, c), t)" "free_pages t ps" "queue_ok [] [0..<NQUEUE] t"
    using virtq_init_ok [OF assms(2)] by blast
  obtain io' where io: "virtio_init B io irqs s = Inr (io', new_irq (unat VIRTIO_BLK_IRQ) virtio_blk_intr irqs, lock_init DiskLk t)"
    "io_log io' = io_log io @ handshake (driver_features offered) a b c"
    using virtio_init_writes [OF assms(1) t(1)] by blast
  obtain v where v: "vrun (handshake (driver_features offered) a b c) v0 = Some v" "vs_status v = 15" "vs_ready v" "vs_num v = 8"
    "vs_feat v = Some (driver_features offered)" "queue_addr v 0x80 = V2P a" "queue_addr v 0x90 = V2P b" "queue_addr v 0xa0 = V2P c"
    using handshake_accepted by blast
  have "vrun (drop (length (io_log io)) (io_log io')) v0 = Some v" using v(1) io(2) by simp
  moreover have "\<forall>k. bit (driver_features offered) k \<longrightarrow> bit offered k \<and> k \<noteq> 28 \<and> k \<noteq> 29"
    by (auto simp: bit_driver_features refused_bits_def)
  moreover have "distinct [a, b, c]" using kpages.pool_ok [OF assms(2)] by auto
  moreover have "free_pages (lock_init DiskLk t) ps" "queue_ok [] [0..<NQUEUE] (lock_init DiskLk t)"
    using t(2,3) by (simp_all add: free_pages_def queue_ok_def lock_init_def lock_free_def holding_def set_lock_def)
  moreover have "new_irq (unat VIRTIO_BLK_IRQ) virtio_blk_intr irqs ! unat VIRTIO_BLK_IRQ = virtio_blk_intr"
    using assms(3) by (simp add: new_irq_def)
  ultimately show ?thesis using io(1) v(2-) by (intro exI [of _ io'] exI [of _ v] exI) auto
qed

section \<open>A block device that does what is documented\<close>

text \<open>Its state is the status byte; it offers every feature and queues of 1024 entries.\<close>

definition demo_blk :: "u32 bus" where
  "demo_blk = \<lparr>
     bus_rd = \<lambda>a d. (if a = REG_MAGICVALUE then 0x74726976 else if a = REG_VERSION then 2 else if a = REG_DEVICE_ID then 2
       else if a = REG_QUEUE_NUM_MAX then 1024 else if a = REG_STATUS then d else if a = REG_DEVICE_FEATURES then NOT 0 else 0, d),
     bus_wr = \<lambda>a x d. if a = REG_STATUS then x else d\<rparr>"

lemma vreg_eq [simp]: "vreg a = vreg b \<longleftrightarrow> a = b"
  by (simp add: vreg_def)

lemma demo_blk_doc: "blk_doc demo_blk (NOT 0)"
  by (simp add: blk_doc_def demo_blk_def)

theorem virtio_init_follows_protocol_witness:
  "\<exists>io' irqs' s' v f. virtio_init demo_blk \<lparr>io_dev = 0, io_log = []\<rparr> trap_init (idle_disk (\<lambda>_. []) (\<lambda>_. [])) = Inr (io', irqs', s') \<and>
     vrun (io_log io') vreset = Some v \<and> vs_status v = 15 \<and> vs_feat v = Some f \<and> \<not> bit f 28"
proof -
  let ?s = "idle_disk (\<lambda>_. []) (\<lambda>_. [])"
  obtain a b c ps where p: "pages20 = a # b # c # ps"
    using pages20_ok(3) by (auto simp: numeral_eq_Suc length_Suc_conv)
  have "free_pages ?s pages20"
    using free_pages20 idle_disk_ok(2) [of KallocLk]
    by (simp add: free_pages_def) (simp add: idle_disk_def kproc.extend_def)
  then have f: "free_pages ?s (a # b # c # ps)" by (simp add: p)
  from virtio_init_follows_protocol [OF demo_blk_doc f, of "trap_init" "\<lparr>io_dev = 0, io_log = []\<rparr>" vreset]
  show ?thesis by (fastforce simp: trap_init_def)
qed

end
