(* ===== verification/Kmap.thy ===== *)
theory Kmap
  imports Mm
begin

text \<open>
  The kernel's own address space: \<open>kpgt_init\<close> of kernel/mm.c, run at boot between the two halves of
  \<open>kalloc_init\<close>. Here the number of free pages matters: a mapping needs exactly as many as there are
  last-level tables missing in its range (\<open>missing\<close>), and with one less it ends in a null pointer.
\<close>

unbundle bit_operations_syntax

section \<open>Kernel addresses\<close>

text \<open>A table only sees the low 39 bits of an address, so a kernel address has the path of its low half.\<close>

lemma PIDX_low:
  assumes "take_bit 39 va = take_bit 39 wa" "1 \<le> l" "l \<le> 3"
  shows "PIDX l va = PIDX l wa"
proof -
  have m: "(0x1ff :: u64) = mask 9" by (simp add: mask_eq_exp_minus_1)
  have "PIDX l va = drop_bit (39 - l * 9) (take_bit (9 + (39 - l * 9)) va)" for va
    by (simp add: PIDX_def m take_bit_drop_bit flip: take_bit_eq_mask)
  moreover have "take_bit (9 + (39 - l * 9)) va = take_bit (9 + (39 - l * 9)) (take_bit 39 va)" for va :: u64
  proof -
    have "min (9 + (39 - l * 9)) 39 = 9 + (39 - l * 9)" using assms(2,3) by linarith
    then show ?thesis by (simp only: take_bit_take_bit)
  qed
  ultimately show ?thesis using assms(1) by metis
qed

lemma low_VA_START: "take_bit 39 (va + VA_START) = take_bit 39 va" for va :: u64
proof -
  have t: "unat (take_bit 39 x) = unat x mod 2 ^ 39" for x :: u64
    unfolding take_bit_eq_mod [symmetric] by (rule unsigned_take_bit_eq)
  have "unat (va + VA_START) = (unat va + 0xffffff8000000000) mod 2 ^ 64" by (simp add: unat_word_ariths)
  then have "unat (va + VA_START) mod 2 ^ 39 = (unat va + 0xffffff8000000000) mod 2 ^ 39"
    by (simp add: mod_mod_cancel)
  also have "\<dots> = (unat va + 2 ^ 39 * 33554431) mod 2 ^ 39" by simp
  also have "\<dots> = unat va mod 2 ^ 39" by (rule mod_mult_self2)
  finally show ?thesis by (simp only: word_unat_eq_iff t)
qed

lemma PIDX_VA_START:
  "PIDX 1 (va + VA_START) = PIDX 1 va" "PIDX 2 (va + VA_START) = PIDX 2 va" "PIDX 3 (va + VA_START) = PIDX 3 va"
  by (rule PIDX_low [OF low_VA_START]; simp)+

lemma vpath_VA_START: "vpath (va + VA_START) = vpath va"
  by (simp only: vpath_def PIDX_VA_START)

lemma pagewalk_VA_START: "pagewalk pgt (va + VA_START) s = pagewalk pgt va s"
  by (simp only: pagewalk_def walk_level_def PIDX_VA_START)

lemma map_pages_VA_START: "map_pages n pgt (va + VA_START) pa attr s = map_pages n pgt va pa attr s"
proof (induction n arbitrary: va pa s)
  case (Suc n)
  have "va + VA_START + PAGESIZE = (va + PAGESIZE) + VA_START" by (simp add: algebra_simps)
  then show ?case by (simp only: map_pages.simps pagewalk_VA_START Suc.IH)
qed simp

section \<open>Mapping with as many pages as it takes\<close>

text \<open>The path of the last-level table of an address, and the ones missing for \<open>n\<close> pages from \<open>va\<close> on.\<close>

definition tpath :: "u64 \<Rightarrow> nat list" where
  "tpath va = butlast (vpath va)"

definition missing :: "mem \<Rightarrow> u64 \<Rightarrow> u64 \<Rightarrow> nat \<Rightarrow> nat list set" where
  "missing m pgt va n = {px \<in> (\<lambda>i. tpath (page_at va i)) ` {..<n}. node m 1 pgt px = None}"

lemma finite_missing [simp]: "finite (missing m pgt va n)"
  by (simp add: missing_def)

lemma missing_0 [simp]: "missing m pgt va 0 = {}"
  by (simp add: missing_def)

lemma missing_Suc:
  "missing m pgt va (Suc n) = (if node m 1 pgt (tpath va) = None then {tpath va} else {}) \<union> missing m pgt (va + PAGESIZE) n"
proof -
  have "(\<lambda>i. tpath (page_at va i)) ` {..<Suc n} = insert (tpath va) ((\<lambda>i. tpath (page_at (va + PAGESIZE) i)) ` {..<n})"
    by (simp add: lessThan_Suc_eq_insert_0 image_image page_at_Suc del: lessThan_Suc)
  then show ?thesis unfolding missing_def by auto
qed

text \<open>The table above the last level is there for every page of the range.\<close>

definition rooted :: "mem \<Rightarrow> u64 \<Rightarrow> u64 \<Rightarrow> nat \<Rightarrow> bool" where
  "rooted m pgt va n \<longleftrightarrow> (\<forall>i<n. node m 1 pgt [unat (PIDX 1 (page_at va i))] \<noteq> None)"

lemma rooted_Suc:
  "rooted m pgt va (Suc n) \<longleftrightarrow> node m 1 pgt [unat (PIDX 1 va)] \<noteq> None \<and> rooted m pgt (va + PAGESIZE) n"
  by (auto simp: rooted_def All_less_Suc2 page_at_Suc)

text \<open>The tables of \<open>t\<close> are those of \<open>s\<close>, and maybe one more.\<close>

definition adds :: "u64 \<Rightarrow> nat list set \<Rightarrow> 'a kmem_scheme \<Rightarrow> 'a kmem_scheme \<Rightarrow> bool" where
  "adds pgt P s t \<longleftrightarrow> (\<forall>ix. path_ok 2 ix \<longrightarrow> (node (mem t) 1 pgt ix = None \<longleftrightarrow> node (mem s) 1 pgt ix = None \<and> ix \<notin> P))"

lemma adds_trans: "adds pgt P s t \<Longrightarrow> adds pgt Q t u \<Longrightarrow> adds pgt (P \<union> Q) s u"
  by (auto simp: adds_def)

lemma path_ok_tpath [simp]: "path_ok 2 (tpath va)" "length (tpath va) = 2"
  using path_ok_last [of "vpath va"] by (simp_all add: tpath_def)

lemma path_ok_first: "path_ok 2 [unat (PIDX 1 va)]"
  by (simp add: path_ok_def PIDX_bound)

lemma addsD:
  "adds pgt P s t \<Longrightarrow> path_ok 2 ix \<Longrightarrow> node (mem t) 1 pgt ix = None \<longleftrightarrow> node (mem s) 1 pgt ix = None \<and> ix \<notin> P"
  by (simp only: adds_def)

lemma Collect_Diff: "(\<And>x. x \<in> I \<Longrightarrow> A x \<longleftrightarrow> B x \<and> x \<notin> P) \<Longrightarrow> {x \<in> I. A x} = {x \<in> I. B x} - P"
  by blast

lemma missing_adds:
  assumes "adds pgt P s t"
  shows "missing (mem t) pgt va n = missing (mem s) pgt va n - P"
proof -
  have "node (mem t) 1 pgt px = None \<longleftrightarrow> node (mem s) 1 pgt px = None \<and> px \<notin> P"
    if "px \<in> (\<lambda>i. tpath (page_at va i)) ` {..<n}" for px
  proof -
    from that obtain i where px: "px = tpath (page_at va i)" by (rule imageE)
    show ?thesis unfolding px by (rule addsD [OF assms path_ok_tpath(1)])
  qed
  then show ?thesis unfolding missing_def by (rule Collect_Diff)
qed

lemma rooted_adds:
  assumes "adds pgt P s t" "rooted (mem s) pgt va n"
  shows "rooted (mem t) pgt va n"
  unfolding rooted_def
proof (intro allI impI)
  fix i assume "i < n"
  then have "node (mem s) 1 pgt [unat (PIDX 1 (page_at va i))] \<noteq> None" using assms(2) unfolding rooted_def by blast
  then show "node (mem t) 1 pgt [unat (PIDX 1 (page_at va i))] \<noteq> None"
    using addsD [OF assms(1) path_ok_first [of "page_at va i"]] by argo
qed

lemma leaf_missing: "node m 1 pgt (tpath va) = None \<Longrightarrow> leaf m pgt (vpath va) = 0"
  by (simp add: leaf_def tpath_def del: One_nat_def vpath_simps)

text \<open>Storing a leaf keeps all tables.\<close>

lemma store_adds:
  assumes a: "aspace s pgt ps" and t: "node (mem s) 1 pgt (tpath va) = Some t"
  shows "adds pgt {} s (s\<lparr>mem := st64 (mem s) (t + 8 * PIDX 3 va) w\<rparr>)"
proof -
  have tr: "tree 1 (mem s) pgt" using a by (simp add: aspace_def)
  have i: "PIDX 3 va = of_nat (unat (PIDX 3 va))" "unat (PIDX 3 va) < 512" using PIDX_bound by simp_all
  from node_leaf_store [OF tr t path_ok_tpath(2,1) i(2)] show ?thesis
    by (simp add: adds_def flip: i(1))
qed

text \<open>One page, the table of which is there or has to be made.\<close>

lemma map_hit:
  assumes a: "aspace s pgt ps" and t: "node (mem s) 1 pgt (tpath va) = Some t"
    and free: "leaf (mem s) pgt (vpath va) AND PTE_AF = 0"
  shows "\<exists>u. (\<forall>n. map_pages (Suc n) pgt va pa attr s = map_pages n pgt (va + PAGESIZE) (pa + PAGESIZE) attr u) \<and>
    grows pgt {vpath va} s ps u ps \<and> leaf (mem u) pgt (vpath va) = leaf_entry pa attr \<and> adds pgt {} s u"
proof -
  let ?u = "s\<lparr>mem := st64 (mem s) (t + 8 * PIDX 3 va) (leaf_entry pa attr)\<rparr>"
  have kt: "kern_page t" using aspace_page [OF a path_ok_tpath(1) t] by simp
  have nz: "t + 8 * PIDX 3 va \<noteq> 0" using slot_nonzero [OF kt PIDX_bound [of 3 va]] by simp
  have lf: "ld64 (mem s) (t + 8 * PIDX 3 va) AND PTE_AF = 0" using pagewalk_hit_spec [OF t [unfolded tpath_def]] free by simp
  have "map_pages (Suc n) pgt va pa attr s = map_pages n pgt (va + PAGESIZE) (pa + PAGESIZE) attr ?u" for n
    using pagewalk_hit [OF t [unfolded tpath_def]] nz lf by (simp add: leaf_entry_def)
  then show ?thesis using leaf_store [OF a t [unfolded tpath_def], of "leaf_entry pa attr"] store_adds [OF a t] by (intro exI [of _ ?u]) simp
qed

lemma walk_new:
  assumes a: "aspace s pgt (q # qs)" and u: "node (mem s) 1 pgt [unat (PIDX 1 va)] = Some u"
    and none: "node (mem s) 1 pgt (tpath va) = None"
  shows "\<exists>t. pagewalk pgt va s = Inr (q + 8 * PIDX 3 va, t) \<and> node (mem t) 1 pgt (tpath va) = Some q \<and>
    grows pgt {} s (q # qs) t qs \<and> adds pgt {tpath va} s t"
proof -
  let ?i = "unat (PIDX 2 va)"
  note p1 = path_ok_first [of va]
  have tp: "tpath va = [unat (PIDX 1 va)] @ [?i]" by (simp add: tpath_def)
  have e: "ent (mem s) 2 u ?i = None"
    using none unfolding tp node_append u by (simp add: numeral_2_eq_2 split: option.splits)
  have e1: "ent (mem s) 1 pgt (unat (PIDX 1 va)) = Some u" using u by (auto split: option.splits)
  have l: "length [unat (PIDX 1 va)] < 2" and l2: "2 = Suc (length [unat (PIDX 1 va)])" by simp_all
  obtain t where t: "walk_level 2 va u s = Inr (Some q, t)" "node (mem t) 1 pgt ([unat (PIDX 1 va)] @ [?i]) = Some q"
      "grows pgt {} s (q # qs) t qs" "mem t = graft (mem s) u ?i q"
    using walk_level_miss [OF a u l p1 l2 refl e] by blast
  have w: "pagewalk pgt va s = Inr (q + 8 * PIDX 3 va, t)"
    using t(1) by (simp add: pagewalk_def walk_level_hit [OF e1] del: One_nat_def)
  have tr: "tree 1 (mem s) pgt" and q: "kern_page q" "q \<notin> tables 1 (mem s) pgt" using a by (auto simp: aspace_def)
  have "node (mem t) 1 pgt ix = (if ix = [unat (PIDX 1 va)] @ [?i] then Some q else node (mem s) 1 pgt ix)" if "path_ok 2 ix" for ix
    unfolding t(4) using e by (intro node_graft [OF tr u _ _ _ q that]) (simp_all add: path_ok_def PIDX_bound numeral_2_eq_2)
  then have "adds pgt {tpath va} s t" unfolding adds_def tp by auto
  then show ?thesis using w t(2,3) unfolding tp by blast
qed

lemma map_new:
  assumes a: "aspace s pgt (q # qs)" and u: "node (mem s) 1 pgt [unat (PIDX 1 va)] = Some u"
    and none: "node (mem s) 1 pgt (tpath va) = None"
  shows "\<exists>t. (\<forall>n. map_pages (Suc n) pgt va pa attr s = map_pages n pgt (va + PAGESIZE) (pa + PAGESIZE) attr t) \<and>
    grows pgt {vpath va} s (q # qs) t qs \<and> leaf (mem t) pgt (vpath va) = leaf_entry pa attr \<and> adds pgt {tpath va} s t"
proof -
  obtain s1 where w: "pagewalk pgt va s = Inr (q + 8 * PIDX 3 va, s1)" "node (mem s1) 1 pgt (tpath va) = Some q"
      "grows pgt {} s (q # qs) s1 qs" "adds pgt {tpath va} s s1"
    using walk_new [OF assms] by blast
  note a1 = grows_aspace [OF w(3)]
  have "leaf (mem s1) pgt (vpath va) = 0" using grows_leaf [OF w(3), of va] leaf_missing [OF none] by simp
  then obtain t where t: "\<And>n. map_pages (Suc n) pgt va pa attr s1 = map_pages n pgt (va + PAGESIZE) (pa + PAGESIZE) attr t"
      "grows pgt {vpath va} s1 qs t qs" "leaf (mem t) pgt (vpath va) = leaf_entry pa attr" "adds pgt {} s1 t"
    using map_hit [OF a1 w(2), of pa attr] by auto
  have "map_pages (Suc n) pgt va pa attr s = map_pages (Suc n) pgt va pa attr s1" for n
    using w(1) pagewalk_hit [OF w(2) [unfolded tpath_def]] by simp
  moreover have "grows pgt {vpath va} s (q # qs) t qs" using grows_trans [OF w(3) t(2)] by simp
  moreover have "adds pgt {tpath va} s t" using adds_trans [OF w(4) t(4)] by simp
  ultimately show ?thesis using t(1,3) by (intro exI [of _ t]) simp
qed

text \<open>All pages of the range, with exactly the pages that are missing.\<close>

lemma card_missing_new:
  assumes "node (mem s) 1 pgt (tpath va) = None" "adds pgt {tpath va} s t"
  shows "card (missing (mem s) pgt va (Suc n)) = Suc (card (missing (mem t) pgt (va + PAGESIZE) n))"
  using assms by (simp only: missing_Suc missing_adds [OF assms(2)] if_True) (simp add: card.insert_remove)

lemma card_missing_pos:
  assumes "node m 1 pgt (tpath va) = None"
  shows "card (missing m pgt va (Suc n)) \<noteq> 0"
proof -
  have "missing m pgt va (Suc n) \<noteq> {}" unfolding missing_Suc by (simp only: assms refl if_True) simp
  then show ?thesis by (simp only: card_0_eq [OF finite_missing] not_False_eq_True)
qed

lemma map_step:
  assumes a: "aspace s pgt ps" and r: "node (mem s) 1 pgt [unat (PIDX 1 va)] \<noteq> None"
    and c: "node (mem s) 1 pgt (tpath va) = None \<longrightarrow> ps \<noteq> []" and f: "leaf (mem s) pgt (vpath va) AND PTE_AF = 0"
  shows "\<exists>P t qs. (\<forall>k. map_pages (Suc k) pgt va pa attr s = map_pages k pgt (va + PAGESIZE) (pa + PAGESIZE) attr t) \<and>
    grows pgt {vpath va} s ps t qs \<and> leaf (mem t) pgt (vpath va) = leaf_entry pa attr \<and> adds pgt P s t \<and>
    missing (mem s) pgt va (Suc n) = P \<union> missing (mem t) pgt (va + PAGESIZE) n \<and>
    card (missing (mem s) pgt va (Suc n)) = card (missing (mem t) pgt (va + PAGESIZE) n) + card P \<and>
    length ps = card P + length qs"
proof (cases "node (mem s) 1 pgt (tpath va)")
  case None
  obtain u where u: "node (mem s) 1 pgt [unat (PIDX 1 va)] = Some u" using r by blast
  have e: "missing (mem s) pgt va (Suc n) = {tpath va} \<union> missing (mem s) pgt (va + PAGESIZE) n"
    unfolding missing_Suc by (simp only: None refl if_True)
  obtain q qs where ps: "ps = q # qs" using c None by (cases ps) simp_all
  obtain t where t: "\<forall>k. map_pages (Suc k) pgt va pa attr s = map_pages k pgt (va + PAGESIZE) (pa + PAGESIZE) attr t"
    "grows pgt {vpath va} s ps t qs" "leaf (mem t) pgt (vpath va) = leaf_entry pa attr" "adds pgt {tpath va} s t"
    using map_new [OF a [unfolded ps] u None, of pa attr] unfolding ps by blast
  have "missing (mem s) pgt va (Suc n) = {tpath va} \<union> missing (mem t) pgt (va + PAGESIZE) n"
    unfolding e missing_adds [OF t(4)] by simp
  moreover have "card (missing (mem s) pgt va (Suc n)) = card (missing (mem t) pgt (va + PAGESIZE) n) + card {tpath va}"
    using card_missing_new [OF None t(4), of n] by (simp only: card.empty card.insert) simp
  moreover have "length ps = card {tpath va} + length qs" by (simp add: ps)
  ultimately show ?thesis using t by blast
next
  case (Some w)
  from map_hit [OF a Some f, of pa attr] obtain t where t:
    "\<forall>k. map_pages (Suc k) pgt va pa attr s = map_pages k pgt (va + PAGESIZE) (pa + PAGESIZE) attr t"
    "grows pgt {vpath va} s ps t ps" "leaf (mem t) pgt (vpath va) = leaf_entry pa attr" "adds pgt {} s t"
    by blast
  have m: "missing (mem s) pgt va (Suc n) = {} \<union> missing (mem t) pgt (va + PAGESIZE) n"
    unfolding missing_adds [OF t(4)] missing_Suc by (simp only: Some option.simps if_False Diff_empty)
  then have "card (missing (mem s) pgt va (Suc n)) = card (missing (mem t) pgt (va + PAGESIZE) n) + card ({} :: nat list set)"
    by (simp only: Un_empty_left card.empty)
  moreover have "length ps = card ({} :: nat list set) + length ps" by (simp only: card.empty)
  ultimately show ?thesis using t m by blast
qed

lemma map_pages_exact:
  assumes "aspace s pgt ps" "rooted (mem s) pgt va n" "card (missing (mem s) pgt va n) \<le> length ps"
    "page_aligned va" "unat va + 4096 * n \<le> 2 ^ 39"
    "\<And>i. i < n \<Longrightarrow> leaf (mem s) pgt (vpath (page_at va i)) AND PTE_AF = 0"
  shows "\<exists>t qs. map_pages n pgt va pa attr s = Inr t \<and> grows pgt (vrange va n) s ps t qs \<and>
           (\<forall>i<n. leaf (mem t) pgt (vpath (page_at va i)) = leaf_entry (page_at pa i) attr) \<and>
           adds pgt (missing (mem s) pgt va n) s t \<and> length ps = card (missing (mem s) pgt va n) + length qs"
  using assms
proof (induction n arbitrary: va pa s ps)
  case 0
  then show ?case using grows_refl [OF 0(1), of "{}"] by (intro exI [of _ s] exI [of _ ps]) (simp add: adds_def)
next
  case (Suc n)
  have r: "node (mem s) 1 pgt [unat (PIDX 1 va)] \<noteq> None" "rooted (mem s) pgt (va + PAGESIZE) n"
    using Suc.prems(2) unfolding rooted_Suc by blast+
  have f0: "leaf (mem s) pgt (vpath va) AND PTE_AF = 0" using Suc.prems(6) [of 0] by simp
  have ne: "node (mem s) 1 pgt (tpath va) = None \<longrightarrow> ps \<noteq> []"
    using card_missing_pos [of "mem s" pgt va n] Suc.prems(3) by auto
  obtain P t qs where t: "\<And>k. map_pages (Suc k) pgt va pa attr s = map_pages k pgt (va + PAGESIZE) (pa + PAGESIZE) attr t"
      "grows pgt {vpath va} s ps t qs" "leaf (mem t) pgt (vpath va) = leaf_entry pa attr" "adds pgt P s t"
      "missing (mem s) pgt va (Suc n) = P \<union> missing (mem t) pgt (va + PAGESIZE) n"
      "card (missing (mem s) pgt va (Suc n)) = card (missing (mem t) pgt (va + PAGESIZE) n) + card P"
      "length ps = card P + length qs"
    using map_step [OF Suc.prems(1) r(1) ne f0, of pa attr n] by blast
  note nxt = page_next [OF Suc.prems(4,5)]
  note new = vpath_notin_next [OF Suc.prems(4,5)]
  have "leaf (mem t) pgt (vpath (page_at (va + PAGESIZE) i)) AND PTE_AF = 0" if "i < n" for i
  proof -
    have "vpath (page_at (va + PAGESIZE) i) \<noteq> vpath va" using vpath_next_ne [OF Suc.prems(4,5) that] .
    then show ?thesis using grows_leaf [OF t(2), of "page_at (va + PAGESIZE) i"] Suc.prems(6) [of "Suc i"] that
      by (simp add: page_at_Suc)
  qed
  moreover have "card (missing (mem t) pgt (va + PAGESIZE) n) \<le> length qs" using t(6,7) Suc.prems(3) by simp
  moreover have "unat (va + PAGESIZE) + 4096 * n \<le> 2 ^ 39" using nxt(1) Suc.prems(5) by simp
  ultimately obtain u rs where u: "map_pages n pgt (va + PAGESIZE) (pa + PAGESIZE) attr t = Inr u"
      "grows pgt (vrange (va + PAGESIZE) n) t qs u rs"
      "\<forall>i<n. leaf (mem u) pgt (vpath (page_at (va + PAGESIZE) i)) = leaf_entry (page_at (pa + PAGESIZE) i) attr"
      "adds pgt (missing (mem t) pgt (va + PAGESIZE) n) t u"
      "length qs = card (missing (mem t) pgt (va + PAGESIZE) n) + length rs"
    using Suc.IH [OF grows_aspace [OF t(2)] rooted_adds [OF t(4) r(2)], of "pa + PAGESIZE"] nxt(2) by blast
  have "leaf (mem u) pgt (vpath (page_at va i)) = leaf_entry (page_at pa i) attr" if "i < Suc n" for i
  proof (cases i)
    case 0
    then show ?thesis using grows_leaf [OF u(2) new] t(3) by simp
  next
    case (Suc j)
    then show ?thesis using u(3) that by (simp add: page_at_Suc)
  qed
  moreover have "grows pgt (vrange va (Suc n)) s ps u rs"
    using grows_trans [OF t(2) u(2)] by (simp add: vrange_Suc)
  moreover have "map_pages (Suc n) pgt va pa attr s = Inr u" using t(1) u(1) by simp
  moreover have "adds pgt (missing (mem s) pgt va (Suc n)) s u" using adds_trans [OF t(4) u(4)] t(5) by simp
  ultimately show ?case using t(6,7) u(5) by (intro exI [of _ u] exI [of _ rs]) simp
qed

text \<open>With fewer, the walk returns NULL at some page and the store through it faults.\<close>

lemma walk_out_of_pages:
  assumes a: "aspace s pgt []" and u: "node (mem s) 1 pgt [unat (PIDX 1 va)] = Some u"
    and none: "node (mem s) 1 pgt (tpath va) = None"
  shows "map_pages (Suc n) pgt va pa attr s = Inl Fault"
proof -
  have tp: "tpath va = [unat (PIDX 1 va)] @ [unat (PIDX 2 va)]" by (simp add: tpath_def)
  have e: "\<not> is_table (ld64 (mem s) (u + 8 * PIDX 2 va))"
    using none unfolding tp node_append u by (auto simp: numeral_2_eq_2 ent_def Let_def split: option.splits if_splits)
  have e1: "ent (mem s) 1 pgt (unat (PIDX 1 va)) = Some u" using u by (auto split: option.splits)
  have "lock_free KallocLk s" "freelist s = 0" using a by (simp_all add: aspace_def free_pages_def)
  then have "walk_level 2 va u s = Inr (None, locked KallocLk s)"
    using e by (simp add: walk_level_def Let_def kalloc_empty)
  then have "pagewalk pgt va s = Inr (0, locked KallocLk s)"
    by (simp add: pagewalk_def walk_level_hit [OF e1] del: One_nat_def)
  then show ?thesis by simp
qed

lemma map_pages_short:
  assumes "aspace s pgt ps" "rooted (mem s) pgt va n" "length ps < card (missing (mem s) pgt va n)"
    "page_aligned va" "unat va + 4096 * n \<le> 2 ^ 39"
    "\<And>i. i < n \<Longrightarrow> leaf (mem s) pgt (vpath (page_at va i)) AND PTE_AF = 0"
  shows "map_pages n pgt va pa attr s = Inl Fault"
  using assms
proof (induction n arbitrary: va pa s ps)
  case 0
  then show ?case by simp
next
  case (Suc n)
  have r: "node (mem s) 1 pgt [unat (PIDX 1 va)] \<noteq> None" "rooted (mem s) pgt (va + PAGESIZE) n"
    using Suc.prems(2) unfolding rooted_Suc by blast+
  have f0: "leaf (mem s) pgt (vpath va) AND PTE_AF = 0" using Suc.prems(6) [of 0] by simp
  show ?case
  proof (cases "node (mem s) 1 pgt (tpath va) = None \<and> ps = []")
    case True
    then show ?thesis using walk_out_of_pages [of s pgt va] Suc.prems(1) r(1) by blast
  next
    case False
    then have ne: "node (mem s) 1 pgt (tpath va) = None \<longrightarrow> ps \<noteq> []" by blast
    obtain P t qs where t: "\<And>k. map_pages (Suc k) pgt va pa attr s = map_pages k pgt (va + PAGESIZE) (pa + PAGESIZE) attr t"
      "grows pgt {vpath va} s ps t qs" "adds pgt P s t"
      "card (missing (mem s) pgt va (Suc n)) = card (missing (mem t) pgt (va + PAGESIZE) n) + card P"
      "length ps = card P + length qs"
      using map_step [OF Suc.prems(1) r(1) ne f0, of pa attr n] by blast
    note nxt = page_next [OF Suc.prems(4,5)]
    have "leaf (mem t) pgt (vpath (page_at (va + PAGESIZE) i)) AND PTE_AF = 0" if "i < n" for i
    proof -
      have "vpath (page_at (va + PAGESIZE) i) \<noteq> vpath va" using vpath_next_ne [OF Suc.prems(4,5) that] .
      then show ?thesis using grows_leaf [OF t(2), of "page_at (va + PAGESIZE) i"] Suc.prems(6) [of "Suc i"] that
        by (simp add: page_at_Suc)
    qed
    moreover have "length qs < card (missing (mem t) pgt (va + PAGESIZE) n)" using t(4,5) Suc.prems(3) by simp
    moreover have "unat (va + PAGESIZE) + 4096 * n \<le> 2 ^ 39" using nxt(1) Suc.prems(5) by simp
    ultimately have "map_pages n pgt (va + PAGESIZE) (pa + PAGESIZE) attr t = Inl Fault"
      using Suc.IH [OF grows_aspace [OF t(2)] rooted_adds [OF t(3) r(2)], of "pa + PAGESIZE"] nxt(2) by blast
    then show ?thesis using t(1) by simp
  qed
qed

section \<open>The kernel's map\<close>

text \<open>Physical memory has 65536 pages; the path of the \<open>i\<close>-th one.\<close>

abbreviation PKERNBASE :: u64 where "PKERNBASE \<equiv> 0x40000000"

lemma unat_ram_page: "i \<le> 65536 \<Longrightarrow> unat (page_at PKERNBASE i) = 0x40000000 + 4096 * i"
  by (subst unat_page_at) simp_all

lemma ram_paths:
  assumes "i < 65536"
  shows "tpath (page_at PKERNBASE i) = [1, i div 512]" "unat (PIDX 1 (page_at PKERNBASE i)) = 1"
proof -
  have u: "unat (page_at PKERNBASE i) div 4096 = 262144 + i" using assms by (simp add: unat_ram_page)
  have d: "(262144 + i) div 262144 mod 512 = 1" "(262144 + i) div 512 mod 512 = i div 512"
    using assms by (simp_all add: div_add1_eq)
  show "tpath (page_at PKERNBASE i) = [1, i div 512]"
    unfolding tpath_def vpath_nat Let_def u d by simp
  have "vpath (page_at PKERNBASE i) ! 0 = 1" unfolding vpath_nat Let_def u d by simp
  then show "unat (PIDX 1 (page_at PKERNBASE i)) = 1" unfolding vpath_def by simp
qed

text \<open>
  What kernel/boot.S leaves in \<open>l1kpgt\<close>: below it a table for the gigabyte with physical memory, whose entries for the
  256 MB are block entries, no tables. \<open>aspace\<close> adds that the boot tables are no free pages.
\<close>

definition boot_tables :: "mem \<Rightarrow> u64 \<Rightarrow> bool" where
  "boot_tables m l1 \<longleftrightarrow> node m 1 l1 [1] \<noteq> None \<and> (\<forall>j<128. node m 1 l1 [1, j] = None)"

lemma ram_rooted: "boot_tables m l1 \<Longrightarrow> a + n \<le> 65536 \<Longrightarrow> rooted m l1 (page_at PKERNBASE a) n"
  using ram_paths(2) unfolding rooted_def boot_tables_def page_at_add by simp

lemma Collect_all: "(\<And>x. x \<in> I \<Longrightarrow> A x) \<Longrightarrow> {x \<in> I. A x} = I"
  by blast

lemma ram_missing:
  assumes "boot_tables m l1" "a + n \<le> 65536"
  shows "missing m l1 (page_at PKERNBASE a) n = (\<lambda>i. [1, i div 512]) ` {a..<a + n}"
proof -
  have "(\<lambda>i. tpath (page_at (page_at PKERNBASE a) i)) ` {..<n} = (\<lambda>i. [1, (a + i) div 512]) ` {..<n}"
    unfolding page_at_add using assms(2) by (intro image_cong refl ram_paths(1)) simp
  also have "\<dots> = (\<lambda>i. [1, i div 512]) ` ((+) a ` {..<n})" by (simp add: image_image)
  also have "(+) a ` {..<n} = {a..<a + n}"
    by (simp add: lessThan_atLeast0 image_add_atLeastLessThan add.commute)
  finally have i: "(\<lambda>i. tpath (page_at (page_at PKERNBASE a) i)) ` {..<n} = (\<lambda>i. [1, i div 512]) ` {a..<a + n}" .
  have "node m 1 l1 px = None" if "px \<in> (\<lambda>i. [1, i div 512]) ` {a..<a + n}" for px
  proof -
    from that obtain i where px: "px = [1, i div 512]" and i: "i \<in> {a..<a + n}" by (rule imageE)
    have "i div 512 < 128" using i assms(2) by auto
    then show ?thesis using assms(1) unfolding boot_tables_def px by blast
  qed
  then show ?thesis unfolding missing_def i by (intro Collect_all)
qed

lemma card_ram_slots: "card ((\<lambda>i. [1, i div 512]) ` {0..<65536 :: nat}) = 128"
proof -
  have "(\<lambda>i. i div 512) ` {0..<65536 :: nat} = {0..<128}"
  proof (intro set_eqI iffI)
    fix j :: nat assume "j \<in> {0..<128}"
    then show "j \<in> (\<lambda>i. i div 512) ` {0..<65536}" by (intro image_eqI [of _ _ "512 * j"]) simp_all
  qed auto
  moreover have "(\<lambda>i. [1, i div 512]) ` A = (\<lambda>j. [1, j]) ` (\<lambda>i. i div 512) ` A" for A :: "nat set"
    by (simp only: image_image)
  ultimately have "(\<lambda>i. [1, i div 512]) ` {0..<65536 :: nat} = (\<lambda>j. [1, j]) ` {0..<128}" by (simp only:)
  then show ?thesis by (simp add: card_image inj_on_def)
qed

text \<open>Where the kernel image ends, as a number of pages.\<close>

definition kend_pages :: "u64 \<Rightarrow> nat" where
  "kend_pages kend = (unat kend - 0xffffff8040000000) div 4096"

lemma kend_pages:
  assumes "page_aligned kend" "KERNBASE \<le> kend" "kend \<le> PHYMEMEND"
  shows "kend_pages kend \<le> 65536" "kend = page_at PKERNBASE (kend_pages kend) + VA_START"
    "V2P kend = page_at PKERNBASE (kend_pages kend)"
    "unat (kend - KERNBASE) = 4096 * kend_pages kend" "unat (PHYMEMEND - kend) = 4096 * (65536 - kend_pages kend)"
    "unat kend = 0xffffff8040000000 + 4096 * kend_pages kend"
proof -
  obtain k where k: "unat kend = 4096 * k" using assms(1) by (rule page_alignedE)
  have b: "0xffffff8040000000 \<le> unat kend" "unat kend \<le> 0xffffff8050000000"
    using assms(2,3) by (simp_all add: word_le_nat_alt)
  let ?n = "kend_pages kend"
  show u: "unat kend = 0xffffff8040000000 + 4096 * ?n"
  proof -
    have c: "(0xffffff8040000000 :: nat) = 4096 * 0xffffff8040000" by simp
    have "0xffffff8040000 \<le> k" using b(1) unfolding k c by simp
    moreover from this have "?n = k - 0xffffff8040000"
      unfolding kend_pages_def k c diff_mult_distrib2 [symmetric] by simp
    ultimately show ?thesis unfolding k c by simp
  qed
  show n: "?n \<le> 65536" using b u by linarith
  show "unat (kend - KERNBASE) = 4096 * ?n" using assms(2) u by (simp add: unat_sub word_le_nat_alt)
  have "unat (PHYMEMEND - kend) = unat (PHYMEMEND :: u64) - unat kend" by (rule unat_sub [OF assms(3)])
  then show "unat (PHYMEMEND - kend) = 4096 * (65536 - ?n)" using u n by simp
  have "unat (page_at PKERNBASE ?n) = 0x40000000 + 4096 * ?n" using n by (rule unat_ram_page)
  then have "unat (page_at PKERNBASE ?n + VA_START) = unat kend" using n u by (simp add: unat_word_ariths)
  then show e: "kend = page_at PKERNBASE ?n + VA_START" by (simp only: word_unat_eq_iff)
  show "V2P kend = page_at PKERNBASE ?n" by (subst e) (simp add: V2P_def)
qed

lemma kpgt_init_maps:
  fixes s :: "'a kmem_scheme"
  assumes "page_aligned kend" "KERNBASE \<le> kend" "kend \<le> PHYMEMEND"
  shows "kpgt_init l1 kend s = bnd (map_pages (kend_pages kend) l1 (page_at PKERNBASE 0) PKERNBASE PTE_NORMAL s)
    (map_pages (65536 - kend_pages kend) l1 (page_at PKERNBASE (kend_pages kend)) (page_at PKERNBASE (kend_pages kend))
      (PTE_NORMAL OR PTE_PXN OR PTE_UXN))"
proof -
  note k = kend_pages [OF assms]
  have al: "page_aligned (kend - KERNBASE)" "page_aligned (PHYMEMEND - kend)" "page_aligned (V2P kend)"
      "page_aligned KERNBASE" "page_aligned PKERNBASE"
    unfolding page_aligned_def k(4,5) unfolding k(3) unat_ram_page [OF k(1)] by simp_all
  have d: "unat (kend - KERNBASE) div 4096 = kend_pages kend" "unat (PHYMEMEND - kend) div 4096 = 65536 - kend_pages kend"
    unfolding k(4,5) by simp_all
  have "pagemap l1 KERNBASE PKERNBASE (kend - KERNBASE) PTE_NORMAL s =
      map_pages (kend_pages kend) l1 (page_at PKERNBASE 0) PKERNBASE PTE_NORMAL s"
    unfolding pagemap_def page_aligned_mod page_at_0 d map_pages_VA_START using al by simp
  moreover have "pagemap l1 kend (V2P kend) (PHYMEMEND - kend) a t =
      map_pages (65536 - kend_pages kend) l1 (page_at PKERNBASE (kend_pages kend)) (page_at PKERNBASE (kend_pages kend)) a t" for a and t :: "'a kmem_scheme"
  proof -
    have "map_pages n l1 kend pa a t = map_pages n l1 (page_at PKERNBASE (kend_pages kend)) pa a t" for n pa
      by (subst k(2)) (rule map_pages_VA_START)
    then show ?thesis unfolding pagemap_def page_aligned_mod d using al assms(1) k(3) by simp
  qed
  ultimately show ?thesis by (simp only: kpgt_init_def)
qed

lemma ram_unmapped: "boot_tables m l1 \<Longrightarrow> i < 65536 \<Longrightarrow> leaf m l1 (vpath (page_at PKERNBASE i)) = 0"
  by (rule leaf_missing) (simp add: ram_paths(1) boot_tables_def del: One_nat_def)

lemma ram_aligned: "page_aligned PKERNBASE" "i \<le> 65536 \<Longrightarrow> page_aligned (page_at PKERNBASE i)"
  by (simp_all add: page_aligned_def unat_ram_page)

lemma ram_inj:
  assumes "i < 65536" "j < 65536" "vpath (page_at PKERNBASE i) = vpath (page_at PKERNBASE j)"
  shows "i = j"
  by (rule vpath_page_at_inj [OF ram_aligned(1) _ assms]) simp

lemma ram_range:
  assumes "vpath (page_at PKERNBASE i) \<in> vrange (page_at PKERNBASE a) m" "i < 65536" "a + m \<le> 65536"
  shows "a \<le> i \<and> i < a + m"
proof -
  obtain j where j: "j < m" "vpath (page_at PKERNBASE i) = vpath (page_at PKERNBASE (a + j))"
    using assms(1) unfolding vrange_def page_at_add by blast
  have "a + j < 65536" using j(1) assms(3) by simp
  from ram_inj [OF assms(2) this j(2)] show ?thesis using j(1) by simp
qed

abbreviation ram_slots :: "nat set \<Rightarrow> nat list set" where
  "ram_slots I \<equiv> (\<lambda>i. [1, i div 512]) ` I"

text \<open>What is left for the second mapping once the first has made its tables.\<close>

lemma slots_left:
  assumes "n \<le> 65536"
  shows "card (ram_slots {0..<n}) + card (ram_slots {n..<65536} - ram_slots {0..<n}) = 128"
proof -
  have "{0..<65536} = {0..<n} \<union> {n..<65536}" using assms by auto
  then have "ram_slots {0..<65536} = ram_slots {0..<n} \<union> (ram_slots {n..<65536} - ram_slots {0..<n})"
    by (simp only: image_Un) blast
  then have "128 = card (ram_slots {0..<n} \<union> (ram_slots {n..<65536} - ram_slots {0..<n}))"
    using card_ram_slots by (simp only:)
  also have "\<dots> = card (ram_slots {0..<n}) + card (ram_slots {n..<65536} - ram_slots {0..<n})"
    by (rule card_Un_disjoint) auto
  finally show ?thesis by simp
qed

text \<open>The first mapping, and what it leaves to the second.\<close>

lemma kernel_part:
  assumes "aspace s l1 ps" "boot_tables (mem s) l1" "n \<le> 65536" "card (ram_slots {0..<n}) \<le> length ps"
  shows "\<exists>t qs. map_pages n l1 (page_at PKERNBASE 0) PKERNBASE a s = Inr t \<and> grows l1 (vrange PKERNBASE n) s ps t qs \<and>
    (\<forall>i<n. leaf (mem t) l1 (vpath (page_at PKERNBASE i)) = leaf_entry (page_at PKERNBASE i) a) \<and>
    rooted (mem t) l1 (page_at PKERNBASE n) (65536 - n) \<and>
    missing (mem t) l1 (page_at PKERNBASE n) (65536 - n) = ram_slots {n..<65536} - ram_slots {0..<n} \<and>
    (\<forall>i<65536 - n. leaf (mem t) l1 (vpath (page_at (page_at PKERNBASE n) i)) = 0) \<and>
    length ps = card (ram_slots {0..<n}) + length qs"
proof -
  have r: "rooted (mem s) l1 (page_at PKERNBASE 0) n" using ram_rooted [OF assms(2), of 0 n] assms(3) by simp
  have m: "missing (mem s) l1 (page_at PKERNBASE 0) n = ram_slots {0..<n}" using ram_missing [OF assms(2), of 0 n] assms(3) by simp
  have c: "card (missing (mem s) l1 (page_at PKERNBASE 0) n) \<le> length ps" using assms(4) unfolding m .
  have al: "page_aligned (page_at PKERNBASE 0)" "unat (page_at PKERNBASE 0) + 4096 * n \<le> 2 ^ 39"
    using assms(3) ram_aligned(1) by simp_all
  have lf: "leaf (mem s) l1 (vpath (page_at (page_at PKERNBASE 0) i)) AND PTE_AF = 0" if "i < n" for i
    using ram_unmapped [OF assms(2), of i] that assms(3) by simp
  obtain t qs where t: "map_pages n l1 (page_at PKERNBASE 0) PKERNBASE a s = Inr t"
      "grows l1 (vrange (page_at PKERNBASE 0) n) s ps t qs"
      "\<forall>i<n. leaf (mem t) l1 (vpath (page_at (page_at PKERNBASE 0) i)) = leaf_entry (page_at PKERNBASE i) a"
      "adds l1 (missing (mem s) l1 (page_at PKERNBASE 0) n) s t"
      "length ps = card (missing (mem s) l1 (page_at PKERNBASE 0) n) + length qs"
    using map_pages_exact [OF assms(1) r c al lf] by blast
  have f1: "rooted (mem t) l1 (page_at PKERNBASE n) (65536 - n)"
    using assms(3) by (intro rooted_adds [OF t(4)] ram_rooted [OF assms(2)]) simp
  have f2: "missing (mem t) l1 (page_at PKERNBASE n) (65536 - n) = ram_slots {n..<65536} - ram_slots {0..<n}"
    unfolding missing_adds [OF t(4)] m using ram_missing [OF assms(2), of n "65536 - n"] assms(3) by simp
  have f3: "leaf (mem t) l1 (vpath (page_at (page_at PKERNBASE n) i)) = 0" if "i < 65536 - n" for i
  proof -
    have "n + i < 65536" using that by linarith
    then have "vpath (page_at PKERNBASE (n + i)) \<notin> vrange PKERNBASE n"
      using assms(3) ram_range [of "n + i" 0 n] by auto
    then show ?thesis
      using grows_leaf [OF t(2), of "page_at PKERNBASE (n + i)"] ram_unmapped [OF assms(2), of "n + i"] that
      by (simp add: page_at_add)
  qed
  show ?thesis
    by (intro exI [of _ t] exI [of _ qs] conjI allI impI f1 f2)
      (use t(1,2,3,5) f3 in \<open>simp_all only: m [unfolded page_at_0] page_at_0\<close>)
qed

theorem kpgt_init_linear:
  assumes "aspace s l1 ps" "boot_tables (mem s) l1" "128 \<le> length ps"
    and k: "page_aligned kend" "KERNBASE \<le> kend" "kend \<le> PHYMEMEND"
  shows "\<exists>t qs. kpgt_init l1 kend s = Inr t \<and> grows l1 (vrange PKERNBASE 65536) s ps t qs \<and> length ps = 128 + length qs \<and>
    (\<forall>i<65536. leaf (mem t) l1 (vpath (page_at PKERNBASE i)) = leaf_entry (page_at PKERNBASE i)
       (if i < kend_pages kend then PTE_NORMAL else PTE_NORMAL OR PTE_PXN OR PTE_UXN))"
proof -
  define n where "n = kend_pages kend"
  define x where "x = PTE_NORMAL OR PTE_PXN OR PTE_UXN"
  have n: "n \<le> 65536" using kend_pages(1) [OF k] by (simp add: n_def)
  note left = slots_left [OF n]
  have "card (ram_slots {0..<n}) \<le> length ps" using left assms(3) by linarith
  from kernel_part [OF assms(1,2) n this] obtain t qs where t:
      "map_pages n l1 (page_at PKERNBASE 0) PKERNBASE PTE_NORMAL s = Inr t" "grows l1 (vrange PKERNBASE n) s ps t qs"
      "\<forall>i<n. leaf (mem t) l1 (vpath (page_at PKERNBASE i)) = leaf_entry (page_at PKERNBASE i) PTE_NORMAL"
      "rooted (mem t) l1 (page_at PKERNBASE n) (65536 - n)"
      "missing (mem t) l1 (page_at PKERNBASE n) (65536 - n) = ram_slots {n..<65536} - ram_slots {0..<n}"
      "\<forall>i<65536 - n. leaf (mem t) l1 (vpath (page_at (page_at PKERNBASE n) i)) = 0"
      "length ps = card (ram_slots {0..<n}) + length qs"
    by blast
  have c: "card (missing (mem t) l1 (page_at PKERNBASE n) (65536 - n)) \<le> length qs"
    unfolding t(5) using left t(7) assms(3) by linarith
  have b: "unat (page_at PKERNBASE n) + 4096 * (65536 - n) \<le> 2 ^ 39" using n by (simp add: unat_ram_page)
  have lf: "leaf (mem t) l1 (vpath (page_at (page_at PKERNBASE n) i)) AND PTE_AF = 0" if "i < 65536 - n" for i
    using t(6) that by simp
  obtain u rs where u: "map_pages (65536 - n) l1 (page_at PKERNBASE n) (page_at PKERNBASE n) x t = Inr u"
      "grows l1 (vrange (page_at PKERNBASE n) (65536 - n)) t qs u rs"
      "\<forall>i<65536 - n. leaf (mem u) l1 (vpath (page_at (page_at PKERNBASE n) i)) = leaf_entry (page_at (page_at PKERNBASE n) i) x"
      "length qs = card (missing (mem t) l1 (page_at PKERNBASE n) (65536 - n)) + length rs"
    using map_pages_exact [OF grows_aspace [OF t(2)] t(4) c ram_aligned(2) [OF n] b lf] by blast
  have "kpgt_init l1 kend s = Inr u"
    unfolding kpgt_init_maps [OF k] n_def [symmetric] t(1) bnd.simps using u(1) by (simp only: x_def)
  moreover have "grows l1 (vrange PKERNBASE 65536) s ps u rs"
    using grows_trans [OF t(2) u(2)] vrange_append [of PKERNBASE n "65536 - n"] n by simp
  moreover have "length ps = 128 + length rs" using u(4) t(5,7) left by simp
  moreover have "leaf (mem u) l1 (vpath (page_at PKERNBASE i)) = leaf_entry (page_at PKERNBASE i) (if i < n then PTE_NORMAL else x)"
    if i: "i < 65536" for i
  proof (cases "i < n")
    case True
    have "vpath (page_at PKERNBASE i) \<notin> vrange (page_at PKERNBASE n) (65536 - n)"
      using True i n ram_range [of i n "65536 - n"] by auto
    then show ?thesis using grows_leaf [OF u(2), of "page_at PKERNBASE i"] t(3) True by simp
  next
    case False
    then have "page_at (page_at PKERNBASE n) (i - n) = page_at PKERNBASE i" by (simp add: page_at_add)
    then show ?thesis using u(3) [rule_format, of "i - n"] False i by simp
  qed
  ultimately show ?thesis unfolding n_def [symmetric] x_def [symmetric] by blast
qed

theorem kpgt_init_short:
  assumes "aspace s l1 ps" "boot_tables (mem s) l1" "length ps < 128"
    and k: "page_aligned kend" "KERNBASE \<le> kend" "kend \<le> PHYMEMEND"
  shows "kpgt_init l1 kend s = Inl Fault"
proof -
  define n where "n = kend_pages kend"
  have n: "n \<le> 65536" using kend_pages(1) [OF k] by (simp add: n_def)
  note left = slots_left [OF n]
  note init = kpgt_init_maps [OF k, of l1 s, folded n_def]
  show ?thesis
  proof (cases "card (ram_slots {0..<n}) \<le> length ps")
    case True
    from kernel_part [OF assms(1,2) n this] obtain t qs where t:
        "map_pages n l1 (page_at PKERNBASE 0) PKERNBASE PTE_NORMAL s = Inr t" "grows l1 (vrange PKERNBASE n) s ps t qs"
        "rooted (mem t) l1 (page_at PKERNBASE n) (65536 - n)"
        "missing (mem t) l1 (page_at PKERNBASE n) (65536 - n) = ram_slots {n..<65536} - ram_slots {0..<n}"
        "\<forall>i<65536 - n. leaf (mem t) l1 (vpath (page_at (page_at PKERNBASE n) i)) = 0"
        "length ps = card (ram_slots {0..<n}) + length qs"
      by blast
    have c: "length qs < card (missing (mem t) l1 (page_at PKERNBASE n) (65536 - n))"
      unfolding t(4) using left t(6) assms(3) by linarith
    have b: "unat (page_at PKERNBASE n) + 4096 * (65536 - n) \<le> 2 ^ 39" using n by (simp add: unat_ram_page)
    have lf: "leaf (mem t) l1 (vpath (page_at (page_at PKERNBASE n) i)) AND PTE_AF = 0" if "i < 65536 - n" for i
      using t(5) that by simp
    show ?thesis
      unfolding init t(1) bnd.simps
      by (rule map_pages_short [OF grows_aspace [OF t(2)] t(3) c ram_aligned(2) [OF n] b lf])
  next
    case False
    have r: "rooted (mem s) l1 (page_at PKERNBASE 0) n" using ram_rooted [OF assms(2), of 0 n] n by simp
    have m: "length ps < card (missing (mem s) l1 (page_at PKERNBASE 0) n)"
      using ram_missing [OF assms(2), of 0 n] n False by simp
    have al: "page_aligned (page_at PKERNBASE 0)" "unat (page_at PKERNBASE 0) + 4096 * n \<le> 2 ^ 39"
      using n ram_aligned(1) by simp_all
    have lf: "leaf (mem s) l1 (vpath (page_at (page_at PKERNBASE 0) i)) AND PTE_AF = 0" if "i < n" for i
      using ram_unmapped [OF assms(2), of i] that n by simp
    have "map_pages n l1 (page_at PKERNBASE 0) PKERNBASE PTE_NORMAL s = Inl Fault"
      by (rule map_pages_short [OF assms(1) r m al lf])
    then show ?thesis unfolding init by simp
  qed
qed

section \<open>Memory at boot\<close>

text \<open>
  The tables of kernel/boot.S lie in the kernel image, below \<open>kend\<close>, so filling the pool does not touch them.
\<close>

definition boot_image :: "mem \<Rightarrow> u64 \<Rightarrow> u64 \<Rightarrow> bool" where
  "boot_image m l1 kend \<longleftrightarrow> tree 1 m l1 \<and> boot_tables m l1 \<and> (\<forall>t\<in>tables 1 m l1. t < kend)"

lemma aspace_fill:
  assumes a: "aspace s l1 ps" and f: "free_pages t (qs @ ps)" and k: "\<forall>q\<in>set qs. kern_page q \<and> q \<notin> tables 1 (mem s) l1"
    and m: "\<forall>x. (\<forall>q\<in>set qs. \<not> in_page q x) \<longrightarrow> mem t x = mem s x"
  shows "aspace t l1 (qs @ ps)" "path_ok 3 ix \<Longrightarrow> node (mem t) 1 l1 ix = node (mem s) 1 l1 ix"
    "path_ok 3 ix \<Longrightarrow> length ix = 3 \<Longrightarrow> leaf (mem t) l1 ix = leaf (mem s) l1 ix" "tables 1 (mem t) l1 = tables 1 (mem s) l1"
proof -
  have tr: "tree 1 (mem s) l1" using a by (simp add: aspace_def)
  have g: "mem t x = mem s x" if p: "p \<in> tables 1 (mem s) l1" "in_page p x" for p x
  proof -
    have "page_aligned p" using tables_kern [OF tr p(1)] by (rule kern_page_aligned)
    then have "\<not> in_page q x" if "q \<in> set qs" for q
      using that k p in_page_disjoint [of p q x] by (metis kern_page_aligned)
    then show ?thesis using m by blast
  qed
  note ta = tree_agree [OF tr g]
  show "tables 1 (mem t) l1 = tables 1 (mem s) l1" by (rule ta(2))
  show "aspace t l1 (qs @ ps)" using a f k ta by (auto simp: aspace_def)
  show "path_ok 3 ix \<Longrightarrow> node (mem t) 1 l1 ix = node (mem s) 1 l1 ix"
    by (rule node_agree [OF tr _ g]) simp_all
  show "path_ok 3 ix \<Longrightarrow> length ix = 3 \<Longrightarrow> leaf (mem t) l1 ix = leaf (mem s) l1 ix"
    by (rule leaf_agree [OF tr g])
qed

text \<open>The pages from the end of the image to the next 2 MB section.\<close>

definition early_pages :: "u64 \<Rightarrow> nat" where
  "early_pages kend = (unat (ksecend kend) - unat kend) div 4096"

lemma round_512: "(n + 511) div 512 * 512 = n + (512 - n mod 512) mod 512" for n :: nat
proof -
  define q r where "q = n div 512" and "r = n mod 512"
  have n: "n = r + q * 512" and r: "r < 512" by (simp_all add: q_def r_def)
  have "(n + 511) div 512 = (r + 511 + q * 512) div 512" by (simp add: n)
  also have "\<dots> = q + (r + 511) div 512" by (simp add: div_mult_self1)
  finally have d: "(n + 511) div 512 = q + (r + 511) div 512" .
  show ?thesis
  proof (cases "r = 0")
    case True
    then show ?thesis unfolding d using n by (simp flip: r_def)
  next
    case False
    then have "(r + 511) div 512 = 1" "(512 - r) mod 512 = 512 - r" using r by auto
    then show ?thesis unfolding d r_def [symmetric] using n r by (simp add: algebra_simps)
  qed
qed

lemma early_pages:
  assumes "page_aligned kend" "KERNBASE \<le> kend" "kend \<le> PHYMEMEND"
  shows "unat (ksecend kend) = unat kend + 4096 * early_pages kend" "unat (ksecend kend) \<le> 0xffffff8050000000"
    "page_aligned (ksecend kend)" "early_pages kend = (512 - kend_pages kend mod 512) mod 512"
proof -
  define n where "n = kend_pages kend"
  have n: "n \<le> 65536" "unat kend = 0xffffff8040000000 + 4096 * n" using kend_pages [OF assms] by (simp_all add: n_def)
  have b: "0xffffff8040000000 = 0x200000 * (0x7fffffc0200 :: nat)" by simp
  have "unat (ksecend kend) = (unat kend + 0x1fffff) div 0x200000 * 0x200000"
    using n by (intro unat_ksecend) simp
  also have "unat kend + 0x1fffff = 0x200000 * 0x7fffffc0200 + (4096 * n + 0x1fffff)" using n(2) by simp
  also have "(0x200000 * 0x7fffffc0200 + (4096 * n + 0x1fffff)) div 0x200000 = 0x7fffffc0200 + (4096 * n + 0x1fffff) div 0x200000"
    by (rule div_mult_self4) simp
  also have "(4096 * n + 0x1fffff) div 0x200000 = (n + 511) div 512"
  proof -
    have "(4096 * n + 0x1fffff) div 0x200000 = (4096 * n + 0x1fffff) div 4096 div 512" by (simp add: div_mult2_eq [symmetric])
    also have "(4096 * n + 0x1fffff) div 4096 = n + 511" by simp
    finally show ?thesis .
  qed
  finally have u: "unat (ksecend kend) = 0xffffff8040000000 + 4096 * ((n + 511) div 512 * 512)" by simp
  have r: "(n + 511) div 512 * 512 = n + (512 - n mod 512) mod 512" by (rule round_512)
  have e: "early_pages kend = (512 - n mod 512) mod 512"
    unfolding early_pages_def u n(2) r by simp
  then show "early_pages kend = (512 - kend_pages kend mod 512) mod 512" by (simp add: n_def)
  show "unat (ksecend kend) = unat kend + 4096 * early_pages kend" unfolding e u n(2) r by simp
  have "(n + 511) div 512 \<le> (65536 + 511) div 512" using n(1) by (intro div_le_mono) simp
  then have "(n + 511) div 512 * 512 \<le> 65536" by simp
  then show "unat (ksecend kend) \<le> 0xffffff8050000000" unfolding u by simp
  show "page_aligned (ksecend kend)" unfolding page_aligned_def u by simp
qed

lemma image_page_apart:
  assumes "boot_image m l1 kend" "kend \<le> q"
  shows "q \<notin> tables 1 m l1"
  using assms by (auto simp: boot_image_def)

lemma pages_from_kern:
  assumes "page_aligned p" "KERNBASE \<le> p" "unat p + 4096 * n \<le> 0xffffff8050000000"
  shows "\<forall>q\<in>set (pages_from p n). kern_page q \<and> p \<le> q \<and> unat q < unat p + 4096 * n"
proof
  fix q assume "q \<in> set (pages_from p n)"
  then have q: "page_aligned q" "unat p \<le> unat q" "unat q < unat p + 4096 * n"
    using set_pages_from [of p n] assms by auto
  moreover have "0xffffff8040000000 \<le> unat p" using assms(2) by (simp add: word_le_nat_alt)
  ultimately show "kern_page q \<and> p \<le> q \<and> unat q < unat p + 4096 * n"
    by (simp add: kern_page_def word_le_nat_alt)
qed

text \<open>After \<open>kalloc_init1\<close> the boot tables stand beside a pool of the early pages.\<close>

lemma first_pool:
  assumes k: "page_aligned kend" "KERNBASE \<le> kend" "kend \<le> PHYMEMEND" and im: "boot_image (mem s) l1 kend"
  shows "\<exists>t. kalloc_init1 kend s = Some (Inr t) \<and> aspace t l1 (rev (pages_from kend (early_pages kend))) \<and>
    boot_tables (mem t) l1 \<and> tables 1 (mem t) l1 = tables 1 (mem s) l1 \<and>
    (\<forall>x. (\<forall>q\<in>set (pages_from kend (early_pages kend)). \<not> in_page q x) \<longrightarrow> mem t x = mem s x) \<and>
    kmem_frame (lock_init KallocLk s) t"
proof -
  let ?n = "early_pages kend" and ?s = "(lock_init KallocLk s)\<lparr>freelist := 0\<rparr>"
  let ?P = "pages_from kend ?n"
  note e = early_pages [OF k]
  have "kend \<noteq> 0" using k(2) by auto
  have "unat (ksecend kend) < 2 ^ 64 - 4096" "unat kend \<le> unat (ksecend kend)" using e(1,2) by simp_all
  from free_range_pool [OF free_pages_init k(1) \<open>kend \<noteq> 0\<close> this early_pages_def, of s]
  obtain t where t: "free_range kend (ksecend kend) ?s = Some (Inr t)" "free_pages t (rev ?P @ [])"
      "\<forall>x. (\<forall>q\<in>set ?P. \<not> in_page q x) \<longrightarrow> mem t x = mem ?s x" "kmem_frame ?s t"
    by (simp only: list.set empty_iff not_False_eq_True simp_thms) blast
  have ms: "mem ?s = mem s" by (simp add: lock_init_def set_lock_def)
  have a: "aspace ?s l1 []" using im free_pages_init ms by (simp add: aspace_def boot_image_def)
  have P: "\<forall>q\<in>set ?P. kern_page q \<and> kend \<le> q" using pages_from_kern [OF k(1,2), of ?n] e(1,2) by auto
  then have "\<forall>q\<in>set (rev ?P). kern_page q \<and> q \<notin> tables 1 (mem ?s) l1"
    using image_page_apart [OF im] ms by simp
  note fill = aspace_fill [OF a t(2) this]
  have m: "\<forall>x. (\<forall>q\<in>set (rev ?P). \<not> in_page q x) \<longrightarrow> mem t x = mem ?s x" using t(3) by simp
  have n: "node (mem t) 1 l1 [1] = node (mem s) 1 l1 [1]" "\<And>j. j < 128 \<Longrightarrow> node (mem t) 1 l1 [1, j] = node (mem s) 1 l1 [1, j]"
    by (rule fill(2) [OF m, unfolded ms], simp add: path_ok_def)+
  have "boot_tables (mem s) l1" using im by (simp only: boot_image_def)
  then have "boot_tables (mem t) l1" unfolding boot_tables_def n(1) using n(2) by metis
  moreover have "kmem_frame (lock_init KallocLk s) t" using t(4) by (simp add: kmem_frame_def)
  ultimately show ?thesis using t(1,3) fill(1,4) [OF m] ms by (simp add: kalloc_init1_def)
qed

text \<open>
  C37. Between the two halves of the allocator's initialisation only the pages up to the next 2 MB section are free, and the map of the
  256 MB takes 128 of them for tables. If the image ends so that there are fewer, \<open>kpgt_init\<close> stores through the NULL that
  \<open>pagewalk\<close> returns, and the machine does not come up.
\<close>

theorem boot_out_of_tables:
  assumes "page_aligned kend" "KERNBASE \<le> kend" "kend \<le> PHYMEMEND" "boot_image (mem s) l1 kend" "early_pages kend < 128"
  shows "\<exists>t. kalloc_init1 kend s = Some (Inr t) \<and> kpgt_init l1 kend t = Inl Fault"
proof -
  obtain t where t: "kalloc_init1 kend s = Some (Inr t)" "aspace t l1 (rev (pages_from kend (early_pages kend)))"
      "boot_tables (mem t) l1"
    using first_pool [OF assms(1-4)] by blast
  have "length (rev (pages_from kend (early_pages kend))) < 128" using assms(5) by (simp add: pages_from_def)
  from kpgt_init_short [OF t(2,3) this assms(1-3)] t(1) show ?thesis by blast
qed

lemma page_above:
  assumes "page_aligned q" "e \<le> q" "x < e"
  shows "\<not> in_page q x"
proof
  assume "in_page q x"
  then have "unat x div 4096 = unat q div 4096" using assms(1) by (simp add: in_page_iff)
  moreover have "4096 * (unat q div 4096) = unat q" using assms(1) by (auto simp: page_aligned_def)
  moreover have "4096 * (unat x div 4096) \<le> unat x" by (rule times_div_less_eq_dividend)
  ultimately have "unat q \<le> unat x" by simp
  then show False using assms(2,3) by (simp add: word_less_nat_alt word_le_nat_alt)
qed

lemma boot_memory_spec:
  assumes k: "page_aligned kend" "KERNBASE \<le> kend" "kend \<le> PHYMEMEND" and im: "boot_image (mem s) l1 kend"
    and room: "128 \<le> early_pages kend"
    and f: "\<And>u. mem (f u) = mem u" "\<And>u ps. free_pages (f u) ps = free_pages u ps"
  shows "\<exists>t u v qs. kalloc_init1 kend s = Some (Inr t) \<and> kpgt_init l1 kend t = Inr u \<and> kalloc_init2 kend (f u) = Some (Inr v) \<and>
    aspace v l1 qs \<and> (\<forall>q\<in>set qs. kend \<le> q \<and> q < PHYMEMEND) \<and> kend_pages kend + 128 + length qs = 65536 \<and>
    (\<forall>i<65536. leaf (mem v) l1 (vpath (page_at KERNBASE i)) = leaf_entry (page_at PKERNBASE i)
       (if page_at KERNBASE i < kend then PTE_NORMAL else PTE_NORMAL OR PTE_PXN OR PTE_UXN)) \<and>
    (\<forall>x<kend. (\<forall>p\<in>tables 1 (mem s) l1. \<not> in_page p x) \<longrightarrow> mem v x = mem s x) \<and>
    kmem_frame (lock_init KallocLk s) u \<and> kmem_frame (f u) v"
proof -
  let ?n = "early_pages kend" and ?K = "ksecend kend"
  let ?P = "pages_from kend ?n"
  define n2 where "n2 = (unat (PHYMEMEND :: u64) - unat ?K) div 4096"
  let ?Q = "pages_from ?K n2"
  note e = early_pages [OF k]
  note kp = kend_pages [OF k]
  obtain t where t: "kalloc_init1 kend s = Some (Inr t)" "aspace t l1 (rev ?P)" "boot_tables (mem t) l1"
      "tables 1 (mem t) l1 = tables 1 (mem s) l1" "\<forall>x. (\<forall>q\<in>set ?P. \<not> in_page q x) \<longrightarrow> mem t x = mem s x"
      "kmem_frame (lock_init KallocLk s) t"
    using first_pool [OF k im] by blast
  have "128 \<le> length (rev ?P)" using room by (simp add: pages_from_def)
  from kpgt_init_linear [OF t(2,3) this k] obtain u rs where u: "kpgt_init l1 kend t = Inr u"
      "grows l1 (vrange PKERNBASE 65536) t (rev ?P) u rs" "length (rev ?P) = 128 + length rs"
      "\<forall>i<65536. leaf (mem u) l1 (vpath (page_at PKERNBASE i)) = leaf_entry (page_at PKERNBASE i)
         (if i < kend_pages kend then PTE_NORMAL else PTE_NORMAL OR PTE_PXN OR PTE_UXN)"
    by blast
  have K: "KERNBASE \<le> ?K" "kend \<le> ?K" "?K \<noteq> 0" using e(1) kp(6) by (auto simp: word_le_nat_alt)
  have u2: "unat (PHYMEMEND :: u64) = 0xffffff8050000000" by simp
  have "unat ?K = 0xffffff8040000000 + 4096 * (kend_pages kend + ?n)" using e(1) kp(6) by simp
  then have n2: "4096 * n2 = unat (PHYMEMEND :: u64) - unat ?K" "kend_pages kend + ?n + n2 = 65536"
    using e(2) unfolding n2_def u2 by auto
  have P: "\<forall>q\<in>set ?P. kern_page q \<and> kend \<le> q \<and> unat q < unat ?K"
    using pages_from_kern [OF k(1,2), of ?n] e(1,2) by auto
  have Q: "\<forall>q\<in>set ?Q. kern_page q \<and> ?K \<le> q \<and> unat q < unat (PHYMEMEND :: u64)"
    using pages_from_kern [OF e(3) K(1), of n2] e(2) n2(1) unfolding u2 by auto
  have rs: "set rs \<subseteq> set ?P" "tables 1 (mem u) l1 \<subseteq> tables 1 (mem s) l1 \<union> set ?P"
    using u(2) t(4) set_mono_suffix [of rs "rev ?P"] by (auto simp: grows_def owned_def)
  have below: "q < ?K" if "q \<in> set rs \<union> tables 1 (mem u) l1" for q
  proof -
    have "q \<in> set ?P \<or> q < kend" using that rs im by (auto simp: boot_image_def)
    then show ?thesis using P K(2) by (auto simp: word_less_nat_alt word_le_nat_alt)
  qed
  have af: "aspace (f u) l1 rs" using grows_aspace [OF u(2)] by (simp add: aspace_def f)
  then have fu: "free_pages (f u) rs" by (simp add: aspace_def)
  have new: "?K + of_nat i * PAGESIZE \<notin> set rs" if "i < n2" for i
  proof -
    have "?K + of_nat i * PAGESIZE \<in> set ?Q" using that by (auto simp: pages_from_def)
    then show ?thesis using Q below by force
  qed
  have "unat (PHYMEMEND :: u64) < 2 ^ 64 - 4096" "unat ?K \<le> unat (PHYMEMEND :: u64)" using e(2) by simp_all
  from free_range_pool [OF fu e(3) K(3) this n2_def new] obtain v where v: "free_range ?K PHYMEMEND (f u) = Some (Inr v)"
      "free_pages v (rev ?Q @ rs)" "\<forall>x. (\<forall>q\<in>set ?Q. \<not> in_page q x) \<longrightarrow> mem v x = mem u x"
      "kmem_frame (f u) v"
    unfolding f by blast
  have m: "\<forall>x. (\<forall>q\<in>set (rev ?Q). \<not> in_page q x) \<longrightarrow> mem v x = mem (f u) x" using v(3) by (simp add: f)
  have "\<forall>q\<in>set (rev ?Q). kern_page q \<and> q \<notin> tables 1 (mem (f u)) l1" unfolding f using Q below by force
  note fill = aspace_fill [OF af v(2) this m, unfolded f]
  have "\<forall>q\<in>set (rev ?Q @ rs). kend \<le> q \<and> q < PHYMEMEND"
    using Q P K(2) rs(1) e(2) unfolding u2 by (force simp: word_less_nat_alt word_le_nat_alt)
  moreover have "kend_pages kend + 128 + length (rev ?Q @ rs) = 65536"
    using u(3) n2(2) by (simp add: pages_from_def)
  moreover have "leaf (mem v) l1 (vpath (page_at KERNBASE i)) = leaf_entry (page_at PKERNBASE i)
      (if page_at KERNBASE i < kend then PTE_NORMAL else PTE_NORMAL OR PTE_PXN OR PTE_UXN)" if "i < 65536" for i
  proof -
    have "page_at KERNBASE i = page_at PKERNBASE i + VA_START" by (simp add: page_at_def)
    then have p: "vpath (page_at KERNBASE i) = vpath (page_at PKERNBASE i)" by (simp only: vpath_VA_START)
    have "unat (page_at KERNBASE i) = 0xffffff8040000000 + 4096 * i" using that by (subst unat_page_at) simp_all
    then have "page_at KERNBASE i < kend \<longleftrightarrow> i < kend_pages kend" using kp(6) by (simp add: word_less_nat_alt)
    then show ?thesis using fill(3) [of "vpath (page_at PKERNBASE i)"] u(4) that unfolding p by simp
  qed
  moreover have "mem v x = mem s x" if x: "x < kend" "\<forall>p\<in>tables 1 (mem s) l1. \<not> in_page p x" for x
  proof -
    note far = page_above [OF _ _ x(1)]
    have p: "\<not> in_page q x" if "q \<in> set ?P" for q using P that far kern_page_aligned by blast
    have q: "\<not> in_page q x" if "q \<in> set ?Q" for q
    proof -
      have "kern_page q" "kend \<le> q" using Q that K(2) by auto
      then show ?thesis using far kern_page_aligned by blast
    qed
    have "outside (owned t l1 (rev ?P)) x" using p x(2) t(4) by (auto simp: outside_def owned_def)
    then have "mem u x = mem t x" using u(2) by (simp add: grows_def)
    moreover have "mem v x = mem u x" using v(3) q by blast
    moreover have "mem t x = mem s x" using t(5) p by blast
    ultimately show ?thesis by simp
  qed
  moreover have "kmem_frame (lock_init KallocLk s) u" using t(6) u(2) kmem_frame_trans by (auto simp: grows_def)
  ultimately show ?thesis using t(1) u(1) v(1,4) fill(1)
    by (intro exI [of _ t] exI [of _ u] exI [of _ v] exI [of _ "rev ?Q @ rs"]) (simp add: kalloc_init2_def)
qed

text \<open>
  Memory at boot. From the tables of boot.S, \<open>kalloc_init1\<close>, \<open>kpgt_init\<close> and \<open>kalloc_init2\<close> in this order come to an end with every
  page of physical memory mapped at its kernel address, the pages of the image executable and the others not, the tables a proper
  tree, and a pool that has every page behind the image but the 128 tables, and none of the image.
\<close>

theorem boot_memory:
  assumes k: "page_aligned kend" "KERNBASE \<le> kend" "kend \<le> PHYMEMEND" and im: "boot_image (mem s) l1 kend"
    and room: "128 \<le> early_pages kend"
  shows "\<exists>t u v qs. kalloc_init1 kend s = Some (Inr t) \<and> kpgt_init l1 kend t = Inr u \<and> kalloc_init2 kend u = Some (Inr v) \<and>
    aspace v l1 qs \<and> (\<forall>q\<in>set qs. kend \<le> q \<and> q < PHYMEMEND) \<and> kend_pages kend + 128 + length qs = 65536 \<and>
    (\<forall>i<65536. leaf (mem v) l1 (vpath (page_at KERNBASE i)) = leaf_entry (page_at PKERNBASE i)
       (if page_at KERNBASE i < kend then PTE_NORMAL else PTE_NORMAL OR PTE_PXN OR PTE_UXN))"
  using boot_memory_spec [OF assms, of "\<lambda>u. u"] by blast

section \<open>A machine as boot.S leaves it\<close>

definition demo_l1 :: u64 where "demo_l1 = 0xffffff8040001000"
definition demo_l2 :: u64 where "demo_l2 = 0xffffff8040002000"

definition booted :: kmem where
  "booted = (pool_state [])\<lparr>mem := graft (\<lambda>_. 0) demo_l1 1 demo_l2\<rparr>"

lemma demo_pages: "kern_page demo_l1" "kern_page demo_l2" "demo_l1 \<noteq> demo_l2"
  by (simp_all add: kern_page_def page_aligned_def demo_l1_def demo_l2_def)

lemma booted_image: "0xffffff8040003000 \<le> kend \<Longrightarrow> boot_image (mem booted) demo_l1 kend"
proof -
  assume kend: "0xffffff8040003000 \<le> kend"
  have m0: "mem (pool_state []) = (\<lambda>_. 0)" by (simp add: pool_state_def)
  have fp: "free_pages (pool_state []) []" by (rule free_pages_pool_state) simp_all
  have "uspace (pool_state []) demo_l1 []" "tables 1 (mem (pool_state [])) demo_l1 = {demo_l1}"
    using uspace_root [OF fp _ demo_pages(1)] m0 by simp_all
  then have tr: "tree 1 (\<lambda>_. 0) demo_l1" and tb: "tables 1 (\<lambda>_. 0) demo_l1 = {demo_l1}"
    unfolding m0 by (simp_all add: uspace_def aspace_def m0)
  have e: "ent (\<lambda>_. 0) l t i = None" for l t i
    by (simp add: ent_decode)
  have nd: "node (\<lambda>_. 0) 1 demo_l1 [] = Some demo_l1" "length [] < (2 :: nat)" "path_ok 2 ([] @ [1])"
      "ent (\<lambda>_. 0) (Suc (length [])) demo_l1 1 = None" "demo_l2 \<notin> tables 1 (\<lambda>_. 0) demo_l1"
    using tb demo_pages(3) by (simp_all add: path_ok_def e)
  note g = tree_graft [OF tr nd(1-4) demo_pages(2) nd(5)]
  note n = node_graft [OF tr nd(1-4) demo_pages(2) nd(5)]
  have mb: "mem booted = graft (\<lambda>_. 0) demo_l1 1 demo_l2" by (simp add: booted_def)
  have "node (mem booted) 1 demo_l1 [1] \<noteq> None"
    unfolding mb by (subst n) (simp_all add: path_ok_def)
  moreover have "node (mem booted) 1 demo_l1 [1, j] = None" if "j < 128" for j
    unfolding mb by (subst n) (use that in \<open>simp_all add: path_ok_def e\<close>)
  ultimately have "boot_tables (mem booted) demo_l1" unfolding boot_tables_def by blast
  moreover have "t < kend" if "t \<in> tables 1 (mem booted) demo_l1" for t
  proof -
    have "t = demo_l1 \<or> t = demo_l2" using that g(2) tb unfolding mb by auto
    then show ?thesis using kend by (auto simp: demo_l1_def demo_l2_def word_less_nat_alt word_le_nat_alt)
  qed
  ultimately show ?thesis using g(1) unfolding boot_image_def mb by blast
qed

lemma kend_pages_at: "kend_pages 0xffffff8040080000 = 128" "kend_pages 0xffffff80401c0000 = 448"
  by (simp_all add: kend_pages_def)

theorem boot_memory_witness:
  "\<exists>t u v qs. kalloc_init1 0xffffff8040080000 booted = Some (Inr t) \<and> kpgt_init demo_l1 0xffffff8040080000 t = Inr u \<and>
     kalloc_init2 0xffffff8040080000 u = Some (Inr v) \<and> aspace v demo_l1 qs \<and> length qs = 65280 \<and>
     leaf (mem v) demo_l1 (vpath 0xffffff8040001000) = leaf_entry 0x40001000 PTE_NORMAL"
proof -
  let ?k = "0xffffff8040080000 :: u64"
  have k: "page_aligned ?k" "KERNBASE \<le> ?k" "?k \<le> PHYMEMEND" by (simp_all add: page_aligned_def)
  have e: "early_pages ?k = 384" using early_pages(4) [OF k] kend_pages_at(1) by simp
  have "boot_image (mem booted) demo_l1 ?k" by (rule booted_image) simp
  from boot_memory [OF k this] obtain t u v qs where
    r: "kalloc_init1 ?k booted = Some (Inr t)" "kpgt_init demo_l1 ?k t = Inr u" "kalloc_init2 ?k u = Some (Inr v)"
    "aspace v demo_l1 qs" "kend_pages ?k + 128 + length qs = 65536"
    "\<forall>i<65536. leaf (mem v) demo_l1 (vpath (page_at KERNBASE i)) = leaf_entry (page_at PKERNBASE i)
       (if page_at KERNBASE i < ?k then PTE_NORMAL else PTE_NORMAL OR PTE_PXN OR PTE_UXN)"
    unfolding e by auto
  have "length qs = 65280" using r(5) kend_pages_at(1) by simp
  moreover have "leaf (mem v) demo_l1 (vpath 0xffffff8040001000) = leaf_entry 0x40001000 PTE_NORMAL"
    using r(6) [rule_format, of 1] by (simp add: page_at_def)
  ultimately show ?thesis using r(1-4) by blast
qed

theorem boot_out_of_tables_witness:
  "\<exists>t. kalloc_init1 0xffffff80401c0000 booted = Some (Inr t) \<and> kpgt_init demo_l1 0xffffff80401c0000 t = Inl Fault"
proof -
  let ?k = "0xffffff80401c0000 :: u64"
  have k: "page_aligned ?k" "KERNBASE \<le> ?k" "?k \<le> PHYMEMEND" by (simp_all add: page_aligned_def)
  have e: "early_pages ?k < 128" using early_pages(4) [OF k] kend_pages_at(2) by simp
  have "boot_image (mem booted) demo_l1 ?k" by (rule booted_image) simp
  then show ?thesis by (rule boot_out_of_tables [OF k _ e])
qed

end
