(* ===== verification/Boot.thy ===== *)
theory Boot
  imports Userproc Devinit Kmap
begin

text \<open>
  kernel/main.c: how the first CPU brings the kernel up, and the others after it. The pieces are in the theories
  of their components; this one puts them together in the order of \<open>main\<close> and follows the state through it, to the
  point where the scheduler finds the first process.
\<close>

unbundle bit_operations_syntax

section \<open>The whole kernel\<close>

text \<open>
  The record of the global variables, closed by those of the timer and the interrupt controller and the second base
  register. The interrupt table and the device switch are lists of functions on it and stay apart.
\<close>

record 'd system = kcons +
  sys_ttbr1 :: u64
  sys_timer :: timer
  sys_gic :: "'d gicv3"

text \<open>
  What the board, the linker and the surroundings of the kernel supply: the registers, the frequency of the timer, the
  hypervisor calls, the addresses of the image; for the console's device functions the translation of user addresses and what happens
  while a reader sleeps, and for its interrupt what the process listing shows.
\<close>

record 'd board =
  bd_bus :: "'d bus"
  bd_frq :: u64
  bd_psci :: "u64 \<Rightarrow> u64 \<Rightarrow> u64 \<Rightarrow> u64 \<Rightarrow> 'd \<Rightarrow> int \<times> 'd"
  bd_start :: u64                    \<comment> \<open>\<open>V2P(_start)\<close>\<close>
  bd_kend :: u64
  bd_l1kpgt :: u64
  bd_code :: u64                     \<comment> \<open>\<open>_binary_usr_initcode_start\<close>\<close>
  bd_codesz :: u64
  bd_mmu :: "u64 \<Rightarrow> u64 option"
  bd_world :: "'d system \<Rightarrow> 'd system res"
  bd_addr :: "chan option \<Rightarrow> u64"
  bd_curs :: "nat option list"

definition ends :: "'a res option \<Rightarrow> 'a res" where
  "ends r = (case r of None \<Rightarrow> Inl Runaway | Some r \<Rightarrow> r)"

definition pgt_init :: "u64 \<Rightarrow> 'd system \<Rightarrow> 'd system" where
  "pgt_init l1 s = s\<lparr>sys_ttbr1 := V2P l1, ttbr0 := 0\<rparr>"

definition timer_handler :: "u64 \<Rightarrow> 'd system \<Rightarrow> 'd system res" where
  "timer_handler frq s = Inr (s\<lparr>sys_timer := timerintr frq (cpuid s) (sys_timer s)\<rparr>)"

definition psci_call :: "(u64 \<Rightarrow> u64 \<Rightarrow> u64 \<Rightarrow> u64 \<Rightarrow> 'd \<Rightarrow> int \<times> 'd) \<Rightarrow> u64 \<Rightarrow> u64 \<Rightarrow> u64 \<Rightarrow> u64 \<Rightarrow> 'd system \<Rightarrow> int \<times> 'd system" where
  "psci_call psci_fn f a b c s =
     (let (r, d) = psci_fn f a b c (io_dev (sys_gic s)) in (r, s\<lparr>sys_gic := (sys_gic s)\<lparr>io_dev := d\<rparr>\<rparr>))"

definition start_cpus :: "'d board \<Rightarrow> 'd system \<Rightarrow> 'd system" where
  "start_cpus bd s = fold (\<lambda>i s. snd (psci_cpu_on (psci_call (bd_psci bd)) (of_nat i) (bd_start bd) s)) [1..<NCPU] s"

definition booting_msg :: "u8 list" where
  "booting_msg = [98, 111, 111, 116, 105, 110, 103, 46, 46, 46, 10]"

text \<open>\<open>main\<close> up to \<open>schedule\<close>, on CPU 0. The lines up to \<open>timer_init_percpu\<close> come first.\<close>

definition main_devices :: "'d board \<Rightarrow> 'd system \<Rightarrow> ('d system irqs \<times> 'd system cdevs \<times> 'd system) res" where
  "main_devices bd s =
     (let B = bd_bus bd;
          irqs = trap_init;
          (g, irqs) = uart_init B (uartintr (bd_addr bd) (bd_curs bd)) (sys_gic s) irqs;
          s = s\<lparr>sys_gic := g\<rparr> in
      bnd (console_init (bd_mmu bd) (bd_world bd) (replicate NCDEV None) s) (\<lambda>(sw, s).
      bnd (printk booting_msg [] (printk_init s)) (\<lambda>(_, s).
      let s = s\<lparr>sys_gic := gicv3_init B (sys_gic s)\<rparr> in
      bnd (gicv3_init_percpu B (word_of_int (cpuid s)) (sys_gic s)) (\<lambda>g.
      let s = s\<lparr>sys_gic := g, sys_timer := timer_init 100 (sys_timer s)\<rparr>;
          irqs = new_irq (unat TIMER_IRQ) (timer_handler (bd_frq bd)) irqs
      in Inr (irqs, sw, s\<lparr>sys_timer := timer_init_percpu (bd_frq bd) (sys_timer s)\<rparr>)))))"

definition main_memory :: "'d board \<Rightarrow> 'd system \<Rightarrow> 'd system res" where
  "main_memory bd s =
     bnd (ends (kalloc_init1 (bd_kend bd) s)) (\<lambda>s.
     bnd (kpgt_init (bd_l1kpgt bd) (bd_kend bd) s) (\<lambda>s.
       ends (kalloc_init2 (bd_kend bd) (pgt_init (bd_l1kpgt bd) s))))"

definition main_primary :: "'d board \<Rightarrow> 'd system \<Rightarrow> ('d system irqs \<times> 'd system cdevs \<times> 'd system) res" where
  "main_primary bd s =
     bnd (main_devices bd s) (\<lambda>(irqs, sw, s).
     bnd (main_memory bd s) (\<lambda>s.
     bnd (virtio_init (bd_bus bd) (sys_gic s) irqs s) (\<lambda>(g, irqs, s).
     let s = proc_init (file_init (inode_init (buf_init (s\<lparr>sys_gic := g\<rparr>)))) in
     bnd (userproc_init (bd_code bd) (bd_codesz bd) s) (\<lambda>s.
       Inr (irqs, sw, start_cpus bd s)))))"

definition core_msg :: "u8 list" where
  "core_msg = [99, 111, 114, 101, 37, 100, 32, 115, 116, 97, 114, 116, 101, 100, 10]"

definition main_secondary :: "'d board \<Rightarrow> 'd system \<Rightarrow> 'd system res" where
  "main_secondary bd s =
     (let s = pgt_init (bd_l1kpgt bd) s;
          s = s\<lparr>sys_timer := timer_init_percpu (bd_frq bd) (sys_timer s)\<rparr> in
      bnd (gicv3_init_percpu (bd_bus bd) (word_of_int (cpuid s)) (sys_gic s)) (\<lambda>g.
      bnd (printk core_msg [VNum (word_of_int (cpuid s))] (s\<lparr>sys_gic := g\<rparr>)) (\<lambda>(_, s). Inr s)))"

text \<open>Switching the machine off, which \<open>panic\<close> ends with.\<close>

definition shutdown_msg :: "u8 list" where
  "shutdown_msg = [115, 121, 115, 116, 101, 109, 32, 115, 104, 117, 116, 100, 111, 119, 110, 10]"

definition psci_shutdown :: "(u64 \<Rightarrow> u64 \<Rightarrow> u64 \<Rightarrow> u64 \<Rightarrow> 'd \<Rightarrow> int \<times> 'd) \<Rightarrow> 'd system \<Rightarrow> (int \<times> 'd system) res" where
  "psci_shutdown psci_fn s =
     bnd (printk shutdown_msg [] s) (\<lambda>(_, s). Inr (0, snd (psci_call psci_fn 0x84000008 0 0 0 s)))"

definition reboot_msg :: "u8 list" where
  "reboot_msg = [115, 121, 115, 116, 101, 109, 32, 114, 101, 98, 111, 111, 116, 10]"

definition psci_reset :: "(u64 \<Rightarrow> u64 \<Rightarrow> u64 \<Rightarrow> u64 \<Rightarrow> 'd \<Rightarrow> int \<times> 'd) \<Rightarrow> 'd system \<Rightarrow> (int \<times> 'd system) res" where
  "psci_reset psci_fn s =
     bnd (printk reboot_msg [] s) (\<lambda>(_, s). Inr (0, snd (psci_call psci_fn 0x84000009 0 0 0 s)))"

section \<open>The devices\<close>

lemma gic_more_simps [simp]:
  "rdist_addrs (wd32 B off x s) = rdist_addrs s" "rdist_addrs (snd (rd32 B off s)) = rdist_addrs s"
  "gicd (wd32 B off x s) = gicd s" "gicd (snd (rd32 B off s)) = gicd s"
  by (simp_all add: wd32_def rd32_def io_wr_def io_rd_def split_beta)

lemma gic_setup_spi_addrs [simp]: "rdist_addrs (gic_setup_spi B i p s) = rdist_addrs s"
  by (simp add: gic_setup_spi_def gic_enable_int_def gic_clear_pending_def gic_set_target_def gic_set_prio_def split_beta Let_def)

lemma gicv3_init_addrs:
  "rdist_addrs (gicv3_init B s) = map (\<lambda>i. GICBASE + 0xa0000 + of_nat i * 0x20000) [0..<NCPU]"
  by (simp add: gicv3_init_def Let_def)

definition waker0 :: ioaddr where
  "waker0 = Mem (GICBASE + 0xa0000 + ucast GICR_WAKER)"

lemma rreg0: "rreg (gicv3_init B s) 0 GICR_WAKER = waker0"
  by (simp add: rreg_def gicv3_init_addrs waker0_def upt_conv_Cons del: upt_Suc)

lemma register_console:
  "console_init mmu world (replicate NCDEV None) s =
     Inr ((replicate NCDEV None)[CDEV_CONSOLE := Some (cons_devsw mmu world)], lock_init ConsLk s)"
  by (simp add: console_init_def register_cdev_def)

text \<open>The same for any two interrupts of the table.\<close>

lemma new_irq_nth: "length t = NIRQ \<Longrightarrow> i < NIRQ \<Longrightarrow> j < NIRQ \<Longrightarrow> new_irq i h t ! j = (if i = j then h else t ! j)"
  by (simp add: new_irq_def)

lemma new_irq_length [simp]: "length (new_irq i h t) = length t"
  by (simp add: new_irq_def)

lemma tty_frame_more: "tty_frame s t \<Longrightarrow> kcons.more t = kcons.more s \<and> cpuid t = cpuid s"
  by (subst (asm) tty_frame_def, erule ssubst) simp

lemma timer_running:
  "timer_enabled (timer_init_percpu frq t)" "interval_ms (timer_init_percpu frq t) = interval_ms t"
proof -
  have "bit (((c OR 1) AND NOT 2) AND 1) 0" for c :: u64 by (simp add: bit_simps)
  then have "((c OR 1) AND NOT 2) AND 1 \<noteq> 0" for c :: u64 by (metis bit_0_eq bot_apply bot_bool_def)
  then show "timer_enabled (timer_init_percpu frq t)"
    by (simp add: timer_enabled_def timer_init_percpu_def enable_timer_def)
  show "interval_ms (timer_init_percpu frq t) = interval_ms t"
    by (simp add: timer_init_percpu_def enable_timer_def reload_timer_def disable_timer_def)
qed

lemma main_devices_ok:
  fixes bd :: "'d board" and s :: "'d system"
  assumes w: "wakes (bd_bus bd) waker0" and c: "cpuid s = 0"
  shows "\<exists>irqs sw t. main_devices bd s = Inr (irqs, sw, t) \<and> mem t = mem s \<and> cpuid t = 0 \<and>
    length irqs = NIRQ \<and> irqs ! unat UART_IRQ = uartintr (bd_addr bd) (bd_curs bd) \<and>
    irqs ! unat TIMER_IRQ = timer_handler (bd_frq bd) \<and>
    sw ! CDEV_CONSOLE = Some (cons_devsw (bd_mmu bd) (bd_world bd)) \<and>
    timer_enabled (sys_timer t) \<and> interval_ms (sys_timer t) = 100"
proof -
  let ?B = "bd_bus bd"
  obtain g and irqs :: "'d system irqs" where u: "uart_init ?B (uartintr (bd_addr bd) (bd_curs bd)) (sys_gic s) trap_init = (g, irqs)" by fastforce
  then have irqs: "irqs = new_irq (unat UART_IRQ) (uartintr (bd_addr bd) (bd_curs bd)) trap_init"
    by (auto simp: uart_init_def Let_def)
  let ?s1 = "printk_init (lock_init ConsLk (s\<lparr>sys_gic := g\<rparr>))"
  have "lock_free PrintkLk ?s1" by (simp add: printk_init_def)
  moreover have "\<exists>cs. vformat booting_msg [] = Inr cs" by (simp add: booting_msg_def)
  ultimately obtain t1 where t1: "printk booting_msg [] ?s1 = Inr (0, t1)" "tty_frame ?s1 t1"
    using vprintk_ok unfolding printk_def by fastforce
  have m1: "mem t1 = mem s" "cpuid t1 = 0"
    using tty_frameD(3) [OF t1(2)] tty_frame_more [OF t1(2)] c by (simp_all add: printk_init_def lock_init_def set_lock_def)
  let ?g = "gicv3_init ?B (sys_gic t1)"
  have "unat (0 :: u32) < length (rdist_addrs ?g)" "wakes ?B (rreg ?g 0 GICR_WAKER)"
    using w by (simp_all add: gicv3_init_addrs rreg0)
  then obtain g2 where g2: "gicv3_init_percpu ?B 0 ?g = Inr g2"
    using gicv3_percpu_writes by blast
  let ?irqs = "new_irq (unat TIMER_IRQ) (timer_handler (bd_frq bd)) irqs"
  let ?t2 = "t1\<lparr>sys_gic := g2, sys_timer := timer_init 100 (sys_timer t1)\<rparr>"
  let ?t = "?t2\<lparr>sys_timer := timer_init_percpu (bd_frq bd) (sys_timer ?t2)\<rparr>"
  have "main_devices bd s = Inr (?irqs, (replicate NCDEV None)[CDEV_CONSOLE := Some (cons_devsw (bd_mmu bd) (bd_world bd))], ?t)"
    using u t1(1) g2 m1(2) by (simp add: main_devices_def register_console Let_def timer_init_def)
  moreover have "?irqs ! unat UART_IRQ = uartintr (bd_addr bd) (bd_curs bd)" "?irqs ! unat TIMER_IRQ = timer_handler (bd_frq bd)"
      "length ?irqs = NIRQ"
    unfolding irqs by (simp_all add: new_irq_nth trap_init_def)
  moreover have "interval_ms (timer_init 100 x) = 100" for x by (simp add: timer_init_def)
  ultimately show ?thesis using m1 timer_running
    by (intro exI [of _ ?irqs] exI [of _ "(replicate NCDEV None)[CDEV_CONSOLE := _]"] exI [of _ ?t]) simp
qed

section \<open>Memory\<close>

lemma sys_frame:
  "kmem_frame s t \<Longrightarrow> sys_timer t = sys_timer s \<and> sys_gic t = sys_gic s \<and> sys_ttbr1 t = sys_ttbr1 s \<and> ttbr0 t = ttbr0 s \<and> cpuid t = cpuid s"
  by (cases s, cases t) (simp add: kmem_frame_def)

lemma pgt_init_simps [simp]:
  "mem (pgt_init l1 s) = mem s" "free_pages (pgt_init l1 s) ps = free_pages s ps"
  by (simp_all add: pgt_init_def free_pages_def lock_free_def)

lemma main_memory_ok:
  fixes bd :: "'d board" and s :: "'d system"
  defines "kend \<equiv> bd_kend bd" and "l1 \<equiv> bd_l1kpgt bd"
  assumes k: "page_aligned kend" "KERNBASE \<le> kend" "kend \<le> PHYMEMEND" and im: "boot_image (mem s) l1 kend"
    and room: "128 \<le> early_pages kend"
  shows "\<exists>t qs. main_memory bd s = Inr t \<and> aspace t l1 qs \<and> (\<forall>q\<in>set qs. kend \<le> q \<and> q < PHYMEMEND) \<and>
    kend_pages kend + 128 + length qs = 65536 \<and>
    (\<forall>i<65536. leaf (mem t) l1 (vpath (page_at KERNBASE i)) = leaf_entry (page_at PKERNBASE i)
       (if page_at KERNBASE i < kend then PTE_NORMAL else PTE_NORMAL OR PTE_PXN OR PTE_UXN)) \<and>
    (\<forall>x<kend. (\<forall>p\<in>tables 1 (mem s) l1. \<not> in_page p x) \<longrightarrow> mem t x = mem s x) \<and>
    sys_timer t = sys_timer s \<and> sys_gic t = sys_gic s \<and> sys_ttbr1 t = V2P l1 \<and> ttbr0 t = 0"
proof -
  obtain t u v qs where r: "kalloc_init1 kend s = Some (Inr t)" "kpgt_init l1 kend t = Inr u"
      "kalloc_init2 kend (pgt_init l1 u) = Some (Inr v)" "aspace v l1 qs" "\<forall>q\<in>set qs. kend \<le> q \<and> q < PHYMEMEND"
      "kend_pages kend + 128 + length qs = 65536"
      "\<forall>i<65536. leaf (mem v) l1 (vpath (page_at KERNBASE i)) = leaf_entry (page_at PKERNBASE i)
         (if page_at KERNBASE i < kend then PTE_NORMAL else PTE_NORMAL OR PTE_PXN OR PTE_UXN)"
      "\<forall>x<kend. (\<forall>p\<in>tables 1 (mem s) l1. \<not> in_page p x) \<longrightarrow> mem v x = mem s x"
      "kmem_frame (lock_init KallocLk s) u" "kmem_frame (pgt_init l1 u) v"
    using boot_memory_spec [OF k im room pgt_init_simps(1) [of l1] pgt_init_simps(2) [of l1]] by blast
  have "main_memory bd s = Inr v"
    using r(1-3) by (simp add: main_memory_def ends_def kend_def l1_def)
  moreover have "sys_timer v = sys_timer s" "sys_gic v = sys_gic s" "sys_ttbr1 v = V2P l1" "ttbr0 v = 0"
    using sys_frame [OF r(9)] sys_frame [OF r(10)] by (simp_all add: pgt_init_def lock_init_def set_lock_def)
  ultimately show ?thesis using r(4-8) by blast
qed

section \<open>From the disk to the first process\<close>

text \<open>Taking pages off the pool and writing to them leaves the kernel's own map as it is.\<close>

lemma kernel_map_stays:
  assumes a: "aspace s l1 ps" and f: "free_pages t qs" "set qs \<subseteq> set ps"
    and m: "\<forall>x. outside (set ps) x \<longrightarrow> mem t x = mem s x"
  shows "aspace t l1 qs" "path_ok 3 ix \<Longrightarrow> length ix = 3 \<Longrightarrow> leaf (mem t) l1 ix = leaf (mem s) l1 ix"
proof -
  have tr: "tree 1 (mem s) l1" and fs: "free_pages s ps" "\<forall>p\<in>set ps. kern_page p" "tables 1 (mem s) l1 \<inter> set ps = {}"
    using a by (auto simp: aspace_def)
  have g: "mem t x = mem s x" if p: "p \<in> tables 1 (mem s) l1" "in_page p x" for p x
  proof -
    have al: "page_aligned p" using tables_kern [OF tr p(1)] by (rule kern_page_aligned)
    have "\<not> in_page q x" if q: "q \<in> set ps" for q
    proof
      assume "in_page q x"
      moreover have "page_aligned q" using fs(2) q kern_page_aligned by blast
      ultimately have "p = q" using in_page_disjoint [OF al] p(2) by blast
      then show False using p(1) q fs(3) by blast
    qed
    then show ?thesis using m unfolding outside_def by blast
  qed
  note ta = tree_agree [OF tr g]
  show "aspace t l1 qs" using a f ta by (auto simp: aspace_def)
  show "path_ok 3 ix \<Longrightarrow> length ix = 3 \<Longrightarrow> leaf (mem t) l1 ix = leaf (mem s) l1 ix"
    by (rule leaf_agree [OF tr g])
qed

lemma virtq_init_frame:
  fixes s :: "'d system"
  assumes "free_pages s (a # b # c # ps)"
  shows "\<exists>t. virtq_init s = Inr ((a, b, c), t) \<and> free_pages t ps \<and> (\<forall>x. outside {a, b, c} x \<longrightarrow> mem t x = mem s x) \<and>
    queue_ok [] [0..<NQUEUE] t \<and> sys_timer t = sys_timer s \<and> sys_ttbr1 t = sys_ttbr1 s \<and> ttbr0 t = ttbr0 s"
proof -
  obtain s1 where s1: "kalloc s = Inr (a, s1)" "free_pages s1 (b # c # ps)" "mem s1 = zero_page (mem s) a" "kmem_frame s s1"
    using kalloc_step [OF assms] by blast
  obtain s2 where s2: "kalloc s1 = Inr (b, s2)" "free_pages s2 (c # ps)" "mem s2 = zero_page (mem s1) b" "kmem_frame s1 s2"
    using kalloc_step [OF s1(2)] by blast
  obtain s3 where s3: "kalloc s2 = Inr (c, s3)" "free_pages s3 ps" "mem s3 = zero_page (mem s2) c" "kmem_frame s2 s3"
    using kalloc_step [OF s2(2)] by blast
  obtain t where t: "virtq_init s = Inr ((a, b, c), t)" "free_pages t ps" "queue_ok [] [0..<NQUEUE] t"
    using virtq_init_ok [OF assms] by blast
  have nz: "a \<noteq> 0" "b \<noteq> 0" "c \<noteq> 0" using kpages.pool_ok [OF assms] by auto
  have F: "kmem_frame s s3" using s1(4) s2(4) s3(4) kmem_frame_trans by blast
  have m: "mem t = mem s3" "sys_timer t = sys_timer s3" "sys_ttbr1 t = sys_ttbr1 s3" "ttbr0 t = ttbr0 s3"
    using t(1) nz unfolding virtq_init_def s1(1) s2(1) s3(1) bnd.simps prod.case by auto
  have "mem s3 x = mem s x" if "outside {a, b, c} x" for x
    using that s1(3) s2(3) s3(3) by (simp add: outside_def zero_page_apply)
  then show ?thesis using t m sys_frame [OF F] by auto
qed

text \<open>The tables of the file system and the processes are set up without touching the pool.\<close>

definition tables_init :: "'d system \<Rightarrow> 'd system" where
  "tables_init s = proc_init (file_init (inode_init (buf_init s)))"

lemma tables_init_simps:
  "mem (tables_init s) = mem s" "free_pages (tables_init s) ps = free_pages s ps"
  "lock_free ProctableLk (tables_init s)" "lock_free PidallocLk (tables_init s)"
  "lock_free ItableLk (tables_init s)" "lock_free FtableLk (tables_init s)" "lock_free BcacheLk (tables_init s)"
  "ftable (tables_init s) = replicate NFILE zero_file" "itable (tables_init s) = replicate NINODE zero_inode"
  "procs (tables_init s) = replicate NPROC zero_proc" "next_pid (tables_init s) = 0" "cur (tables_init s) = None"
  "sys_timer (tables_init s) = sys_timer s" "sys_ttbr1 (tables_init s) = sys_ttbr1 s" "ttbr0 (tables_init s) = ttbr0 s"
  "queue_ok reqs free (tables_init s) = queue_ok reqs free s" "sys_gic (tables_init s) = sys_gic s"
  by (simp_all add: tables_init_def proc_init_def file_init_def inode_init_def buf_init_def lock_init_def set_lock_def
      Let_def free_pages_def lock_free_def queue_ok_def)

lemma start_cpus_gic: "\<exists>d. start_cpus bd s = s\<lparr>sys_gic := (sys_gic s)\<lparr>io_dev := d\<rparr>\<rparr>"
proof -
  have "\<exists>d. fold (\<lambda>i s. snd (psci_cpu_on (psci_call f) (of_nat i) a s)) xs s = s\<lparr>sys_gic := (sys_gic s)\<lparr>io_dev := d\<rparr>\<rparr>"
    for f a xs
  proof (induction xs arbitrary: s)
    case Nil
    show ?case by (intro exI [of _ "io_dev (sys_gic s)"]) simp
  next
    case (Cons i xs)
    obtain d where "snd (psci_cpu_on (psci_call f) (of_nat i) a s) = s\<lparr>sys_gic := (sys_gic s)\<lparr>io_dev := d\<rparr>\<rparr>"
      by (simp add: psci_cpu_on_def psci_call_def split_beta)
    then show ?case using Cons.IH [of "s\<lparr>sys_gic := (sys_gic s)\<lparr>io_dev := d\<rparr>\<rparr>"] by simp
  qed
  then show ?thesis by (simp add: start_cpus_def)
qed

text \<open>
  \<open>first_space_ok code sz s t k g\<close>: in \<open>t\<close> the space \<open>g\<close> holds the program that lay at \<open>code\<close> in \<open>s\<close> and a zeroed
  stack, and the trap frame in the kernel stack \<open>k\<close> starts it in user mode.
\<close>

definition first_space_ok :: "u64 \<Rightarrow> u64 \<Rightarrow> mem \<Rightarrow> 'a kmem_scheme \<Rightarrow> u64 \<Rightarrow> u64 \<Rightarrow> bool" where
  "first_space_ok code sz m t k g \<longleftrightarrow>
     mapped (mem t) g = {vpath 0x1000, vpath USTACKBOTTOM} \<and>
     leaf (mem t) g (vpath 0x1000) = leaf_entry (V2P (frame (mem t) g (vpath 0x1000))) PTE_USER \<and>
     leaf (mem t) g (vpath USTACKBOTTOM) = leaf_entry (V2P (frame (mem t) g (vpath USTACKBOTTOM))) PTE_UDATA \<and>
     (\<forall>i<4096. mem t (frame (mem t) g (vpath 0x1000) + of_nat i) = (if i < unat sz then m (code + of_nat i) else 0)) \<and>
     (\<forall>x. in_page (frame (mem t) g (vpath USTACKBOTTOM)) x \<longrightarrow> mem t x = 0) \<and>
     (\<forall>f<34. tf_get (k + 3824) (of_nat f) t = (if f = 31 then 0x1000 else if f = 33 then USTACKTOP else 0))"

lemma first_space_cong:
  "first_space_ok code sz m t k g \<Longrightarrow> \<forall>i<unat sz. m' (code + of_nat i) = m (code + of_nat i) \<Longrightarrow> first_space_ok code sz m' t k g"
  by (simp add: first_space_ok_def)

lemma kproc_more_sys:
  "kproc.more t = kproc.more s \<Longrightarrow> sys_timer t = sys_timer s \<and> sys_gic t = sys_gic s \<and> sys_ttbr1 t = sys_ttbr1 s \<and>
     queue_ok F fs t = queue_ok F fs s \<and> ftable t = ftable s \<and> itable t = itable s"
  by (cases s, cases t) (simp add: queue_ok_def)

lemma disk_and_process_ok:
  fixes s :: "'d system"
  assumes a: "aspace s l1 ps" and len: "11 \<le> length ps" and doc: "blk_doc B offered" and irqs: "length irqs = NIRQ"
    and sz: "0 < unat sz" "unat sz \<le> 4096" "unat code + unat sz \<le> 2 ^ 64"
    and cd: "\<forall>i<unat sz. \<forall>p\<in>set ps. \<not> in_page p (code + of_nat i)"
  shows "\<exists>io irqs' u t k g qs. virtio_init B (sys_gic s) irqs s = Inr (io, irqs', u) \<and>
     userproc_init code sz (tables_init (u\<lparr>sys_gic := io\<rparr>)) = Inr t \<and>
     irqs' = new_irq (unat VIRTIO_BLK_IRQ) virtio_blk_intr irqs \<and> queue_ok [] [0..<NQUEUE] t \<and>
     (\<exists>W v. io_log (sys_gic t) = io_log (sys_gic s) @ W \<and> vrun W vreset = Some v \<and> vs_status v = 15 \<and> vs_ready v) \<and>
     procs t = (replicate NPROC zero_proc)[0 := first_proc 0 k g sz] \<and> initproc t = Some 0 \<and>
     ftable t = replicate NFILE zero_file \<and> itable t = replicate NINODE zero_inode \<and> cur t = None \<and>
     lock_free ProctableLk t \<and> uspace t g qs \<and> first_space_ok code sz (mem s) t k g \<and>
     sys_timer t = sys_timer s \<and> sys_ttbr1 t = sys_ttbr1 s \<and> kern_page g \<and>
     aspace t l1 qs \<and> suffix qs ps \<and> (\<forall>ix. path_ok 3 ix \<longrightarrow> length ix = 3 \<longrightarrow> leaf (mem t) l1 ix = leaf (mem s) l1 ix)"
proof -
  obtain a1 a2 a3 k g rs where ps: "ps = a1 # a2 # a3 # k # g # rs"
    using len by (auto simp: numeral_eq_Suc Suc_le_length_iff)
  have fp: "free_pages s ps" and kp: "\<forall>p\<in>set ps. kern_page p" using a by (auto simp: aspace_def)
  obtain u0 where u0: "virtq_init s = Inr ((a1, a2, a3), u0)" "free_pages u0 (k # g # rs)"
      "\<forall>x. outside {a1, a2, a3} x \<longrightarrow> mem u0 x = mem s x" "queue_ok [] [0..<NQUEUE] u0"
      "sys_timer u0 = sys_timer s" "sys_ttbr1 u0 = sys_ttbr1 s"
    using virtq_init_frame [OF fp [unfolded ps]] by blast
  obtain io where io: "virtio_init B (sys_gic s) irqs s =
        Inr (io, new_irq (unat VIRTIO_BLK_IRQ) virtio_blk_intr irqs, lock_init DiskLk u0)"
      "io_log io = io_log (sys_gic s) @ handshake (driver_features offered) a1 a2 a3"
    using virtio_init_writes [OF doc u0(1)] by blast
  let ?v = "tables_init ((lock_init DiskLk u0)\<lparr>sys_gic := io\<rparr>)"
  note T = tables_init_simps [where s = "(lock_init DiskLk u0)\<lparr>sys_gic := io\<rparr>"]
  have mv: "mem ?v = mem u0" unfolding T by (simp add: lock_init_def set_lock_def)
  have fv: "free_pages ?v (k # g # rs)"
    using u0(2) unfolding T by (simp add: free_pages_def lock_init_def set_lock_def lock_free_def)
  have qv: "queue_ok [] [0..<NQUEUE] ?v"
    using u0(4) unfolding T by (simp add: queue_ok_def lock_init_def set_lock_def)
  have kp2: "\<forall>p\<in>set (k # g # rs). kern_page p" "6 \<le> length rs" using kp len by (simp_all add: ps)
  have cd2: "\<forall>i<unat sz. \<forall>p\<in>set (k # g # rs). \<not> in_page p (code + of_nat i)" using cd by (simp add: ps)
  obtain t qs where t: "userproc_init code sz ?v = Inr t" "procs t = (replicate NPROC zero_proc)[0 := first_proc 0 k g sz]"
     "initproc t = Some 0" "\<forall>L. lock_free L t = lock_free L ?v" "uspace t g qs" "first_space_ok code sz (mem ?v) t k g"
     "\<forall>x. outside (set (k # g # rs)) x \<longrightarrow> mem t x = mem ?v x" "suffix qs rs" "kproc.more t = kproc.more ?v"
     "cur t = cur ?v"
    using userproc_init_spec [OF fv kp2 T(3,4,10) sz cd2] unfolding first_space_ok_def T(10,11) by blast
  have M: "sys_timer t = sys_timer s" "sys_gic t = io" "sys_ttbr1 t = sys_ttbr1 s" "queue_ok [] [0..<NQUEUE] t"
      "ftable t = replicate NFILE zero_file" "itable t = replicate NINODE zero_inode" "cur t = None"
    using t(10) kproc_more_sys [OF t(9)] qv u0(5,6) unfolding T by (simp_all add: lock_init_def set_lock_def)
  have out: "\<forall>x. outside (set ps) x \<longrightarrow> mem t x = mem s x"
  proof (intro allI impI)
    fix x assume "outside (set ps) x"
    then have "outside {a1, a2, a3} x" "outside (set (k # g # rs)) x" by (auto simp: outside_def ps)
    then show "mem t x = mem s x" using t(7) u0(3) mv by simp
  qed
  have "free_pages t qs" using t(5) by (simp add: uspace_def aspace_def)
  moreover have "suffix qs ps" using t(8) unfolding ps by (simp add: suffix_ConsI)
  then have "suffix qs ps" "set qs \<subseteq> set ps" by (simp_all add: set_mono_suffix)
  ultimately have K: "aspace t l1 qs" "suffix qs ps"
      "\<And>ix. path_ok 3 ix \<Longrightarrow> length ix = 3 \<Longrightarrow> leaf (mem t) l1 ix = leaf (mem s) l1 ix"
    using kernel_map_stays [OF a _ _ out] by blast+
  have "mem s (code + of_nat i) = mem ?v (code + of_nat i)" if "i < unat sz" for i
    using cd that u0(3) unfolding mv by (simp add: ps outside_def)
  then have S: "first_space_ok code sz (mem s) t k g" using first_space_cong [OF t(6)] by blast
  obtain v where v: "vrun (handshake (driver_features offered) a1 a2 a3) vreset = Some v" "vs_status v = 15" "vs_ready v"
    using handshake_accepted by blast
  have V: "\<exists>W v. io_log (sys_gic t) = io_log (sys_gic s) @ W \<and> vrun W vreset = Some v \<and> vs_status v = 15 \<and> vs_ready v"
    unfolding M(2) using io(2) v by blast
  have ul: "tables_init ((lock_init DiskLk u0)\<lparr>sys_gic := io\<rparr>) = ?v" ..
  have lf: "lock_free ProctableLk t" using t(4) T(3) by blast
  have kg: "kern_page g" using kp2 by simp
  show ?thesis
    by (rule exI [of _ io], rule exI [of _ "new_irq (unat VIRTIO_BLK_IRQ) virtio_blk_intr irqs"], rule exI [of _ "lock_init DiskLk u0"],
        rule exI [of _ t], rule exI [of _ k], rule exI [of _ g], rule exI [of _ qs], intro conjI allI impI)
      (fact io(1) t(1) refl M V t(2,3,5) lf S kg K(1,2) | rule K(3), assumption+)+
qed

section \<open>main\<close>

lemma start_cpus_frame:
  assumes "start_cpus bd s = t"
  shows "ftable t = ftable s" "itable t = itable s" "cur t = cur s"
    "mem t = mem s" "procs t = procs s" "initproc t = initproc s" "sys_timer t = sys_timer s" "sys_ttbr1 t = sys_ttbr1 s"
    "io_log (sys_gic t) = io_log (sys_gic s)" "lock_free L t = lock_free L s" "aspace t l1 qs = aspace s l1 qs"
    "uspace t g qs = uspace s g qs" "queue_ok F fs t = queue_ok F fs s" "first_space_ok code sz m t k g = first_space_ok code sz m s k g"
proof -
  obtain d where t: "t = s\<lparr>sys_gic := (sys_gic s)\<lparr>io_dev := d\<rparr>\<rparr>" using start_cpus_gic assms by metis
  show "ftable t = ftable s" "itable t = itable s" "cur t = cur s" "mem t = mem s" "procs t = procs s" "initproc t = initproc s" "sys_timer t = sys_timer s" "sys_ttbr1 t = sys_ttbr1 s"
    "io_log (sys_gic t) = io_log (sys_gic s)" "lock_free L t = lock_free L s" "queue_ok F fs t = queue_ok F fs s"
    "first_space_ok code sz m t k g = first_space_ok code sz m s k g"
    by (simp_all add: t lock_free_def queue_ok_def first_space_ok_def tf_get_def)
  have f: "free_pages t ps = free_pages s ps" for ps by (simp add: t free_pages_def lock_free_def)
  show a: "aspace t l1 qs = aspace s l1 qs" for l1 by (simp add: aspace_def f) (simp add: t)
  show "uspace t g qs = uspace s g qs" by (simp add: uspace_def a owned_def) (simp add: t)
qed

text \<open>The scheduler's first turn.\<close>

lemma first_dispatch:
  assumes "lock_free ProctableLk s" "procs s = (replicate NPROC zero_proc)[0 := first_proc pid k g sz]" "g \<noteq> 0"
  shows "scan (\<lambda>p. p_state p = RUNNABLE) (procs s) = Some 0"
    "\<exists>t. bnd (schedule_enter s) (dispatch 0) = Inr t \<and> cur t = Some 0 \<and> ttbr0 t = V2P g \<and>
       p_state (procs t ! 0) = RUNNING \<and> mem t = mem s"
proof -
  have p: "procs s = first_proc pid k g sz # replicate 255 zero_proc"
    unfolding assms(2) by (simp add: numeral_eq_Suc)
  show "scan (\<lambda>p. p_state p = RUNNABLE) (procs s) = Some 0"
    unfolding p by (simp add: first_proc_def)
  have "lock_free ProctableLk (s\<lparr>irq_on := True\<rparr>)" using assms(1) by (simp add: lock_free_def)
  then have e: "schedule_enter s = Inr (locked ProctableLk (s\<lparr>irq_on := True\<rparr>))" by (simp add: schedule_enter_def)
  show "\<exists>t. bnd (schedule_enter s) (dispatch 0) = Inr t \<and> cur t = Some 0 \<and> ttbr0 t = V2P g \<and>
       p_state (procs t ! 0) = RUNNING \<and> mem t = mem s"
    using assms(3) unfolding e by (simp add: dispatch_def load_userspace_def p first_proc_def locked_kmem)
qed

lemma main_primary_spec:
  fixes bd :: "'d board" and s :: "'d system"
  defines "kend \<equiv> bd_kend bd" and "l1 \<equiv> bd_l1kpgt bd" and "code \<equiv> bd_code bd" and "sz \<equiv> bd_codesz bd"
  assumes k: "page_aligned kend" "KERNBASE \<le> kend" "kend \<le> PHYMEMEND" and im: "boot_image (mem s) l1 kend"
    and room: "128 \<le> early_pages kend" "kend_pages kend + 139 \<le> 65536"
    and sz: "0 < unat sz" "unat sz \<le> 4096" "unat code + unat sz \<le> unat kend"
    and cd: "\<forall>i<unat sz. \<forall>p\<in>tables 1 (mem s) l1. \<not> in_page p (code + of_nat i)"
    and doc: "blk_doc (bd_bus bd) offered" "wakes (bd_bus bd) waker0" and cpu: "cpuid s = 0"
  shows "\<exists>irqs sw t p g qs. main_primary bd s = Inr (irqs, sw, t) \<and>
    irqs ! unat UART_IRQ = uartintr (bd_addr bd) (bd_curs bd) \<and> irqs ! unat TIMER_IRQ = timer_handler (bd_frq bd) \<and>
    irqs ! unat VIRTIO_BLK_IRQ = virtio_blk_intr \<and> sw ! CDEV_CONSOLE = Some (cons_devsw (bd_mmu bd) (bd_world bd)) \<and>
    timer_enabled (sys_timer t) \<and> interval_ms (sys_timer t) = 100 \<and>
    (\<exists>V W v. io_log (sys_gic t) = V @ W \<and> vrun W vreset = Some v \<and> vs_status v = 15 \<and> vs_ready v) \<and> queue_ok [] [0..<NQUEUE] t \<and>
    sys_ttbr1 t = V2P l1 \<and> aspace t l1 qs \<and>
    (\<forall>i<65536. leaf (mem t) l1 (vpath (page_at KERNBASE i)) = leaf_entry (page_at PKERNBASE i)
       (if page_at KERNBASE i < kend then PTE_NORMAL else PTE_NORMAL OR PTE_PXN OR PTE_UXN)) \<and>
    procs t = (replicate NPROC zero_proc)[0 := first_proc 0 p g sz] \<and> initproc t = Some 0 \<and>
    ftable t = replicate NFILE zero_file \<and> itable t = replicate NINODE zero_inode \<and> cur t = None \<and>
    uspace t g qs \<and> first_space_ok code sz (mem s) t p g \<and> scan (\<lambda>p. p_state p = RUNNABLE) (procs t) = Some 0 \<and>
    (\<exists>u. bnd (schedule_enter t) (dispatch 0) = Inr u \<and> cur u = Some 0 \<and> ttbr0 u = V2P g \<and>
       p_state (procs u ! 0) = RUNNING \<and> mem u = mem t)"
proof -
  obtain irqs sw s1 where s1: "main_devices bd s = Inr (irqs, sw, s1)" "mem s1 = mem s" "length irqs = NIRQ"
      "irqs ! unat UART_IRQ = uartintr (bd_addr bd) (bd_curs bd)" "irqs ! unat TIMER_IRQ = timer_handler (bd_frq bd)"
      "sw ! CDEV_CONSOLE = Some (cons_devsw (bd_mmu bd) (bd_world bd))"
      "timer_enabled (sys_timer s1)" "interval_ms (sys_timer s1) = 100"
    using main_devices_ok [OF doc(2) cpu] by blast
  have im1: "boot_image (mem s1) (bd_l1kpgt bd) (bd_kend bd)" using im by (simp add: s1(2) l1_def kend_def)
  obtain s2 ps where s2: "main_memory bd s1 = Inr s2" "aspace s2 l1 ps" "\<forall>q\<in>set ps. kend \<le> q \<and> q < PHYMEMEND"
      "kend_pages kend + 128 + length ps = 65536"
      "\<forall>i<65536. leaf (mem s2) l1 (vpath (page_at KERNBASE i)) = leaf_entry (page_at PKERNBASE i)
         (if page_at KERNBASE i < kend then PTE_NORMAL else PTE_NORMAL OR PTE_PXN OR PTE_UXN)"
      "\<forall>x<kend. (\<forall>p\<in>tables 1 (mem s1) l1. \<not> in_page p x) \<longrightarrow> mem s2 x = mem s1 x"
      "sys_timer s2 = sys_timer s1" "sys_gic s2 = sys_gic s1" "sys_ttbr1 s2 = V2P l1"
    using main_memory_ok [OF k [unfolded kend_def] im1 room(1) [unfolded kend_def]] unfolding kend_def l1_def by blast
  have below: "code + of_nat i < kend" if "i < unat sz" for i
  proof -
    have "unat (of_nat i :: u64) = i" using that sz(2) by (simp add: unat_of_nat_small)
    then have "unat (code + of_nat i) \<le> unat code + i" using unat_plus_if' [of code "of_nat i"] by (simp split: if_splits)
    then show ?thesis using that sz(3) by (simp add: word_less_nat_alt)
  qed
  have free: "\<forall>i<unat sz. \<forall>p\<in>set ps. \<not> in_page p (code + of_nat i)"
  proof (intro allI impI ballI)
    fix i p assume "i < unat sz" and p: "p \<in> set ps"
    moreover have "kern_page p" using s2(2) p by (auto simp: aspace_def)
    ultimately show "\<not> in_page p (code + of_nat i)" using page_above [OF kern_page_aligned] s2(3) below by blast
  qed
  have len: "11 \<le> length ps" using s2(4) room(2) by simp
  have sz64: "unat code + unat sz \<le> 2 ^ 64" using sz(3) u64_bound [of kend] by simp
  obtain io irqs' u t p g qs where t: "virtio_init (bd_bus bd) (sys_gic s2) irqs s2 = Inr (io, irqs', u)"
     "userproc_init code sz (tables_init (u\<lparr>sys_gic := io\<rparr>)) = Inr t"
     "irqs' = new_irq (unat VIRTIO_BLK_IRQ) virtio_blk_intr irqs" "queue_ok [] [0..<NQUEUE] t"
     "\<exists>W v. io_log (sys_gic t) = io_log (sys_gic s2) @ W \<and> vrun W vreset = Some v \<and> vs_status v = 15 \<and> vs_ready v"
     "procs t = (replicate NPROC zero_proc)[0 := first_proc 0 p g sz]" "initproc t = Some 0"
     "ftable t = replicate NFILE zero_file" "itable t = replicate NINODE zero_inode" "cur t = None"
     "lock_free ProctableLk t" "uspace t g qs" "first_space_ok code sz (mem s2) t p g"
     "sys_timer t = sys_timer s2" "sys_ttbr1 t = sys_ttbr1 s2" "kern_page g"
     "aspace t l1 qs" "\<forall>ix. path_ok 3 ix \<longrightarrow> length ix = 3 \<longrightarrow> leaf (mem t) l1 ix = leaf (mem s2) l1 ix"
    using disk_and_process_ok [OF s2(2) len doc(1) s1(3) sz(1,2) sz64 free] by blast
  define z where "z = start_cpus bd t"
  note Z = start_cpus_frame [OF z_def [symmetric]]
  have main: "main_primary bd s = Inr (irqs', sw, z)"
    using s1(1) s2(1) t(1,2) by (simp add: main_primary_def Let_def z_def tables_init_def code_def sz_def)
  have ir: "irqs' ! unat UART_IRQ = uartintr (bd_addr bd) (bd_curs bd)" "irqs' ! unat TIMER_IRQ = timer_handler (bd_frq bd)"
      "irqs' ! unat VIRTIO_BLK_IRQ = virtio_blk_intr"
    unfolding t(3) using s1(3-5) by (simp_all add: new_irq_nth)
  have tm: "timer_enabled (sys_timer z)" "interval_ms (sys_timer z) = 100" "sys_ttbr1 z = V2P l1"
    unfolding Z using s1(7,8) s2(7,9) t(14,15) by simp_all
  have dk: "\<exists>V W v. io_log (sys_gic z) = V @ W \<and> vrun W vreset = Some v \<and> vs_status v = 15 \<and> vs_ready v"
    unfolding Z using t(5) by blast
  have km: "leaf (mem z) l1 (vpath (page_at KERNBASE i)) = leaf_entry (page_at PKERNBASE i)
       (if page_at KERNBASE i < kend then PTE_NORMAL else PTE_NORMAL OR PTE_PXN OR PTE_UXN)" if "i < 65536" for i
    unfolding Z using s2(5) t(18) that by simp
  have cs: "\<forall>i<unat sz. mem s (code + of_nat i) = mem s2 (code + of_nat i)"
    using s2(6) below cd s1(2) by simp
  have fs: "first_space_ok code sz (mem s) z p g" unfolding Z using first_space_cong [OF t(13) cs] .
  have pr: "procs z = (replicate NPROC zero_proc)[0 := first_proc 0 p g sz]" "initproc z = Some 0" "lock_free ProctableLk z"
      "uspace z g qs" "aspace z l1 qs" "queue_ok [] [0..<NQUEUE] z"
    unfolding Z by (fact t(6,7,11,12,17,4))+
  have tb: "ftable z = replicate NFILE zero_file" "itable z = replicate NINODE zero_inode" "cur z = None"
    unfolding Z by (fact t(8,9,10))+
  have "g \<noteq> 0" using kern_page_nonzero t(16) by blast
  note D = first_dispatch [OF pr(3,1) this]
  show ?thesis
    by (rule exI [of _ irqs'], rule exI [of _ sw], rule exI [of _ z], rule exI [of _ p], rule exI [of _ g], rule exI [of _ qs],
        intro conjI allI impI) (fact main ir s1(6) tm dk pr fs tb D | rule km, assumption)+
qed

text \<open>
  C1. The kernel comes up. From an image as boot.S leaves it, on a board with a block device and an interrupt controller
  as documented, \<open>main\<close> gets to \<open>schedule\<close> on the first CPU. Then the timer runs; the interrupts of the UART, the timer and the disk have
  their handlers and the console its functions; the disk has been brought up in the order of the standard and its queue is empty; all physical
  memory is mapped at its kernel address; the tables of files and inodes are empty; and the first process is there, with pid 0, its program at 0x1000 and a stack of its own, the one
  that the scheduler finds and switches to.
\<close>

theorem main_brings_kernel_up:
  fixes bd :: "'d board" and s :: "'d system"
  defines "kend \<equiv> bd_kend bd" and "l1 \<equiv> bd_l1kpgt bd" and "code \<equiv> bd_code bd" and "sz \<equiv> bd_codesz bd"
  assumes k: "page_aligned kend" "KERNBASE \<le> kend" "kend \<le> PHYMEMEND" and im: "boot_image (mem s) l1 kend"
    and room: "128 \<le> early_pages kend" "kend_pages kend + 139 \<le> 65536"
    and sz: "0 < unat sz" "unat sz \<le> 4096" "unat code + unat sz \<le> unat kend"
    and cd: "\<forall>i<unat sz. \<forall>p\<in>tables 1 (mem s) l1. \<not> in_page p (code + of_nat i)"
    and doc: "blk_doc (bd_bus bd) offered" "wakes (bd_bus bd) waker0" and cpu: "cpuid s = 0"
  shows "\<exists>irqs sw t p g qs. main_primary bd s = Inr (irqs, sw, t) \<and>
    irqs ! unat UART_IRQ = uartintr (bd_addr bd) (bd_curs bd) \<and> irqs ! unat TIMER_IRQ = timer_handler (bd_frq bd) \<and>
    irqs ! unat VIRTIO_BLK_IRQ = virtio_blk_intr \<and> sw ! CDEV_CONSOLE = Some (cons_devsw (bd_mmu bd) (bd_world bd)) \<and>
    timer_enabled (sys_timer t) \<and> interval_ms (sys_timer t) = 100 \<and>
    (\<exists>V W v. io_log (sys_gic t) = V @ W \<and> vrun W vreset = Some v \<and> vs_status v = 15 \<and> vs_ready v) \<and> queue_ok [] [0..<NQUEUE] t \<and>
    sys_ttbr1 t = V2P l1 \<and> aspace t l1 qs \<and>
    (\<forall>i<65536. leaf (mem t) l1 (vpath (page_at KERNBASE i)) = leaf_entry (page_at PKERNBASE i)
       (if page_at KERNBASE i < kend then PTE_NORMAL else PTE_NORMAL OR PTE_PXN OR PTE_UXN)) \<and>
    procs t = (replicate NPROC zero_proc)[0 := first_proc 0 p g sz] \<and> initproc t = Some 0 \<and>
    ftable t = replicate NFILE zero_file \<and> itable t = replicate NINODE zero_inode \<and> cur t = None \<and>
    uspace t g qs \<and> first_space_ok code sz (mem s) t p g \<and> scan (\<lambda>p. p_state p = RUNNABLE) (procs t) = Some 0 \<and>
    (\<exists>u. bnd (schedule_enter t) (dispatch 0) = Inr u \<and> cur u = Some 0 \<and> ttbr0 u = V2P g \<and>
       p_state (procs u ! 0) = RUNNING \<and> mem u = mem t)"
  using main_primary_spec [OF assms(5-) [unfolded assms(1-4)]] unfolding assms(1-4) .

section \<open>A board\<close>

text \<open>The image ends at 512 KB; the initial program is 24 bytes behind the boot tables.\<close>

definition demo_board :: "u32 board" where
  "demo_board = \<lparr>bd_bus = demo_blk, bd_frq = 62500000, bd_psci = \<lambda>_ _ _ _ d. (0, d), bd_start = 0x40000000,
     bd_kend = 0xffffff8040080000, bd_l1kpgt = demo_l1, bd_code = 0xffffff8040003000, bd_codesz = 24,
     bd_mmu = \<lambda>_. None, bd_world = Inr, bd_addr = \<lambda>_. 0, bd_curs = []\<rparr>"

definition demo_start :: "u32 system" where
  "demo_start = (kcons.extend (demo_cons 0 []) \<lparr>sys_ttbr1 = 0, sys_timer = \<lparr>cntv_ctl = 0, cntv_tval = 0, interval_ms = 0, ticks = 0\<rparr>,
     sys_gic = \<lparr>io_dev = 0, io_log = [], gicd = 0, rdist_addrs = []\<rparr>\<rparr>)\<lparr>mem := mem booted, cpuid := 0\<rparr>"

lemma demo_wakes: "wakes demo_blk waker0"
  unfolding wakes_def by (intro allI impI exI [of _ 0]) (simp add: demo_blk_def waker0_def vreg_def VIRTIO0_def GICBASE_def GICR_WAKER_def P2V_def)

lemma page_below:
  assumes "page_aligned p" "page_aligned e" "p < e" "e \<le> x"
  shows "\<not> in_page p x"
proof
  assume "in_page p x"
  then have "unat x div 4096 = unat p div 4096" using assms(1) by (simp add: in_page_iff)
  moreover have "4096 * (unat p div 4096) = unat p" "4096 * (unat e div 4096) = unat e"
    using assms(1,2) by (auto simp: page_aligned_def)
  moreover have "unat e div 4096 \<le> unat x div 4096" using assms(4) by (intro div_le_mono) (simp add: word_le_nat_alt)
  ultimately have "unat e \<le> unat p" by linarith
  then show False using assms(3) by (simp add: word_less_nat_alt)
qed

lemma demo_board_simps:
  "bd_kend demo_board = 0xffffff8040080000" "bd_l1kpgt demo_board = demo_l1" "bd_bus demo_board = demo_blk"
  "bd_code demo_board = 0xffffff8040003000" "bd_codesz demo_board = 24"
  by (simp_all add: demo_board_def)

text \<open>What \<open>main\<close> needs of the image holds of this one.\<close>

lemma demo_ready:
  fixes s :: "u32 system"
  defines "k \<equiv> 0xffffff8040080000 :: u64"
  assumes m: "mem s = mem booted"
  shows "page_aligned k" "KERNBASE \<le> k" "k \<le> PHYMEMEND" "boot_image (mem s) demo_l1 k"
    "128 \<le> early_pages k" "kend_pages k + 139 \<le> 65536" "0 < unat (24 :: u64)" "unat (24 :: u64) \<le> 4096"
    "unat (0xffffff8040003000 :: u64) + unat (24 :: u64) \<le> unat k"
    "\<forall>i<unat (24 :: u64). \<forall>p\<in>tables 1 (mem s) demo_l1. \<not> in_page p (0xffffff8040003000 + of_nat i)"
proof -
  show k: "page_aligned k" "KERNBASE \<le> k" "k \<le> PHYMEMEND" by (simp_all add: page_aligned_def k_def)
  have "early_pages k = 384" using early_pages(4) [OF k] kend_pages_at(1) unfolding k_def by simp
  then show "128 \<le> early_pages k" "kend_pages k + 139 \<le> 65536" using kend_pages_at(1) unfolding k_def by simp_all
  show "boot_image (mem s) demo_l1 k" unfolding m by (rule booted_image) (simp add: k_def)
  show "0 < unat (24 :: u64)" "unat (24 :: u64) \<le> 4096"
    "unat (0xffffff8040003000 :: u64) + unat (24 :: u64) \<le> unat k" by (simp_all add: k_def)
  show "\<forall>i<unat (24 :: u64). \<forall>p\<in>tables 1 (mem s) demo_l1. \<not> in_page p (0xffffff8040003000 + of_nat i)"
  proof (intro allI impI ballI)
    fix i p assume i: "i < unat (24 :: u64)" and p: "p \<in> tables 1 (mem s) demo_l1"
    have b: "boot_image (mem s) demo_l1 0xffffff8040003000" unfolding m by (rule booted_image) simp
    have "tree 1 (mem s) demo_l1" "p < 0xffffff8040003000" using b p unfolding boot_image_def by blast+
    then have "page_aligned p" "p < 0xffffff8040003000" using tables_kern [OF _ p] kern_page_aligned by blast+
    moreover have "unat (of_nat i :: u64) = i" using i by (simp add: unat_of_nat_small)
    then have "0xffffff8040003000 \<le> 0xffffff8040003000 + (of_nat i :: u64)"
      using i unat_add_lem [of "0xffffff8040003000" "of_nat i :: u64"] by (simp add: word_le_nat_alt)
    ultimately show "\<not> in_page p (0xffffff8040003000 + of_nat i)"
      by (intro page_below) (simp_all add: page_aligned_def)
  qed
qed

theorem main_brings_kernel_up_witness:
  "\<exists>irqs sw t g. main_primary demo_board demo_start = Inr (irqs, sw, t) \<and> irqs ! unat VIRTIO_BLK_IRQ = virtio_blk_intr \<and>
     p_state (procs t ! 0) = RUNNABLE \<and> mapped (mem t) g = {vpath 0x1000, vpath USTACKBOTTOM} \<and>
     leaf (mem t) demo_l1 (vpath 0xffffff8040000000) = leaf_entry 0x40000000 PTE_NORMAL"
proof -
  let ?k = "0xffffff8040080000 :: u64"
  have m: "mem demo_start = mem booted" "cpuid demo_start = 0" by (simp_all add: demo_start_def)
  note main = main_brings_kernel_up [of demo_board demo_start "NOT 0", unfolded demo_board_simps m(2), OF demo_ready [OF m(1)] demo_blk_doc demo_wakes refl]
  obtain irqs sw t p g where r: "main_primary demo_board demo_start = Inr (irqs, sw, t)" "irqs ! unat VIRTIO_BLK_IRQ = virtio_blk_intr"
      "\<forall>i<65536. leaf (mem t) demo_l1 (vpath (page_at KERNBASE i)) = leaf_entry (page_at PKERNBASE i)
         (if page_at KERNBASE i < ?k then PTE_NORMAL else PTE_NORMAL OR PTE_PXN OR PTE_UXN)"
      "procs t = (replicate NPROC zero_proc)[0 := first_proc 0 p g 24]"
      "first_space_ok 0xffffff8040003000 24 (mem demo_start) t p g"
    using main by blast
  have "p_state (procs t ! 0) = RUNNABLE" unfolding r(4) by (simp add: first_proc_def)
  moreover have "leaf (mem t) demo_l1 (vpath 0xffffff8040000000) = leaf_entry 0x40000000 PTE_NORMAL"
    using r(3) [rule_format, of 0] by (simp add: page_at_def)
  moreover have "mapped (mem t) g = {vpath 0x1000, vpath USTACKBOTTOM}" using r(5) by (simp add: first_space_ok_def)
  ultimately show ?thesis using r(1,2) by blast
qed

end
