(* ===== verification/Welltyped.thy ===== *)
theory Welltyped
  imports Boot
begin

text \<open>
  The kernel's tables refer to each other by index: a descriptor of a process to an open file, an open file and a working
  directory to an inode, a process to its parent. \<open>typed\<close> says that every such reference is one into its table, and this theory
  shows that nothing the kernel does after \<open>main\<close>, whatever a program asks for and however it ends, leaves a state where it is not. The lemmas go through the
  kernel from the locks up; each is a postcondition of one operation, and they are put together with the rules for \<open>ok\<close>.
\<close>

unbundle bit_operations_syntax

section \<open>Postconditions\<close>

definition ok :: "('x \<Rightarrow> bool) \<Rightarrow> 'x res \<Rightarrow> bool" where
  "ok P r \<longleftrightarrow> (\<forall>x. r = Inr x \<longrightarrow> P x)"

lemma ok_Inr [simp]: "ok P (Inr x) \<longleftrightarrow> P x"
  by (simp add: ok_def)

lemma ok_Inl [simp]: "ok P (Inl e)"
  by (simp add: ok_def)

lemma ok_bnd: "ok Q m \<Longrightarrow> (\<And>x. Q x \<Longrightarrow> ok P (f x)) \<Longrightarrow> ok P (bnd m f)"
  by (cases m) simp_all

lemma ok_mono: "ok Q m \<Longrightarrow> (\<And>x. Q x \<Longrightarrow> P x) \<Longrightarrow> ok P m"
  by (cases m) simp_all

named_theorems wt \<open>operations that keep the tables typed\<close>

section \<open>Typed tables\<close>

definition proc_ok :: "proc \<Rightarrow> bool" where
  "proc_ok p \<longleftrightarrow> length (p_ofile p) = NOFILE \<and> (\<forall>f. Some f \<in> set (p_ofile p) \<longrightarrow> f < NFILE) \<and>
     (\<forall>k. p_cwd p = Some k \<longrightarrow> k < NINODE) \<and> (\<forall>q. p_parent p = Some q \<longrightarrow> q < NPROC)"

definition typed :: "'a kfile_scheme \<Rightarrow> bool" where
  "typed s \<longleftrightarrow> length (procs s) = NPROC \<and> (\<forall>p\<in>set (procs s). proc_ok p) \<and>
     (\<forall>i. cur s = Some i \<longrightarrow> i < NPROC) \<and> (\<forall>i. initproc s = Some i \<longrightarrow> i < NPROC) \<and>
     length (itable s) = NINODE \<and> length (ftable s) = NFILE \<and>
     (\<forall>f\<in>set (ftable s). \<forall>k. f_ino f = Some k \<longrightarrow> k < NINODE)"

abbreviation typed2 :: "'x \<times> 'a kfile_scheme \<Rightarrow> bool" where
  "typed2 r \<equiv> typed (snd r)"

text \<open>The fields that do not matter.\<close>

lemma typed_fields [simp]:
  "typed (s\<lparr>cpuid := a1\<rparr>) = typed s" "typed (s\<lparr>irq_on := a2\<rparr>) = typed s" "typed (s\<lparr>cli_depth := a3\<rparr>) = typed s"
  "typed (s\<lparr>intr_enabled := a4\<rparr>) = typed s" "typed (s\<lparr>locks := a5\<rparr>) = typed s" "typed (s\<lparr>mem := a6\<rparr>) = typed s"
  "typed (s\<lparr>freelist := a7\<rparr>) = typed s" "typed (s\<lparr>next_pid := a8\<rparr>) = typed s" "typed (s\<lparr>ttbr0 := a9\<rparr>) = typed s"
  "typed (s\<lparr>vdescs := b1\<rparr>) = typed s" "typed (s\<lparr>vavail_idx := b2\<rparr>) = typed s" "typed (s\<lparr>vavail := b3\<rparr>) = typed s"
  "typed (s\<lparr>vused_idx := b4\<rparr>) = typed s" "typed (s\<lparr>vused := b5\<rparr>) = typed s" "typed (s\<lparr>free_head := b6\<rparr>) = typed s"
  "typed (s\<lparr>nfree := b7\<rparr>) = typed s" "typed (s\<lparr>last_used := b8\<rparr>) = typed s" "typed (s\<lparr>vinfos := b9\<rparr>) = typed s"
  "typed (s\<lparr>bdata := c1\<rparr>) = typed s" "typed (s\<lparr>platter := c2\<rparr>) = typed s" "typed (s\<lparr>bcache := c3\<rparr>) = typed s"
  "typed (s\<lparr>sb := c4\<rparr>) = typed s"
  by (auto simp: typed_def)

lemma typed_cons [simp]:
  "typed (s\<lparr>tx := a1\<rparr>) = typed s" "typed (s\<lparr>rx := a2\<rparr>) = typed s" "typed (s\<lparr>readbuf := a3\<rparr>) = typed s"
  "typed (s\<lparr>bufc := a4\<rparr>) = typed s" "typed (s\<lparr>bufsz := a5\<rparr>) = typed s"
  by (auto simp: typed_def)

lemma typed_cur: "typed s \<Longrightarrow> (\<And>i. c = Some i \<Longrightarrow> i < NPROC) \<Longrightarrow> typed (s\<lparr>cur := c\<rparr>)"
  by (simp add: typed_def)

lemma typed_upd_proc:
  assumes "typed s" "\<And>p. proc_ok p \<Longrightarrow> proc_ok (f p)"
  shows "typed (upd_proc i f s)"
proof (cases "i < length (procs s)")
  case True
  then have "proc_ok (f (procs s ! i))" using assms by (simp add: typed_def)
  then show ?thesis using assms(1) set_update_subset_insert [of "procs s" i "f (procs s ! i)"]
    by (auto simp: typed_def upd_proc_def)
next
  case False
  then show ?thesis using assms(1) by (simp add: typed_def upd_proc_def list_update_beyond)
qed

lemma proc_ok_fields [simp]:
  "proc_ok (p\<lparr>p_state := a1\<rparr>) = proc_ok p" "proc_ok (p\<lparr>p_ret := a2\<rparr>) = proc_ok p" "proc_ok (p\<lparr>p_pid := a3\<rparr>) = proc_ok p"
  "proc_ok (p\<lparr>p_size := a4\<rparr>) = proc_ok p" "proc_ok (p\<lparr>p_chan := a5\<rparr>) = proc_ok p" "proc_ok (p\<lparr>p_ctx := a6\<rparr>) = proc_ok p"
  "proc_ok (p\<lparr>p_tf := a7\<rparr>) = proc_ok p" "proc_ok (p\<lparr>p_kstack := a8\<rparr>) = proc_ok p" "proc_ok (p\<lparr>p_pgt := a9\<rparr>) = proc_ok p"
  "proc_ok (p\<lparr>p_name := b1\<rparr>) = proc_ok p" "proc_ok (p\<lparr>p_th := b2\<rparr>) = proc_ok p" "proc_ok (p\<lparr>p_fault := b3\<rparr>) = proc_ok p"
  "proc_ok (p\<lparr>p_sig := b4\<rparr>) = proc_ok p"
  by (simp_all add: proc_ok_def)

lemma proc_ok_zero [simp]: "proc_ok zero_proc"
  by (simp add: proc_ok_def zero_proc_def)

section \<open>Locks and memory\<close>

lemma acquire_typ [wt]: "typed s \<Longrightarrow> ok typed (acquire L s)"
  by (simp add: acquire_def pushcli_def set_lock_def Let_def)

lemma popcli_typ: "typed s \<Longrightarrow> ok typed (popcli s)"
  by (simp add: popcli_def Let_def)

lemma release_typ [wt]: "typed s \<Longrightarrow> ok typed (release L s)"
  unfolding release_def by (simp add: popcli_typ set_lock_def)

lemma kalloc_typ [wt]: "typed s \<Longrightarrow> ok typed2 (kalloc s)"
  unfolding kalloc_def by (auto simp: Let_def intro!: wt wt [THEN ok_bnd])

lemma kfree_typ [wt]: "typed s \<Longrightarrow> ok typed (kfree p s)"
  unfolding kfree_def by (auto simp: Let_def intro!: wt wt [THEN ok_bnd])

section \<open>Page tables and user spaces\<close>

lemma walk_level_wt [wt]: "typed s \<Longrightarrow> ok typed2 (walk_level l va pgt s)"
  unfolding walk_level_def by (auto simp: Let_def intro!: wt wt [THEN ok_bnd])

lemma pagewalk_wt [wt]: "typed s \<Longrightarrow> ok typed2 (pagewalk pgt va s)"
  unfolding pagewalk_def by (auto intro!: wt wt [THEN ok_bnd] split: option.split)

lemma uva2pa_wt [wt]: "typed s \<Longrightarrow> ok typed2 (uva2pa pgt va s)"
  unfolding uva2pa_def by (auto intro!: wt wt [THEN ok_bnd])

lemma uva2ka_wt [wt]: "typed s \<Longrightarrow> ok typed2 (uva2ka pgt va s)"
  unfolding uva2ka_def by (auto intro!: wt wt [THEN ok_bnd])

lemma map_pages_wt [wt]: "typed s \<Longrightarrow> ok typed (map_pages n pgt va pa attr s)"
  by (induction n arbitrary: va pa s) (auto intro!: wt wt [THEN ok_bnd])

lemma pagemap_wt [wt]: "typed s \<Longrightarrow> ok typed (pagemap pgt va pa sz attr s)"
  by (simp add: pagemap_def wt)

lemma unmap_pages_wt [wt]: "typed s \<Longrightarrow> ok typed (unmap_pages n pgt va s)"
  by (induction n arbitrary: va s) (auto intro!: wt wt [THEN ok_bnd])

lemma pageunmap_wt [wt]: "typed s \<Longrightarrow> ok typed (pageunmap pgt va sz s)"
  by (simp add: pageunmap_def wt)

lemma alloc_pages_wt [wt]: "typed s \<Longrightarrow> ok typed2 (alloc_pages n pgt va attr s)"
  by (induction n arbitrary: va s) (auto intro!: wt wt [THEN ok_bnd])

lemma alloc_userspace_wt [wt]: "typed s \<Longrightarrow> ok typed2 (alloc_userspace pgt va sz s)"
  unfolding alloc_userspace_def by (auto intro!: wt wt [THEN ok_bnd])

lemma grow_userspace_wt [wt]: "typed s \<Longrightarrow> ok typed2 (grow_userspace pgt va old new s)"
  unfolding grow_userspace_def by (auto simp: Let_def intro!: wt wt [THEN ok_bnd])

lemma map_ustack_wt [wt]: "typed s \<Longrightarrow> ok typed2 (map_ustack pgt s)"
  unfolding map_ustack_def by (auto intro!: wt wt [THEN ok_bnd])

lemma cp_page_wt [wt]: "typed s \<Longrightarrow> ok typed2 (cp_page new old va attr s)"
  unfolding cp_page_def by (auto simp: Let_def intro!: wt wt [THEN ok_bnd])

lemma cp_pages_wt [wt]: "typed s \<Longrightarrow> ok typed2 (cp_pages n new old va s)"
  by (induction n arbitrary: va s) (auto intro!: wt wt [THEN ok_bnd])

lemma cp_userspace_wt [wt]: "typed s \<Longrightarrow> ok typed2 (cp_userspace new old va sz s)"
  unfolding cp_userspace_def by (auto intro!: wt wt [THEN ok_bnd])

lemma free_entries_wt:
  fixes s :: "'a kfile_scheme"
  assumes "\<And>pgt (s :: 'a kfile_scheme). typed s \<Longrightarrow> ok typed (free_table d pgt s)"
  shows "typed s \<Longrightarrow> ok typed (free_entries d pgt n s)"
  by (induction n arbitrary: s) (auto simp: Let_def intro!: assms [THEN ok_bnd])

lemma free_table_wt [wt]: "typed s \<Longrightarrow> ok typed (free_table d pgt s)"
  by (induction d arbitrary: pgt s) (auto intro!: free_entries_wt [THEN ok_bnd] wt)

lemma free_userspace_wt [wt]: "typed s \<Longrightarrow> ok typed (free_userspace pgt sz s)"
  unfolding free_userspace_def by (auto intro!: wt wt [THEN ok_bnd])

section \<open>Processes\<close>

lemma newpid_wt [wt]: "typed s \<Longrightarrow> ok typed2 (newpid s)"
  unfolding newpid_def by (auto simp: Let_def intro!: wt wt [THEN ok_bnd])

lemma pget_wt [wt]: "typed s \<Longrightarrow> ok typed2 (pget pid s)"
  unfolding pget_def by (auto simp: Let_def intro!: wt wt [THEN ok_bnd])

lemma newproc_wt [wt]: "typed s \<Longrightarrow> ok typed2 (newproc s)"
  unfolding newproc_def by (auto simp: Let_def intro!: wt wt [THEN ok_bnd] typed_upd_proc split: option.split)

lemma freeproc_wt [wt]: "typed s \<Longrightarrow> ok typed (freeproc i s)"
  unfolding freeproc_def by (auto intro!: wt wt [THEN ok_bnd] typed_upd_proc)

lemma myproc_wt [wt]: "typed s \<Longrightarrow> ok (\<lambda>i. i < NPROC) (myproc s)"
  unfolding myproc_def by (auto simp: typed_def split: option.split)

lemma getpid_any [simp]: "ok (\<lambda>_. True) m"
  by (simp add: ok_def)

lemma typed_map_procs: "typed s \<Longrightarrow> (\<And>p. proc_ok p \<Longrightarrow> proc_ok (f p)) \<Longrightarrow> typed (s\<lparr>procs := map f (procs s)\<rparr>)"
  by (auto simp: typed_def)

lemma wakeup_acquired_wt [intro!]: "typed s \<Longrightarrow> typed (wakeup_acquired ch s)"
  unfolding wakeup_acquired_def by (auto intro!: typed_map_procs)

lemma wakeup_wt [wt]: "typed s \<Longrightarrow> ok typed (wakeup ch s)"
  unfolding wakeup_def by (auto intro!: wt wt [THEN ok_bnd])

lemma sleep_enter_wt [wt]: "typed s \<Longrightarrow> ok typed (sleep_enter ch lk s)"
  unfolding sleep_enter_def by (auto simp: bnd_assoc intro!: wt wt [THEN ok_bnd] typed_upd_proc)

lemma sigcheck_wt: "typed s \<Longrightarrow> sigcheck i s = (k, t) \<Longrightarrow> typed t"
  unfolding sigcheck_def by (auto intro!: typed_upd_proc split: if_splits)

lemma sleep_exit_wt [wt]: "typed s \<Longrightarrow> ok typed2 (sleep_exit i lk s)"
  unfolding sleep_exit_def by (auto simp: bnd_assoc sigcheck_def intro!: wt wt [THEN ok_bnd] typed_upd_proc)

lemma load_userspace_wt [wt]: "typed s \<Longrightarrow> ok typed (load_userspace pgt s)"
  by (simp add: load_userspace_def)

lemma dispatch_wt [wt]: "typed s \<Longrightarrow> i < NPROC \<Longrightarrow> ok typed (dispatch i s)"
  unfolding dispatch_def by (auto intro!: wt typed_upd_proc typed_cur)

lemma switch_back_wt [intro!]: "typed s \<Longrightarrow> typed (switch_back s)"
  by (simp add: switch_back_def forget_userspace_def typed_def)

lemma schedule_wt [wt]:
  "typed s \<Longrightarrow> ok typed (schedule_enter s)" "typed s \<Longrightarrow> ok typed (schedule_leave s)"
  by (simp_all add: schedule_enter_def schedule_leave_def wt)

lemma yield_wt [wt]: "typed s \<Longrightarrow> ok typed (yield_enter s)" "typed s \<Longrightarrow> ok typed (yield_exit s)"
  unfolding yield_enter_def yield_exit_def by (auto intro!: wt wt [THEN ok_bnd] typed_upd_proc)

lemma killproc_wt [wt]: "typed s \<Longrightarrow> ok typed2 (killproc p sig s)"
  unfolding killproc_def by (auto simp: Let_def intro!: wt wt [THEN ok_bnd] typed_upd_proc split: option.split)

lemma kill_wt [wt]: "typed s \<Longrightarrow> ok typed2 (kill pid sig s)"
  unfolding kill_def by (auto intro!: wt wt [THEN ok_bnd])

lemma reparent_wt [intro!]: "typed s \<Longrightarrow> typed (reparent i s)"
proof -
  assume s: "typed s"
  have "proc_ok (p\<lparr>p_parent := initproc s\<rparr>)" if "proc_ok p" for p
    using that s by (auto simp: proc_ok_def typed_def)
  then show "typed (reparent i s)" unfolding reparent_def using s by (intro typed_map_procs) auto
qed

lemma sbrk_wt [wt]: "typed s \<Longrightarrow> ok typed2 (sbrk incr s)"
  unfolding sbrk_def by (auto simp: Let_def intro!: wt wt [THEN ok_bnd] typed_upd_proc)

lemma copyout_wt [intro!]: "typed s \<Longrightarrow> typed (snd (copyout mmu i d src bs s))"
  unfolding copyout_def by (auto simp: Let_def split_beta intro!: typed_upd_proc)

lemma wait_round_wt [wt]: "typed s \<Longrightarrow> ok typed2 (wait_round mmu addr sel status s)"
  unfolding wait_round_def
  by (auto simp: Let_def split_beta intro!: wt wt [THEN ok_bnd] split: option.split)

lemma exit_table_wt [wt]: "typed s \<Longrightarrow> ok typed (exit_table i ret s)"
  unfolding exit_table_def by (auto simp: Let_def intro!: wt wt [THEN ok_bnd] typed_upd_proc)

section \<open>Disk and cache\<close>

lemma alloc_desc_wt [wt]: "typed s \<Longrightarrow> ok typed2 (alloc_desc s)"
  by (simp add: alloc_desc_def Let_def)

lemma free_desc_wt [wt]: "typed s \<Longrightarrow> ok typed (free_desc n s)"
  by (simp add: free_desc_def Let_def split: option.split)

lemma upd_desc_wt [simp]: "typed (upd_desc d f s) = typed s" "typed (upd_info d g s) = typed s"
  by (simp_all add: upd_desc_def upd_info_def)

lemma blk_submit_wt [wt]: "typed s \<Longrightarrow> ok typed2 (blk_submit bno b op s)"
  unfolding blk_submit_def by (auto simp: Let_def intro!: wt wt [THEN ok_bnd])

lemma blk_finish_wt [wt]: "typed s \<Longrightarrow> ok typed (blk_finish d s)"
  unfolding blk_finish_def by (auto intro!: wt wt [THEN ok_bnd])

lemma intr_loop_wt [wt]: "typed s \<Longrightarrow> ok typed (intr_loop n s)"
  by (induction n arbitrary: s) (auto simp: Let_def intro!: wt wt [THEN ok_bnd])

lemma virtio_blk_intr_wt [wt]: "typed s \<Longrightarrow> ok typed (virtio_blk_intr s)"
  unfolding virtio_blk_intr_def by (auto intro!: wt wt [THEN ok_bnd])

lemma serve_wt [intro!]: "typed s \<Longrightarrow> typed (serve s)"
  by (simp add: serve_def Let_def split_beta split: dptr.split)

lemma sleep_turn_wt [wt]: "typed s \<Longrightarrow> ok typed (sleep_turn b s)"
  unfolding sleep_turn_def by (auto intro!: wt wt [THEN ok_bnd])

lemma virtio_blk_op_wt [wt]: "typed s \<Longrightarrow> ok typed2 (virtio_blk_op bno b op s)"
  unfolding virtio_blk_op_def by (auto intro!: wt wt [THEN ok_bnd])

lemma upd_buf_wt [simp]: "typed (upd_buf i f s) = typed s"
  by (simp add: upd_buf_def)

lemma get_buf_wt [wt]: "typed s \<Longrightarrow> ok typed2 (get_buf bno s)"
  unfolding get_buf_def by (auto intro!: wt wt [THEN ok_bnd] split: option.split)

lemma bio_read_wt [wt]: "typed s \<Longrightarrow> ok typed2 (bio_read bno s)"
  unfolding bio_read_def by (auto intro!: wt wt [THEN ok_bnd])

lemma bio_write_wt [wt]: "typed s \<Longrightarrow> ok typed (bio_write i s)"
  unfolding bio_write_def by (auto intro!: wt wt [THEN ok_bnd])

lemma bio_free_wt [wt]: "typed s \<Longrightarrow> ok typed (bio_free i s)"
  unfolding bio_free_def by (auto simp: Let_def intro!: wt wt [THEN ok_bnd])

section \<open>Inodes and the file system\<close>

lemma upd_inode_wt [simp]: "typed (upd_inode k f s) = typed s"
  by (simp add: upd_inode_def typed_def)

lemma set_data_wt [simp]: "typed (set_data b d s) = typed s"
  by (simp add: set_data_def)

text \<open>A result that is an inode is one of the table.\<close>

abbreviation inode_res :: "nat option \<times> 'a kfile_scheme \<Rightarrow> bool" where
  "inode_res r \<equiv> (\<forall>k. fst r = Some k \<longrightarrow> k < NINODE) \<and> typed (snd r)"

lemma scan_lt: "scan P (itable s) = Some k \<Longrightarrow> typed s \<Longrightarrow> k < NINODE"
  using scan_SomeD(1) [of P "itable s" k] by (simp add: typed_def)

lemma find_inode_wt [wt]: "typed s \<Longrightarrow> ok inode_res (find_inode inum s)"
  unfolding find_inode_def by (auto intro!: wt wt [THEN ok_bnd] split: option.split) (use scan_lt in blast)+

lemma ext2_init_wt [wt]: "typed s \<Longrightarrow> ok typed (ext2_init s)"
  unfolding ext2_init_def by (auto simp: Let_def intro!: wt wt [THEN ok_bnd])

lemma ok_pure: "(\<And>x. m = Inr x \<Longrightarrow> ok P (f x)) \<Longrightarrow> ok P (bnd m f)"
  by (cases m) simp_all

lemma ext2_alloc_block_wt [wt]: "typed s \<Longrightarrow> ok typed2 (ext2_alloc_block s)"
  unfolding ext2_alloc_block_def
  by (auto simp: bnd_assoc intro!: wt wt [THEN ok_bnd] ok_pure [of "find_free_block _ _"] ok_pure [of "write_bit _ _ _ _"] split: option.split)

lemma ext2_alloc_inum_wt [wt]: "typed s \<Longrightarrow> ok typed2 (ext2_alloc_inum s)"
  unfolding ext2_alloc_inum_def
  by (auto simp: bnd_assoc intro!: wt wt [THEN ok_bnd] ok_pure [of "find_free_ino _ _"] ok_pure [of "write_bit _ _ _ _"] split: option.split)

lemma ext2_alloc_inode_wt [wt]: "typed s \<Longrightarrow> ok inode_res (ext2_alloc_inode s)"
  unfolding ext2_alloc_inode_def by (auto intro!: wt wt [THEN ok_bnd] split: option.split)

lemma ext2_raw_inode_wt [wt]: "typed s \<Longrightarrow> ok typed2 (ext2_raw_inode inum s)"
  unfolding ext2_raw_inode_def by (auto simp: split_beta intro!: wt wt [THEN ok_bnd])

lemma inode_sync_wt [wt]: "typed s \<Longrightarrow> ok typed (inode_sync k s)"
  unfolding inode_sync_def by (auto intro!: wt wt [THEN ok_bnd])

lemma ext2_get_inode_wt [wt]: "typed s \<Longrightarrow> ok inode_res (ext2_get_inode inum s)"
  unfolding ext2_get_inode_def by (auto intro!: wt wt [THEN ok_bnd] split: option.split)

lemma read_indirect_block_wt [wt]: "typed s \<Longrightarrow> ok typed2 (read_indirect_block m b s)"
  unfolding read_indirect_block_def by (auto simp: Let_def intro!: wt)

lemma ext2_inode_block_wt [wt]: "typed s \<Longrightarrow> ok typed2 (ext2_inode_block k b s)"
  unfolding ext2_inode_block_def by (auto intro!: wt wt [THEN ok_bnd])

lemma grow_blocks_wt [wt]: "typed s \<Longrightarrow> ok typed (grow_blocks k j n s)"
  by (induction n arbitrary: j s) (auto intro!: wt wt [THEN ok_bnd])

lemma ext2_grow_inode_block_wt [wt]: "typed s \<Longrightarrow> ok typed2 (ext2_grow_inode_block k n s)"
  unfolding ext2_grow_inode_block_def by (auto intro!: wt wt [THEN ok_bnd] split: option.split)

lemma ext2_append_inode_block_wt [wt]: "typed s \<Longrightarrow> ok typed2 (ext2_append_inode_block k b s)"
  unfolding ext2_append_inode_block_def by (auto intro!: wt wt [THEN ok_bnd] split: option.split)

lemma search_blocks_wt [wt]: "typed s \<Longrightarrow> ok typed2 (search_blocks k name i n s)"
  by (induction n arbitrary: i s)
    (auto intro!: wt wt [THEN ok_bnd] ok_pure [of "search_dirent_block _ _ _"] split: option.split)

lemma ext2_search_dir_wt [wt]: "typed s \<Longrightarrow> ok typed2 (ext2_search_dir k name s)"
  by (simp add: ext2_search_dir_def wt)

lemma find_room_wt [wt]: "typed s \<Longrightarrow> ok typed2 (find_room k de i n s)"
  by (induction n arbitrary: i s)
    (auto intro!: wt wt [THEN ok_bnd] ok_pure [of "last_entry _ _ _ _"] ok_pure [of "entry_fits _ _ _ _"] split: sum.split)

lemma ext2_dirlink_wt [wt]: "typed s \<Longrightarrow> ok typed2 (ext2_dirlink k de s)"
  unfolding ext2_dirlink_def
  by (auto simp: bnd_assoc Let_def intro!: wt wt [THEN ok_bnd] ok_pure [of "put_entry _ _ _ _"] ok_pure [of "append_entry _ _ _ _"]
      split: sum.split option.split)

lemma link_name_wt [wt]: "typed s \<Longrightarrow> ok typed2 (link_name k inum name ft s)"
  unfolding link_name_def by (auto intro!: wt wt [THEN ok_bnd] ok_pure [of "make_dirent _ _ _ _"])

lemma ext2_new_inode_wt [wt]: "typed s \<Longrightarrow> ok inode_res (ext2_new_inode name dir mode dv s)"
  unfolding ext2_new_inode_def
  by (auto simp: bnd_assoc Let_def intro!: wt wt [THEN ok_bnd] ok_pure [of "imode2dtype _"] split: option.split)

abbreviation walk_res :: "(nat option \<times> 'n) \<times> 'a kfile_scheme \<Rightarrow> bool" where
  "walk_res r \<equiv> (\<forall>k. fst (fst r) = Some k \<longrightarrow> k < NINODE) \<and> typed (snd r)"

lemma traverse_wt [wt]: "typed s \<Longrightarrow> (\<forall>k. pi = Some k \<longrightarrow> k < NINODE) \<Longrightarrow> ok walk_res (traverse parent pi path s)"
proof (induction "length path" arbitrary: parent pi path s rule: less_induct)
  case less
  show ?case
    unfolding traverse.simps [of parent pi path s]
  proof (split sum.split, intro conjI allI impI)
    fix r assume "skippath path = Inr r"
    obtain rest name where r: "r = (rest, name)" by fastforce
    have short: "length rest < length path" if "\<not> (rest = [] \<and> name = [])"
      using skippath_shorter [of path rest name] \<open>skippath path = Inr r\<close> that by (simp add: r)
    show "ok walk_res (case r of (rest, name) \<Rightarrow>
        if rest = [] \<and> (parent \<or> name = []) then Inr ((pi, name), s)
        else case pi of None \<Rightarrow> Inl Fault
          | Some k \<Rightarrow> if \<not> S_ISDIR (i_mode (itable s ! k)) then Inr ((pi, name), s)
              else bnd (ext2_search_dir k name s) (\<lambda>(r, s).
                case r of None \<Rightarrow> Inr ((None, name), s)
                | Some inum \<Rightarrow> bnd (ext2_get_inode inum s) (\<lambda>(r, s). traverse parent r rest s)))"
      using less.prems short unfolding r
      by (auto intro!: less.hyps wt wt [THEN ok_bnd] split: option.split)
  qed simp
qed

lemma typed_cwd: "typed s \<Longrightarrow> i < NPROC \<Longrightarrow> p_cwd (procs s ! i) = Some k \<Longrightarrow> k < NINODE"
  using nth_mem [of i "procs s"] by (auto simp: typed_def proc_ok_def)

lemma path_start_wt [wt]: "typed s \<Longrightarrow> ok inode_res (path_start path s)"
  unfolding path_start_def by (auto intro!: wt wt [THEN ok_bnd]) (use typed_cwd in blast)+

lemma path2inode_wt [wt]: "typed s \<Longrightarrow> ok inode_res (path2inode path s)"
  unfolding path2inode_def ext2_path2inode_def by (auto intro!: wt wt [THEN ok_bnd])

lemma path2inode_parent_wt [wt]: "typed s \<Longrightarrow> ok walk_res (ext2_path2inode_parent path s)"
  unfolding ext2_path2inode_parent_def by (auto intro!: wt wt [THEN ok_bnd])

lemma fs_make_wt [wt]:
  "typed s \<Longrightarrow> ok inode_res (fs_mknod path mode dv s)" "typed s \<Longrightarrow> ok inode_res (fs_mkdir path s)"
  unfolding fs_mknod_def fs_mkdir_def ext2_mknod_def ext2_mkdir_def
  by (auto intro!: wt wt [THEN ok_bnd] split: option.split)

text \<open>What a caller's buffer must do.\<close>

definition put_wt :: "(nat \<Rightarrow> u8 list \<Rightarrow> 'a kfile_scheme \<Rightarrow> 'a kfile_scheme res) \<Rightarrow> bool" where
  "put_wt put \<longleftrightarrow> (\<forall>off bs s. typed s \<longrightarrow> ok typed (put off bs s))"

lemma put_mem_wt [wt]: "typed s \<Longrightarrow> ok typed (put_mem mmu a off bs s)"
  by (simp add: put_mem_def Let_def split_beta)

lemma put_wt_intros [simp, intro!]: "put_wt (put_mem mmu a)" "put_wt put_local"
  by (simp_all add: put_wt_def wt put_local_def)

lemma read_loop_wt [wt]: "put_wt put \<Longrightarrow> typed s \<Longrightarrow> ok typed2 (read_loop put k i n sz bo acc s)"
proof (induction n arbitrary: i sz bo acc s)
  case (Suc n)
  have "typed t \<Longrightarrow> ok typed (put off bs t)" for t off bs using Suc.prems(1) by (simp add: put_wt_def)
  then show ?case using Suc by (auto simp: Let_def intro!: wt wt [THEN ok_bnd] ok_bnd [of typed "put _ _ _"])
qed simp

lemma read_inode_wt [wt]: "put_wt put \<Longrightarrow> typed s \<Longrightarrow> ok (\<lambda>(_, _, s). typed s) (read_inode put k off sz s)"
  unfolding read_inode_def ext2_read_inode_def by (auto simp: Let_def intro!: wt wt [THEN ok_bnd])

lemma write_loop_wt [wt]: "typed s \<Longrightarrow> ok typed (write_loop src k i n sz bo pos s)"
  by (induction n arbitrary: i sz bo pos s) (auto simp: Let_def intro!: wt wt [THEN ok_bnd] ok_pure [of "src _ _ _"])

lemma write_inode_wt [wt]: "typed s \<Longrightarrow> ok typed2 (write_inode src k off sz s)"
  unfolding write_inode_def ext2_w_inode_def by (auto simp: bnd_assoc Let_def intro!: wt wt [THEN ok_bnd])

section \<open>Open files\<close>

definition file_ok :: "file_t \<Rightarrow> bool" where
  "file_ok f \<longleftrightarrow> (\<forall>k. f_ino f = Some k \<longrightarrow> k < NINODE)"

lemma file_ok_fields [simp]:
  "file_ok (f\<lparr>f_ref := a1\<rparr>) = file_ok f" "file_ok (f\<lparr>f_off := a2\<rparr>) = file_ok f" "file_ok (set_access fl f) = file_ok f"
  "file_ok (f\<lparr>f_ino := Some k\<rparr>) \<longleftrightarrow> k < NINODE" "file_ok zero_file"
  by (simp_all add: file_ok_def set_access_def zero_file_def Let_def)

lemma typed_upd_file:
  assumes "typed s" "\<And>f. file_ok f \<Longrightarrow> file_ok (g f)"
  shows "typed (upd_file i g s)"
proof (cases "i < length (ftable s)")
  case True
  then have "file_ok (ftable s ! i)" using assms(1) nth_mem [of i "ftable s"] unfolding typed_def file_ok_def by blast
  then have "file_ok (g (ftable s ! i))" by (rule assms(2))
  then show ?thesis using assms(1) set_update_subset_insert [of "ftable s" i "g (ftable s ! i)"]
    by (auto simp: typed_def file_ok_def upd_file_def)
next
  case False
  then show ?thesis using assms(1) by (simp add: typed_def upd_file_def list_update_beyond)
qed

lemma typed_set_ofile:
  assumes "typed s" "\<And>k. f = Some k \<Longrightarrow> k < NFILE"
  shows "typed (set_ofile i fd f s)"
proof -
  have "proc_ok (p\<lparr>p_ofile := (p_ofile p)[fd := f]\<rparr>)" if "proc_ok p" for p
    using that assms(2) set_update_subset_insert [of "p_ofile p" fd f] by (fastforce simp: proc_ok_def)
  then show ?thesis unfolding set_ofile_def using assms(1) by (intro typed_upd_proc)
qed

lemma typed_ofile: "typed s \<Longrightarrow> i < NPROC \<Longrightarrow> fd < NOFILE \<Longrightarrow> p_ofile (procs s ! i) ! fd = Some f \<Longrightarrow> f < NFILE"
  using nth_mem [of i "procs s"] nth_mem [of fd "p_ofile (procs s ! i)"] by (auto simp: typed_def proc_ok_def)

lemma fget_wt: "typed s \<Longrightarrow> i < NPROC \<Longrightarrow> fget i fd s = Some f \<Longrightarrow> f < NFILE"
  using typed_ofile [of s i "unat fd" f] by (auto simp: fget_def not_le split: if_splits)

lemma alloc_file_wt [wt]: "typed s \<Longrightarrow> ok (\<lambda>(r, s). (\<forall>k. r = Some k \<longrightarrow> k < NFILE) \<and> typed s) (alloc_file s)"
proof -
  have "k < NFILE" if "scan P (ftable t) = Some k" "typed t" for P k and t :: "'a kfile_scheme"
    using scan_SomeD(1) [OF that(1)] that(2) by (simp add: typed_def)
  note * = this
  assume "typed s"
  then show ?thesis
    unfolding alloc_file_def by (auto intro!: wt wt [THEN ok_bnd] typed_upd_file split: option.split) (use * in blast)
qed

lemma dup_file_wt [wt]: "typed s \<Longrightarrow> ok typed (dup_file f s)"
  unfolding dup_file_def by (auto intro!: wt wt [THEN ok_bnd] typed_upd_file)

text \<open>What a table of devices must do.\<close>

definition cdevs_wt :: "'a kfile_scheme cdevs \<Rightarrow> bool" where
  "cdevs_wt sw \<longleftrightarrow> length sw = NCDEV \<and> (\<forall>c f buf n s. Some c \<in> set sw \<longrightarrow> typed s \<longrightarrow>
     ok typed2 (cd_read c f buf n s) \<and> ok typed2 (cd_write c f buf n s))"

lemma cdev_of_wt:
  "cdevs_wt sw \<Longrightarrow> ok (\<lambda>c. \<forall>f buf n s. typed s \<longrightarrow> ok typed2 (cd_read c f buf n s) \<and> ok typed2 (cd_write c f buf n s)) (cdev_of sw m)"
proof (cases "NCDEV \<le> unat m \<or> sw ! unat m = None")
  case False
  assume sw: "cdevs_wt sw"
  then obtain c where c: "sw ! unat m = Some c" "unat m < length sw" using False by (auto simp: cdevs_wt_def)
  then have "Some c \<in> set sw" using nth_mem [of "unat m" sw] by simp
  then show ?thesis using sw c False by (simp add: cdev_of_def cdevs_wt_def)
qed (auto simp: cdev_of_def)

lemma read_file_wt [wt]: "cdevs_wt sw \<Longrightarrow> typed s \<Longrightarrow> ok typed2 (read_file sw mmu f buf sz s)"
  unfolding read_file_def
  by (auto simp: Let_def intro!: wt wt [THEN ok_bnd] ok_bnd [OF cdev_of_wt] typed_upd_file split: option.split)

lemma write_file_wt [wt]: "cdevs_wt sw \<Longrightarrow> typed s \<Longrightarrow> ok typed2 (write_file sw mmu f buf sz s)"
  unfolding write_file_def
  by (auto simp: Let_def intro!: wt wt [THEN ok_bnd] ok_bnd [OF cdev_of_wt] typed_upd_file split: option.split)

lemma fd_io_wt [wt]:
  "cdevs_wt sw \<Longrightarrow> typed s \<Longrightarrow> ok typed2 (fd_read sw mmu fd buf sz s)"
  "cdevs_wt sw \<Longrightarrow> typed s \<Longrightarrow> ok typed2 (fd_write sw mmu fd buf sz s)"
  unfolding fd_read_def fd_write_def by (auto intro!: wt wt [THEN ok_bnd] split: option.split)

lemma fstat_wt [wt]: "typed s \<Longrightarrow> ok typed2 (fstat mmu st1 pad fd st s)"
  unfolding fstat_def by (auto intro!: wt [THEN ok_bnd] split: option.split)

lemma open_file_wt [wt]: "typed s \<Longrightarrow> ok typed2 (open_file path flags s)"
  unfolding open_file_def
  by (auto simp: Let_def intro!: wt wt [THEN ok_bnd] typed_upd_file typed_set_ofile split: option.split)

lemma close_wt [wt]: "typed s \<Longrightarrow> ok typed2 (close fd s)"
  unfolding close_def
  by (auto simp: Let_def intro!: wt wt [THEN ok_bnd] typed_upd_file typed_set_ofile split: option.split)

lemma make_wt [wt]: "typed s \<Longrightarrow> ok typed2 (mknod path mode dv s)" "typed s \<Longrightarrow> ok typed2 (mkdir path s)"
  unfolding mknod_def mkdir_def by (auto intro!: wt wt [THEN ok_bnd] split: option.split)

lemma dup_wt [wt]: "typed s \<Longrightarrow> ok typed2 (dup fd s)"
  unfolding dup_def
  by (auto intro!: wt wt [THEN ok_bnd] typed_set_ofile split: option.split) (use fget_wt in blast)

section \<open>The console\<close>

lemma csputc_wt [simp]: "typed (csputc c s) = typed s" "typed (csputs cs s) = typed s"
proof -
  show c: "typed (csputc c s) = typed s" for c and s :: "'a kcons_scheme" by (simp add: csputc_def uart_putc_def)
  show "typed (csputs cs s) = typed s"
    by (induction cs arbitrary: s) (simp_all add: csputs_def c)
qed

lemma vprintk_wt [wt]: "typed s \<Longrightarrow> ok typed (vprintk fmt as s)"
  unfolding vprintk_def by (auto intro!: wt wt [THEN ok_bnd] ok_pure [of "vformat _ _"])

definition keeps_typed :: "('a kfile_scheme \<Rightarrow> 'a kfile_scheme res) \<Rightarrow> bool" where
  "keeps_typed w \<longleftrightarrow> (\<forall>s. typed s \<longrightarrow> ok typed (w s))"

lemma keeps_typedD: "keeps_typed w \<Longrightarrow> typed s \<Longrightarrow> ok typed (w s)"
  by (simp add: keeps_typed_def)

lemma csread_enter_wt [wt]: "typed s \<Longrightarrow> ok typed (csread_enter buf n s)"
  unfolding csread_enter_def by (auto intro!: wt wt [THEN ok_bnd])

lemma csread_exit_wt [wt]: "typed s \<Longrightarrow> ok typed2 (csread_exit me s)"
  unfolding csread_exit_def by (auto simp: Let_def intro!: wt wt [THEN ok_bnd])

lemma csread_wt [wt]: "keeps_typed w \<Longrightarrow> typed s \<Longrightarrow> ok typed2 (csread w buf n s)"
  unfolding csread_def by (auto intro!: wt wt [THEN ok_bnd] ok_bnd [OF keeps_typedD, of w])

lemma uart_putc_wt [simp]: "typed (fold uart_putc cs s) = typed s"
  by (induction cs arbitrary: s) (simp_all add: uart_putc_def)

text \<open>The device table that \<open>console_init\<close> makes.\<close>

lemma cdevs_console_wt:
  assumes "keeps_typed w"
  shows "cdevs_wt ((replicate NCDEV None)[CDEV_CONSOLE := Some (cons_devsw mmu w)])"
proof -
  have c: "c = cons_devsw mmu w" if "Some c \<in> set ((replicate NCDEV None)[CDEV_CONSOLE := Some (cons_devsw mmu w)])" for c
    using that set_update_subset_insert [of "replicate NCDEV None" CDEV_CONSOLE "Some (cons_devsw mmu w)"] by auto
  have io: "ok typed2 (cd_read (cons_devsw mmu w) f buf n s) \<and> ok typed2 (cd_write (cons_devsw mmu w) f buf n s)"
    if "typed s" for f buf n s
    using that assms by (auto simp: cons_devsw_def console_read_def console_write_def cswrite_def intro!: wt ok_pure)
  show ?thesis
    unfolding cdevs_wt_def by (intro conjI allI impI) (simp, (drule c, use io in blast)+)
qed

section \<open>fork, exit, exec\<close>

lemma dup_fds_wt [wt]: "typed s \<Longrightarrow> p < NPROC \<Longrightarrow> set fds \<subseteq> {..<NOFILE} \<Longrightarrow> ok typed (dup_fds p new fds s)"
proof (induction fds arbitrary: s)
  case (Cons fd fds)
  show ?case
  proof (cases "p_ofile (procs s ! p) ! fd")
    case (Some f)
    have "f < NFILE" using typed_ofile [of s p fd f] Cons.prems Some by simp
    then show ?thesis using Cons.prems Some by (auto intro!: Cons.IH wt wt [THEN ok_bnd] typed_set_ofile)
  qed (use Cons in simp)
qed simp

lemma proc_at: "typed s \<Longrightarrow> i < NPROC \<Longrightarrow> proc_ok (procs s ! i)"
  by (simp add: typed_def)

lemma adopt_wt [wt]:
  assumes s: "typed s" and p: "p < NPROC"
  shows "ok typed2 (adopt p new th s)"
proof -
  have "typed (upd_proc new (\<lambda>q. q\<lparr>p_cwd := p_cwd (procs s ! p)\<rparr>) s)"
    using proc_at [OF s p] s by (intro typed_upd_proc) (auto simp: proc_ok_def)
  then show ?thesis
    unfolding adopt_def using p
    by (auto intro!: wt wt [THEN ok_bnd] ok_pure [of "name_copy _ _"] typed_upd_proc simp: proc_ok_def)
qed

lemma fork_wt [wt]: "typed s \<Longrightarrow> ok typed2 (fork s)"
  unfolding fork_def
  by (auto simp: bnd_assoc Let_def tf_copy_def tf_set_def intro!: wt wt [THEN ok_bnd] typed_upd_proc split: option.split)

lemma clone_wt [wt]: "typed s \<Longrightarrow> ok typed2 (clone fn stack s)"
  unfolding clone_def
  by (auto simp: Let_def tf_copy_def tf_set_def intro!: wt wt [THEN ok_bnd] typed_upd_proc split: option.split)

lemma close_all_wt [wt]: "typed s \<Longrightarrow> ok typed (close_all fds s)"
  by (induction fds arbitrary: s) (auto intro!: wt wt [THEN ok_bnd])

lemma exitproc_wt [wt]: "typed s \<Longrightarrow> ok typed (exitproc p ret s)"
  unfolding exitproc_def by (auto intro!: wt wt [THEN ok_bnd])

lemma exit_self_wt [wt]: "typed s \<Longrightarrow> ok typed (exit_self ret s)"
  unfolding exit_self_def by (auto intro!: wt wt [THEN ok_bnd])

lemma chdir_wt [wt]: "typed s \<Longrightarrow> ok typed2 (chdir path s)"
  unfolding chdir_def by (auto intro!: wt wt [THEN ok_bnd] typed_upd_proc simp: proc_ok_def split: option.split)

lemma load_pages_wt [wt]: "typed s \<Longrightarrow> ok typed2 (load_pages n pgt va ino so fs p s)"
  by (induction n arbitrary: p s) (auto simp: Let_def intro!: wt wt [THEN ok_bnd])

lemma load_prg_wt [wt]: "typed s \<Longrightarrow> ok typed2 (load_prg pgt va ino so fs s)"
  by (simp add: load_prg_def wt)

lemma exec_load_wt [wt]: "typed s \<Longrightarrow> ok typed2 (exec_load pgt ino i off memsize s)"
  by (induction i arbitrary: off memsize s) (auto simp: Let_def intro!: wt wt [THEN ok_bnd])

lemma push_args_wt [wt]: "typed s \<Longrightarrow> ok typed2 (push_args mmu argv stk n argc sp us s)"
  by (induction n arbitrary: argc sp us s)
    (auto simp: Let_def intro!: wt wt [THEN ok_bnd] ok_pure [of "fetch_ptr _ _ _"] ok_pure [of "fetch_str _ _ _"])

lemma exec_fail_wt [wt]: "typed s \<Longrightarrow> ok typed2 (exec_fail pgt s)"
  unfolding exec_fail_def by (auto intro!: wt wt [THEN ok_bnd])

lemma exec_enter_wt [wt]: "typed s \<Longrightarrow> ok typed2 (exec_enter pgt ms entry stk argc sp us s)"
  unfolding exec_enter_def by (auto simp: Let_def tf_set_def intro!: wt wt [THEN ok_bnd] typed_upd_proc)

lemma exec_wt [wt]: "typed s \<Longrightarrow> ok typed2 (exec mmu path argv s)"
  unfolding exec_def by (auto simp: Let_def intro!: wt wt [THEN ok_bnd] split: option.split)

lemma uname_wt [wt]: "typed s \<Longrightarrow> ok typed2 (uname mmu src uts u s)"
  unfolding uname_def by (auto simp: split_beta intro!: wt wt [THEN ok_bnd])

section \<open>System calls\<close>

lemma int_result_wt: "ok typed2 r \<Longrightarrow> ok typed2 (int_result r)"
  unfolding int_result_def by (auto intro: ok_bnd)

lemma wait_loop_wt:
  fixes s :: "'a kfile_scheme"
  assumes "wait_loop rnd w me s = Some r" "\<forall>s. typed s \<longrightarrow> ok typed2 (rnd s)" "keeps_typed w" "typed s"
  shows "ok typed2 r"
proof -
  have "(\<forall>s. typed s \<longrightarrow> ok typed2 (rnd s)) \<longrightarrow> keeps_typed w \<longrightarrow> typed s \<longrightarrow> ok typed2 r"
  proof (rule wait_loop.raw_induct [of "\<lambda>rnd w me s r. (\<forall>s. typed s \<longrightarrow> ok typed2 (rnd s)) \<longrightarrow> keeps_typed w \<longrightarrow> typed s \<longrightarrow> ok typed2 r",
        OF _ assms(1)], intro impI)
    fix wl rnd w me and s :: "'a kfile_scheme" and r
    assume IH: "\<And>rnd w me s r. wl rnd w me s = Some r \<Longrightarrow>
        (\<forall>s. typed s \<longrightarrow> ok typed2 (rnd s)) \<longrightarrow> keeps_typed w \<longrightarrow> typed s \<longrightarrow> ok typed2 r"
      and h: "\<forall>s. typed s \<longrightarrow> ok typed2 (rnd s)" "keeps_typed w" "typed s"
      and step: "(case rnd s of Inl e \<Rightarrow> Some (Inl e) | Inr (Some r, s) \<Rightarrow> Some (Inr (r, s))
        | Inr (None, s) \<Rightarrow> case bnd (w s) (sleep_exit me ProctableLk) of Inl e \<Rightarrow> Some (Inl e)
          | Inr (killed, s) \<Rightarrow> if killed then Some (Inl Exits) else wl rnd w me s) = Some r"
    have turn: "ok typed2 (bnd (w t) (sleep_exit me ProctableLk))" if "typed t" for t
      using that h(2) by (intro ok_bnd [OF keeps_typedD] wt)
    have rs: "ok typed2 (rnd s)" using h by blast
    show "ok typed2 r"
    proof (cases "rnd s")
      case (Inr y)
      obtain n t where y: "y = (n, t)" by fastforce
      have t: "typed t" using rs Inr y by simp
      show ?thesis
      proof (cases n)
        case None
        then have st: "(case bnd (w t) (sleep_exit me ProctableLk) of Inl e \<Rightarrow> Some (Inl e)
            | Inr (killed, s) \<Rightarrow> if killed then Some (Inl Exits) else wl rnd w me s) = Some r"
          using step Inr y by simp
        show ?thesis
        proof (cases "bnd (w t) (sleep_exit me ProctableLk)")
          case (Inr z)
          obtain killed u where z: "z = (killed, u)" by fastforce
          have "typed u" using turn [OF t] Inr z by simp
          then show ?thesis using st Inr z IH h(1,2) by (cases killed) auto
        qed (use st in auto)
      qed (use step Inr y t in auto)
    qed (use step in auto)
  qed
  then show ?thesis using assms by blast
qed

lemma wait_for_wt [wt]:
  fixes s :: "'a kfile_scheme"
  assumes "\<And>s :: 'a kfile_scheme. typed s \<Longrightarrow> ok typed2 (rnd s)" "keeps_typed w" "typed s"
  shows "ok typed2 (wait_for rnd w s)"
  unfolding wait_for_def
  using assms(3) by (auto intro!: wt [THEN ok_bnd] split: option.split) (use wait_loop_wt assms in blast)

lemma sys_read_write_wt [wt]:
  assumes "cdevs_wt (hw_cdevs h)"
  shows "typed s \<Longrightarrow> ok typed2 (sys_read h tf s)" "typed s \<Longrightarrow> ok typed2 (sys_write h tf s)"
  unfolding sys_read_def sys_write_def
  using assms by (auto intro!: wt int_result_wt ok_pure [of "sysarg _ _ _"])

lemma sys_file_wt [wt]:
  "typed s \<Longrightarrow> ok typed2 (sys_open h tf s)" "typed s \<Longrightarrow> ok typed2 (sys_close tf s)" "typed s \<Longrightarrow> ok typed2 (sys_fstat h tf s)"
  "typed s \<Longrightarrow> ok typed2 (sys_chdir h tf s)" "typed s \<Longrightarrow> ok typed2 (sys_mkdir h tf s)" "typed s \<Longrightarrow> ok typed2 (sys_mknod h tf s)"
  "typed s \<Longrightarrow> ok typed2 (sys_dup tf s)"
  unfolding sys_open_def sys_close_def sys_fstat_def sys_chdir_def sys_mkdir_def sys_mknod_def sys_dup_def
  by (auto intro!: wt int_result_wt ok_pure [of "sysarg _ _ _"] ok_pure [of "path_arg _ _ _ _"])

lemma sys_process_wt [wt]:
  "typed s \<Longrightarrow> ok typed2 (sys_getpid tf s)" "typed s \<Longrightarrow> ok typed2 (sys_exit tf s)" "typed s \<Longrightarrow> ok typed2 (sys_fork tf s)"
  "typed s \<Longrightarrow> ok typed2 (sys_clone tf s)" "typed s \<Longrightarrow> ok typed2 (sys_exec h tf s)" "typed s \<Longrightarrow> ok typed2 (sys_uname h tf s)"
  "typed s \<Longrightarrow> ok typed2 (sys_sbrk tf s)" "typed s \<Longrightarrow> ok typed2 (sys_kill tf s)"
  unfolding sys_getpid_def sys_exit_def sys_fork_def sys_clone_def sys_exec_def sys_uname_def sys_sbrk_def sys_kill_def
  by (auto intro!: wt wt [THEN ok_bnd] int_result_wt ok_pure [of "sysarg _ _ _"] ok_pure [of "path_arg _ _ _ _"] ok_pure [of "getpid _"])

lemma sys_wait_wt [wt]:
  assumes "keeps_typed (hw_world h)"
  shows "typed s \<Longrightarrow> ok typed2 (sys_wait h tf s)" "typed s \<Longrightarrow> ok typed2 (sys_waitpid h tf s)"
  unfolding sys_wait_def sys_waitpid_def wait_child_def wait_pid_def
  using assms by (auto intro!: wt int_result_wt ok_pure [of "sysarg _ _ _"])

lemma syscall_table_wt:
  assumes "keeps_typed (hw_world h)" "cdevs_wt (hw_cdevs h)" "f \<in> set (syscall_table h)" "typed s"
  shows "ok typed2 (f tf s)"
  using assms(3,4) wt(1) assms(1,2) unfolding syscall_table_def by (auto intro!: wt)

lemma syscall_wt [wt]:
  assumes "keeps_typed (hw_world h)" "cdevs_wt (hw_cdevs h)" "typed s"
  shows "ok typed2 (syscall h tf s)"
proof -
  have "ok typed2 ((syscall_table h ! unat (tf_get tf 6 s)) tf s)" if "unat (tf_get tf 6 s) < NSYSCALL"
    using that assms by (intro syscall_table_wt [OF assms(1,2)] nth_mem) (simp_all add: syscall_table_def)
  then show ?thesis
    unfolding syscall_def using assms(3)
    by (auto simp: Let_def tf_set_def intro!: ok_bnd [of typed2 "(syscall_table h ! _) _ _"] wt [THEN ok_bnd] split: option.split)
qed

section \<open>Faults and interrupts\<close>

lemma fault_die_wt [wt]: "typed s \<Longrightarrow> ok typed (fault_die p why s)"
  unfolding fault_die_def by (auto intro!: wt wt [THEN ok_bnd])

lemma handle_data_abort_wt [wt]: "typed s \<Longrightarrow> ok typed (handle_data_abort f tf user s)"
  unfolding handle_data_abort_def by (auto simp: tf_set_def intro!: wt wt [THEN ok_bnd] split: option.split)

lemma sigcheck_exit_wt [wt]: "typed s \<Longrightarrow> ok typed2 (sigcheck_exit p s)"
  unfolding sigcheck_exit_def sigcheck_def by (auto intro!: wt wt [THEN ok_bnd] typed_upd_proc)

lemma usync_handler_wt [wt]:
  assumes "keeps_typed (hw_world h)" "cdevs_wt (hw_cdevs h)" "typed s"
  shows "ok typed2 (usync_handler h f tf s)"
  using assms unfolding usync_handler_def handle_inst_abort_def
  by (auto simp: Let_def bnd_assoc intro!: wt wt [THEN ok_bnd])

lemma console_key_wt [wt]: "typed s \<Longrightarrow> ok typed (console_key c s)"
  unfolding console_key_def by (auto simp: Let_def intro!: wt)

lemma dump_procs_wt [wt]: "typed s \<Longrightarrow> ok typed (dump_procs addr ps s)"
  by (induction ps arbitrary: s) (auto simp: bnd_assoc intro!: wt wt [THEN ok_bnd])

lemma dump_cpus_wt [wt]: "typed s \<Longrightarrow> ok typed (dump_cpus i cs s)"
  by (induction cs arbitrary: i s) (auto simp: Let_def intro!: wt wt [THEN ok_bnd] split: option.split)

lemma dumpps_wt [wt]: "typed s \<Longrightarrow> ok typed (dumpps addr curs s)"
  unfolding dumpps_def by (auto intro!: wt wt [THEN ok_bnd])

lemma freed_mem_kb_wt [wt]: "typed s \<Longrightarrow> ok typed2 (freed_mem_kb s)"
  unfolding freed_mem_kb_def by (auto intro!: wt wt [THEN ok_bnd] split: option.split)

lemma consoleintr_wt [wt]: "typed s \<Longrightarrow> ok typed (consoleintr addr curs c s)"
  unfolding consoleintr_def by (auto simp: bnd_assoc intro!: wt wt [THEN ok_bnd])

lemma uart_getc_wt [simp]: "typed (snd (uart_getc s)) = typed s"
  by (simp add: uart_getc_def split: list.split)

lemma uart_drain_wt [wt]: "typed s \<Longrightarrow> ok typed (uart_drain addr curs cs s)"
proof (induction cs arbitrary: s)
  case (Cons c cs)
  have "typed (snd (uart_getc s))" using Cons.prems by simp
  then show ?case by (cases "uart_getc s") (auto intro!: wt [THEN ok_bnd] Cons.IH)
qed simp

lemma uartintr_wt: "keeps_typed (uartintr addr curs)"
  by (simp add: keeps_typed_def uartintr_def wt)

lemma typed_sys [simp]:
  "typed (s\<lparr>sys_ttbr1 := a1\<rparr>) = typed s" "typed (s\<lparr>sys_timer := a2\<rparr>) = typed s" "typed (s\<lparr>sys_gic := a3\<rparr>) = typed s"
  by (simp_all add: typed_def)

text \<open>The entries the interrupt table has after \<open>main\<close>.\<close>

definition irqs_wt :: "'a kcons_scheme irqs \<Rightarrow> bool" where
  "irqs_wt t \<longleftrightarrow> length t = NIRQ \<and> (\<forall>f\<in>set t. keeps_typed f)"

lemma irq_handlers_wt:
  "keeps_typed default_handler" "keeps_typed (timer_handler frq)" "keeps_typed virtio_blk_intr"
  by (simp_all add: keeps_typed_def default_handler_def timer_handler_def wt)

lemma trap_init_wt: "irqs_wt trap_init"
  by (simp add: irqs_wt_def trap_init_def irq_handlers_wt)

lemma new_irq_wt: "irqs_wt t \<Longrightarrow> keeps_typed h \<Longrightarrow> irqs_wt (new_irq i h t)"
  using set_update_subset_insert [of t i h] by (auto simp: irqs_wt_def new_irq_def)

text \<open>How a handled interrupt is reported to the controller.\<close>

definition irq_done :: "'d bus \<Rightarrow> u32 \<Rightarrow> 'd system \<Rightarrow> 'd system" where
  "irq_done B iar s = s\<lparr>sys_gic := gic_eoi B iar (sys_gic s)\<rparr>"

lemma run_irq_wt [wt]:
  assumes "irqs_wt t" "typed s"
  shows "ok typed (run_irq t iar (irq_done B) s)"
proof -
  have "iar AND 0x3ff < 1024" using and_mask_less' [of 10 iar] by (simp add: mask_eq_decr_exp)
  then have "unat (iar AND 0x3ff) < length t" using assms(1) by (simp add: irqs_wt_def word_less_nat_alt)
  then have "keeps_typed (t ! unat (iar AND 0x3ff))" using assms(1) by (simp add: irqs_wt_def)
  then show ?thesis
    unfolding run_irq_def using assms(2) by (auto simp: irq_done_def intro: ok_bnd [OF keeps_typedD])
qed

lemma kirq_handler_wt [wt]: "irqs_wt t \<Longrightarrow> typed s \<Longrightarrow> ok typed (kirq_handler t iar (irq_done B) s)"
  by (simp add: kirq_handler_def wt)

lemma yield_whole_wt: "keeps_typed w \<Longrightarrow> typed s \<Longrightarrow> ok typed (yield w s)"
  unfolding yield_def by (auto intro!: wt [THEN ok_bnd] ok_bnd [OF keeps_typedD, of w] wt)

lemma uirq_handler_wt [wt]:
  "irqs_wt t \<Longrightarrow> keeps_typed w \<Longrightarrow> typed s \<Longrightarrow> ok typed2 (uirq_handler w t iar (irq_done B) s)"
  unfolding uirq_handler_def by (auto intro!: wt wt [THEN ok_bnd] ok_bnd [OF yield_whole_wt, of w] split: option.split)

section \<open>Boot\<close>

lemma init_pages_wt [wt]: "typed s \<Longrightarrow> ok typed (init_pages n pgt va code sz s)"
  by (induction n arbitrary: va s) (auto intro!: wt wt [THEN ok_bnd])

lemma typed_initproc: "typed s \<Longrightarrow> typed (s\<lparr>initproc := p\<rparr>) \<longleftrightarrow> (\<forall>i. p = Some i \<longrightarrow> i < NPROC)"
  by (simp add: typed_def)

lemma userproc_init_wt [wt]:
  fixes s :: "'a kfile_scheme"
  assumes "typed s"
  shows "ok typed (userproc_init code sz s)"
proof -
  have "i < NPROC" if "scan P (procs t) = Some i" "typed t" for P i and t :: "'a kfile_scheme"
    using scan_SomeD(1) [OF that(1)] that(2) by (simp add: typed_def)
  then have new: "ok (\<lambda>r. typed2 r \<and> (\<forall>i. fst r = Some i \<longrightarrow> i < NPROC)) (newproc s)"
    unfolding newproc_def using assms
    by (auto simp: Let_def intro!: wt [THEN ok_bnd] typed_upd_proc split: option.split)
  show ?thesis
    unfolding userproc_init_def init_userspace_def
    by (auto simp: Let_def tf_set_def typed_initproc intro!: ok_bnd [OF new] wt wt [THEN ok_bnd] typed_upd_proc split: option.split)
qed

lemma free_range_wt:
  fixes s :: "'a kfile_scheme"
  assumes "free_range p e s = Some r" "typed s"
  shows "ok typed r"
proof -
  have "typed s \<longrightarrow> ok typed r"
  proof (rule free_range.raw_induct [of "\<lambda>p e s r. typed s \<longrightarrow> ok typed r", OF _ assms(1)], intro impI)
    fix fr p e and s :: "'a kfile_scheme" and r
    assume IH: "\<And>p e s r. fr p e s = Some r \<Longrightarrow> typed s \<longrightarrow> ok typed r" and s: "typed s"
      and step: "(if p + PAGESIZE \<le> e then case kfree p s of Inl x \<Rightarrow> Some (Inl x) | Inr s \<Rightarrow> fr (p + PAGESIZE) e s
        else Some (Inr s)) = Some r"
    have k: "ok typed (kfree p s)" using s by (rule wt)
    show "ok typed r"
    proof (cases "p + PAGESIZE \<le> e")
      case True
      then show ?thesis using step k IH by (cases "kfree p s") auto
    qed (use step s in auto)
  qed
  then show ?thesis using assms(2) by blast
qed

lemma main_memory_wt [wt]: "typed s \<Longrightarrow> ok typed (main_memory bd s)"
proof -
  have e: "ok typed (ends (free_range p e s))" if "typed s" for p e and s :: "'d system"
    using that free_range_wt [of p e s] by (auto simp: ends_def split: option.split)
  show "typed s \<Longrightarrow> ok typed (main_memory bd s)"
    unfolding main_memory_def kalloc_init1_def kalloc_init2_def kpgt_init_def
    by (auto simp: bnd_assoc lock_init_def set_lock_def pgt_init_def intro!: ok_bnd [OF e] e wt [THEN ok_bnd] wt)
qed

lemma virtio_init_wt [wt]:
  "typed s \<Longrightarrow> irqs_wt irqs \<Longrightarrow> ok (\<lambda>(_, irqs, t). irqs_wt irqs \<and> typed t) (virtio_init B io irqs s)"
  unfolding virtio_init_def virtq_init_def
  by (auto simp: Let_def split_beta bnd_assoc lock_init_def set_lock_def intro!: wt [THEN ok_bnd] new_irq_wt irq_handlers_wt)

lemma console_init_wt:
  "keeps_typed w \<Longrightarrow> typed s \<Longrightarrow> ok (\<lambda>(sw, t). cdevs_wt sw \<and> typed t) (console_init mmu w (replicate NCDEV None) s)"
  unfolding register_console by (simp add: cdevs_console_wt lock_init_def set_lock_def)

lemma main_devices_wt:
  assumes "keeps_typed (bd_world bd)" "typed s"
  shows "ok (\<lambda>(irqs, sw, t). irqs_wt irqs \<and> cdevs_wt sw \<and> typed t) (main_devices bd s)"
  unfolding main_devices_def uart_init_def printk_def printk_init_def
  using assms
  by (auto simp: Let_def lock_init_def set_lock_def bnd_assoc intro!: ok_bnd [OF console_init_wt] wt [THEN ok_bnd] ok_pure [of "gicv3_init_percpu _ _ _"]
      new_irq_wt irq_handlers_wt uartintr_wt trap_init_wt)

lemma tables_init_wt: "typed s \<Longrightarrow> typed (proc_init (file_init (inode_init (buf_init s))))"
  by (simp add: proc_init_def file_init_def inode_init_def buf_init_def lock_init_def set_lock_def typed_def Let_def
      zero_file_def proc_ok_def zero_proc_def)

lemma start_cpus_wt: "typed (start_cpus bd s) = typed s"
  unfolding typed_def start_cpus_frame [OF refl] ..

lemma main_primary_wt:
  assumes "keeps_typed (bd_world bd)" "typed s"
  shows "ok (\<lambda>(irqs, sw, t). irqs_wt irqs \<and> cdevs_wt sw \<and> typed t) (main_primary bd s)"
  unfolding main_primary_def
  by (auto simp: Let_def start_cpus_wt intro!: ok_bnd [OF main_devices_wt [OF assms]] wt [THEN ok_bnd] tables_init_wt)

section \<open>What the kernel does\<close>

text \<open>
  \<open>kstep h B irqs\<close>: one stretch of the kernel. A program traps or is interrupted, at any time and with anything in its registers;
  an interrupt arrives while the scheduler waits; the scheduler takes the table, gives the CPU to a process, gets it back and lets
  go of the table; a process starts. \<open>gone\<close>, whether the process left through \<open>exitproc\<close>, matters to what comes next and not
  to the tables.
\<close>

inductive kstep :: "'d system hw \<Rightarrow> 'd bus \<Rightarrow> 'd system irqs \<Rightarrow> 'd system \<Rightarrow> 'd system \<Rightarrow> bool"
  for h B irqs where
  Trap: "usync_handler h f tf s = Inr (gone, t) \<Longrightarrow> kstep h B irqs s t"
| Interrupt: "uirq_handler (hw_world h) irqs iar (irq_done B) s = Inr (gone, t) \<Longrightarrow> kstep h B irqs s t"
| Idle: "kirq_handler irqs iar (irq_done B) s = Inr t \<Longrightarrow> kstep h B irqs s t"
| Enter: "schedule_enter s = Inr t \<Longrightarrow> kstep h B irqs s t"
| Dispatch: "i < NPROC \<Longrightarrow> p_state (procs s ! i) = RUNNABLE \<Longrightarrow> dispatch i s = Inr t \<Longrightarrow> kstep h B irqs s t"
| Back: "kstep h B irqs s (switch_back s)"
| Leave: "schedule_leave s = Inr t \<Longrightarrow> kstep h B irqs s t"
| Start: "cur s = Some p \<Longrightarrow> schedule_tail p first s = Inr (gone, t) \<Longrightarrow> kstep h B irqs s t"

lemma schedule_tail_wt [wt]: "typed s \<Longrightarrow> ok typed2 (schedule_tail p first s)"
  unfolding schedule_tail_def fs_init_def
  by (auto simp: bnd_assoc intro!: wt wt [THEN ok_bnd] typed_upd_proc simp: proc_ok_def)

lemma ok_at: "ok P r \<Longrightarrow> r = Inr x \<Longrightarrow> P x"
  by (simp add: ok_def)

lemma kstep_wt:
  assumes "keeps_typed (hw_world h)" "cdevs_wt (hw_cdevs h)" "irqs_wt irqs"
  shows "kstep h B irqs s t \<Longrightarrow> typed s \<Longrightarrow> typed t"
proof (induction rule: kstep.induct)
  case (Trap f tf s gone t)
  show ?case using ok_at [OF usync_handler_wt [OF assms(1,2) Trap(2)] Trap(1)] by simp
next
  case (Interrupt iar s gone t)
  show ?case using ok_at [OF uirq_handler_wt [OF assms(3,1) Interrupt(2)] Interrupt(1)] by simp
next
  case (Idle iar s t)
  show ?case by (rule ok_at [OF kirq_handler_wt [OF assms(3) Idle(2)] Idle(1)])
next
  case (Start s p first gone t)
  show ?case using ok_at [OF schedule_tail_wt [OF Start(3)] Start(2)] by simp
qed (blast intro: ok_at schedule_wt dispatch_wt switch_back_wt)+

lemma ksteps_wt:
  assumes "(kstep h B irqs)\<^sup>*\<^sup>* s t" "typed s" "keeps_typed (hw_world h)" "cdevs_wt (hw_cdevs h)" "irqs_wt irqs"
  shows "typed t"
  using assms(1,2) by (induction rule: rtranclp_induct) (auto intro: kstep_wt [OF assms(3-5)])

text \<open>The tables as the loader leaves them: all zero.\<close>

definition bss :: "'a kfile_scheme \<Rightarrow> bool" where
  "bss s \<longleftrightarrow> procs s = replicate NPROC zero_proc \<and> ftable s = replicate NFILE zero_file \<and>
     itable s = replicate NINODE zero_inode \<and> cur s = None \<and> initproc s = None"

lemma bss_typed: "bss s \<Longrightarrow> typed s"
  by (simp add: bss_def typed_def zero_file_def)

text \<open>
  C2. No reference of the kernel ever leaves its table. Whatever the programs do once \<open>main\<close> has brought the kernel up, in
  every state reached every descriptor of every process is empty or names a slot of the file table, every open file and
  every working directory one of the inode table, and every parent, the current process and \<open>init\<close> one of the process table.
\<close>

theorem tables_stay_typed:
  assumes "bss s" "main_primary bd s = Inr (irqs, sw, t)" "keeps_typed (bd_world bd)"
    and "hw_cdevs h = sw" "hw_world h = bd_world bd" "(kstep h (bd_bus bd) irqs)\<^sup>*\<^sup>* t u"
  shows "typed u"
proof -
  have "irqs_wt irqs" "cdevs_wt sw" "typed t"
    using ok_at [OF main_primary_wt [OF assms(3) bss_typed [OF assms(1)]] assms(2)] by simp_all
  then show ?thesis using ksteps_wt [OF assms(6)] assms(3-5) by simp
qed

text \<open>
  On the board of Boot the kernel comes up, the scheduler gives the CPU to the first process, and that process calls \<open>getpid\<close>, the
  call whose number is 0, with its registers as \<open>userproc_init\<close> left them.
\<close>

definition demo_bss :: "u32 system" where
  "demo_bss = demo_start\<lparr>procs := replicate NPROC zero_proc, ftable := replicate NFILE zero_file,
     itable := replicate NINODE zero_inode, cur := None, initproc := None\<rparr>"

definition demo_machine :: "u32 system cdevs \<Rightarrow> u32 system hw" where
  "demo_machine sw = \<lparr>hw_mmu = (\<lambda>_. None), hw_cdevs = sw, hw_world = bd_world demo_board, hw_waddr = (\<lambda>_. 0), hw_stat = 0,
     hw_pad = [0, 0], hw_utsaddr = 0, hw_uts = []\<rparr>"

definition demo_svc :: fault where
  "demo_svc = \<lparr>ft_elr = 0x1004, ft_far = 0, ft_esr = 0x56000000, ft_copyio = 0, ft_paddr = (\<lambda>_. 0)\<rparr>"

lemma schedule_enter_procs: "schedule_enter t = Inr w \<Longrightarrow> procs w = procs t \<and> mem w = mem t"
  by (auto simp: schedule_enter_def acquire_def pushcli_def set_lock_def Let_def split: if_splits)

lemma first_getpid:
  assumes "procs t = (replicate NPROC zero_proc)[0 := first_proc 0 p g sz]" "tf_get (p + 3824) 6 t = 0"
    and "bnd (schedule_enter t) (dispatch 0) = Inr u"
  shows "\<exists>v. usync_handler h demo_svc (p + 3824) u = Inr (False, v) \<and> tf_get (p + 3824) 0 v = 0"
proof -
  have "esr_ec 0x56000000 = 0x15" by code_simp
  moreover obtain w where w: "schedule_enter t = Inr w" "dispatch 0 w = Inr u" using assms(3) by (cases "schedule_enter t") auto
  note schedule_enter_procs [OF w(1)]
  then have u: "procs u = (procs t)[0 := (procs t ! 0)\<lparr>p_state := RUNNING\<rparr>]" "cur u = Some 0" "mem u = mem t"
    using w(2) by (auto simp: dispatch_def load_userspace_def upd_proc_def split: if_splits)
  have p: "p_pid (procs u ! 0) = 0" "p_sig (procs u ! 0) = 0"
    by (simp_all add: u(1) assms(1) first_proc_def zero_proc_def)
  have "tf_get (p + 3824) 6 u = 0" using assms(2) u(3) by (simp add: tf_get_def)
  then have "syscall h (p + 3824) u = Inr (False, tf_set (p + 3824) 0 0 u)"
    using u(2) p by (simp add: syscall_def syscall_table_def sys_getpid_def getpid_def myproc_def int_result_def)
  ultimately show ?thesis
    using u(2) p by (simp add: usync_handler_def demo_svc_def myproc_def tf_set_def sigcheck_exit_def sigcheck_def tf_get_def)
qed

theorem tables_stay_typed_witness:
  "\<exists>irqs sw t tf u v. main_primary demo_board demo_bss = Inr (irqs, sw, t) \<and>
     bnd (schedule_enter t) (dispatch 0) = Inr u \<and> cur u = Some 0 \<and>
     usync_handler (demo_machine sw) demo_svc tf u = Inr (False, v) \<and> tf_get tf 0 v = 0 \<and> typed v"
proof -
  have m: "mem demo_bss = mem booted" "cpuid demo_bss = 0" by (simp_all add: demo_bss_def demo_start_def)
  have b: "bss demo_bss" by (simp add: bss_def demo_bss_def)
  note main = main_primary_spec [of demo_board demo_bss "NOT 0", unfolded demo_board_simps m(2), OF demo_ready [OF m(1)] demo_blk_doc demo_wakes refl]
  obtain irqs sw t p g u where r: "main_primary demo_board demo_bss = Inr (irqs, sw, t)"
      "procs t = (replicate NPROC zero_proc)[0 := first_proc 0 p g 24]"
      "first_space_ok 0xffffff8040003000 24 (mem demo_bss) t p g"
      "bnd (schedule_enter t) (dispatch 0) = Inr u" "cur u = Some 0"
    using main by blast
  have "tf_get (p + 3824) (of_nat 6) t = 0" using r(3) unfolding first_space_ok_def by (elim conjE) (drule spec [of _ 6], simp)
  then obtain v where v: "usync_handler (demo_machine sw) demo_svc (p + 3824) u = Inr (False, v)" "tf_get (p + 3824) 0 v = 0"
    using first_getpid [OF r(2) _ r(4)] by fastforce
  obtain w where w: "schedule_enter t = Inr w" "dispatch 0 w = Inr u" using r(4) by (cases "schedule_enter t") auto
  have "p_state (procs w ! 0) = RUNNABLE" using schedule_enter_procs [OF w(1)] r(2) by (simp add: first_proc_def)
  then have steps: "kstep (demo_machine sw) demo_blk irqs t w" "kstep (demo_machine sw) demo_blk irqs w u"
      "kstep (demo_machine sw) demo_blk irqs u v"
    using w v(1) by (auto intro: kstep.Enter kstep.Dispatch [of 0] kstep.Trap)
  then have "(kstep (demo_machine sw) (bd_bus demo_board) irqs)\<^sup>*\<^sup>* t v"
    unfolding demo_board_simps by (blast intro: rtranclp.rtrancl_into_rtrancl rtranclp.rtrancl_refl)
  moreover have "keeps_typed (bd_world demo_board)" "hw_cdevs (demo_machine sw) = sw" "hw_world (demo_machine sw) = bd_world demo_board"
    by (simp_all add: keeps_typed_def demo_board_def demo_machine_def)
  ultimately have "typed v" using tables_stay_typed [OF b r(1)] by blast
  then show ?thesis using r(1,4,5) v by blast
qed

end
