(* ===== verification/Spec2Isabelle.thy ===== *)
theory Spec2Isabelle
  imports Spinlock_Smp Sched Usbrk Uprog Welltyped
begin

text \<open>
  A verification library for k-mrm/aarch64-os, a small Unix-like kernel for 64-bit ARM in C, with
  a few user programs. The kernel runs on the \<open>virt\<close> machine of QEMU: up to 16 CPUs, 256 MB of memory, one virtio
  disk that holds an ext2 file system with blocks of 1 KiB, a PL011 UART as the console.

  \<^bold>\<open>How the program is put together.\<close> Every part of the kernel serialises its state with spinlocks (kernel/spinlock.c),
  which also keep interrupts off on the CPU that holds one. Pages come from one free list (kernel/kalloc.c); page
  tables (kernel/mm.c) are such pages, and a process (kernel/proc.c) owns a table and the frames it maps. A process that
  needs the disk or the console sleeps on a channel, and the interrupt handler (kernel/driver/virtio.c,
  kernel/console.c) wakes it. Files are layered: descriptors (kernel/file.c) over inodes (kernel/fs.c) over
  ext2 (kernel/ext2.c) over cached blocks (kernel/buf.c) over the disk driver. System calls (kernel/syscall.c) and faults
  (kernel/trap.c) drive all of it from user programs, whose library (usr/ulib.c, usr/malloc.c) sits on the other side.

  \<^bold>\<open>The state.\<close> The kernel's global variables are one record that grows along the layers, one extension per component:
  \<open>mach\<close> (Spinlock: the CPU at hand and all locks) \<open>\<subseteq> kmem\<close> (Kalloc: byte memory, free list) \<open>\<subseteq> kproc\<close> (Proc: process
  table, current process) \<open>\<subseteq> kdisk\<close> (Virtio: queue, device, block data) \<open>\<subseteq> kbuf\<close> (Buf: cache) \<open>\<subseteq> kfs\<close> (Inode: inode
  table, superblock) \<open>\<subseteq> kfile\<close> (File: open files) \<open>\<subseteq> kcons\<close> (Printk: console). An operation of one layer is
  polymorphic in the layers above it, so that its lemmas say by their type that they leave those alone. An operation that
  can stop returns \<open>stop + 'a\<close> (Prelude): a panic, an access the code does not survive, a spin on a lock that nobody
  releases, a loop it never leaves, or a process that exits on the way.

  \<^bold>\<open>Theories and sources.\<close>
    \<^item> Prelude: machine integers of include/kernel.h, \<open>stop\<close>, sequencing \<open>bnd\<close>, the table scan, little-endian bytes.
    \<^item> Kstring: kernel/string.c over byte memory.
    \<^item> Spinlock: kernel/spinlock.c as one CPU sees it; Spinlock_Smp: the same code, one access to the lock word at a time,
      on any number of CPUs, with mutual exclusion and the refinement to the atomic view.
    \<^item> Kalloc: kernel/kalloc.c. The free list lives in the pages; \<open>free_pages\<close> relates it to a list of pages.
    \<^item> Pagetable, Freetable, Mm: kernel/mm.c. \<open>tree\<close>, \<open>aspace\<close>, \<open>uspace\<close> say that the tables form a tree of pages of their
      own, apart from the pool, with leaves to frames of their own; walking, mapping, unmapping, growing, copying and
      freeing an address space.
    \<^item> Proc: kernel/proc.c without files: process creation, exit, wait, sleep, wakeup, sbrk, copyin and copyout;
      Sched: the scheduler on many CPUs as a step relation.
    \<^item> Virtio: kernel/driver/virtio.c, requests as chains of descriptors; Buf: kernel/buf.c.
    \<^item> Ext2_Format: the parts of kernel/ext2.c that work on the bytes of one block; Inode: the table of kernel/fs.c; Ext2,
      Ext2_Rw: the rest of kernel/ext2.c; Ext2_Files: what its operations do to files.
    \<^item> File: kernel/file.c, kernel/cdev.c and the wrappers of kernel/fs.c.
    \<^item> Printk, Console: kernel/printk.c, kernel/console.c and kernel/driver/virt/uart.c.
    \<^item> Procsys: fork, clone, exit, exec, chdir, the ELF loader, uname; Fork: what fork promises.
    \<^item> Trap: kernel/syscall.c, kernel/trap.c and kernel/driver/timer.c.
    \<^item> Kmap: the mappings of \<open>kpgt_init\<close> (kernel/mm.c), with the exact number of tables a mapping takes, and the start of the
      memory: \<open>kalloc_init1\<close>, the direct map, \<open>kalloc_init2\<close>.
    \<^item> Mmio: device registers as a log of accesses with the answers a \<open>bus\<close> gives; Gic: kernel/driver/gicv3.c; Devinit:
      \<open>virtio_init\<close>, \<open>uart_init\<close> and kernel/driver/psci-if.c.
    \<^item> Userproc: \<open>userproc_init\<close> (kernel/proc.c); Boot: kernel/main.c, the initialisation of all parts in its order, over the
      whole record (\<open>system\<close>) and what the board supplies (\<open>board\<close>).
    \<^item> Welltyped: what runs after \<open>main\<close> as a step relation (\<open>kstep\<close>: system calls, faults, interrupts, the scheduler's switches),
      and the references between the tables, which every operation of the kernel keeps in range.
    \<^item> Umalloc: usr/malloc.c; Usbrk: the kernel's \<open>sbrk\<close> against what the allocator takes it for; Ulib: usr/ulib.c and the
      command parser of usr/sh.c; Uprog: the shell, init, cat, ls and other programs as trees of system calls (\<open>prog\<close>), run step by step
      (\<open>does\<close>) or against a function for the kernel (\<open>run\<close>).

  \<^bold>\<open>Interfaces.\<close> A locale states what a client relies on, and the theory of the provider interprets it on the code:
  \<open>lock_contract\<close> (Spinlock, by \<open>acquire\<close> and \<open>release\<close>), \<open>page_pool\<close> (Kalloc, by \<open>kalloc\<close> and \<open>kfree\<close>), \<open>block_cache\<close> (Buf, by
  the read and write of a cached block) and \<open>byte_sink\<close> (Ext2_Files, by the two kinds of memory a file is read into).

  \<^bold>\<open>What the lemmas show.\<close> The invariants (\<open>free_pages\<close>, \<open>uspace\<close>, \<open>queue_ok\<close>, \<open>cache_ready\<close>, the ring of the user heap, one CPU
  per process, \<open>typed\<close>) hold after every operation of their component. The functional theorems say what an operation does on a state
  that satisfies them, and that it returns there. The refinements relate the code to something simpler: the bitmaps to
  sequences of bits, a file to a flat sequence of bytes, the console to a line editor on lists, the kernel's \<open>sbrk\<close> to the user's view,
  the interleaved lock to an atomic one. Theorems with \<open>error\<close> in their manifest entry, and some of the others, show where the code
  does not do what it is there for, on the states where that happens.

  \<^bold>\<open>Bounds and fuel.\<close> A loop over pages is a recursion on their number, which the size fixes (\<open>npages\<close>); \<open>chain_end\<close> follows at
  most as many links as there are descriptors (a longer walk is a circle and never ends, \<open>Runaway\<close>); the interrupt handler's loop runs
  once per used entry; the search in a directory block takes at most one step per byte of the block; \<open>free_table\<close> has the three levels of
  the format as its depth. Loops that end only when the data makes them end are partial functions whose \<open>None\<close> is the loop
  that goes on for ever, and theorems about them show that they return. A block buffer is 1024 bytes; an access behind it, which in C
  goes on into the neighbouring memory, is \<open>Fault\<close> or, where a theorem is about it, a store to the next address.

  \<^bold>\<open>Parameters.\<close> What is not in the repository is an argument: the answers of the disk (\<open>dev\<close>), what other CPUs, processes and
  interrupts do while a process sleeps (\<open>world\<close>), the translation of user addresses in force (\<open>mmu\<close>), what a device register
  reads as after the accesses so far (\<open>bus\<close>), and the addresses the linker chooses (\<open>hw\<close>). The theorems state what they assume of
  them: of the \<open>world\<close>, in Welltyped, that it keeps the tables typed, as every step of the kernel itself is shown to; of
  the kernel as cat sees it, that reads deliver the file piece by piece and writes to the output are taken whole (\<open>file_kernel\<close>); of the bus, that the interrupt controller's distributor reports its lines and its register writes as done (\<open>gicd_doc\<close>), that
  a redistributor wakes up after finitely many polls (\<open>wakes\<close>), and that the register file is that of a version 2 block device (\<open>blk_doc\<close>).

  \<^bold>\<open>Not modelled.\<close> The assembly files (kernel/boot.S, kernel/vectortable.S, kernel/cswitch.S, usr/systable.S, usr/initcode.S): a context switch is the change of the
  current process, the entry to the kernel is the call of the handler. Translation buffers and barriers: the tables in memory are what counts.
  kernel/driver/gicv2.c and kernel/driver/rpi4, which the build leaves out; kernel/font.c, data for a display nobody draws; dump and
  trace output (\<open>kinfo\<close>, \<open>dump_*\<close>). Of the user programs, the tests of threads, heap and faults.
\<close>

end
